(* ===== verification/Hub_Prelude.thy ===== *)
theory Hub_Prelude
  imports
    Main
    "HOL-Library.Word"
    "HOL-Library.Char_ord"
    "HOL-Library.List_Lexorder"
    "HOL-Library.Product_Lexorder"
begin

text \<open>
  Shared vocabulary of the development: the machine integers of the Rust code,
  the collections of rewrite rules the component theories extend, generic list
  lemmas, and the contracts (locales) that several components share.

  Integers that are only counted, compared and added are natural numbers, and the
  Rust operation that guards their width (\<open>checked_add\<close>, \<open>saturating_add\<close>, ...)
  is written out with its bound.  Values whose bits matter (\<open>ReadyReasons\<close>, the
  bytes of a secret) are words.  \<open>usize\<close> is 64 bits wide, as on every target the
  daemon supports.
\<close>

section \<open>Rule collections\<close>

named_theorems hub_simps \<open>functional equations of the components\<close>
named_theorems hub_inv \<open>one preservation lemma per operation\<close>

section \<open>Machine integers\<close>

type_synonym u64 = nat
type_synonym usize = nat

definition u64_max :: nat where
  "u64_max = 18446744073709551615"

definition checked_add :: "nat \<Rightarrow> nat \<Rightarrow> nat option" where
  "checked_add a b = (if a + b \<le> u64_max then Some (a + b) else None)"

definition checked_sub :: "nat \<Rightarrow> nat \<Rightarrow> nat option" where
  "checked_sub a b = (if b \<le> a then Some (a - b) else None)"

definition checked_mul :: "nat \<Rightarrow> nat \<Rightarrow> nat option" where
  "checked_mul a b = (if a * b \<le> u64_max then Some (a * b) else None)"

definition saturating_add :: "nat \<Rightarrow> nat \<Rightarrow> nat" where
  "saturating_add a b = min (a + b) u64_max"

definition saturating_sub :: "nat \<Rightarrow> nat \<Rightarrow> nat" where
  "saturating_sub a b = a - b"

definition wrapping_add :: "nat \<Rightarrow> nat \<Rightarrow> nat" where
  "wrapping_add a b = (a + b) mod 18446744073709551616"

lemma checked_add_Some_iff [simp]:
  "checked_add a b = Some c \<longleftrightarrow> c = a + b \<and> a + b \<le> u64_max"
  by (auto simp: checked_add_def)

lemma checked_add_None_iff [simp]:
  "checked_add a b = None \<longleftrightarrow> u64_max < a + b"
  by (auto simp: checked_add_def)

lemma checked_sub_Some_iff [simp]:
  "checked_sub a b = Some c \<longleftrightarrow> b \<le> a \<and> c = a - b"
  by (auto simp: checked_sub_def)

lemma saturating_add_le: "saturating_add a b \<le> u64_max"
  by (simp add: saturating_add_def)

lemma saturating_add_mono: "a \<le> u64_max \<Longrightarrow> a \<le> saturating_add a b"
  by (simp add: saturating_add_def)

lemma saturating_add_exact: "a + b \<le> u64_max \<Longrightarrow> saturating_add a b = a + b"
  by (simp add: saturating_add_def)

lemma saturating_add_le_iff: "h < u64_max \<Longrightarrow> saturating_add a b \<le> h \<longleftrightarrow> a + b \<le> h"
  by (auto simp: saturating_add_def)

lemma wrapping_add_exact: "a + b \<le> u64_max \<Longrightarrow> wrapping_add a b = a + b"
  by (simp add: wrapping_add_def u64_max_def)

text \<open>
  Evaluation counts naturals up from zero, so the comparisons with the largest machine
  integer are evaluated on the binary integers.
\<close>

definition fits_u64 :: "nat \<Rightarrow> bool" where
  "fits_u64 n \<longleftrightarrow> int n \<le> 18446744073709551615"

lemma fits_u64_iff: "fits_u64 n \<longleftrightarrow> n \<le> u64_max"
  by (simp add: fits_u64_def u64_max_def)

lemma checked_add_code [code]: "checked_add a b = (if fits_u64 (a + b) then Some (a + b) else None)"
  by (simp add: checked_add_def fits_u64_iff)

lemma checked_mul_code [code]: "checked_mul a b = (if fits_u64 (a * b) then Some (a * b) else None)"
  by (simp add: checked_mul_def fits_u64_iff)

lemma saturating_add_code [code]: "saturating_add a b = (if fits_u64 (a + b) then a + b else u64_max)"
  by (simp add: saturating_add_def fits_u64_iff)

lemma wrapping_add_code [code]:
  "wrapping_add a b = (if fits_u64 (a + b) then a + b else (a + b) mod Suc u64_max)"
  by (simp add: wrapping_add_def fits_u64_iff u64_max_def)

section \<open>Lists\<close>

lemma sorted_wrt_less_distinct:
  "sorted_wrt (<) (xs :: 'a :: order list) \<Longrightarrow> distinct xs"
  by (induction xs) auto

lemma distinct_map_fst_in:
  "distinct (map fst xs) \<Longrightarrow> (k, v) \<in> set xs \<Longrightarrow> map_of xs k = Some v"
  by simp

lemma sum_list_update_nat:
  "i < length xs \<Longrightarrow> sum_list (xs[i := (v :: nat)]) + xs ! i = sum_list xs + v"
  by (induction xs arbitrary: i) (auto split: nat.splits)

section \<open>Contracts shared by several components\<close>

subsection \<open>Invariants of transition systems\<close>

text \<open>
  Every component whose operations can come in any order, and every protocol
  between threads, is a transition system: its initial states, its steps and an
  invariant that each step keeps.
\<close>

locale transition_invariant =
  fixes init :: "'s \<Rightarrow> bool"
    and step :: "'s \<Rightarrow> 's \<Rightarrow> bool"
    and inv :: "'s \<Rightarrow> bool"
  assumes inv_init: "init s \<Longrightarrow> inv s"
    and inv_step: "inv s \<Longrightarrow> step s t \<Longrightarrow> inv t"
begin

lemma inv_steps: "step\<^sup>*\<^sup>* s t \<Longrightarrow> inv s \<Longrightarrow> inv t"
  by (induction rule: rtranclp_induct) (auto intro: inv_step)

lemma inv_reachable: "init s \<Longrightarrow> step\<^sup>*\<^sup>* s t \<Longrightarrow> inv t"
  using inv_init inv_steps by blast

end

text \<open>
  Where the operations are functions, a schedule is a list of events and \<open>run_events\<close>
  plays it; an event that is not enabled in its state ends the run.
\<close>

fun run_events :: "('e \<Rightarrow> 's \<Rightarrow> 's option) \<Rightarrow> 'e list \<Rightarrow> 's \<Rightarrow> 's option" where
  "run_events exec [] s = Some s"
| "run_events exec (e # es) s = (case exec e s of None \<Rightarrow> None | Some t \<Rightarrow> run_events exec es t)"

lemma run_events_append:
  "run_events exec (es @ fs) s =
     (case run_events exec es s of None \<Rightarrow> None | Some t \<Rightarrow> run_events exec fs t)"
  by (induction es arbitrary: s) (auto split: option.splits)

text \<open>An invariant that only the events of the schedule have to keep.\<close>

lemma run_events_guarded:
  "run_events exec es s = Some t \<Longrightarrow> P s \<Longrightarrow>
   (\<And>e s t. e \<in> set es \<Longrightarrow> exec e s = Some t \<Longrightarrow> P s \<Longrightarrow> P t) \<Longrightarrow> P t"
proof (induction es arbitrary: s)
  case (Cons e es)
  then obtain u where u: "exec e s = Some u" "run_events exec es u = Some t"
    by (auto split: option.splits)
  moreover have "P u" using Cons.prems u(1) by (meson list.set_intros(1))
  ultimately show ?case using Cons.IH Cons.prems(3) by (meson list.set_intros(2))
qed simp

locale event_invariant =
  fixes exec :: "'e \<Rightarrow> 's \<Rightarrow> 's option"
    and inv :: "'s \<Rightarrow> bool"
  assumes inv_exec: "exec e s = Some t \<Longrightarrow> inv s \<Longrightarrow> inv t"
begin

lemma inv_run: "run_events exec es s = Some t \<Longrightarrow> inv s \<Longrightarrow> inv t"
  by (induction es arbitrary: s) (auto split: option.splits dest: inv_exec)

end

text \<open>
  A schedule of the operations refines a specification when every event is a run of the
  specification's steps between related states.
\<close>

locale forward_simulation =
  fixes exec :: "'e \<Rightarrow> 's \<Rightarrow> 's option"
    and step :: "'a \<Rightarrow> 'a \<Rightarrow> bool"
    and sim :: "'s \<Rightarrow> 'a \<Rightarrow> bool"
  assumes sim_exec: "exec e s = Some t \<Longrightarrow> sim s a \<Longrightarrow> \<exists>b. step\<^sup>*\<^sup>* a b \<and> sim t b"
begin

lemma sim_run: "run_events exec es s = Some t \<Longrightarrow> sim s a \<Longrightarrow> \<exists>b. step\<^sup>*\<^sup>* a b \<and> sim t b"
proof (induction es arbitrary: s a)
  case (Cons e es)
  then obtain u where u: "exec e s = Some u" "run_events exec es u = Some t"
    by (auto split: option.splits)
  from sim_exec [OF u(1) Cons.prems(2)] obtain b where b: "step\<^sup>*\<^sup>* a b" "sim u b" by blast
  from Cons.IH [OF u(2) b(2)] show ?case using b(1) by (meson rtranclp_trans)
qed auto

end

subsection \<open>Sources of fresh identities\<close>

text \<open>
  A source hands out identities; \<open>high\<close> is the largest one it has handed out.
  \<open>draws d n s\<close> asks it \<open>n\<close> times and stops at the first refusal.
\<close>

fun draws :: "('s \<Rightarrow> ('i \<times> 's) option) \<Rightarrow> nat \<Rightarrow> 's \<Rightarrow> 'i list" where
  "draws d 0 s = []"
| "draws d (Suc n) s = (case d s of None \<Rightarrow> [] | Some (i, s') \<Rightarrow> i # draws d n s')"

locale fresh_source =
  fixes draw :: "'s \<Rightarrow> ('i :: linorder \<times> 's) option"
    and high :: "'s \<Rightarrow> 'i"
  assumes draw_fresh: "draw s = Some (i, s') \<Longrightarrow> high s < i \<and> high s' = i"
begin

lemma draws_above: "i \<in> set (draws draw n s) \<Longrightarrow> high s < i"
proof (induction n arbitrary: s)
  case (Suc n)
  show ?case
  proof (cases "draw s")
    case (Some p)
    obtain j s' where p: "p = (j, s')" by (cases p)
    with Some have "high s < j" "high s' = j" using draw_fresh by blast+
    with Some p Suc show ?thesis by (auto dest: less_trans)
  qed (use Suc.prems in simp)
qed simp

lemma draws_increasing: "sorted_wrt (<) (draws draw n s)"
proof (induction n arbitrary: s)
  case (Suc n)
  show ?case
  proof (cases "draw s")
    case (Some p)
    obtain i s' where p: "p = (i, s')" by (cases p)
    with Some have "high s' = i" using draw_fresh by blast
    then have "\<forall>j \<in> set (draws draw n s'). i < j"
      using draws_above by blast
    with Some p Suc.IH show ?thesis by simp
  qed simp
qed simp

lemma draws_distinct: "distinct (draws draw n s)"
  by (rule sorted_wrt_less_distinct [OF draws_increasing])

end

subsection \<open>Operations fenced by an identity\<close>

text \<open>
  A deferred continuation carries the identity it captured.  A fenced operation
  checks that the identity still holds, applies the plain operation then, and
  reports whether it did; otherwise it leaves the state alone.
\<close>

locale fenced_operation =
  fixes holds :: "'s \<Rightarrow> 'i \<Rightarrow> bool"
    and plain :: "'s \<Rightarrow> 's"
    and fenced :: "'i \<Rightarrow> 's \<Rightarrow> bool \<times> 's"
  assumes fenced_holds: "holds s i \<Longrightarrow> fenced i s = (True, plain s)"
    and fenced_stale: "\<not> holds s i \<Longrightarrow> fenced i s = (False, s)"
begin

lemma fenced_reports: "fst (fenced i s) \<longleftrightarrow> holds s i"
  by (cases "holds s i") (simp_all add: fenced_holds fenced_stale)

lemma fenced_stale_untouched: "\<not> fst (fenced i s) \<Longrightarrow> snd (fenced i s) = s"
  by (cases "holds s i") (simp_all add: fenced_holds fenced_stale)

lemma fenced_preserves:
  "P s \<Longrightarrow> (\<And>t. P t \<Longrightarrow> P (plain t)) \<Longrightarrow> P (snd (fenced i s))"
  by (cases "holds s i") (simp_all add: fenced_holds fenced_stale)

end

end
