(* ===== verification/Owner_Identity.thy ===== *)
theory Owner_Identity
  imports Hub_Prelude
begin

text \<open>
  \<open>src/src/owner_identity.rs\<close>: identities for work that leaves the owner thread.  A
  \<open>WaiterIdSource\<close> is one atomic counter that several threads advance with a
  compare-and-exchange loop; it stops before the counter would wrap.  The loop is
  modelled twice: as the atomic operation it implements, and as the interleaving of
  the loads and exchanges of any number of threads.
\<close>

section \<open>Identities\<close>

datatype waiter_id = WaiterId (waiter_raw: u64)

instantiation waiter_id :: linorder
begin

definition less_eq_waiter_id :: "waiter_id \<Rightarrow> waiter_id \<Rightarrow> bool" where
  "less_eq_waiter_id a b \<longleftrightarrow> waiter_raw a \<le> waiter_raw b"

definition less_waiter_id :: "waiter_id \<Rightarrow> waiter_id \<Rightarrow> bool" where
  "less_waiter_id a b \<longleftrightarrow> waiter_raw a < waiter_raw b"

instance
  by intro_classes (auto simp: less_eq_waiter_id_def less_waiter_id_def waiter_id.expand)

end

lemma waiter_id_less [simp]: "WaiterId a < WaiterId b \<longleftrightarrow> a < b"
  by (simp add: less_waiter_id_def)

lemma waiter_id_le [simp]: "WaiterId a \<le> WaiterId b \<longleftrightarrow> a \<le> b"
  by (simp add: less_eq_waiter_id_def)

record owner_work_identity =
  owi_waiter_id :: waiter_id
  owi_phase :: u64

definition owner_work_first :: "waiter_id \<Rightarrow> owner_work_identity" where
  "owner_work_first w = \<lparr>owi_waiter_id = w, owi_phase = 1\<rparr>"

definition owner_work_next_phase :: "owner_work_identity \<Rightarrow> owner_work_identity option" where
  "owner_work_next_phase i =
     (case checked_add (owi_phase i) 1 of
        None \<Rightarrow> None
      | Some p \<Rightarrow> Some \<lparr>owi_waiter_id = owi_waiter_id i, owi_phase = p\<rparr>)"

section \<open>The identity source as one atomic operation\<close>

record waiter_id_source =
  wis_next :: u64

definition waiter_ids_next :: "waiter_id_source \<Rightarrow> (waiter_id \<times> waiter_id_source) option" where
  "waiter_ids_next s =
     (case checked_add (wis_next s) 1 of
        None \<Rightarrow> None
      | Some n \<Rightarrow> Some (WaiterId n, s\<lparr>wis_next := n\<rparr>))"

lemma waiter_ids_next_Some_iff:
  "waiter_ids_next s = Some (w, s') \<longleftrightarrow>
     wis_next s < u64_max \<and> w = WaiterId (wis_next s + 1) \<and> s' = s\<lparr>wis_next := wis_next s + 1\<rparr>"
  by (auto simp: waiter_ids_next_def split: option.splits)

interpretation waiter_source: fresh_source waiter_ids_next "\<lambda>s. WaiterId (wis_next s)"
  by unfold_locales (auto simp: waiter_ids_next_Some_iff)

text \<open>Phases of one waiter are fresh in the same sense.\<close>

interpretation phase_source: fresh_source
  "\<lambda>i. map_option (\<lambda>j. (owi_phase j, j)) (owner_work_next_phase i)" owi_phase
  by unfold_locales (auto simp: owner_work_next_phase_def split: option.splits)

section \<open>The compare-and-exchange loop, interleaved\<close>

text \<open>
  \<open>race_local t\<close> is the value of \<open>current\<close> in thread \<open>t\<close>'s running call of \<open>next\<close>,
  \<open>None\<close> when it runs none; \<open>race_issued\<close> lists what the calls returned, newest
  first.  \<open>compare_exchange_weak\<close> may also fail when the counter holds \<open>current\<close>;
  a failed exchange hands back the value it observed.
\<close>

record 't id_race =
  race_next :: u64
  race_local :: "'t \<Rightarrow> u64 option"
  race_issued :: "('t \<times> waiter_id) list"

definition race_start :: "u64 \<Rightarrow> 't id_race" where
  "race_start n = \<lparr>race_next = n, race_local = (\<lambda>_. None), race_issued = []\<rparr>"

inductive race_step :: "'t id_race \<Rightarrow> 't id_race \<Rightarrow> bool" where
  load: "race_local s t = None \<Longrightarrow>
     race_step s (s\<lparr>race_local := (race_local s)(t \<mapsto> race_next s)\<rparr>)"
| exhausted: "race_local s t = Some c \<Longrightarrow> checked_add c 1 = None \<Longrightarrow>
     race_step s (s\<lparr>race_local := (race_local s)(t := None)\<rparr>)"
| exchanged: "race_local s t = Some c \<Longrightarrow> checked_add c 1 = Some n \<Longrightarrow> race_next s = c \<Longrightarrow>
     race_step s (s\<lparr>race_next := n, race_local := (race_local s)(t := None),
                    race_issued := (t, WaiterId n) # race_issued s\<rparr>)"
| failed: "race_local s t = Some c \<Longrightarrow> checked_add c 1 = Some n \<Longrightarrow>
     race_step s (s\<lparr>race_local := (race_local s)(t \<mapsto> race_next s)\<rparr>)"

definition ids_upto :: "u64 \<Rightarrow> waiter_id list" where
  "ids_upto n = map WaiterId [1 ..< Suc n]"

lemma ids_upto_simps [simp]:
  "ids_upto 0 = []"
  "ids_upto (Suc n) = ids_upto n @ [WaiterId (Suc n)]"
  by (simp_all add: ids_upto_def)

lemma distinct_ids_upto: "distinct (ids_upto n)"
  by (simp add: ids_upto_def distinct_map inj_on_def)

definition race_inv :: "'t id_race \<Rightarrow> bool" where
  "race_inv s \<longleftrightarrow> map snd (rev (race_issued s)) = ids_upto (race_next s) \<and> race_next s \<le> u64_max"

lemma race_inv_step: "race_step s t \<Longrightarrow> race_inv s \<Longrightarrow> race_inv t"
  by (induction rule: race_step.induct) (auto simp: race_inv_def)

text \<open>\<open>WaiterIdSource::default()\<close> starts the counter at 0.\<close>

interpretation id_race: transition_invariant "\<lambda>s. s = race_start 0" race_step race_inv
  by unfold_locales (simp add: race_start_def race_inv_def, rule race_inv_step)

section \<open>Properties\<close>

text \<open>C1. Whatever the interleaving of the threads that draw waiter identities, no
  identity is handed out twice: the issued ones are exactly \<open>1, ..., next\<close>, in the
  order of the successful exchanges, and the counter never leaves the 64-bit range.\<close>

theorem waiter_ids_unique:
  assumes "race_step\<^sup>*\<^sup>* (race_start 0) s"
  shows "distinct (map snd (race_issued s)) \<and>
    map snd (rev (race_issued s)) = ids_upto (race_next s) \<and> race_next s \<le> u64_max"
proof -
  have "race_inv s" using id_race.inv_reachable assms by blast
  then show ?thesis
    unfolding race_inv_def using distinct_ids_upto by (metis distinct_rev rev_map)
qed

text \<open>Two threads load the same value; one exchange fails and its thread goes again.\<close>

lemma race_example:
  "\<exists>s. race_step\<^sup>*\<^sup>* (race_start 0) s \<and> race_issued s = [(False, WaiterId 2), (True, WaiterId 1)]"
proof -
  let ?s0 = "race_start 0 :: bool id_race"
  let ?s1 = "?s0\<lparr>race_local := (race_local ?s0)(True \<mapsto> race_next ?s0)\<rparr>"
  let ?s2 = "?s1\<lparr>race_local := (race_local ?s1)(False \<mapsto> race_next ?s1)\<rparr>"
  let ?s3 = "?s2\<lparr>race_next := 1, race_local := (race_local ?s2)(True := None),
    race_issued := (True, WaiterId 1) # race_issued ?s2\<rparr>"
  let ?s4 = "?s3\<lparr>race_local := (race_local ?s3)(False \<mapsto> race_next ?s3)\<rparr>"
  let ?s5 = "?s4\<lparr>race_next := 2, race_local := (race_local ?s4)(False := None),
    race_issued := (False, WaiterId 2) # race_issued ?s4\<rparr>"
  have "race_step ?s0 ?s1" by (rule race_step.load) (simp add: race_start_def)
  moreover have "race_step ?s1 ?s2" by (rule race_step.load) (simp add: race_start_def)
  moreover have "race_step ?s2 ?s3"
    by (rule race_step.exchanged [where c = 0]) (simp_all add: race_start_def u64_max_def)
  moreover have "race_step ?s3 ?s4"
    by (rule race_step.failed [where c = 0 and n = 1]) (simp_all add: race_start_def u64_max_def)
  moreover have "race_step ?s4 ?s5"
    by (rule race_step.exchanged [where c = 1]) (simp_all add: race_start_def u64_max_def)
  ultimately have "race_step\<^sup>*\<^sup>* ?s0 ?s5"
    by (meson converse_rtranclp_into_rtranclp rtranclp.rtrancl_refl)
  then show ?thesis by (intro exI [of _ ?s5]) (simp add: race_start_def)
qed

theorem waiter_ids_unique_witness:
  "\<exists>s. race_step\<^sup>*\<^sup>* (race_start 0 :: bool id_race) s \<and>
     race_issued s = [(False, WaiterId 2), (True, WaiterId 1)] \<and>
     distinct (map snd (race_issued s))"
  using race_example waiter_ids_unique by blast

end
