(* ===== verification/Ordered_Map.thy ===== *)
theory Ordered_Map
  imports Hub_Prelude
begin

text \<open>
  \<open>std::collections::BTreeMap\<close> and \<open>BTreeSet\<close> as the code uses them: the entries in
  strictly increasing key order, so that \<open>first\<close>, \<open>iter\<close>, \<open>range\<close> with an exclusive
  lower bound and \<open>len\<close> compute.  The equations for lookups after an update hold for
  every list; \<open>om_ok\<close> and \<open>os_ok\<close> say that the keys are strictly increasing.
  Rust compares strings bytewise and tuples lexicographically, which are the orders
  of \<open>Char_ord\<close>, \<open>List_Lexorder\<close> and \<open>Product_Lexorder\<close>.
\<close>

section \<open>Ordered maps\<close>

type_synonym ('k, 'v) omap = "('k \<times> 'v) list"

abbreviation om_get :: "('k, 'v) omap \<Rightarrow> 'k \<Rightarrow> 'v option" where
  "om_get m k \<equiv> map_of m k"

abbreviation om_keys :: "('k, 'v) omap \<Rightarrow> 'k list" where
  "om_keys m \<equiv> map fst m"

abbreviation om_values :: "('k, 'v) omap \<Rightarrow> 'v list" where
  "om_values m \<equiv> map snd m"

definition om_ok :: "('k :: linorder, 'v) omap \<Rightarrow> bool" where
  "om_ok m \<longleftrightarrow> sorted_wrt (<) (om_keys m)"

fun om_insert :: "'k :: linorder \<Rightarrow> 'v \<Rightarrow> ('k, 'v) omap \<Rightarrow> ('k, 'v) omap" where
  "om_insert k v [] = [(k, v)]"
| "om_insert k v (e # m) =
     (if k = fst e then (k, v) # m
      else if k < fst e then (k, v) # e # m
      else e # om_insert k v m)"

definition om_remove :: "'k \<Rightarrow> ('k, 'v) omap \<Rightarrow> ('k, 'v) omap" where
  "om_remove k m = filter (\<lambda>e. fst e \<noteq> k) m"

text \<open>\<open>get_mut\<close> followed by a write: only the entry at the key changes.\<close>

definition om_modify :: "'k \<Rightarrow> ('v \<Rightarrow> 'v) \<Rightarrow> ('k, 'v) omap \<Rightarrow> ('k, 'v) omap" where
  "om_modify k f m = map (\<lambda>e. if fst e = k then (k, f (snd e)) else e) m"

definition om_retain :: "('k \<Rightarrow> 'v \<Rightarrow> bool) \<Rightarrow> ('k, 'v) omap \<Rightarrow> ('k, 'v) omap" where
  "om_retain P m = filter (\<lambda>e. P (fst e) (snd e)) m"

definition om_contains :: "('k, 'v) omap \<Rightarrow> 'k \<Rightarrow> bool" where
  "om_contains m k \<longleftrightarrow> om_get m k \<noteq> None"

text \<open>\<open>range((Excluded(k), Unbounded))\<close>, and the whole map for no cursor.\<close>

definition om_after :: "'k :: linorder option \<Rightarrow> ('k, 'v) omap \<Rightarrow> ('k, 'v) omap" where
  "om_after c m = (case c of None \<Rightarrow> m | Some k \<Rightarrow> filter (\<lambda>e. k < fst e) m)"

definition om_next :: "('k :: linorder, 'v) omap \<Rightarrow> 'k option \<Rightarrow> 'k option" where
  "om_next m c = (case om_after c m of [] \<Rightarrow> None | e # _ \<Rightarrow> Some (fst e))"

lemma om_get_insert [simp]: "map_of (om_insert k v m) = (map_of m)(k \<mapsto> v)"
  by (induction m) (auto simp: fun_eq_iff)

lemma om_get_remove [simp]: "map_of (om_remove k m) = (map_of m)(k := None)"
  by (induction m) (auto simp: om_remove_def fun_eq_iff)

lemma om_get_modify [simp]:
  "map_of (om_modify k f m) = (map_of m)(k := map_option f (map_of m k))"
  by (induction m) (auto simp: om_modify_def fun_eq_iff)

lemma om_contains_iff: "om_contains m k \<longleftrightarrow> k \<in> set (om_keys m)"
  by (force simp: om_contains_def map_of_eq_None_iff)

lemma om_get_Some_key: "om_get m k = Some v \<Longrightarrow> k \<in> set (om_keys m)"
  by (force dest: map_of_SomeD)

lemma om_get_retain:
  "om_ok m \<Longrightarrow> map_of (om_retain P m) k =
     (case map_of m k of None \<Rightarrow> None | Some v \<Rightarrow> if P k v then Some v else None)"
proof (induction m)
  case (Cons e m)
  then have "om_ok m" and nin: "fst e \<notin> set (om_keys m)"
    by (auto simp: om_ok_def)
  with Cons show ?case
    by (cases e) (auto simp: om_retain_def map_of_eq_None_iff split: option.splits)
qed (simp add: om_retain_def)

lemma om_keys_insert: "set (om_keys (om_insert k v m)) = insert k (set (om_keys m))"
  by (induction m) auto

lemma om_keys_remove: "set (om_keys (om_remove k m)) = set (om_keys m) - {k}"
  by (auto simp: om_remove_def)

lemma om_keys_modify [simp]: "om_keys (om_modify k f m) = om_keys m"
  by (simp add: om_modify_def comp_def)

lemma om_ok_Nil [simp]: "om_ok []"
  by (simp add: om_ok_def)

lemma om_ok_Cons: "om_ok (e # m) \<longleftrightarrow> (\<forall>x \<in> set (om_keys m). fst e < x) \<and> om_ok m"
  by (simp add: om_ok_def)

lemma om_ok_insert [simp]: "om_ok m \<Longrightarrow> om_ok (om_insert k v m)"
  by (induction m) (auto simp: om_ok_Cons om_keys_insert [unfolded set_map])

lemma om_ok_remove [simp]: "om_ok m \<Longrightarrow> om_ok (om_remove k m)"
  by (induction m) (auto simp: om_ok_Cons om_remove_def)

lemma om_ok_modify [simp]: "om_ok m \<Longrightarrow> om_ok (om_modify k f m)"
  by (simp add: om_ok_def)

lemma om_ok_retain [simp]: "om_ok m \<Longrightarrow> om_ok (om_retain P m)"
  by (induction m) (auto simp: om_ok_Cons om_retain_def)

lemma om_ok_after: "om_ok m \<Longrightarrow> om_ok (om_after c m)"
  by (induction m) (auto simp: om_ok_Cons om_after_def split: option.splits)

lemma om_ok_distinct: "om_ok m \<Longrightarrow> distinct (om_keys m)"
  by (simp add: om_ok_def sorted_wrt_less_distinct)

lemma om_in_set_iff: "om_ok m \<Longrightarrow> (k, v) \<in> set m \<longleftrightarrow> om_get m k = Some v"
  using om_ok_distinct [of m] by (auto dest: map_of_SomeD)

lemma om_remove_absent: "om_get m k = None \<Longrightarrow> om_remove k m = m"
  by (force simp: om_remove_def map_of_eq_None_iff filter_id_conv)

lemma om_length_insert_absent: "om_get m k = None \<Longrightarrow> length (om_insert k v m) = Suc (length m)"
  by (induction m) (auto split: if_splits)

lemma om_length_insert_present:
  "om_ok m \<Longrightarrow> om_get m k = Some w \<Longrightarrow> length (om_insert k v m) = length m"
proof (induction m)
  case (Cons e m)
  then have "\<not> k < fst e"
    by (auto simp: om_ok_Cons split: if_splits dest!: map_of_SomeD)
  with Cons show ?case by (auto simp: om_ok_Cons split: if_splits)
qed simp

lemma om_length_insert_le: "length (om_insert k v m) \<le> Suc (length m)"
  by (induction m) auto

lemma om_length_remove_present:
  "om_ok m \<Longrightarrow> om_get m k = Some w \<Longrightarrow> Suc (length (om_remove k m)) = length m"
proof (induction m)
  case (Cons e m)
  show ?case
  proof (cases "fst e = k")
    case True
    with Cons.prems have "om_get m k = None"
      by (auto simp: om_ok_Cons map_of_eq_None_iff)
    with True show ?thesis
      using om_remove_absent [of m k] by (simp add: om_remove_def)
  next
    case False
    with Cons show ?thesis by (auto simp: om_ok_Cons om_remove_def)
  qed
qed simp

lemma om_length_remove_le: "length (om_remove k m) \<le> length m"
  by (simp add: om_remove_def)

lemma om_length_modify [simp]: "length (om_modify k f m) = length m"
  by (simp add: om_modify_def)

text \<open>Two ordered maps with the same lookups are the same map.\<close>

lemma om_as_keys: "om_ok m \<Longrightarrow> m = map (\<lambda>k. (k, the (om_get m k))) (om_keys m)"
  using om_ok_distinct [of m] by (auto simp: comp_def intro!: map_idI [symmetric])

lemma om_eqI:
  assumes m: "om_ok m" and n: "om_ok n" and eq: "\<And>k. om_get m k = om_get n k"
  shows "m = n"
proof -
  have "set (om_keys m) = set (om_keys n)"
    using eq by (metis map_of_eq_None_iff set_map subsetI subset_antisym)
  with m n have "om_keys m = om_keys n"
    unfolding om_ok_def by (intro strict_sorted_equal) simp_all
  moreover have "map_of m = map_of n" using eq by (rule ext)
  ultimately show ?thesis
    using om_as_keys [OF m] om_as_keys [OF n] by simp
qed

text \<open>Sums of a field over an ordered map, after an insertion, a replacement and a removal.\<close>

lemma sum_om_insert_absent:
  "om_get m k = None \<Longrightarrow> sum_list (map (\<lambda>e. f (snd e)) (om_insert k v m)) = f v + sum_list (map (\<lambda>e. (f (snd e) :: nat)) m)"
  by (induction m) (auto split: if_splits)

lemma sum_om_remove:
  "om_ok m \<Longrightarrow> om_get m k = Some v \<Longrightarrow>
     sum_list (map (\<lambda>e. f (snd e)) (om_remove k m)) + f v = sum_list (map (\<lambda>e. (f (snd e) :: nat)) m)"
proof (induction m)
  case (Cons e m)
  show ?case
  proof (cases "fst e = k")
    case True
    with Cons.prems have "om_get m k = None" by (auto simp: om_ok_Cons map_of_eq_None_iff)
    with True Cons.prems show ?thesis
      using om_remove_absent [of m k] by (cases e) (simp add: om_remove_def)
  next
    case False
    with Cons show ?thesis by (auto simp: om_ok_Cons om_remove_def)
  qed
qed simp

lemma sum_om_insert_present:
  assumes ok: "om_ok m" and k: "om_get m k = Some v"
  shows "sum_list (map (\<lambda>e. f (snd e)) (om_insert k w m)) + f v = f w + sum_list (map (\<lambda>e. (f (snd e) :: nat)) m)"
proof -
  have "om_insert k w m = om_insert k w (om_remove k m)"
    using ok by (intro om_eqI) (auto simp: fun_eq_iff)
  then show ?thesis
    using sum_om_insert_absent [of "om_remove k m" k f w] sum_om_remove [OF ok k, of f] by simp
qed

section \<open>Ordered sets\<close>

type_synonym 'k oset = "'k list"

definition os_ok :: "'k :: linorder oset \<Rightarrow> bool" where
  "os_ok s \<longleftrightarrow> sorted_wrt (<) s"

fun os_insert :: "'k :: linorder \<Rightarrow> 'k oset \<Rightarrow> 'k oset" where
  "os_insert k [] = [k]"
| "os_insert k (x # s) = (if k = x then x # s else if k < x then k # x # s else x # os_insert k s)"

definition os_remove :: "'k \<Rightarrow> 'k oset \<Rightarrow> 'k oset" where
  "os_remove k s = filter (\<lambda>x. x \<noteq> k) s"

definition os_first :: "'k oset \<Rightarrow> 'k option" where
  "os_first s = (case s of [] \<Rightarrow> None | x # _ \<Rightarrow> Some x)"

lemma os_first_simps [simp]: "os_first [] = None" "os_first (x # s) = Some x"
  by (simp_all add: os_first_def)

lemma set_os_insert [simp]: "set (os_insert k s) = insert k (set s)"
  by (induction s) auto

lemma set_os_remove [simp]: "set (os_remove k s) = set s - {k}"
  by (auto simp: os_remove_def)

lemma os_ok_Nil [simp]: "os_ok []"
  by (simp add: os_ok_def)

lemma os_ok_Cons: "os_ok (x # s) \<longleftrightarrow> (\<forall>y \<in> set s. x < y) \<and> os_ok s"
  by (simp add: os_ok_def)

lemma os_ok_insert [simp]: "os_ok s \<Longrightarrow> os_ok (os_insert k s)"
  by (induction s) (auto simp: os_ok_Cons)

lemma os_ok_remove [simp]: "os_ok s \<Longrightarrow> os_ok (os_remove k s)"
  by (induction s) (auto simp: os_ok_Cons os_remove_def)

lemma os_ok_distinct: "os_ok s \<Longrightarrow> distinct s"
  by (simp add: os_ok_def sorted_wrt_less_distinct)

lemma os_first_least: "os_ok s \<Longrightarrow> os_first s = Some x \<Longrightarrow> y \<in> set s \<Longrightarrow> x \<le> y"
  by (cases s) (auto simp: os_first_def os_ok_Cons)

lemma os_first_in: "os_first s = Some x \<Longrightarrow> x \<in> set s"
  by (cases s) (auto simp: os_first_def)

lemma os_first_None [simp]: "os_first s = None \<longleftrightarrow> s = []"
  by (cases s) (auto simp: os_first_def)

lemma os_length_insert_le: "length (os_insert k s) \<le> Suc (length s)"
  by (induction s) auto

lemma os_length_insert_absent: "k \<notin> set s \<Longrightarrow> length (os_insert k s) = Suc (length s)"
  by (induction s) auto

lemma os_insert_present: "os_ok s \<Longrightarrow> k \<in> set s \<Longrightarrow> os_insert k s = s"
  by (induction s) (auto simp: os_ok_Cons)

lemma os_length_remove_present:
  "os_ok s \<Longrightarrow> k \<in> set s \<Longrightarrow> Suc (length (os_remove k s)) = length s"
proof (induction s)
  case (Cons x s)
  show ?case
  proof (cases "x = k")
    case True
    with Cons.prems have "k \<notin> set s" by (auto simp: os_ok_Cons)
    then have "filter (\<lambda>x. x \<noteq> k) s = s" by (auto simp: filter_id_conv)
    with True show ?thesis by (simp add: os_remove_def)
  next
    case False
    with Cons show ?thesis by (auto simp: os_ok_Cons os_remove_def)
  qed
qed simp

lemma os_remove_hd: "os_ok (x # s) \<Longrightarrow> os_remove x (x # s) = s"
  by (auto simp: os_remove_def os_ok_Cons filter_id_conv)

section \<open>The contract of an ordered container and of a cursor over it\<close>

text \<open>
  What the components rely on: a lookup after each update, and that every update
  keeps the key order.
\<close>

locale ordered_store =
  fixes ok :: "'m \<Rightarrow> bool"
    and get :: "'m \<Rightarrow> 'k :: linorder \<Rightarrow> 'v option"
    and insert :: "'k \<Rightarrow> 'v \<Rightarrow> 'm \<Rightarrow> 'm"
    and remove :: "'k \<Rightarrow> 'm \<Rightarrow> 'm"
    and size_of :: "'m \<Rightarrow> nat"
  assumes ok_insert: "ok m \<Longrightarrow> ok (insert k v m)"
    and ok_remove: "ok m \<Longrightarrow> ok (remove k m)"
    and get_insert: "ok m \<Longrightarrow> get (insert k v m) = (get m)(k \<mapsto> v)"
    and get_remove: "ok m \<Longrightarrow> get (remove k m) = (get m)(k := None)"
    and ext: "ok m \<Longrightarrow> ok n \<Longrightarrow> get m = get n \<Longrightarrow> m = n"
    and size_insert_absent: "ok m \<Longrightarrow> get m k = None \<Longrightarrow> size_of (insert k v m) = Suc (size_of m)"
begin

lemma insert_insert: "ok m \<Longrightarrow> insert k v (insert k w m) = insert k v m"
  by (rule ext) (auto simp: ok_insert get_insert fun_eq_iff)

lemma remove_insert_absent: "ok m \<Longrightarrow> get m k = None \<Longrightarrow> remove k (insert k v m) = m"
  by (rule ext) (auto simp: ok_insert ok_remove get_insert get_remove fun_eq_iff)

lemma remove_absent: "ok m \<Longrightarrow> get m k = None \<Longrightarrow> remove k m = m"
  by (rule ext) (auto simp: ok_remove get_remove fun_eq_iff)

lemma remove_idem: "ok m \<Longrightarrow> remove k (remove k m) = remove k m"
  by (rule ext) (auto simp: ok_remove get_remove fun_eq_iff)

lemma insert_commute: "ok m \<Longrightarrow> k \<noteq> l \<Longrightarrow> insert k v (insert l w m) = insert l w (insert k v m)"
  by (rule ext) (auto simp: ok_insert get_insert fun_eq_iff)

lemma size_remove_present: "ok m \<Longrightarrow> get m k = Some v \<Longrightarrow> Suc (size_of (remove k m)) = size_of m"
proof -
  assume m: "ok m" "get m k = Some v"
  have "insert k v (remove k m) = m"
    by (rule ext) (use m in \<open>auto simp: ok_insert ok_remove get_insert get_remove fun_eq_iff\<close>)
  moreover have "size_of (insert k v (remove k m)) = Suc (size_of (remove k m))"
    by (rule size_insert_absent) (simp_all add: m(1) ok_remove get_remove)
  ultimately show ?thesis by simp
qed

end

interpretation om: ordered_store
  "om_ok :: ('k :: linorder, 'v) omap \<Rightarrow> bool" map_of om_insert om_remove length
proof
  fix m n :: "('k, 'v) omap"
  show "om_ok m \<Longrightarrow> om_ok n \<Longrightarrow> map_of m = map_of n \<Longrightarrow> m = n"
    by (rule om_eqI) simp_all
qed (simp_all add: om_length_insert_absent)

text \<open>
  A cursor asks for the least key strictly after the last one it saw.  \<open>sweep\<close>
  follows it for at most \<open>n\<close> steps.
\<close>

fun sweep :: "nat \<Rightarrow> ('k option \<Rightarrow> 'k option) \<Rightarrow> 'k option \<Rightarrow> 'k list" where
  "sweep 0 nx c = []"
| "sweep (Suc n) nx c = (case nx c of None \<Rightarrow> [] | Some k \<Rightarrow> k # sweep n nx (Some k))"

definition beyond :: "'k :: linorder option \<Rightarrow> 'k set \<Rightarrow> 'k set" where
  "beyond c K = (case c of None \<Rightarrow> K | Some a \<Rightarrow> {k \<in> K. a < k})"

locale key_cursor =
  fixes ok :: "'m \<Rightarrow> bool"
    and nx :: "'m \<Rightarrow> 'k :: linorder option \<Rightarrow> 'k option"
    and keys :: "'m \<Rightarrow> 'k set"
  assumes finite_keys: "finite (keys m)"
    and nx_None: "ok m \<Longrightarrow> nx m c = None \<Longrightarrow> beyond c (keys m) = {}"
    and nx_Some: "ok m \<Longrightarrow> nx m c = Some k \<Longrightarrow>
      k \<in> beyond c (keys m) \<and> (\<forall>l \<in> beyond c (keys m). k \<le> l)"
begin

lemma beyond_next: "ok m \<Longrightarrow> nx m c = Some k \<Longrightarrow> beyond (Some k) (keys m) = beyond c (keys m) - {k}"
  using nx_Some [of m c k] by (fastforce simp: beyond_def split: option.splits)

lemma finite_beyond: "finite (beyond c (keys m))"
  using finite_keys by (simp add: beyond_def split: option.splits)

text \<open>The sweep visits every remaining key once, in order, and then stops.\<close>

lemma sweep_visits:
  assumes ok: "ok m"
  shows "card (beyond c (keys m)) \<le> n \<Longrightarrow> sweep n (nx m) c = sorted_list_of_set (beyond c (keys m))"
proof (induction n arbitrary: c)
  case 0
  with finite_beyond show ?case by simp
next
  case (Suc n)
  show ?case
  proof (cases "nx m c")
    case None
    with nx_None [OF ok] show ?thesis by simp
  next
    case (Some k)
    note min = nx_Some [OF ok Some]
    have "sweep n (nx m) (Some k) = sorted_list_of_set (beyond c (keys m) - {k})"
      using Suc min finite_beyond by (subst Suc.IH) (simp_all add: beyond_next [OF ok Some])
    moreover have "k = Min (beyond c (keys m))" and "beyond c (keys m) \<noteq> {}"
      using min finite_beyond by (auto intro: Min_eqI [symmetric])
    ultimately show ?thesis
      using Some sorted_list_of_set_nonempty [OF finite_beyond, of c m] by simp
  qed
qed

end

interpretation om_cursor: key_cursor
  "om_ok :: ('k :: linorder, 'v) omap \<Rightarrow> bool" om_next "\<lambda>m. set (om_keys m)"
proof
  fix m :: "('k, 'v) omap" and c :: "'k option"
  show "finite (set (om_keys m))" by simp
  assume ok: "om_ok m"
  have keys: "set (om_keys (om_after c m)) = beyond c (set (om_keys m))"
    by (auto simp: om_after_def beyond_def split: option.splits)
  show "om_next m c = None \<Longrightarrow> beyond c (set (om_keys m)) = {}"
    using keys by (auto simp: om_next_def split: list.splits)
  fix k
  assume "om_next m c = Some k"
  then obtain e r where "om_after c m = e # r" "fst e = k"
    by (auto simp: om_next_def split: list.splits)
  with om_ok_after [OF ok, of c]
  show "k \<in> beyond c (set (om_keys m)) \<and> (\<forall>l\<in>beyond c (set (om_keys m)). k \<le> l)"
    unfolding keys [symmetric] by (auto simp: om_ok_Cons less_imp_le)
qed

lemma om_sweep:
  assumes "om_ok m"
  shows "sweep (length m) (om_next m) None = om_keys m"
proof -
  have "card (beyond None (set (om_keys m))) \<le> length m"
    using card_length [of "om_keys m"] by (simp add: beyond_def)
  then have "sweep (length m) (om_next m) None = sorted_list_of_set (set (om_keys m))"
    using om_cursor.sweep_visits [OF assms, of None] by (simp add: beyond_def)
  moreover have "sorted_list_of_set (set (om_keys m)) = om_keys m"
    using assms unfolding om_ok_def strict_sorted_iff
    by (intro sorted_list_of_set.idem_if_sorted_distinct) simp_all
  ultimately show ?thesis by simp
qed

section \<open>Ordered maps of ordered sets\<close>

text \<open>
  \<open>BTreeMap<K, BTreeSet<V>>\<close> as the code keeps it: \<open>entry(k).or_default().insert(v)\<close>, and a
  removal that drops the entry of a set it empties.
\<close>

type_synonym ('k, 'v) ommap = "('k, 'v oset) omap"

definition mm_get :: "('k, 'v) ommap \<Rightarrow> 'k \<Rightarrow> 'v oset" where
  "mm_get m k = (case om_get m k of None \<Rightarrow> [] | Some s \<Rightarrow> s)"

definition mm_insert :: "'k :: linorder \<Rightarrow> 'v :: linorder \<Rightarrow> ('k, 'v) ommap \<Rightarrow> ('k, 'v) ommap" where
  "mm_insert k v m = om_insert k (os_insert v (mm_get m k)) m"

definition mm_retain :: "'k :: linorder \<Rightarrow> ('v \<Rightarrow> bool) \<Rightarrow> ('k, 'v) ommap \<Rightarrow> ('k, 'v) ommap" where
  "mm_retain k P m =
     (case om_get m k of
        None \<Rightarrow> m
      | Some s \<Rightarrow> let t = filter P s in if t = [] then om_remove k m else om_insert k t m)"

definition mm_remove :: "'k :: linorder \<Rightarrow> 'v \<Rightarrow> ('k, 'v) ommap \<Rightarrow> ('k, 'v) ommap" where
  "mm_remove k v m = mm_retain k (\<lambda>w. w \<noteq> v) m"

definition mm_ok :: "('k :: linorder, 'v :: linorder) ommap \<Rightarrow> bool" where
  "mm_ok m \<longleftrightarrow> om_ok m \<and> (\<forall>k s. om_get m k = Some s \<longrightarrow> os_ok s \<and> s \<noteq> [])"

lemma os_ok_filter: "os_ok s \<Longrightarrow> os_ok (filter P s)"
  by (induction s) (auto simp: os_ok_Cons)

lemma mm_ok_Nil [simp]: "mm_ok []"
  by (simp add: mm_ok_def)

lemma mm_ok_get: "mm_ok m \<Longrightarrow> os_ok (mm_get m k)"
  by (simp add: mm_ok_def mm_get_def split: option.splits)

lemma mm_ok_insert [simp]: "mm_ok m \<Longrightarrow> mm_ok (mm_insert k v m)"
proof -
  assume m: "mm_ok m"
  have "os_insert v (mm_get m k) \<noteq> []" by (cases "mm_get m k") auto
  with m mm_ok_get [OF m, of k] show ?thesis by (auto simp: mm_ok_def mm_insert_def)
qed

lemma mm_ok_retain [simp]: "mm_ok m \<Longrightarrow> mm_ok (mm_retain k P m)"
  by (auto simp: mm_ok_def mm_retain_def Let_def os_ok_filter split: option.splits)

lemma mm_ok_remove [simp]: "mm_ok m \<Longrightarrow> mm_ok (mm_remove k v m)"
  by (simp add: mm_remove_def)

lemma mm_ok_drop [simp]: "mm_ok m \<Longrightarrow> mm_ok (om_remove k m)"
  by (simp add: mm_ok_def)

lemma set_mm_insert: "set (mm_get (mm_insert k v m) j) = (if j = k then insert v (set (mm_get m k)) else set (mm_get m j))"
  by (auto simp: mm_get_def mm_insert_def split: option.splits)

lemma mm_get_retain: "mm_get (mm_retain k P m) j = (if j = k then filter P (mm_get m k) else mm_get m j)"
  by (auto simp: mm_get_def mm_retain_def Let_def split: option.splits)

lemma mm_get_remove: "mm_get (mm_remove k v m) j = (if j = k then os_remove v (mm_get m k) else mm_get m j)"
  by (simp add: mm_remove_def mm_get_retain os_remove_def)

lemma mm_get_drop: "mm_get (om_remove k m) j = (if j = k then [] else mm_get m j)"
  by (simp add: mm_get_def)

end
