(* ===== verification/Ready_Queues.thy ===== *)
theory Ready_Queues
  imports Owner_Identity Ordered_Map
begin

text \<open>
  \<open>ReadyQueues\<close> of \<open>src/src/daemon/owner_schedule.rs\<close>: the owner thread's run queue.
  There is one first-in first-out set per work class and one row per queued waiter;
  a persistent cursor rotates over the fifteen classes.
\<close>

unbundle bit_operations_syntax

section \<open>Data\<close>

datatype ready_class =
    ControlIngress | Cleanup | CoreCompletion | HostCompletion | PluginCompletion
  | Deadline | Observe | InventoryReconcile | JournalPull | ProjectionApply
  | Baseline | HostBridge | SubscriberDelivery | ProviderResync | PackageEventDelivery

definition ready_class_all :: "ready_class list" where
  "ready_class_all =
     [ControlIngress, Cleanup, CoreCompletion, HostCompletion, PluginCompletion,
      Deadline, Observe, InventoryReconcile, JournalPull, ProjectionApply,
      Baseline, HostBridge, SubscriberDelivery, ProviderResync, PackageEventDelivery]"

fun ready_class_index :: "ready_class \<Rightarrow> usize" where
  "ready_class_index ControlIngress = 0"
| "ready_class_index Cleanup = 1"
| "ready_class_index CoreCompletion = 2"
| "ready_class_index HostCompletion = 3"
| "ready_class_index PluginCompletion = 4"
| "ready_class_index Deadline = 5"
| "ready_class_index Observe = 6"
| "ready_class_index InventoryReconcile = 7"
| "ready_class_index JournalPull = 8"
| "ready_class_index ProjectionApply = 9"
| "ready_class_index Baseline = 10"
| "ready_class_index HostBridge = 11"
| "ready_class_index SubscriberDelivery = 12"
| "ready_class_index ProviderResync = 13"
| "ready_class_index PackageEventDelivery = 14"

abbreviation n_classes :: nat where
  "n_classes \<equiv> 15"

text \<open>\<open>ReadyReasons(u64)\<close> is a bit set.\<close>

type_synonym ready_reasons = "64 word"

definition reasons_contains :: "ready_reasons \<Rightarrow> ready_reasons \<Rightarrow> bool" where
  "reasons_contains a b \<longleftrightarrow> a AND b = b"

definition reasons_insert :: "ready_reasons \<Rightarrow> ready_reasons \<Rightarrow> ready_reasons" where
  "reasons_insert a b = a OR b"

record ready_key =
  rk_class :: ready_class
  rk_enqueue_serial :: u64
  rk_waiter_id :: waiter_id

text \<open>\<open>QueuedReady\<close> and \<open>ReadyItem\<close> have the same two fields.\<close>

record ready_item =
  ri_key :: ready_key
  ri_reasons :: ready_reasons

datatype ready_error = EnqueueSerialExhausted

record ready_queues =
  rq_queues :: "(u64 \<times> waiter_id) oset list"
  rq_queued :: "(waiter_id, ready_item) omap"
  rq_next_enqueue_serial :: u64
  rq_next_class :: usize

section \<open>Operations\<close>

definition ready_queues_new :: ready_queues where
  "ready_queues_new =
     \<lparr>rq_queues = replicate n_classes [], rq_queued = [], rq_next_enqueue_serial = 0, rq_next_class = 0\<rparr>"

definition rq_mark ::
  "waiter_id \<Rightarrow> ready_class \<Rightarrow> ready_reasons \<Rightarrow> ready_queues \<Rightarrow> (ready_error + ready_key) \<times> ready_queues"
where
  "rq_mark w c r q =
     (case om_get (rq_queued q) w of
        Some row \<Rightarrow>
          (Inr (ri_key row),
           q\<lparr>rq_queued := om_modify w (ri_reasons_update (\<lambda>old. reasons_insert old r)) (rq_queued q)\<rparr>)
      | None \<Rightarrow>
          (case checked_add (rq_next_enqueue_serial q) 1 of
             None \<Rightarrow> (Inl EnqueueSerialExhausted, q)
           | Some serial \<Rightarrow>
               let key = \<lparr>rk_class = c, rk_enqueue_serial = serial, rk_waiter_id = w\<rparr>;
                   i = ready_class_index c
               in (Inr key,
                   q\<lparr>rq_queues := (rq_queues q)[i := os_insert (serial, w) (rq_queues q ! i)],
                     rq_queued := om_insert w \<lparr>ri_key = key, ri_reasons = r\<rparr> (rq_queued q),
                     rq_next_enqueue_serial := serial\<rparr>)))"

text \<open>The \<open>for offset in 0..ReadyClass::ALL.len()\<close> loop, over the offsets still to try.\<close>

fun rq_pop_loop :: "nat list \<Rightarrow> ready_queues \<Rightarrow> ready_item option \<times> ready_queues" where
  "rq_pop_loop [] q = (None, q)"
| "rq_pop_loop (off # offs) q =
     (let i = (rq_next_class q + off) mod n_classes
      in case os_first (rq_queues q ! i) of
           None \<Rightarrow> rq_pop_loop offs q
         | Some (serial, w) \<Rightarrow>
             let q' = q\<lparr>rq_queues := (rq_queues q)[i := os_remove (serial, w) (rq_queues q ! i)]\<rparr>
             in case om_get (rq_queued q) w of
                  None \<Rightarrow> (None, q')
                | Some row \<Rightarrow>
                    (Some row,
                     q'\<lparr>rq_queued := om_remove w (rq_queued q),
                        rq_next_class := (i + 1) mod n_classes\<rparr>))"

definition rq_pop_next :: "ready_queues \<Rightarrow> ready_item option \<times> ready_queues" where
  "rq_pop_next q = rq_pop_loop [0 ..< n_classes] q"

definition rq_remove :: "ready_key \<Rightarrow> ready_queues \<Rightarrow> bool \<times> ready_queues" where
  "rq_remove key q =
     (if map_option ri_key (om_get (rq_queued q) (rk_waiter_id key)) \<noteq> Some key then (False, q)
      else
        let i = ready_class_index (rk_class key);
            row = (rk_enqueue_serial key, rk_waiter_id key);
            q' = q\<lparr>rq_queues := (rq_queues q)[i := os_remove row (rq_queues q ! i)]\<rparr>
        in if row \<in> set (rq_queues q ! i)
           then (True, q'\<lparr>rq_queued := om_remove (rk_waiter_id key) (rq_queued q)\<rparr>)
           else (False, q'))"

definition rq_is_empty :: "ready_queues \<Rightarrow> bool" where
  "rq_is_empty q \<longleftrightarrow> rq_queued q = []"

definition rq_len :: "ready_queues \<Rightarrow> usize" where
  "rq_len q = length (rq_queued q)"

section \<open>Well-formedness\<close>

lemma ready_class_index_less [simp]: "ready_class_index c < n_classes"
  by (cases c) simp_all

lemma ready_class_index_inj [simp]: "ready_class_index c = ready_class_index d \<longleftrightarrow> c = d"
  by (cases c; cases d) simp_all

lemma ready_class_all_index: "ready_class_all ! ready_class_index c = c"
  by (cases c) (simp_all add: ready_class_all_def)

text \<open>
  \<open>class_rows m i\<close> are the queue entries that the row map \<open>m\<close> calls for in class \<open>i\<close>.
  A state is well formed when every class queue holds exactly those, the stored keys
  name their own waiter, and the serials of the rows are distinct and already issued.
\<close>

abbreviation row_serial :: "ready_item \<Rightarrow> u64" where
  "row_serial row \<equiv> rk_enqueue_serial (ri_key row)"

abbreviation row_index :: "ready_item \<Rightarrow> nat" where
  "row_index row \<equiv> ready_class_index (rk_class (ri_key row))"

definition class_rows :: "(waiter_id \<rightharpoonup> ready_item) \<Rightarrow> nat \<Rightarrow> (u64 \<times> waiter_id) set" where
  "class_rows m i = {(n, w). \<exists>row. m w = Some row \<and> row_serial row = n \<and> row_index row = i}"

definition rows_ok :: "u64 \<Rightarrow> (waiter_id \<rightharpoonup> ready_item) \<Rightarrow> bool" where
  "rows_ok bound m \<longleftrightarrow>
     (\<forall>w row. m w = Some row \<longrightarrow> rk_waiter_id (ri_key row) = w \<and> row_serial row \<le> bound) \<and>
     (\<forall>v w row row'. m v = Some row \<longrightarrow> m w = Some row' \<longrightarrow> row_serial row = row_serial row' \<longrightarrow> v = w)"

definition rq_ok :: "ready_queues \<Rightarrow> bool" where
  "rq_ok q \<longleftrightarrow>
     length (rq_queues q) = n_classes \<and> rq_next_class q < n_classes \<and>
     om_ok (rq_queued q) \<and> rq_next_enqueue_serial q \<le> u64_max \<and>
     (\<forall>i < n_classes. os_ok (rq_queues q ! i) \<and>
        set (rq_queues q ! i) = class_rows (map_of (rq_queued q)) i) \<and>
     rows_ok (rq_next_enqueue_serial q) (map_of (rq_queued q))"

lemma class_rows_insert:
  "m w = None \<Longrightarrow> class_rows (m(w \<mapsto> row)) i =
     (if row_index row = i then insert (row_serial row, w) (class_rows m i) else class_rows m i)"
  by (auto simp: class_rows_def split: if_splits)

lemma class_rows_remove:
  "m w = Some row \<Longrightarrow> class_rows (m(w := None)) i = class_rows m i - {(row_serial row, w)}"
  by (auto simp: class_rows_def split: if_splits)

lemma class_rows_reasons:
  "m w = Some row \<Longrightarrow> ri_key row' = ri_key row \<Longrightarrow> class_rows (m(w \<mapsto> row')) i = class_rows m i"
  by (auto simp: class_rows_def split: if_splits)

lemma rows_ok_remove: "rows_ok n m \<Longrightarrow> rows_ok n (m(w := None))"
  by (auto simp: rows_ok_def split: if_splits)

lemma rows_ok_reasons:
  "rows_ok n m \<Longrightarrow> m w = Some row \<Longrightarrow> ri_key row' = ri_key row \<Longrightarrow> rows_ok n (m(w \<mapsto> row'))"
  unfolding rows_ok_def by (simp split: if_splits) metis

lemma rows_ok_insert:
  "rows_ok n m \<Longrightarrow> row_serial row = n + 1 \<Longrightarrow> rk_waiter_id (ri_key row) = w \<Longrightarrow>
     rows_ok (n + 1) (m(w \<mapsto> row))"
  unfolding rows_ok_def by (auto split: if_splits) (fastforce dest: le_SucI)+

lemma rq_ok_row_in_queue:
  "rq_ok q \<Longrightarrow> om_get (rq_queued q) w = Some row \<Longrightarrow> (row_serial row, w) \<in> set (rq_queues q ! row_index row)"
  by (auto simp: rq_ok_def class_rows_def)

lemma rq_ok_queue_has_row:
  assumes "rq_ok q" and "i < n_classes" and "(serial, w) \<in> set (rq_queues q ! i)"
  obtains row where "om_get (rq_queued q) w = Some row" "row_serial row = serial" "row_index row = i"
  using assms by (auto simp: rq_ok_def class_rows_def)

text \<open>Cyclic distance from the cursor to a class.\<close>

lemma cursor_distance_eq:
  fixes i cur :: nat
  assumes "i < n_classes" "cur < n_classes"
  shows "(i + n_classes - cur) mod n_classes = (if cur \<le> i then i - cur else i + n_classes - cur)"
  using assms le_mod_geq [of n_classes "i + n_classes - cur"] by simp

lemma cursor_distance_back:
  fixes cur off r :: nat
  assumes "cur < n_classes" "off < n_classes" "r = (cur + off) mod n_classes"
  shows "(r + n_classes - cur) mod n_classes = off"
proof (cases "cur + off < n_classes")
  case True
  then have "r = cur + off" using assms(3) by (simp only: mod_less)
  then have "r + n_classes - cur = off + n_classes" by linarith
  then show ?thesis using assms(2) by (simp only: mod_add_self2 mod_less)
next
  case False
  then have "r = cur + off - n_classes"
    using assms le_mod_geq [of n_classes "cur + off"] mod_less [of "cur + off - n_classes" n_classes]
    by linarith
  then have "r + n_classes - cur = off" using False by linarith
  then show ?thesis using assms(2) by (simp only: mod_less)
qed

lemma cursor_distance:
  fixes i cur off :: nat
  assumes "i < n_classes" "cur < n_classes" "off < (i + n_classes - cur) mod n_classes"
  shows "(i + n_classes - ((cur + off) mod n_classes + 1) mod n_classes) mod n_classes
       < (i + n_classes - cur) mod n_classes"
proof -
  define c where "c = ((cur + off) mod n_classes + 1) mod n_classes"
  have "c < n_classes" by (simp add: c_def)
  have off: "off < (if cur \<le> i then i - cur else i + n_classes - cur)"
    using assms cursor_distance_eq by metis
  have "c = (if cur + off + 1 < n_classes then cur + off + 1 else cur + off + 1 - n_classes)"
    using off assms(1,2) unfolding c_def mod_add_left_eq
    by (auto simp: le_mod_geq split: if_splits)
  with off assms(1,2) have "(if c \<le> i then i - c else i + n_classes - c)
      < (if cur \<le> i then i - cur else i + n_classes - cur)"
    by (auto split: if_splits)
  then show ?thesis
    unfolding c_def [symmetric] cursor_distance_eq [OF assms(1) \<open>c < n_classes\<close>]
      cursor_distance_eq [OF assms(1,2)] .
qed

section \<open>Every operation keeps the queues well formed\<close>

lemma rq_ok_new: "rq_ok ready_queues_new"
  by (simp add: rq_ok_def ready_queues_new_def class_rows_def rows_ok_def)

lemma rq_mark_ok [hub_inv]: "rq_ok q \<Longrightarrow> rq_ok (snd (rq_mark w c r q))"
proof (cases "om_get (rq_queued q) w")
  case None
  assume ok: "rq_ok q"
  show ?thesis
  proof (cases "rq_next_enqueue_serial q < u64_max")
    case True
    let ?key = "\<lparr>rk_class = c, rk_enqueue_serial = rq_next_enqueue_serial q + 1, rk_waiter_id = w\<rparr>"
    have "rows_ok (rq_next_enqueue_serial q + 1)
        ((map_of (rq_queued q))(w \<mapsto> \<lparr>ri_key = ?key, ri_reasons = r\<rparr>))"
      using ok by (intro rows_ok_insert) (simp_all add: rq_ok_def)
    with ok None True show ?thesis
      by (auto simp: rq_mark_def rq_ok_def checked_add_def Let_def nth_list_update class_rows_insert)
  next
    case False
    with ok None show ?thesis by (simp add: rq_mark_def checked_add_def)
  qed
next
  case (Some row)
  assume ok: "rq_ok q"
  let ?row = "ri_reasons_update (\<lambda>old. reasons_insert old r) row"
  have "rows_ok (rq_next_enqueue_serial q) ((map_of (rq_queued q))(w \<mapsto> ?row))"
    using ok Some by (intro rows_ok_reasons [where row = row]) (simp_all add: rq_ok_def)
  with ok Some show ?thesis
    by (simp add: rq_mark_def rq_ok_def class_rows_reasons)
qed

text \<open>What taking the row of waiter \<open>w\<close> out of both structures leaves.\<close>

definition rq_take :: "waiter_id \<Rightarrow> ready_item \<Rightarrow> ready_queues \<Rightarrow> ready_queues" where
  "rq_take w row q =
     q\<lparr>rq_queues := (rq_queues q)[row_index row :=
         os_remove (row_serial row, w) (rq_queues q ! row_index row)],
       rq_queued := om_remove w (rq_queued q)\<rparr>"

lemma rq_take_ok:
  assumes ok: "rq_ok q" and row: "om_get (rq_queued q) w = Some row"
  shows "rq_ok (rq_take w row q)"
proof -
  have other: "(row_serial row, w) \<notin> class_rows (map_of (rq_queued q)) i" if "i \<noteq> row_index row" for i
    using that row by (auto simp: class_rows_def)
  show ?thesis
    using ok other
    by (auto simp: rq_ok_def rq_take_def nth_list_update class_rows_remove [where m = "map_of (rq_queued q)", OF row] rows_ok_remove)
qed

lemma rq_remove_eq:
  assumes "rq_ok q"
  shows "rq_remove key q =
    (case om_get (rq_queued q) (rk_waiter_id key) of
       Some row \<Rightarrow> if ri_key row = key then (True, rq_take (rk_waiter_id key) row q) else (False, q)
     | None \<Rightarrow> (False, q))"
  using rq_ok_row_in_queue [OF assms, of "rk_waiter_id key"]
  by (auto simp: rq_remove_def rq_take_def Let_def split: option.splits)

lemma rq_remove_ok [hub_inv]: "rq_ok q \<Longrightarrow> rq_ok (snd (rq_remove key q))"
  by (auto simp: rq_remove_eq rq_take_ok split: option.splits)

text \<open>
  The loop stops at the first class, counted from the cursor, that has a row, and takes
  that class's oldest row.
\<close>

definition rq_served :: "ready_queues \<Rightarrow> nat \<Rightarrow> waiter_id \<Rightarrow> ready_item \<Rightarrow> bool" where
  "rq_served q off w row \<longleftrightarrow>
     off < n_classes \<and> row_index row = (rq_next_class q + off) mod n_classes \<and>
     om_get (rq_queued q) w = Some row \<and>
     (\<forall>k < off. rq_queues q ! ((rq_next_class q + k) mod n_classes) = []) \<and>
     (\<forall>v row'. om_get (rq_queued q) v = Some row' \<longrightarrow> row_index row' = row_index row \<longrightarrow>
        row_serial row \<le> row_serial row')"

lemma rq_pop_loop_cases:
  assumes ok: "rq_ok q" and k: "k \<le> n_classes"
    and empty: "\<forall>j < k. rq_queues q ! ((rq_next_class q + j) mod n_classes) = []"
  shows "(\<exists>off w row. rq_served q off w row \<and>
            rq_pop_loop [k ..< n_classes] q =
              (Some row, (rq_take w row q)\<lparr>rq_next_class := (row_index row + 1) mod n_classes\<rparr>)) \<or>
         (\<forall>j < n_classes. rq_queues q ! ((rq_next_class q + j) mod n_classes) = []) \<and>
            rq_pop_loop [k ..< n_classes] q = (None, q)"
  using k empty
proof (induction "n_classes - k" arbitrary: k)
  case 0
  then show ?case by simp
next
  case (Suc n)
  let ?i = "(rq_next_class q + k) mod n_classes"
  have upt: "[k ..< n_classes] = k # [Suc k ..< n_classes]"
    using Suc.hyps(2) by (simp add: upt_conv_Cons)
  show ?case
  proof (cases "os_first (rq_queues q ! ?i)")
    case None
    then have "\<forall>j < Suc k. rq_queues q ! ((rq_next_class q + j) mod n_classes) = []"
      using Suc.prems(2) by (auto simp: less_Suc_eq)
    moreover have "rq_pop_loop [k ..< n_classes] q = rq_pop_loop [Suc k ..< n_classes] q"
      using None by (simp add: upt Let_def)
    ultimately show ?thesis
      using Suc.hyps(1) [of "Suc k"] Suc.hyps(2) by simp
  next
    case (Some p)
    obtain serial w where p: "p = (serial, w)" by (cases p)
    have "(serial, w) \<in> set (rq_queues q ! ?i)" using Some p os_first_in by fastforce
    then obtain row where row: "om_get (rq_queued q) w = Some row" "row_serial row = serial" "row_index row = ?i"
      using rq_ok_queue_has_row [OF ok, of ?i serial w] by auto
    have "row_serial row \<le> row_serial row'"
      if "om_get (rq_queued q) v = Some row'" "row_index row' = row_index row" for v row'
    proof -
      have "(row_serial row', v) \<in> set (rq_queues q ! ?i)"
        using rq_ok_row_in_queue [OF ok that(1)] that(2) row(3) by simp
      moreover have "os_ok (rq_queues q ! ?i)" using ok by (simp add: rq_ok_def)
      ultimately have "(serial, w) \<le> (row_serial row', v)"
        using Some p by (blast intro: os_first_least)
      then show ?thesis using row(2) by (auto simp: less_eq_prod_def)
    qed
    moreover have "k < n_classes" using Suc.hyps(2) by simp
    ultimately have "rq_served q k w row"
      using row Suc.prems(2) by (simp add: rq_served_def)
    moreover have "rq_pop_loop [k ..< n_classes] q =
        (Some row, (rq_take w row q)\<lparr>rq_next_class := (row_index row + 1) mod n_classes\<rparr>)"
      using Some p row by (simp add: upt Let_def rq_take_def)
    ultimately show ?thesis by blast
  qed
qed

lemma rq_pop_next_cases:
  assumes "rq_ok q"
  obtains (served) off w row where "rq_served q off w row"
      "rq_pop_next q = (Some row, (rq_take w row q)\<lparr>rq_next_class := (row_index row + 1) mod n_classes\<rparr>)"
    | (idle) "rq_queued q = []" "rq_pop_next q = (None, q)"
proof -
  have none: "rq_queued q = []"
    if e: "\<forall>j < n_classes. rq_queues q ! ((rq_next_class q + j) mod n_classes) = []"
  proof -
    have cur: "rq_next_class q < n_classes" using assms by (simp add: rq_ok_def)
    have "rq_queues q ! i = []" if i: "i < n_classes" for i
    proof -
      have "(rq_next_class q + (i + n_classes - rq_next_class q) mod n_classes) mod n_classes = i"
        using cur i by (cases "rq_next_class q \<le> i") (simp_all add: cursor_distance_eq)
      then show ?thesis
        using e [rule_format, of "(i + n_classes - rq_next_class q) mod n_classes"] by simp
    qed
    then have "om_get (rq_queued q) w = None" for w
      using rq_ok_row_in_queue [OF assms, of w] by (cases "om_get (rq_queued q) w") auto
    then show ?thesis by (cases "rq_queued q") (force split: if_splits)+
  qed
  show ?thesis
    using rq_pop_loop_cases [OF assms, of 0] served idle none unfolding rq_pop_next_def by auto
qed

lemma rq_pop_next_ok [hub_inv]: "rq_ok q \<Longrightarrow> rq_ok (snd (rq_pop_next q))"
proof -
  assume ok: "rq_ok q"
  then show ?thesis
  proof (cases rule: rq_pop_next_cases)
    case (served off w row)
    then have "rq_ok (rq_take w row q)" using rq_take_ok [OF ok] by (simp add: rq_served_def)
    with served show ?thesis by (simp add: rq_ok_def)
  qed (use ok in simp)
qed

section \<open>Schedules\<close>

datatype rq_event = EvMark waiter_id ready_class ready_reasons | EvPop | EvRemove ready_key

text \<open>\<open>rq_run\<close> plays a schedule and collects the items popped on the way.\<close>

fun rq_run :: "rq_event list \<Rightarrow> ready_queues \<Rightarrow> ready_item list \<times> ready_queues" where
  "rq_run [] q = ([], q)"
| "rq_run (EvMark w c r # es) q = rq_run es (snd (rq_mark w c r q))"
| "rq_run (EvRemove key # es) q = rq_run es (snd (rq_remove key q))"
| "rq_run (EvPop # es) q =
     (let (it, q') = rq_pop_next q; (its, q'') = rq_run es q'
      in (case it of None \<Rightarrow> its | Some i \<Rightarrow> i # its, q''))"

definition rq_exec :: "rq_event \<Rightarrow> ready_queues \<Rightarrow> ready_queues option" where
  "rq_exec e q = Some (snd (rq_run [e] q))"

interpretation ready: event_invariant rq_exec rq_ok
proof
  fix e q t
  assume "rq_exec e q = Some t" "rq_ok q"
  then show "rq_ok t"
    by (cases e) (auto simp: rq_exec_def rq_mark_ok rq_remove_ok rq_pop_next_ok split: prod.splits
        dest: rq_pop_next_ok)
qed

text \<open>
  How many pops a queued row can still have to wait: fifteen for every older row of its
  class, and one for every class the cursor passes before it.
\<close>

definition rq_older_rows :: "ready_queues \<Rightarrow> ready_key \<Rightarrow> ready_item list" where
  "rq_older_rows q key =
     filter (\<lambda>row. rk_class (ri_key row) = rk_class key \<and> row_serial row < rk_enqueue_serial key)
       (om_values (rq_queued q))"

definition rq_distance :: "ready_queues \<Rightarrow> ready_key \<Rightarrow> nat" where
  "rq_distance q key = (ready_class_index (rk_class key) + n_classes - rq_next_class q) mod n_classes"

definition rq_wait :: "ready_queues \<Rightarrow> ready_key \<Rightarrow> nat" where
  "rq_wait q key = n_classes * length (rq_older_rows q key) + rq_distance q key"

definition rq_holds :: "ready_queues \<Rightarrow> ready_key \<Rightarrow> ready_reasons \<Rightarrow> bool" where
  "rq_holds q key r \<longleftrightarrow> (\<exists>row. om_get (rq_queued q) (rk_waiter_id key) = Some row \<and>
     ri_key row = key \<and> reasons_contains (ri_reasons row) r)"

text \<open>The same rows by their waiters.\<close>

definition rq_older :: "ready_queues \<Rightarrow> ready_key \<Rightarrow> waiter_id set" where
  "rq_older q key = {v. \<exists>row. om_get (rq_queued q) v = Some row \<and>
     rk_class (ri_key row) = rk_class key \<and> row_serial row < rk_enqueue_serial key}"

lemma rq_older_card: "rq_ok q \<Longrightarrow> length (rq_older_rows q key) = card (rq_older q key)"
proof -
  assume "rq_ok q"
  then have ok: "om_ok (rq_queued q)" by (simp add: rq_ok_def)
  let ?P = "\<lambda>row. rk_class (ri_key row) = rk_class key \<and> row_serial row < rk_enqueue_serial key"
  have "rq_older q key = set (map fst (filter (\<lambda>e. ?P (snd e)) (rq_queued q)))"
    using om_in_set_iff [OF ok] by (force simp: rq_older_def)
  moreover have "distinct (map fst (filter (\<lambda>e. ?P (snd e)) (rq_queued q)))"
    using om_ok_distinct [OF ok] by (rule distinct_map_filter)
  ultimately have "card (rq_older q key) = length (filter (\<lambda>e. ?P (snd e)) (rq_queued q))"
    using distinct_card by fastforce
  then show ?thesis by (simp add: rq_older_rows_def filter_map comp_def)
qed

lemma finite_rq_older: "finite (rq_older q key)"
  by (rule finite_subset [of _ "set (om_keys (rq_queued q))"]) (auto simp: rq_older_def dest: om_get_Some_key)

lemma reasons_contains_refl [simp]: "reasons_contains a a"
  by (simp add: reasons_contains_def)

lemma reasons_contains_insert [simp]:
  "reasons_contains a r \<Longrightarrow> reasons_contains (reasons_insert a b) r"
  "reasons_contains (reasons_insert a b) b"
  by (auto simp: reasons_contains_def reasons_insert_def bit_eq_iff bit_simps)

lemma rq_mark_waits:
  assumes "rq_ok q" and "rq_holds q key r"
  shows "rq_holds (snd (rq_mark w c r' q)) key r \<and> rq_wait (snd (rq_mark w c r' q)) key = rq_wait q key"
proof -
  let ?q = "snd (rq_mark w c r' q)"
  obtain row where row: "om_get (rq_queued q) (rk_waiter_id key) = Some row" "ri_key row = key"
    using assms(2) by (auto simp: rq_holds_def)
  have le: "rk_enqueue_serial key \<le> rq_next_enqueue_serial q"
    using assms(1) row by (auto simp: rq_ok_def rows_ok_def)
  have "rq_older ?q key = rq_older q key"
  proof (cases "om_get (rq_queued q) w")
    case None
    with le show ?thesis
      by (auto simp: rq_mark_def rq_older_def Let_def split: option.splits if_splits)
  next
    case (Some row')
    then show ?thesis
      by (auto simp: rq_mark_def rq_older_def split: if_splits)
  qed
  moreover have "rq_next_class ?q = rq_next_class q"
    by (simp add: rq_mark_def Let_def split: option.splits)
  moreover have "rq_holds ?q key r"
    using assms(2) by (auto simp: rq_mark_def rq_holds_def Let_def split: option.splits)
  ultimately show ?thesis
    using assms(1) rq_mark_ok [OF assms(1), of w c r'] by (simp add: rq_wait_def rq_distance_def rq_older_card)
qed

lemma rq_remove_waits:
  assumes "rq_ok q" and "rq_holds q key r" and "rk_waiter_id other \<noteq> rk_waiter_id key"
  shows "rq_holds (snd (rq_remove other q)) key r \<and> rq_wait (snd (rq_remove other q)) key \<le> rq_wait q key"
proof -
  let ?q = "snd (rq_remove other q)"
  have "rq_older ?q key \<subseteq> rq_older q key"
    by (auto simp: rq_remove_eq [OF assms(1)] rq_older_def rq_take_def split: option.splits if_splits)
  then have "card (rq_older ?q key) \<le> card (rq_older q key)"
    by (rule card_mono [OF finite_rq_older])
  moreover have "rq_next_class ?q = rq_next_class q"
    by (auto simp: rq_remove_eq [OF assms(1)] rq_take_def split: option.splits)
  moreover have "rq_holds ?q key r"
    using assms(2,3) by (auto simp: rq_remove_eq [OF assms(1)] rq_holds_def rq_take_def split: option.splits)
  ultimately show ?thesis
    using assms(1) rq_remove_ok [OF assms(1), of other] by (simp add: rq_wait_def rq_distance_def rq_older_card)
qed

lemma rq_served_distance:
  assumes ok: "rq_ok q" and served: "rq_served q off w row"
    and row': "om_get (rq_queued q) v = Some row'"
  shows "off \<le> rq_distance q (ri_key row')" and
    "row_index row' \<noteq> row_index row \<Longrightarrow> off < rq_distance q (ri_key row')"
proof -
  let ?d = "rq_distance q (ri_key row')"
  have cur: "rq_next_class q < n_classes" using ok by (simp add: rq_ok_def)
  have at: "(rq_next_class q + ?d) mod n_classes = row_index row'"
    using cur unfolding rq_distance_def
    by (cases "rq_next_class q \<le> row_index row'") (simp_all add: cursor_distance_eq)
  then have "rq_queues q ! ((rq_next_class q + ?d) mod n_classes) \<noteq> []"
    using rq_ok_row_in_queue [OF ok row'] by auto
  then show le: "off \<le> ?d"
    using served unfolding rq_served_def by (meson not_le_imp_less)
  show "off < ?d" if "row_index row' \<noteq> row_index row"
    using le at that served by (cases "off = ?d") (auto simp: rq_served_def)
qed

lemma rq_pop_waits:
  assumes ok: "rq_ok q" and holds: "rq_holds q key r"
  shows "\<exists>it q'. rq_pop_next q = (Some it, q') \<and>
    (ri_key it = key \<and> reasons_contains (ri_reasons it) r \<or>
     rq_holds q' key r \<and> rq_wait q' key < rq_wait q key)"
proof -
  obtain krow where krow: "om_get (rq_queued q) (rk_waiter_id key) = Some krow" "ri_key krow = key"
      "reasons_contains (ri_reasons krow) r"
    using holds by (auto simp: rq_holds_def)
  from ok show ?thesis
  proof (cases rule: rq_pop_next_cases)
    case idle
    with krow show ?thesis by simp
  next
    case (served off w row)
    note w = served(1) [unfolded rq_served_def]
    let ?q = "(rq_take w row q)\<lparr>rq_next_class := (row_index row + 1) mod n_classes\<rparr>"
    show ?thesis
    proof (cases "w = rk_waiter_id key")
      case True
      with w krow have "row = krow" by simp
      with krow served show ?thesis by blast
    next
      case False
      have holds': "rq_holds ?q key r"
        using False krow by (auto simp: rq_holds_def rq_take_def)
      have ok': "rq_ok ?q" using rq_pop_next_ok [OF ok] served(2) by simp
      have sub: "rq_older ?q key \<subseteq> rq_older q key"
        by (auto simp: rq_older_def rq_take_def split: if_splits)
      have "rq_wait ?q key < rq_wait q key"
      proof (cases "row_index row = row_index krow")
        case True
        have "row_serial row \<noteq> row_serial krow"
          using ok w krow(1) False by (auto simp: rq_ok_def rows_ok_def)
        then have "w \<in> rq_older q key" "w \<notin> rq_older ?q key"
          using w krow(1,2) True [simplified] unfolding rq_older_def rq_take_def
          by (auto simp: order_le_less)
        with sub have "card (rq_older ?q key) < card (rq_older q key)"
          using finite_rq_older by (metis psubsetI psubset_card_mono)
        moreover have "rq_distance ?q key < n_classes" by (simp add: rq_distance_def)
        ultimately show ?thesis unfolding rq_wait_def rq_older_card [OF ok] rq_older_card [OF ok'] by linarith
      next
        case other: False
        have "off < rq_distance q key"
          using rq_served_distance(2) [OF ok served(1) krow(1)] other krow(2) by simp
        moreover have "rq_next_class q < n_classes" using ok by (simp add: rq_ok_def)
        ultimately have "rq_distance ?q key < rq_distance q key"
          using w cursor_distance [of "row_index krow" "rq_next_class q" off] krow(2)
          by (simp add: rq_distance_def)
        then show ?thesis
          using card_mono [OF finite_rq_older sub] ok ok' by (simp add: rq_wait_def rq_older_card)
      qed
      with holds' served show ?thesis by blast
    qed
  qed
qed

lemma rq_run_serves:
  assumes "rq_ok q" and "rq_holds q key r"
    and "\<And>other. EvRemove other \<in> set es \<Longrightarrow> rk_waiter_id other \<noteq> rk_waiter_id key"
    and "rq_wait q key < length (filter (\<lambda>e. e = EvPop) es)"
  shows "\<exists>it \<in> set (fst (rq_run es q)). ri_key it = key \<and> reasons_contains (ri_reasons it) r"
  using assms
proof (induction es arbitrary: q)
  case (Cons e es)
  show ?case
  proof (cases e)
    case (EvMark w c r')
    with Cons show ?thesis
      using rq_mark_waits [OF Cons.prems(1,2), of w c r'] by (auto simp: rq_mark_ok)
  next
    case (EvRemove other)
    with Cons.prems(3) have "rk_waiter_id other \<noteq> rk_waiter_id key" by auto
    with Cons EvRemove show ?thesis
      using rq_remove_waits [OF Cons.prems(1,2), of other] by (auto simp: rq_remove_ok)
  next
    case EvPop
    obtain it q' where pop: "rq_pop_next q = (Some it, q')"
      and cases: "ri_key it = key \<and> reasons_contains (ri_reasons it) r \<or>
        rq_holds q' key r \<and> rq_wait q' key < rq_wait q key"
      using rq_pop_waits [OF Cons.prems(1,2)] by blast
    have run: "fst (rq_run (e # es) q) = it # fst (rq_run es q')"
      by (simp add: EvPop pop split: prod.splits)
    from cases show ?thesis
    proof
      assume "rq_holds q' key r \<and> rq_wait q' key < rq_wait q key"
      moreover have "rq_ok q'" using rq_pop_next_ok [OF Cons.prems(1)] pop by simp
      ultimately have "\<exists>it \<in> set (fst (rq_run es q')). ri_key it = key \<and> reasons_contains (ri_reasons it) r"
        using Cons.IH [of q'] Cons.prems(3,4) EvPop by auto
      with run show ?thesis by simp
    qed (use run in simp)
  qed
qed simp

section \<open>Properties\<close>

text \<open>C2. No queued owner work starves.  Whatever is marked, popped and removed in between,
  a queued row is popped, with every reason it had collected, after at most fifteen pops
  for each older row of its class plus one for each class between the cursor and its own.\<close>

theorem ready_queue_no_starvation:
  assumes "run_events rq_exec hist ready_queues_new = Some q"
    and "om_get (rq_queued q) w = Some row"
    and "\<And>other. EvRemove other \<in> set es \<Longrightarrow> rk_waiter_id other \<noteq> w"
    and "rq_wait q (ri_key row) < length (filter (\<lambda>e. e = EvPop) es)"
  shows "\<exists>it \<in> set (fst (rq_run es q)).
    ri_key it = ri_key row \<and> reasons_contains (ri_reasons it) (ri_reasons row)"
proof -
  have ok: "rq_ok q" using ready.inv_run [OF assms(1) rq_ok_new] .
  then have "rk_waiter_id (ri_key row) = w"
    using assms(2) by (simp add: rq_ok_def rows_ok_def)
  then show ?thesis
    using assms(2-4) by (intro rq_run_serves [OF ok]) (auto simp: rq_holds_def)
qed

theorem ready_queue_no_starvation_witness:
  "\<exists>q row. run_events rq_exec [EvMark (WaiterId 1) Observe 1, EvMark (WaiterId 2) Cleanup 1,
        EvMark (WaiterId 3) Cleanup 2, EvMark (WaiterId 3) Observe 4] ready_queues_new = Some q \<and>
     om_get (rq_queued q) (WaiterId 3) = Some row \<and> ri_reasons row = 6 \<and>
     (\<exists>it \<in> set (fst (rq_run (replicate 17 EvPop) q)).
        ri_key it = ri_key row \<and> reasons_contains (ri_reasons it) (ri_reasons row))"
proof -
  define q where "q = the (run_events rq_exec [EvMark (WaiterId 1) Observe 1, EvMark (WaiterId 2) Cleanup 1,
    EvMark (WaiterId 3) Cleanup 2, EvMark (WaiterId 3) Observe 4] ready_queues_new)"
  have run: "run_events rq_exec [EvMark (WaiterId 1) Observe 1, EvMark (WaiterId 2) Cleanup 1,
    EvMark (WaiterId 3) Cleanup 2, EvMark (WaiterId 3) Observe 4] ready_queues_new = Some q"
    unfolding q_def by (simp add: rq_exec_def)
  have "map_option (\<lambda>row. (ri_reasons row, rq_wait q (ri_key row)))
      (om_get (rq_queued q) (WaiterId 3)) = Some (6, 16)"
    unfolding q_def by code_simp
  then obtain row where row: "om_get (rq_queued q) (WaiterId 3) = Some row" "ri_reasons row = 6"
      "rq_wait q (ri_key row) = 16"
    by auto
  show ?thesis
    using run row ready_queue_no_starvation [OF run row(1), of "replicate 17 EvPop"] by auto
qed

text \<open>A pop on any reachable run queue returns nothing exactly when no row is queued.
  Otherwise it returns the row with the least serial of the first class, counted from the
  cursor, that has a row; that row leaves the queue and every other row stays.\<close>

theorem ready_queue_pop_order:
  assumes "run_events rq_exec hist ready_queues_new = Some q"
  shows "case rq_pop_next q of
      (None, q') \<Rightarrow> rq_is_empty q \<and> q' = q
    | (Some it, q') \<Rightarrow>
        om_get (rq_queued q) (rk_waiter_id (ri_key it)) = Some it \<and>
        map_of (rq_queued q') = (map_of (rq_queued q))(rk_waiter_id (ri_key it) := None) \<and>
        (\<forall>row \<in> set (om_values (rq_queued q)).
           (rk_class (ri_key row) = rk_class (ri_key it) \<longrightarrow> row_serial it \<le> row_serial row) \<and>
           rq_distance q (ri_key it) \<le> rq_distance q (ri_key row))"
proof -
  have ok: "rq_ok q" using ready.inv_run [OF assms rq_ok_new] .
  then show ?thesis
  proof (cases rule: rq_pop_next_cases)
    case (served off w row)
    note w = served(1) [unfolded rq_served_def]
    have self: "rk_waiter_id (ri_key row) = w"
      using ok w by (simp add: rq_ok_def rows_ok_def)
    have cur: "rq_next_class q < n_classes" using ok by (simp add: rq_ok_def)
    have dist: "rq_distance q (ri_key row) = off"
      using cursor_distance_back [OF cur, of off "row_index row"] w by (simp only: rq_distance_def)
    have "(rk_class (ri_key row') = rk_class (ri_key row) \<longrightarrow> row_serial row \<le> row_serial row') \<and>
        off \<le> rq_distance q (ri_key row')" if "row' \<in> set (om_values (rq_queued q))" for row'
    proof -
      from that obtain v where "(v, row') \<in> set (rq_queued q)" by force
      then have "om_get (rq_queued q) v = Some row'"
        using ok by (simp add: rq_ok_def om_in_set_iff)
      then show ?thesis using w rq_served_distance(1) [OF ok served(1)] by auto
    qed
    with w self dist served(2) show ?thesis by (simp add: rq_take_def)
  qed (simp add: rq_is_empty_def)
qed

theorem ready_queue_pop_order_witness:
  "\<exists>q. run_events rq_exec [EvMark (WaiterId 7) Observe 1, EvMark (WaiterId 9) Cleanup 1] ready_queues_new
       = Some q \<and>
     (case rq_pop_next q of
        (None, q') \<Rightarrow> False
      | (Some it, q') \<Rightarrow> rk_waiter_id (ri_key it) = WaiterId 9 \<and>
          map_of (rq_queued q') = (map_of (rq_queued q))(WaiterId 9 := None))"
proof -
  define q where "q = the (run_events rq_exec
    [EvMark (WaiterId 7) Observe 1, EvMark (WaiterId 9) Cleanup 1] ready_queues_new)"
  have run: "run_events rq_exec [EvMark (WaiterId 7) Observe 1, EvMark (WaiterId 9) Cleanup 1]
      ready_queues_new = Some q"
    unfolding q_def by (simp add: rq_exec_def)
  have "map_option (rk_waiter_id \<circ> ri_key) (fst (rq_pop_next q)) = Some (WaiterId 9)"
    unfolding q_def by code_simp
  then show ?thesis
    using run ready_queue_pop_order [OF run] by (auto split: prod.splits)
qed

end
