(* ===== verification/Deadline_Index.thy ===== *)
theory Deadline_Index
  imports Owner_Identity Ordered_Map
begin

text \<open>
  \<open>DeadlineIndex\<close> of \<open>src/src/daemon/owner_schedule.rs\<close>: the armed deadlines in time order
  and, for each waiter, the armed instant and the instant that fired last.
  Instants are naturals (nanoseconds of the monotonic clock).
\<close>

section \<open>Data\<close>

type_synonym instant = nat

record deadline_key =
  dk_instant :: instant
  dk_waiter_id :: waiter_id

record deadline_arm =
  da_key :: deadline_key
  da_is_due :: bool

datatype deadline_error = NonprogressRearm waiter_id instant instant

record deadline_state =
  ds_armed :: "instant option"
  ds_last_fired :: "instant option"

definition deadline_state_default :: deadline_state where
  "deadline_state_default = \<lparr>ds_armed = None, ds_last_fired = None\<rparr>"

record deadline_index =
  di_deadlines :: "(instant \<times> waiter_id) oset"
  di_states :: "(waiter_id, deadline_state) omap"

section \<open>Operations\<close>

definition deadline_index_new :: deadline_index where
  "deadline_index_new = \<lparr>di_deadlines = [], di_states = []\<rparr>"

definition di_state :: "waiter_id \<Rightarrow> deadline_index \<Rightarrow> deadline_state" where
  "di_state w d = (case om_get (di_states d) w of None \<Rightarrow> deadline_state_default | Some st \<Rightarrow> st)"

definition di_arm ::
  "waiter_id \<Rightarrow> instant \<Rightarrow> instant \<Rightarrow> deadline_index \<Rightarrow> (deadline_error + deadline_arm) \<times> deadline_index"
where
  "di_arm w deadline now d =
     (let st = di_state w d;
          accept =
            (let ds = (case ds_armed st of None \<Rightarrow> di_deadlines d | Some old \<Rightarrow> os_remove (old, w) (di_deadlines d))
             in (Inr \<lparr>da_key = \<lparr>dk_instant = deadline, dk_waiter_id = w\<rparr>, da_is_due = deadline \<le> now\<rparr>,
                 d\<lparr>di_deadlines := os_insert (deadline, w) ds,
                   di_states := om_insert w \<lparr>ds_armed = Some deadline, ds_last_fired = ds_last_fired st\<rparr>
                     (di_states d)\<rparr>))
      in case ds_last_fired st of
           Some fired \<Rightarrow> if deadline \<le> fired then (Inl (NonprogressRearm w fired deadline), d) else accept
         | None \<Rightarrow> accept)"

definition di_disarm :: "deadline_key \<Rightarrow> deadline_index \<Rightarrow> bool \<times> deadline_index" where
  "di_disarm key d =
     (case om_get (di_states d) (dk_waiter_id key) of
        None \<Rightarrow> (False, d)
      | Some st \<Rightarrow>
          let row = (dk_instant key, dk_waiter_id key) in
          if ds_armed st \<noteq> Some (dk_instant key) then (False, d)
          else if row \<notin> set (di_deadlines d) then (False, d)
          else
            (True,
             d\<lparr>di_deadlines := os_remove row (di_deadlines d),
               di_states :=
                 (if ds_last_fired st \<noteq> None
                  then om_insert (dk_waiter_id key) \<lparr>ds_armed = None, ds_last_fired = ds_last_fired st\<rparr> (di_states d)
                  else om_remove (dk_waiter_id key) (di_states d))\<rparr>))"

definition di_retire :: "waiter_id \<Rightarrow> deadline_index \<Rightarrow> deadline_key option \<times> deadline_index" where
  "di_retire w d =
     (case om_get (di_states d) w of
        None \<Rightarrow> (None, d)
      | Some st \<Rightarrow>
          let d' = d\<lparr>di_states := om_remove w (di_states d)\<rparr>
          in case ds_armed st of
               None \<Rightarrow> (None, d')
             | Some t \<Rightarrow> (Some \<lparr>dk_instant = t, dk_waiter_id = w\<rparr>,
                          d'\<lparr>di_deadlines := os_remove (t, w) (di_deadlines d)\<rparr>))"

definition di_next_deadline :: "deadline_index \<Rightarrow> instant option" where
  "di_next_deadline d = map_option fst (os_first (di_deadlines d))"

text \<open>
  The \<open>while due.len() < limit\<close> loop, with \<open>limit - due.len()\<close> as its argument; \<open>None\<close> is the
  panic of the \<open>expect\<close>.
\<close>

fun di_pop_due :: "instant \<Rightarrow> nat \<Rightarrow> deadline_index \<Rightarrow> (deadline_key list \<times> deadline_index) option" where
  "di_pop_due now 0 d = Some ([], d)"
| "di_pop_due now (Suc n) d =
     (case os_first (di_deadlines d) of
        None \<Rightarrow> Some ([], d)
      | Some (t, w) \<Rightarrow>
          if now < t then Some ([], d)
          else if om_contains (di_states d) w then
            map_option (\<lambda>(due, d'). (\<lparr>dk_instant = t, dk_waiter_id = w\<rparr> # due, d'))
              (di_pop_due now n
                 (d\<lparr>di_deadlines := os_remove (t, w) (di_deadlines d),
                   di_states := om_modify w (\<lambda>st. st\<lparr>ds_armed := None, ds_last_fired := Some t\<rparr>) (di_states d)\<rparr>))
          else None)"

definition di_has_due :: "instant \<Rightarrow> deadline_index \<Rightarrow> bool" where
  "di_has_due now d = (case di_next_deadline d of None \<Rightarrow> False | Some t \<Rightarrow> t \<le> now)"

definition di_is_empty :: "deadline_index \<Rightarrow> bool" where
  "di_is_empty d \<longleftrightarrow> di_deadlines d = []"

definition di_len :: "deadline_index \<Rightarrow> usize" where
  "di_len d = length (di_deadlines d)"

section \<open>Well-formedness\<close>

text \<open>
  The rows are exactly the armed instants of the states; an armed instant lies after the
  waiter's last fired one; no state is empty.
\<close>

definition armed_rows :: "(waiter_id \<rightharpoonup> deadline_state) \<Rightarrow> (instant \<times> waiter_id) set" where
  "armed_rows m = {(t, w). \<exists>st. m w = Some st \<and> ds_armed st = Some t}"

fun state_ok :: "deadline_state \<Rightarrow> bool" where
  "state_ok st \<longleftrightarrow>
     (case (ds_armed st, ds_last_fired st) of
        (None, None) \<Rightarrow> False
      | (Some t, Some fired) \<Rightarrow> fired < t
      | _ \<Rightarrow> True)"

definition di_ok :: "deadline_index \<Rightarrow> bool" where
  "di_ok d \<longleftrightarrow> os_ok (di_deadlines d) \<and> om_ok (di_states d) \<and>
     set (di_deadlines d) = armed_rows (map_of (di_states d)) \<and>
     (\<forall>w st. om_get (di_states d) w = Some st \<longrightarrow> state_ok st)"

lemma armed_rows_upd:
  "armed_rows (m(w \<mapsto> st)) =
     {(t, v) \<in> armed_rows m. v \<noteq> w} \<union> (case ds_armed st of None \<Rightarrow> {} | Some t \<Rightarrow> {(t, w)})"
  by (auto simp: armed_rows_def split: option.splits if_splits)

lemma armed_rows_drop: "armed_rows (m(w := None)) = {(t, v) \<in> armed_rows m. v \<noteq> w}"
  by (auto simp: armed_rows_def split: if_splits)

lemma armed_rows_of:
  "{(t, v) \<in> armed_rows m. v \<noteq> w} =
     (case m w of None \<Rightarrow> armed_rows m
      | Some st \<Rightarrow> (case ds_armed st of None \<Rightarrow> armed_rows m | Some t \<Rightarrow> armed_rows m - {(t, w)}))"
  by (auto simp: armed_rows_def split: option.splits)

lemma di_ok_new: "di_ok deadline_index_new"
  by (simp add: di_ok_def deadline_index_new_def armed_rows_def)

lemma di_ok_armed:
  "di_ok d \<Longrightarrow> (t, w) \<in> set (di_deadlines d) \<longleftrightarrow>
     (\<exists>st. om_get (di_states d) w = Some st \<and> ds_armed st = Some t)"
  by (simp add: di_ok_def armed_rows_def)

lemma di_arm_ok [hub_inv]: "di_ok d \<Longrightarrow> di_ok (snd (di_arm w t now d))"
  by (auto simp: di_ok_def di_arm_def di_state_def deadline_state_default_def Let_def
      armed_rows_upd armed_rows_of split: option.splits if_splits)

lemma di_disarm_ok [hub_inv]: "di_ok d \<Longrightarrow> di_ok (snd (di_disarm key d))"
  by (auto simp: di_ok_def di_disarm_def Let_def armed_rows_upd armed_rows_drop armed_rows_of
      split: option.splits if_splits)

lemma di_retire_ok [hub_inv]: "di_ok d \<Longrightarrow> di_ok (snd (di_retire w d))"
  by (auto simp: di_ok_def di_retire_def Let_def armed_rows_drop armed_rows_of
      split: option.splits if_splits)

text \<open>One round of the loop on a well-formed index whose first row is due.\<close>

definition di_fire :: "instant \<Rightarrow> waiter_id \<Rightarrow> deadline_index \<Rightarrow> deadline_index" where
  "di_fire t w d =
     d\<lparr>di_deadlines := os_remove (t, w) (di_deadlines d),
       di_states := om_modify w (\<lambda>st. st\<lparr>ds_armed := None, ds_last_fired := Some t\<rparr>) (di_states d)\<rparr>"

lemma di_fire_ok: "di_ok d \<Longrightarrow> (t, w) \<in> set (di_deadlines d) \<Longrightarrow> di_ok (di_fire t w d)"
  by (auto simp: di_ok_def di_fire_def armed_rows_def split: if_splits)

lemma di_pop_due_step:
  assumes "di_ok d"
  shows "di_pop_due now (Suc n) d =
    (case di_deadlines d of
       [] \<Rightarrow> Some ([], d)
     | (t, w) # _ \<Rightarrow>
         if now < t then Some ([], d)
         else map_option (\<lambda>(due, d'). (\<lparr>dk_instant = t, dk_waiter_id = w\<rparr> # due, d'))
                (di_pop_due now n (di_fire t w d)))"
proof (cases "di_deadlines d")
  case (Cons row rest)
  then have "om_contains (di_states d) (snd row)"
    using di_ok_armed [OF assms, of "fst row" "snd row"] by (auto simp: om_contains_def)
  with Cons show ?thesis by (cases row) (simp add: di_fire_def)
qed simp

abbreviation key_row :: "deadline_key \<Rightarrow> instant \<times> waiter_id" where
  "key_row key \<equiv> (dk_instant key, dk_waiter_id key)"

definition after_fire :: "deadline_key list \<Rightarrow> deadline_index \<Rightarrow> waiter_id \<Rightarrow> deadline_state option" where
  "after_fire due d w =
     (case find (\<lambda>key. dk_waiter_id key = w) due of
        None \<Rightarrow> om_get (di_states d) w
      | Some key \<Rightarrow> Some \<lparr>ds_armed = None, ds_last_fired = Some (dk_instant key)\<rparr>)"

lemma after_fire_Nil [simp]: "after_fire [] d w = om_get (di_states d) w"
  by (simp add: after_fire_def)

text \<open>
  The whole loop: it never panics, the keys are the first due rows, the rest stays, and each
  waiter whose key is returned remembers it as fired.
\<close>

lemma di_pop_due_spec:
  assumes "di_ok d"
  shows "\<exists>due d'. di_pop_due now n d = Some (due, d') \<and> di_ok d' \<and>
    map key_row due = take n (takeWhile (\<lambda>(t, w). t \<le> now) (di_deadlines d)) \<and>
    di_deadlines d = map key_row due @ di_deadlines d' \<and>
    (\<forall>w. om_get (di_states d') w = after_fire due d w)"
  using assms
proof (induction n arbitrary: d)
  case (Suc n)
  show ?case
  proof (cases "di_deadlines d")
    case Nil
    with Suc.prems show ?thesis by (simp add: di_pop_due_step)
  next
    case (Cons row rest)
    obtain t w where row: "row = (t, w)" by (cases row)
    show ?thesis
    proof (cases "now < t")
      case True
      with Suc.prems Cons row show ?thesis by (simp add: di_pop_due_step)
    next
      case False
      have in_row: "(t, w) \<in> set (di_deadlines d)" using Cons row by simp
      then obtain st where st: "om_get (di_states d) w = Some st" "ds_armed st = Some t"
        using di_ok_armed [OF Suc.prems] by blast
      have rest: "di_deadlines (di_fire t w d) = rest"
        using Suc.prems Cons row os_remove_hd [of "(t, w)" rest] by (simp add: di_ok_def di_fire_def)
      have ok: "di_ok (di_fire t w d)" by (rule di_fire_ok [OF Suc.prems in_row])
      then have others: "v \<noteq> w" if "(u, v) \<in> set rest" for u v
        using di_ok_armed [OF ok, of u v] that unfolding rest by (auto simp: di_fire_def st)
      from Suc.IH [OF ok] obtain due d' where IH:
        "di_pop_due now n (di_fire t w d) = Some (due, d')" "di_ok d'"
        "map key_row due = take n (takeWhile (\<lambda>(t, w). t \<le> now) rest)"
        "rest = map key_row due @ di_deadlines d'"
        "\<forall>v. om_get (di_states d') v = after_fire due (di_fire t w d) v"
        unfolding rest by blast
      have "dk_waiter_id key \<noteq> w" if "key \<in> set due" for key
        using that IH(4) others [of "dk_instant key" "dk_waiter_id key"] by force
      then have "find (\<lambda>key. dk_waiter_id key = w) due = None"
        by (auto simp: find_None_iff)
      then have "om_get (di_states d') v = after_fire (\<lparr>dk_instant = t, dk_waiter_id = w\<rparr> # due) d v" for v
        using IH(5) by (cases "v = w") (auto simp: after_fire_def di_fire_def st split: option.splits)
      moreover have "di_pop_due now (Suc n) d = Some (\<lparr>dk_instant = t, dk_waiter_id = w\<rparr> # due, d')"
        unfolding di_pop_due_step [OF Suc.prems] by (simp add: Cons row False IH(1))
      moreover have "map key_row (\<lparr>dk_instant = t, dk_waiter_id = w\<rparr> # due) =
          take (Suc n) (takeWhile (\<lambda>(t, w). t \<le> now) (di_deadlines d))"
        using IH(3) False by (simp add: Cons row not_less)
      moreover have "di_deadlines d = map key_row (\<lparr>dk_instant = t, dk_waiter_id = w\<rparr> # due) @ di_deadlines d'"
        using IH(4) by (simp add: Cons row)
      ultimately show ?thesis using IH(2) by blast
    qed
  qed
qed simp

lemma di_pop_due_SomeD:
  assumes "di_ok d" and pop: "di_pop_due now n d = Some (due, d')"
  shows "di_ok d'" "di_deadlines d = map key_row due @ di_deadlines d'"
    "om_get (di_states d') w = after_fire due d w"
proof -
  obtain due0 d0 where spec: "di_pop_due now n d = Some (due0, d0)" "di_ok d0"
      "di_deadlines d = map key_row due0 @ di_deadlines d0"
      "\<forall>w. om_get (di_states d0) w = after_fire due0 d w"
    using di_pop_due_spec [OF assms(1), of now n] by blast
  from spec(1) pop have "due0 = due" "d0 = d'" by auto
  with spec(2-) show "di_ok d'" "di_deadlines d = map key_row due @ di_deadlines d'"
    "om_get (di_states d') w = after_fire due d w" by blast+
qed

section \<open>Schedules\<close>

datatype di_event = EvArm waiter_id instant instant | EvDisarm deadline_key | EvRetire waiter_id | EvPopDue instant nat

fun di_exec :: "di_event \<Rightarrow> deadline_index \<times> deadline_key list \<Rightarrow> (deadline_index \<times> deadline_key list) option" where
  "di_exec (EvArm w t now) (d, fired) = Some (snd (di_arm w t now d), fired)"
| "di_exec (EvDisarm key) (d, fired) = Some (snd (di_disarm key d), fired)"
| "di_exec (EvRetire w) (d, fired) = Some (snd (di_retire w d), fired)"
| "di_exec (EvPopDue now limit) (d, fired) =
     map_option (\<lambda>(due, d'). (d', fired @ due)) (di_pop_due now limit d)"

lemma di_exec_total: "di_ok d \<Longrightarrow> \<exists>d' fired'. di_exec e (d, fired) = Some (d', fired') \<and> di_ok d'"
  using di_pop_due_spec by (cases e) (fastforce simp: hub_inv)+

interpretation deadlines: event_invariant di_exec "\<lambda>s. di_ok (fst s)"
proof
  fix e s t
  assume "di_exec e s = Some t" "di_ok (fst s)"
  then show "di_ok (fst t)" using di_exec_total [of "fst s" e "snd s"] by auto
qed

text \<open>What a schedule has fired for one waiter, in order.\<close>

definition fired_of :: "waiter_id \<Rightarrow> deadline_key list \<Rightarrow> instant list" where
  "fired_of w keys = map dk_instant (filter (\<lambda>key. dk_waiter_id key = w) keys)"

definition fired_inv :: "waiter_id \<Rightarrow> deadline_index \<times> deadline_key list \<Rightarrow> bool" where
  "fired_inv w s \<longleftrightarrow> di_ok (fst s) \<and> sorted_wrt (<) (fired_of w (snd s)) \<and>
     (\<forall>t \<in> set (fired_of w (snd s)). \<exists>last. ds_last_fired (di_state w (fst s)) = Some last \<and> t \<le> last)"

lemma fired_of_append [simp]: "fired_of w (xs @ ys) = fired_of w xs @ fired_of w ys"
  by (simp add: fired_of_def)

lemma find_Some_filter: "filter P xs = x # ys \<Longrightarrow> find P xs = Some x"
  by (induction xs) (auto split: if_splits)

lemma armed_once:
  assumes "di_ok d" and "di_deadlines d = map key_row due @ rest"
  shows "fired_of w due = [] \<or>
    (\<exists>key st. fired_of w due = [dk_instant key] \<and> find (\<lambda>key. dk_waiter_id key = w) due = Some key \<and>
       om_get (di_states d) w = Some st \<and> ds_armed st = Some (dk_instant key))"
proof -
  have one: "dk_instant k = t" if "k \<in> set due" "dk_waiter_id k = w" "om_get (di_states d) w = Some st"
      "ds_armed st = Some t" for k st t
  proof -
    have "(dk_instant k, w) \<in> set (di_deadlines d)"
      unfolding assms(2) using that(1,2) by (simp add: rev_image_eqI)
    with di_ok_armed [OF assms(1)] that(3,4) show ?thesis by fastforce
  qed
  have "distinct (map key_row due)"
    using os_ok_distinct [of "di_deadlines d"] assms by (simp add: di_ok_def)
  then have dist: "distinct due" by (simp add: distinct_map)
  show ?thesis
  proof (cases "filter (\<lambda>key. dk_waiter_id key = w) due")
    case (Cons key ks)
    have sel: "set (key # ks) = {k \<in> set due. dk_waiter_id k = w}"
      unfolding Cons [symmetric] by simp
    then have key: "key \<in> set due" "dk_waiter_id key = w" by auto
    then have "(dk_instant key, w) \<in> set (di_deadlines d)"
      unfolding assms(2) by (simp add: rev_image_eqI)
    then obtain st where st: "om_get (di_states d) w = Some st" "ds_armed st = Some (dk_instant key)"
      using di_ok_armed [OF assms(1)] by blast
    have "k = key" if "k \<in> set ks" for k
    proof -
      from that sel have "k \<in> set due" "dk_waiter_id k = w" by auto
      with one [OF this st] key show ?thesis by (intro deadline_key.equality) simp_all
    qed
    moreover have "distinct (key # ks)"
      using distinct_filter [OF dist, of "\<lambda>key. dk_waiter_id key = w"] unfolding Cons .
    ultimately have "ks = []" by (cases ks) auto
    moreover have "find (\<lambda>key. dk_waiter_id key = w) due = Some key"
      using Cons find_Some_filter by metis
    ultimately show ?thesis using Cons st unfolding fired_of_def by simp
  qed (simp add: fired_of_def)
qed

lemma fired_inv_pop:
  assumes inv: "fired_inv w (d, fired)" and pop: "di_pop_due now n d = Some (due, d')"
  shows "fired_inv w (d', fired @ due)"
proof -
  have ok: "di_ok d" using inv by (simp add: fired_inv_def)
  note d' = di_pop_due_SomeD(1,2) [OF ok pop] and st' = di_pop_due_SomeD(3) [OF ok pop]
  from armed_once [OF ok d'(2), of w] show ?thesis
  proof
    assume none: "fired_of w due = []"
    then have "find (\<lambda>key. dk_waiter_id key = w) due = None"
      by (auto simp: fired_of_def find_None_iff filter_empty_conv)
    then have "di_state w d' = di_state w d" by (simp add: di_state_def st' after_fire_def)
    with inv none d'(1) show ?thesis by (simp add: fired_inv_def)
  next
    assume "\<exists>key st. fired_of w due = [dk_instant key] \<and> find (\<lambda>key. dk_waiter_id key = w) due = Some key \<and>
       om_get (di_states d) w = Some st \<and> ds_armed st = Some (dk_instant key)"
    then obtain key st where key: "fired_of w due = [dk_instant key]"
        "find (\<lambda>key. dk_waiter_id key = w) due = Some key"
        "om_get (di_states d) w = Some st" "ds_armed st = Some (dk_instant key)" by blast
    then have "state_ok st" using ok by (simp only: di_ok_def)
    with key(4) have "ds_last_fired st = Some last \<Longrightarrow> last < dk_instant key" for last by simp
    then have "\<forall>t \<in> set (fired_of w fired). t < dk_instant key"
      using inv key(3) by (fastforce simp: fired_inv_def di_state_def)
    moreover have "ds_last_fired (di_state w d') = Some (dk_instant key)"
      by (simp add: di_state_def st' after_fire_def key(2))
    ultimately show ?thesis
      using inv d'(1) key(1) by (auto simp: fired_inv_def sorted_wrt_append less_imp_le)
  qed
qed

lemma fired_inv_exec:
  assumes "fired_inv w s" and "di_exec e s = Some s'" and "e \<noteq> EvRetire w"
  shows "fired_inv w s'"
proof (cases e)
  case (EvArm v t now)
  have "ds_last_fired (di_state w (snd (di_arm v t now (fst s)))) = ds_last_fired (di_state w (fst s))"
    by (auto simp: di_arm_def di_state_def Let_def split: option.splits)
  with assms EvArm show ?thesis by (cases s) (auto simp: fired_inv_def hub_inv)
next
  case (EvDisarm key)
  have "ds_last_fired (di_state w (snd (di_disarm key (fst s)))) = ds_last_fired (di_state w (fst s))"
    by (auto simp: di_disarm_def di_state_def deadline_state_default_def Let_def split: option.splits)
  with assms EvDisarm show ?thesis by (cases s) (auto simp: fired_inv_def hub_inv)
next
  case (EvRetire v)
  then have "di_state w (snd (di_retire v (fst s))) = di_state w (fst s)"
    using assms(3) by (auto simp: di_retire_def di_state_def Let_def split: option.splits)
  with assms EvRetire show ?thesis by (cases s) (auto simp: fired_inv_def hub_inv)
next
  case (EvPopDue now n)
  with assms show ?thesis by (cases s) (auto intro: fired_inv_pop)
qed

lemma fired_inv_run:
  "fired_inv w s \<Longrightarrow> run_events di_exec es s = Some s' \<Longrightarrow> EvRetire w \<notin> set es \<Longrightarrow> fired_inv w s'"
  by (induction es arbitrary: s) (auto split: option.splits dest: fired_inv_exec)

section \<open>Properties\<close>

lemma due_prefix:
  "os_ok xs \<Longrightarrow> takeWhile (\<lambda>(t, w). t \<le> now) xs = filter (\<lambda>(t, w). t \<le> now) xs"
proof (induction xs)
  case (Cons x xs)
  have "filter (\<lambda>(t, w). t \<le> now) xs = []" if "now < fst x"
    using Cons.prems that by (fastforce simp: os_ok_Cons less_prod_def' filter_empty_conv)
  with Cons show ?case by (cases x) (auto simp: os_ok_Cons not_le)
qed simp

text \<open>C4. On every reachable index a harvest of due deadlines returns, without panic, the
  first \<open>limit\<close> due rows in time order; exactly these rows leave the index, and every
  waiter whose key is returned is disarmed and remembers the instant as fired.\<close>

theorem deadline_pop_due_exact:
  assumes "run_events di_exec es (deadline_index_new, []) = Some (d, fired)"
  shows "\<exists>due d'. di_pop_due now limit d = Some (due, d') \<and>
    map key_row due = take limit (filter (\<lambda>(t, w). t \<le> now) (di_deadlines d)) \<and>
    di_deadlines d = map key_row due @ di_deadlines d' \<and>
    (\<forall>key \<in> set due. om_get (di_states d') (dk_waiter_id key) =
       Some \<lparr>ds_armed = None, ds_last_fired = Some (dk_instant key)\<rparr>)"
proof -
  have ok: "di_ok d" using deadlines.inv_run [OF assms] di_ok_new by simp
  from di_pop_due_spec [OF ok, of now limit] obtain due d' where pop:
    "di_pop_due now limit d = Some (due, d')"
    "map key_row due = take limit (takeWhile (\<lambda>(t, w). t \<le> now) (di_deadlines d))"
    "di_deadlines d = map key_row due @ di_deadlines d'"
    "\<forall>w. om_get (di_states d') w = after_fire due d w" by blast
  have "om_get (di_states d') (dk_waiter_id key) = Some \<lparr>ds_armed = None, ds_last_fired = Some (dk_instant key)\<rparr>"
    if "key \<in> set due" for key
  proof -
    from that have "dk_instant key \<in> set (fired_of (dk_waiter_id key) due)"
      by (auto simp: fired_of_def)
    with armed_once [OF ok pop(3), of "dk_waiter_id key"] show ?thesis
      using pop(4) by (auto simp: after_fire_def)
  qed
  moreover have "os_ok (di_deadlines d)" using ok by (simp add: di_ok_def)
  ultimately show ?thesis
    using pop(1-3) unfolding due_prefix [OF \<open>os_ok (di_deadlines d)\<close>] by blast
qed

theorem deadline_pop_due_exact_witness:
  "\<exists>d fired due d'. run_events di_exec [EvArm (WaiterId 1) 30 0, EvArm (WaiterId 2) 10 0, EvArm (WaiterId 3) 20 0]
       (deadline_index_new, []) = Some (d, fired) \<and>
     di_pop_due 25 1 d = Some (due, d') \<and> map key_row due = [(10, WaiterId 2)] \<and>
     di_deadlines d' = [(20, WaiterId 3), (30, WaiterId 1)]"
proof -
  define d where "d = fst (the (run_events di_exec
    [EvArm (WaiterId 1) 30 0, EvArm (WaiterId 2) 10 0, EvArm (WaiterId 3) 20 0] (deadline_index_new, [])))"
  have run: "run_events di_exec [EvArm (WaiterId 1) 30 0, EvArm (WaiterId 2) 10 0, EvArm (WaiterId 3) 20 0]
      (deadline_index_new, []) = Some (d, [])"
    unfolding d_def by simp
  have rows: "di_deadlines d = [(10, WaiterId 2), (20, WaiterId 3), (30, WaiterId 1)]"
    unfolding d_def by code_simp
  obtain due d' where "di_pop_due 25 1 d = Some (due, d')" "map key_row due = [(10, WaiterId 2)]"
      "di_deadlines d = map key_row due @ di_deadlines d'"
    using deadline_pop_due_exact [OF run, of 25 1] by (auto simp: rows)
  then show ?thesis using run rows by simp
qed

text \<open>C5. A fired deadline never fires again.  Whatever is armed, disarmed, harvested and
  retired for other waiters, the instants fired for a waiter that is not retired are strictly
  increasing: a disarm and re-arm cannot restore one.  Arming at or before the last fired
  instant is refused and changes nothing.\<close>

theorem deadline_no_refire:
  assumes "run_events di_exec es (deadline_index_new, []) = Some (d, fired)"
    and "EvRetire w \<notin> set es"
  shows "sorted_wrt (<) (fired_of w fired) \<and>
    (\<forall>t \<in> set (fired_of w fired). \<exists>last. t \<le> last \<and>
       di_arm w t now d = (Inl (NonprogressRearm w last t), d))"
proof -
  have "fired_inv w (deadline_index_new, [])"
    using di_ok_new by (simp add: fired_inv_def fired_of_def)
  from fired_inv_run [OF this assms] show ?thesis
    by (fastforce simp: fired_inv_def di_arm_def Let_def)
qed

theorem deadline_no_refire_witness:
  "\<exists>d fired. run_events di_exec [EvArm (WaiterId 1) 3 0, EvPopDue 5 9, EvArm (WaiterId 1) 4 5, EvDisarm \<lparr>dk_instant = 4, dk_waiter_id = WaiterId 1\<rparr>,
        EvArm (WaiterId 1) 2 5, EvArm (WaiterId 1) 6 5, EvPopDue 7 9] (deadline_index_new, []) = Some (d, fired) \<and>
     fired_of (WaiterId 1) fired = [3, 6] \<and> sorted_wrt (<) (fired_of (WaiterId 1) fired)"
proof -
  define s where "s = the (run_events di_exec [EvArm (WaiterId 1) 3 0, EvPopDue 5 9, EvArm (WaiterId 1) 4 5,
    EvDisarm \<lparr>dk_instant = 4, dk_waiter_id = WaiterId 1\<rparr>,
    EvArm (WaiterId 1) 2 5, EvArm (WaiterId 1) 6 5, EvPopDue 7 9] (deadline_index_new, []))"
  have run: "run_events di_exec [EvArm (WaiterId 1) 3 0, EvPopDue 5 9, EvArm (WaiterId 1) 4 5,
    EvDisarm \<lparr>dk_instant = 4, dk_waiter_id = WaiterId 1\<rparr>,
    EvArm (WaiterId 1) 2 5, EvArm (WaiterId 1) 6 5, EvPopDue 7 9] (deadline_index_new, []) = Some (fst s, snd s)"
    unfolding s_def by code_simp
  have "fired_of (WaiterId 1) (snd s) = [3, 6]" unfolding s_def by code_simp
  moreover have "sorted_wrt (<) (fired_of (WaiterId 1) (snd s))"
    using deadline_no_refire [OF run, of "WaiterId 1"] by simp
  ultimately show ?thesis using run by blast
qed

end
