(* ===== verification/Owner_Budget.thy ===== *)
theory Owner_Budget
  imports Ready_Queues Deadline_Index
begin

text \<open>
  \<open>src/src/daemon/owner_budget.rs\<close>: cleanup obligations and the admission threshold, over the
  part of \<open>DaemonControlState\<close> they touch: the budget, the run queue, the deadline index, the
  identity source and the number of retained requests.  An obligation's \<open>poll\<close> closure is an
  argument of the operation that calls it; the runtime it may reach is a parameter.
\<close>

section \<open>Data\<close>

datatype obligation_poll = ObPending | ObReadyAgain | ObDone

text \<open>The stored closure: the one it was retained with, or the constant \<open>Pending\<close> closure.\<close>

datatype obligation_fn = RetainedPoll | ConstantPending

record cleanup_obligation =
  co_terminal :: bool
  co_label :: string
  co_ready_key :: "ready_key option"
  co_deadline_key :: "deadline_key option"
  co_last_core_phase :: u64
  co_past_deadline :: bool
  co_poll :: obligation_fn

record owner_budget_counters =
  obc_refused :: u64
  obc_obligations_past_deadline :: u64

record owner_budget =
  ob_bound :: usize
  ob_admitted_peers :: "string oset"
  ob_obligations :: "(waiter_id, cleanup_obligation) omap"
  ob_counters :: owner_budget_counters

record control_state =
  cs_budget :: owner_budget
  cs_ready :: ready_queues
  cs_deadlines :: deadline_index
  cs_waiter_ids :: waiter_id_source
  cs_pending_requests :: usize
  cs_cleanup_by_reason :: "(string, nat) omap"

definition DAEMON_MAX_CONNECTIONS :: usize where
  "DAEMON_MAX_CONNECTIONS = 64"

definition MAX_OUTSTANDING_REQUESTS :: usize where
  "MAX_OUTSTANDING_REQUESTS = 32"

definition OWNER_BUDGET_CAPACITY :: usize where
  "OWNER_BUDGET_CAPACITY = DAEMON_MAX_CONNECTIONS * (MAX_OUTSTANDING_REQUESTS + 1)"

definition RETAINED_OPERATION_DEADLINE :: nat where
  "RETAINED_OPERATION_DEADLINE = 30000000000"

definition READY_INITIAL :: ready_reasons where
  "READY_INITIAL = 1"

definition READY_CORE_COMPLETION :: ready_reasons where
  "READY_CORE_COMPLETION = 2"

definition READY_DEADLINE :: ready_reasons where
  "READY_DEADLINE = 16"

section \<open>The budget\<close>

definition owner_budget_with_bound :: "usize \<Rightarrow> owner_budget" where
  "owner_budget_with_bound n =
     \<lparr>ob_bound = n, ob_admitted_peers = [], ob_obligations = [],
      ob_counters = \<lparr>obc_refused = 0, obc_obligations_past_deadline = 0\<rparr>\<rparr>"

definition has_room :: "usize \<Rightarrow> owner_budget \<Rightarrow> bool" where
  "has_room retained b \<longleftrightarrow>
     length (ob_obligations b) + length (ob_admitted_peers b) + retained < ob_bound b"

definition admits_work :: "usize \<Rightarrow> owner_budget \<Rightarrow> bool \<times> owner_budget" where
  "admits_work retained b =
     (if \<not> has_room retained b
      then (False, b\<lparr>ob_counters := obc_refused_update (\<lambda>n. saturating_add n 1) (ob_counters b)\<rparr>)
      else (True, b))"

definition admit_peer :: "string \<Rightarrow> usize \<Rightarrow> owner_budget \<Rightarrow> bool \<times> owner_budget" where
  "admit_peer grant retained b =
     (let (ok, b') = admits_work retained b
      in if \<not> ok then (False, b')
         else (True, b'\<lparr>ob_admitted_peers := os_insert grant (ob_admitted_peers b')\<rparr>))"

definition release_peer :: "string \<Rightarrow> owner_budget \<Rightarrow> bool \<times> owner_budget" where
  "release_peer grant b =
     (grant \<in> set (ob_admitted_peers b), b\<lparr>ob_admitted_peers := os_remove grant (ob_admitted_peers b)\<rparr>)"

definition peer_admitted :: "string \<Rightarrow> owner_budget \<Rightarrow> bool" where
  "peer_admitted grant b \<longleftrightarrow> grant \<in> set (ob_admitted_peers b)"

definition clear_obligation_deadline :: "waiter_id \<Rightarrow> owner_budget \<Rightarrow> bool \<times> owner_budget" where
  "clear_obligation_deadline w b =
     (if om_contains (ob_obligations b) w
      then (True, ob_obligations_update (om_modify w (\<lambda>ob. ob\<lparr>co_deadline_key := None\<rparr>)) b)
      else (False, b))"

text \<open>
  \<open>dispose_terminal_obligations\<close>: one pass over the obligations in key order.  \<open>disposed w\<close> says
  that polling the disposal job of \<open>w\<close> finds it disposed; \<open>permits\<close> counts the executor's free
  permits, taken for a new job and returned by a disposed one.
\<close>

definition dispose_one ::
  "(waiter_id \<Rightarrow> bool) \<Rightarrow> waiter_id \<Rightarrow> nat \<times> owner_budget \<Rightarrow> nat \<times> owner_budget"
where
  "dispose_one disposed w s =
     (let (permits, b) = s in
      case om_get (ob_obligations b) w of
        None \<Rightarrow> s
      | Some ob \<Rightarrow>
          if co_terminal ob then
            (if disposed w then (permits + 1, b\<lparr>ob_obligations := om_remove w (ob_obligations b)\<rparr>) else s)
          else if 0 < permits then
            (permits - 1,
             b\<lparr>ob_obligations :=
                 om_modify w (\<lambda>ob. ob\<lparr>co_terminal := True, co_poll := ConstantPending\<rparr>) (ob_obligations b)\<rparr>)
          else s)"

definition remaining_keys :: "'k :: linorder option \<Rightarrow> ('k, 'v) omap \<Rightarrow> 'k list" where
  "remaining_keys c m = (case c of None \<Rightarrow> om_keys m | Some k \<Rightarrow> filter (\<lambda>l. k < l) (om_keys m))"

lemma om_next_Some_remaining:
  assumes nxt: "om_next m c = Some w" and m': "om_keys m' = om_keys m \<or> m' = om_remove w m"
  shows "length (remaining_keys (Some w) m') < length (remaining_keys c m)"
proof -
  have w: "w \<in> set (remaining_keys c m)" and cw: "c = Some k \<Longrightarrow> k < w" for k
    using nxt by (force simp: om_next_def om_after_def remaining_keys_def filter_eq_Cons_iff
        split: list.splits option.splits)+
  have "filter (\<lambda>l. w < l) (om_keys m') = filter (\<lambda>l. w < l) (om_keys m)"
    using m'
  proof
    assume m': "m' = om_remove w m"
    have "(\<lambda>e :: 'a \<times> 'b. fst e \<noteq> w \<and> w < fst e) = (\<lambda>e. w < fst e)" by auto
    then show ?thesis by (simp add: m' om_remove_def filter_map comp_def)
  qed simp
  also have "\<dots> = filter (\<lambda>l. w < l) (remaining_keys c m)"
    using cw by (auto simp: remaining_keys_def split: option.splits intro!: filter_cong)
  finally have "remaining_keys (Some w) m' = filter (\<lambda>l. w < l) (remaining_keys c m)"
    by (simp add: remaining_keys_def)
  then show ?thesis using length_filter_less [OF w, of "\<lambda>l. w < l"] by simp
qed

lemma dispose_one_keys:
  "om_keys (ob_obligations (snd (dispose_one d w s))) = om_keys (ob_obligations (snd s)) \<or>
   ob_obligations (snd (dispose_one d w s)) = om_remove w (ob_obligations (snd s))"
  by (auto simp: dispose_one_def split: prod.splits option.splits)

function dispose_loop ::
  "(waiter_id \<Rightarrow> bool) \<Rightarrow> waiter_id option \<Rightarrow> nat \<times> owner_budget \<Rightarrow> nat \<times> owner_budget"
where
  "dispose_loop disposed after s =
     (case om_next (ob_obligations (snd s)) after of
        None \<Rightarrow> s
      | Some w \<Rightarrow> dispose_loop disposed (Some w) (dispose_one disposed w s))"
  by auto
termination
  by (relation "measure (\<lambda>(d, after, s). length (remaining_keys after (ob_obligations (snd s))))")
    (simp_all add: om_next_Some_remaining dispose_one_keys)

declare dispose_loop.simps [simp del]

definition dispose_terminal_obligations ::
  "(waiter_id \<Rightarrow> bool) \<Rightarrow> nat \<Rightarrow> owner_budget \<Rightarrow> bool \<times> nat \<times> owner_budget"
where
  "dispose_terminal_obligations disposed permits b =
     (let s = dispose_loop disposed None (permits, b) in (ob_obligations (snd s) = [], s))"

section \<open>Operations on the control state\<close>

definition mark_obligation_ready :: "waiter_id \<Rightarrow> ready_reasons \<Rightarrow> control_state \<Rightarrow> bool \<times> control_state" where
  "mark_obligation_ready w reason s =
     (if \<not> om_contains (ob_obligations (cs_budget s)) w then (False, s)
      else case rq_mark w Cleanup reason (cs_ready s) of
        (Inl _, q) \<Rightarrow> (False, s\<lparr>cs_ready := q\<rparr>)
      | (Inr key, q) \<Rightarrow>
          (True,
           s\<lparr>cs_ready := q,
             cs_budget := ob_obligations_update (om_modify w (\<lambda>ob. ob\<lparr>co_ready_key := Some key\<rparr>)) (cs_budget s)\<rparr>))"

text \<open>\<open>None\<close> is the panic of an \<open>expect\<close>.\<close>

definition retain_owner_obligation ::
  "waiter_id \<Rightarrow> string \<Rightarrow> instant \<Rightarrow> control_state \<Rightarrow> control_state option"
where
  "retain_owner_obligation w label now s =
     (case di_arm w (now + RETAINED_OPERATION_DEADLINE) now (cs_deadlines s) of
        (Inl _, _) \<Rightarrow> None
      | (Inr arm, d) \<Rightarrow>
          let ob = \<lparr>co_terminal = False, co_label = label, co_ready_key = None,
                    co_deadline_key = Some (da_key arm), co_last_core_phase = 0,
                    co_past_deadline = False, co_poll = RetainedPoll\<rparr>;
              s' = s\<lparr>cs_deadlines := d, cs_budget := ob_obligations_update (om_insert w ob) (cs_budget s)\<rparr>
          in Some (snd (mark_obligation_ready w READY_INITIAL s')))"

definition allocate_and_retain_owner_obligation ::
  "string \<Rightarrow> instant \<Rightarrow> control_state \<Rightarrow> control_state option"
where
  "allocate_and_retain_owner_obligation label now s =
     (case waiter_ids_next (cs_waiter_ids s) of
        None \<Rightarrow> None
      | Some (w, ids) \<Rightarrow> retain_owner_obligation w label now (s\<lparr>cs_waiter_ids := ids\<rparr>))"

definition absorb_obligation_core_completion :: "owner_work_identity \<Rightarrow> control_state \<Rightarrow> bool \<times> control_state" where
  "absorb_obligation_core_completion i s =
     (case om_get (ob_obligations (cs_budget s)) (owi_waiter_id i) of
        None \<Rightarrow> (False, s)
      | Some ob \<Rightarrow>
          (case checked_add (co_last_core_phase ob) 1 of
             None \<Rightarrow> (True, s)
           | Some expected \<Rightarrow>
               if owi_phase i = expected then
                 (True, snd (mark_obligation_ready (owi_waiter_id i) READY_CORE_COMPLETION
                    (s\<lparr>cs_budget := ob_obligations_update
                         (om_modify (owi_waiter_id i) (\<lambda>ob. ob\<lparr>co_last_core_phase := owi_phase i\<rparr>)) (cs_budget s)\<rparr>)))
               else (True, s)))"

text \<open>The obligation branch of \<open>mark_due_owner_deadlines\<close> in \<open>daemon/control/pending.rs\<close>.\<close>

definition expire_obligation_deadline :: "waiter_id \<Rightarrow> control_state \<Rightarrow> control_state" where
  "expire_obligation_deadline w s =
     (let (cleared, b) = clear_obligation_deadline w (cs_budget s)
      in if cleared then snd (mark_obligation_ready w READY_DEADLINE (s\<lparr>cs_budget := b\<rparr>)) else s)"

definition count_reason :: "string \<Rightarrow> (string, nat) omap \<Rightarrow> (string, nat) omap" where
  "count_reason r m = (case om_get m r of None \<Rightarrow> om_insert r 1 m | Some n \<Rightarrow> om_insert r (n + 1) m)"

text \<open>
  The runtime is the part of the daemon the poll reaches: reaping detached operations and
  retiring a waiter's Core work.  \<open>poll\<close> is the closure.
\<close>

record 'rt runtime_ops =
  rt_reap_detached_core_operations :: "'rt \<Rightarrow> 'rt"
  rt_retire_owner_core_waiter :: "waiter_id \<Rightarrow> 'rt \<Rightarrow> 'rt"

definition note_past_deadline :: "ready_item \<Rightarrow> cleanup_obligation \<Rightarrow> control_state \<Rightarrow> cleanup_obligation \<times> control_state" where
  "note_past_deadline item ob s =
     (if reasons_contains (ri_reasons item) READY_DEADLINE \<and> \<not> co_past_deadline ob
      then (ob\<lparr>co_past_deadline := True\<rparr>,
            s\<lparr>cs_budget := ob_counters_update
                 (obc_obligations_past_deadline_update (\<lambda>n. saturating_add n 1)) (cs_budget s),
              cs_cleanup_by_reason := count_reason (''past_deadline:'' @ co_label ob) (cs_cleanup_by_reason s)\<rparr>)
      else (ob, s))"

definition settle_obligation ::
  "'rt runtime_ops \<Rightarrow> waiter_id \<Rightarrow> cleanup_obligation \<Rightarrow> obligation_poll \<Rightarrow> 'rt option \<times> control_state \<Rightarrow>
   'rt option \<times> control_state"
where
  "settle_obligation ops w ob r ds =
     (let (daemon, s) = ds;
          back = s\<lparr>cs_budget := ob_obligations_update (om_insert w ob) (cs_budget s)\<rparr>
      in case r of
           ObDone \<Rightarrow>
             (map_option (rt_retire_owner_core_waiter ops w) daemon,
              s\<lparr>cs_deadlines := snd (di_retire w (cs_deadlines s))\<rparr>)
         | ObPending \<Rightarrow> (daemon, back)
         | ObReadyAgain \<Rightarrow> (daemon, snd (mark_obligation_ready w READY_INITIAL back)))"

definition poll_owner_obligation_item ::
  "'rt runtime_ops \<Rightarrow>
   (waiter_id \<Rightarrow> 'rt option \<times> control_state \<Rightarrow> (obligation_poll \<times> 'rt option \<times> control_state) option) \<Rightarrow>
   ready_item \<Rightarrow> 'rt option \<times> control_state \<Rightarrow> (bool \<times> 'rt option \<times> control_state) option"
where
  "poll_owner_obligation_item ops poll item ds =
     (let w = rk_waiter_id (ri_key item); s = snd ds in
      case om_get (ob_obligations (cs_budget s)) w of
        None \<Rightarrow> Some (False, ds)
      | Some ob0 \<Rightarrow>
          let s1 = s\<lparr>cs_budget := ob_obligations_update (om_remove w) (cs_budget s)\<rparr>;
              daemon = map_option (rt_reap_detached_core_operations ops) (fst ds);
              (ob, s2) = note_past_deadline item (ob0\<lparr>co_ready_key := None\<rparr>) s1
          in map_option (\<lambda>(r, ds'). (True, settle_obligation ops w ob r ds'))
               (if co_poll ob = ConstantPending then Some (ObPending, daemon, s2) else poll w (daemon, s2)))"

text \<open>
  \<open>drive_core_slot\<close>: \<open>submit\<close> makes a ticket and may change the control state; \<open>poll\<close> reads one.
\<close>

datatype 'a ticket_poll = TkPending | TkRefused | TkLost | TkReady 'a

datatype 'a core_work_poll = CwPending | CwRetry | CwLost | CwReady 'a

definition drive_core_slot ::
  "bool \<Rightarrow> ('s \<Rightarrow> 't \<times> 's) \<Rightarrow> ('t \<Rightarrow> 'a ticket_poll \<times> 't) \<Rightarrow> 't option \<Rightarrow> 's \<Rightarrow> 'a core_work_poll \<times> 't option \<times> 's"
where
  "drive_core_slot has_runtime submit poll slot s =
     (let drive = (\<lambda>t s. case poll t of
            (TkPending, t') \<Rightarrow> (CwPending, Some t', s)
          | (TkRefused, _) \<Rightarrow> (CwRetry, None, s)
          | (TkLost, _) \<Rightarrow> (CwLost, None, s)
          | (TkReady v, _) \<Rightarrow> (CwReady v, None, s))
      in case slot of
           Some t \<Rightarrow> drive t s
         | None \<Rightarrow>
             if \<not> has_runtime then (CwLost, None, s)
             else let (t, s') = submit s in drive t s')"

definition control_admits_work :: "control_state \<Rightarrow> bool \<times> control_state" where
  "control_admits_work s =
     (let r = admits_work (cs_pending_requests s) (cs_budget s) in (fst r, s\<lparr>cs_budget := snd r\<rparr>))"

definition control_has_room :: "control_state \<Rightarrow> bool" where
  "control_has_room s \<longleftrightarrow> has_room (cs_pending_requests s) (cs_budget s)"

definition control_admit_peer :: "string \<Rightarrow> control_state \<Rightarrow> bool \<times> control_state" where
  "control_admit_peer grant s =
     (let r = admit_peer grant (cs_pending_requests s) (cs_budget s) in (fst r, s\<lparr>cs_budget := snd r\<rparr>))"

section \<open>Schedules\<close>

text \<open>What the owner and the closures it polls do to the control state.\<close>

datatype ctl_op =
    OpRetain string instant
  | OpMark waiter_id ready_reasons
  | OpAbsorb owner_work_identity
  | OpExpire waiter_id
  | OpAdmitsWork
  | OpAdmitPeer string
  | OpReleasePeer string
  | OpRequests usize

fun ctl_op_exec :: "ctl_op \<Rightarrow> control_state \<Rightarrow> control_state option" where
  "ctl_op_exec (OpRetain label now) s = allocate_and_retain_owner_obligation label now s"
| "ctl_op_exec (OpMark w r) s = Some (snd (mark_obligation_ready w r s))"
| "ctl_op_exec (OpAbsorb i) s = Some (snd (absorb_obligation_core_completion i s))"
| "ctl_op_exec (OpExpire w) s = Some (expire_obligation_deadline w s)"
| "ctl_op_exec OpAdmitsWork s = Some (snd (control_admits_work s))"
| "ctl_op_exec (OpAdmitPeer g) s = Some (snd (control_admit_peer g s))"
| "ctl_op_exec (OpReleasePeer g) s = Some (s\<lparr>cs_budget := snd (release_peer g (cs_budget s))\<rparr>)"
| "ctl_op_exec (OpRequests n) s = Some (s\<lparr>cs_pending_requests := n\<rparr>)"

text \<open>
  \<open>EvPoll item r ops\<close> polls an obligation whose closure performs \<open>ops\<close> and answers \<open>r\<close>;
  \<open>EvTerminal ws n\<close> is a terminal disposal pass that finds the jobs of \<open>ws\<close> disposed, with \<open>n\<close>
  free permits; \<open>EvServe\<close> and \<open>EvHarvest\<close> take from the run queue and from the deadline index.
\<close>

datatype ctl_event =
    EvOp ctl_op
  | EvPoll ready_item obligation_poll "ctl_op list"
  | EvTerminal "waiter_id list" nat
  | EvServe
  | EvHarvest instant nat

definition closure ::
  "obligation_poll \<Rightarrow> ctl_op list \<Rightarrow> waiter_id \<Rightarrow> unit option \<times> control_state \<Rightarrow>
   (obligation_poll \<times> unit option \<times> control_state) option"
where
  "closure r ops w ds = map_option (\<lambda>s. (r, fst ds, s)) (run_events ctl_op_exec ops (snd ds))"

definition unit_runtime :: "unit runtime_ops" where
  "unit_runtime = \<lparr>rt_reap_detached_core_operations = id, rt_retire_owner_core_waiter = (\<lambda>_. id)\<rparr>"

fun ctl_exec :: "ctl_event \<Rightarrow> control_state \<Rightarrow> control_state option" where
  "ctl_exec (EvOp op) s = ctl_op_exec op s"
| "ctl_exec (EvPoll item r ops) s =
     map_option (\<lambda>(_, _, s'). s') (poll_owner_obligation_item unit_runtime (closure r ops) item (Some (), s))"
| "ctl_exec (EvTerminal ws n) s =
     Some (s\<lparr>cs_budget := snd (snd (dispose_terminal_obligations (\<lambda>w. w \<in> set ws) n (cs_budget s)))\<rparr>)"
| "ctl_exec EvServe s = Some (s\<lparr>cs_ready := snd (rq_pop_next (cs_ready s))\<rparr>)"
| "ctl_exec (EvHarvest now n) s =
     map_option (\<lambda>(_, d). s\<lparr>cs_deadlines := d\<rparr>) (di_pop_due now n (cs_deadlines s))"

definition control_start :: "usize \<Rightarrow> control_state" where
  "control_start bound =
     \<lparr>cs_budget = owner_budget_with_bound bound, cs_ready = ready_queues_new,
      cs_deadlines = deadline_index_new, cs_waiter_ids = \<lparr>wis_next = 0\<rparr>,
      cs_pending_requests = 0, cs_cleanup_by_reason = []\<rparr>"

section \<open>Invariant\<close>

definition issued :: "control_state \<Rightarrow> waiter_id \<Rightarrow> bool" where
  "issued s w \<longleftrightarrow> waiter_raw w \<le> wis_next (cs_waiter_ids s)"

definition obliged :: "control_state \<Rightarrow> waiter_id \<Rightarrow> bool" where
  "obliged s w \<longleftrightarrow> om_contains (ob_obligations (cs_budget s)) w"

definition ctl_ok :: "control_state \<Rightarrow> bool" where
  "ctl_ok s \<longleftrightarrow>
     om_ok (ob_obligations (cs_budget s)) \<and> os_ok (ob_admitted_peers (cs_budget s)) \<and>
     rq_ok (cs_ready s) \<and> di_ok (cs_deadlines s) \<and>
     (\<forall>w. obliged s w \<longrightarrow> issued s w) \<and>
     (\<forall>w. om_get (di_states (cs_deadlines s)) w \<noteq> None \<longrightarrow> issued s w)"

lemma ctl_ok_start: "ctl_ok (control_start bound)"
  using rq_ok_new di_ok_new
  by (simp add: ctl_ok_def obliged_def om_contains_def control_start_def owner_budget_with_bound_def
      deadline_index_new_def)

lemma mark_obligation_ready_ok [hub_inv]:
  "ctl_ok s \<Longrightarrow> ctl_ok (snd (mark_obligation_ready w r s))"
  using rq_mark_ok [of "cs_ready s" w Cleanup r]
  by (auto simp: mark_obligation_ready_def ctl_ok_def obliged_def om_contains_def issued_def
      split: sum.splits prod.splits if_splits)

lemma mark_obligation_ready_obliged [simp]:
  "obliged (snd (mark_obligation_ready w r s)) v \<longleftrightarrow> obliged s v"
  by (auto simp: mark_obligation_ready_def obliged_def om_contains_def split: sum.splits prod.splits)

lemma mark_obligation_ready_issued [simp]: "issued (snd (mark_obligation_ready w r s)) v \<longleftrightarrow> issued s v"
  by (auto simp: mark_obligation_ready_def issued_def split: sum.splits prod.splits)

text \<open>
  A fresh identity has neither an obligation nor a deadline, so retaining under it never
  panics and never overwrites one.
\<close>

lemma di_arm_fresh:
  "om_get (di_states d) w = None \<Longrightarrow>
     fst (di_arm w t now d) = Inr \<lparr>da_key = \<lparr>dk_instant = t, dk_waiter_id = w\<rparr>, da_is_due = t \<le> now\<rparr> \<and>
     map_of (di_states (snd (di_arm w t now d))) =
       (map_of (di_states d))(w \<mapsto> \<lparr>ds_armed = Some t, ds_last_fired = None\<rparr>)"
  by (simp add: di_arm_def di_state_def deadline_state_default_def Let_def)

definition retained_state :: "waiter_id \<Rightarrow> string \<Rightarrow> instant \<Rightarrow> control_state \<Rightarrow> control_state" where
  "retained_state w label now s =
     s\<lparr>cs_waiter_ids := (cs_waiter_ids s)\<lparr>wis_next := waiter_raw w\<rparr>,
       cs_deadlines := snd (di_arm w (now + RETAINED_OPERATION_DEADLINE) now (cs_deadlines s)),
       cs_budget := ob_obligations_update
         (om_insert w \<lparr>co_terminal = False, co_label = label, co_ready_key = None,
            co_deadline_key = Some \<lparr>dk_instant = now + RETAINED_OPERATION_DEADLINE, dk_waiter_id = w\<rparr>,
            co_last_core_phase = 0, co_past_deadline = False, co_poll = RetainedPoll\<rparr>) (cs_budget s)\<rparr>"

lemma allocate_and_retain_eq:
  assumes ok: "ctl_ok s" and ids: "wis_next (cs_waiter_ids s) < u64_max"
  shows "allocate_and_retain_owner_obligation label now s =
    Some (snd (mark_obligation_ready (WaiterId (wis_next (cs_waiter_ids s) + 1)) READY_INITIAL
      (retained_state (WaiterId (wis_next (cs_waiter_ids s) + 1)) label now s)))"
proof -
  let ?w = "WaiterId (wis_next (cs_waiter_ids s) + 1)"
  have "\<not> issued s ?w" by (simp add: issued_def)
  then have "om_get (di_states (cs_deadlines s)) ?w = None" using ok by (auto simp: ctl_ok_def)
  from di_arm_fresh [OF this, of "now + RETAINED_OPERATION_DEADLINE" now] show ?thesis
    using ids
    by (cases "di_arm ?w (now + RETAINED_OPERATION_DEADLINE) now (cs_deadlines s)")
      (simp add: allocate_and_retain_owner_obligation_def waiter_ids_next_def
         retain_owner_obligation_def retained_state_def checked_add_def)
qed

lemma retained_state_ok:
  assumes ok: "ctl_ok s" and w: "wis_next (cs_waiter_ids s) \<le> waiter_raw w"
  shows "ctl_ok (retained_state w label now s)"
proof -
  have keys: "om_get (di_states (snd (di_arm w t now d))) v \<noteq> None \<Longrightarrow> v = w \<or> om_get (di_states d) v \<noteq> None" for t d v
    by (auto simp: di_arm_def Let_def split: option.splits if_splits)
  have "waiter_raw v \<le> waiter_raw w"
    if "om_get (di_states (snd (di_arm w t now (cs_deadlines s)))) v \<noteq> None" for t v
    using keys [OF that] ok w by (fastforce simp: ctl_ok_def issued_def)
  then show ?thesis
    using ok w unfolding ctl_ok_def retained_state_def issued_def
    by (auto simp: di_arm_ok obliged_def om_contains_def simp del: not_None_eq split: if_splits
        intro: order_trans)
qed

definition ctl_ext :: "control_state \<Rightarrow> control_state \<Rightarrow> bool" where
  "ctl_ext s s' \<longleftrightarrow> ctl_ok s' \<and> (\<forall>v. issued s v \<longrightarrow> issued s' v) \<and> (\<forall>v. obliged s v \<longrightarrow> obliged s' v)"

lemma ctl_ext_refl: "ctl_ok s \<Longrightarrow> ctl_ext s s"
  by (simp add: ctl_ext_def)

lemma ctl_ext_trans: "ctl_ext s t \<Longrightarrow> ctl_ext t u \<Longrightarrow> ctl_ext s u"
  by (auto simp: ctl_ext_def)

lemma ctl_ext_mark: "ctl_ok s \<Longrightarrow> ctl_ext s (snd (mark_obligation_ready w r s))"
  by (simp add: ctl_ext_def hub_inv)

text \<open>Updates of one obligation's fields, of the peers and of the counters.\<close>

lemma ctl_ext_modify:
  "ctl_ok s \<Longrightarrow> ctl_ext s (s\<lparr>cs_budget := ob_obligations_update (om_modify w f) (cs_budget s)\<rparr>)"
  by (auto simp: ctl_ext_def ctl_ok_def issued_def obliged_def om_contains_def split: if_splits)

lemma ctl_ext_budget:
  assumes "ctl_ok s" and "os_ok (ob_admitted_peers b)" and "ob_obligations b = ob_obligations (cs_budget s)"
  shows "ctl_ext s (s\<lparr>cs_budget := b\<rparr>)"
  using assms by (auto simp: ctl_ext_def ctl_ok_def issued_def obliged_def)

lemma ctl_ext_retain:
  assumes ok: "ctl_ok s" and run: "allocate_and_retain_owner_obligation label now s = Some s'"
  shows "ctl_ext s s'"
proof -
  let ?w = "WaiterId (wis_next (cs_waiter_ids s) + 1)"
  have ids: "wis_next (cs_waiter_ids s) < u64_max"
    using run by (auto simp: allocate_and_retain_owner_obligation_def waiter_ids_next_def split: option.splits)
  have s': "s' = snd (mark_obligation_ready ?w READY_INITIAL (retained_state ?w label now s))"
    using run allocate_and_retain_eq [OF ok ids, of label now] by simp
  have "ctl_ext s (retained_state ?w label now s)"
    using retained_state_ok [OF ok, of ?w] by (auto simp: ctl_ext_def retained_state_def issued_def obliged_def om_contains_def)
  moreover have "ctl_ext (retained_state ?w label now s) s'"
    unfolding s' by (rule ctl_ext_mark) (rule retained_state_ok [OF ok], simp)
  ultimately show ?thesis by (rule ctl_ext_trans)
qed

lemma ctl_ext_modify_mark:
  "ctl_ok s \<Longrightarrow> ctl_ext s (snd (mark_obligation_ready v r
     (s\<lparr>cs_budget := ob_obligations_update (om_modify w f) (cs_budget s)\<rparr>)))"
  using ctl_ext_trans [OF ctl_ext_modify ctl_ext_mark] ctl_ext_modify by (simp add: ctl_ext_def)

lemma ctl_ext_absorb: "ctl_ok s \<Longrightarrow> ctl_ext s (snd (absorb_obligation_core_completion i s))"
  by (simp add: absorb_obligation_core_completion_def ctl_ext_modify_mark ctl_ext_refl split: option.splits)

lemma ctl_ext_expire: "ctl_ok s \<Longrightarrow> ctl_ext s (expire_obligation_deadline w s)"
  by (simp add: expire_obligation_deadline_def clear_obligation_deadline_def ctl_ext_modify_mark ctl_ext_refl)

lemma admits_work_keeps:
  "ob_admitted_peers (snd (admits_work n b)) = ob_admitted_peers b"
  "ob_obligations (snd (admits_work n b)) = ob_obligations b"
  by (simp_all add: admits_work_def)

lemma admit_peer_keeps:
  "os_ok (ob_admitted_peers b) \<Longrightarrow> os_ok (ob_admitted_peers (snd (admit_peer g n b)))"
  "ob_obligations (snd (admit_peer g n b)) = ob_obligations b"
  by (simp_all add: admit_peer_def admits_work_def)

lemma ctl_ext_op:
  assumes ok: "ctl_ok s" and run: "ctl_op_exec op s = Some s'"
  shows "ctl_ext s s'"
proof (cases op)
  case (OpAdmitPeer g)
  with run ok show ?thesis
    by (auto simp: control_admit_peer_def ctl_ok_def admit_peer_keeps Let_def intro!: ctl_ext_budget [OF ok])
next
  case (OpReleasePeer g)
  with run ok show ?thesis
    by (auto simp: release_peer_def ctl_ok_def intro!: ctl_ext_budget [OF ok])
next
  case OpAdmitsWork
  with run ok show ?thesis
    by (auto simp: control_admits_work_def ctl_ok_def admits_work_keeps Let_def intro!: ctl_ext_budget [OF ok])
next
  case (OpRequests n)
  with run ok show ?thesis by (auto simp: ctl_ext_def ctl_ok_def issued_def obliged_def)
qed (use run ok in \<open>auto intro: ctl_ext_retain ctl_ext_mark ctl_ext_absorb ctl_ext_expire\<close>)

lemma ctl_ext_ops: "ctl_ok s \<Longrightarrow> run_events ctl_op_exec ops s = Some s' \<Longrightarrow> ctl_ext s s'"
proof (induction ops arbitrary: s)
  case (Cons op ops)
  then obtain t where t: "ctl_op_exec op s = Some t" "run_events ctl_op_exec ops t = Some s'"
    by (auto split: option.splits)
  with ctl_ext_op [OF Cons.prems(1)] have "ctl_ext s t" by blast
  moreover with Cons.IH [of t] t have "ctl_ext t s'" by (simp add: ctl_ext_def)
  ultimately show ?case by (rule ctl_ext_trans)
qed (simp add: ctl_ext_refl)

text \<open>Taking an obligation out and putting it back.\<close>

lemma ctl_ok_take:
  "ctl_ok s \<Longrightarrow> ctl_ok (s\<lparr>cs_budget := ob_obligations_update (om_remove w) (cs_budget s)\<rparr>)"
  by (auto simp: ctl_ok_def obliged_def om_contains_def issued_def split: if_splits)

lemma ctl_ok_put:
  "ctl_ok s \<Longrightarrow> issued s w \<Longrightarrow>
     ctl_ok (s\<lparr>cs_budget := ob_obligations_update (om_insert w ob) (cs_budget s)\<rparr>)"
  by (auto simp: ctl_ok_def obliged_def om_contains_def issued_def split: if_splits)

lemma ctl_ok_counted:
  "ctl_ok s \<Longrightarrow> ctl_ok (s\<lparr>cs_budget := ob_counters_update f (cs_budget s), cs_cleanup_by_reason := m\<rparr>)"
  by (simp add: ctl_ok_def obliged_def issued_def)

lemma ctl_ok_retire:
  "ctl_ok s \<Longrightarrow> ctl_ok (s\<lparr>cs_deadlines := snd (di_retire w (cs_deadlines s))\<rparr>)"
  by (auto simp: ctl_ok_def obliged_def issued_def di_retire_ok)
    (auto simp: di_retire_def Let_def split: option.splits if_splits)

text \<open>
  Polling an obligation: the other obligations stay, and its own stays unless the closure
  answered \<open>Done\<close>.
\<close>

lemma note_past_deadline_ok:
  "ctl_ok s \<Longrightarrow> ctl_ok (snd (note_past_deadline item ob s))"
  "obliged (snd (note_past_deadline item ob s)) v \<longleftrightarrow> obliged s v"
  "issued (snd (note_past_deadline item ob s)) v \<longleftrightarrow> issued s v"
  by (simp_all add: note_past_deadline_def ctl_ok_counted obliged_def issued_def)

lemma obliged_put:
  "obliged (s\<lparr>cs_budget := ob_obligations_update (om_insert w ob) (cs_budget s)\<rparr>) v \<longleftrightarrow> v = w \<or> obliged s v"
  by (simp add: obliged_def om_contains_def)

lemma settle_obligation_keeps:
  assumes "ctl_ok s" and "issued s w"
  shows "ctl_ok (snd (settle_obligation ops w ob r (d, s))) \<and>
    (obliged s v \<or> v = w \<and> r \<noteq> ObDone \<longrightarrow> obliged (snd (settle_obligation ops w ob r (d, s))) v)"
proof (cases r)
  case ObDone
  then show ?thesis using ctl_ok_retire [OF assms(1)] by (simp add: settle_obligation_def obliged_def)
qed (auto simp: settle_obligation_def obliged_put intro!: ctl_ok_put mark_obligation_ready_ok assms)

lemma poll_keeps:
  assumes ok: "ctl_ok s" and run: "ctl_exec (EvPoll item r ops) s = Some s'"
  shows "ctl_ok s' \<and> (\<forall>v. obliged s v \<and> (v = rk_waiter_id (ri_key item) \<longrightarrow> r \<noteq> ObDone) \<longrightarrow> obliged s' v)"
proof (cases "om_get (ob_obligations (cs_budget s)) (rk_waiter_id (ri_key item))")
  case None
  with run ok show ?thesis by (auto simp: poll_owner_obligation_item_def)
next
  case (Some ob0)
  define w where "w = rk_waiter_id (ri_key item)"
  have w: "issued s w" using ok Some by (auto simp: ctl_ok_def obliged_def om_contains_def w_def)
  define s1 where "s1 = s\<lparr>cs_budget := ob_obligations_update (om_remove w) (cs_budget s)\<rparr>"
  obtain ob s2 where pd: "note_past_deadline item (ob0\<lparr>co_ready_key := None\<rparr>) s1 = (ob, s2)" by fastforce
  have s2: "ctl_ok s2" "obliged s v \<Longrightarrow> v \<noteq> w \<Longrightarrow> obliged s2 v" "issued s2 w" for v
    using note_past_deadline_ok(1) [of s1 item "ob0\<lparr>co_ready_key := None\<rparr>"] ctl_ok_take [OF ok, of w] w
      note_past_deadline_ok(2,3) [of item "ob0\<lparr>co_ready_key := None\<rparr>" s1]
    unfolding pd by (auto simp: s1_def obliged_def om_contains_def issued_def)
  obtain r' d t where poll: "(if co_poll ob = ConstantPending then Some (ObPending, Some (), s2)
      else closure r ops w (Some (), s2)) = Some (r', d, t)"
    and s': "s' = snd (settle_obligation unit_runtime w ob r' (d, t))"
    using run Some pd unfolding s1_def w_def
    by (force simp: poll_owner_obligation_item_def Let_def unit_runtime_def split: prod.splits)
  from poll have r': "r \<noteq> ObDone \<Longrightarrow> r' \<noteq> ObDone" and "ctl_ext s2 t"
    using ctl_ext_ops [OF s2(1), of ops] ctl_ext_refl [OF s2(1)]
    by (auto simp: closure_def split: if_splits)
  then have t: "ctl_ok t" "issued t w" "\<And>v. obliged s2 v \<Longrightarrow> obliged t v"
    using s2(3) by (auto simp: ctl_ext_def)
  from settle_obligation_keeps [OF t(1,2)] show ?thesis
    using s2(2) t(3) r' unfolding s' w_def [symmetric] by metis
qed

lemma dispose_one_keeps:
  assumes "om_ok (ob_obligations (snd s))"
  shows "om_ok (ob_obligations (snd (dispose_one d w s))) \<and>
    ob_admitted_peers (snd (dispose_one d w s)) = ob_admitted_peers (snd s) \<and>
    (om_contains (ob_obligations (snd (dispose_one d w s))) v \<longrightarrow> om_contains (ob_obligations (snd s)) v) \<and>
    (om_contains (ob_obligations (snd s)) v \<and> \<not> d v \<longrightarrow> om_contains (ob_obligations (snd (dispose_one d w s))) v)"
  using assms
  by (auto simp: dispose_one_def om_contains_def split: prod.splits option.splits if_splits)

lemma dispose_loop_keeps:
  assumes "om_ok (ob_obligations (snd s))"
  shows "om_ok (ob_obligations (snd (dispose_loop d c s))) \<and>
    ob_admitted_peers (snd (dispose_loop d c s)) = ob_admitted_peers (snd s) \<and>
    (om_contains (ob_obligations (snd (dispose_loop d c s))) v \<longrightarrow> om_contains (ob_obligations (snd s)) v) \<and>
    (om_contains (ob_obligations (snd s)) v \<and> \<not> d v \<longrightarrow> om_contains (ob_obligations (snd (dispose_loop d c s))) v)"
  using assms
proof (induction d c s rule: dispose_loop.induct)
  case (1 d c s)
  show ?case
  proof (cases "om_next (ob_obligations (snd s)) c")
    case None
    then show ?thesis using "1.prems" by (simp add: dispose_loop.simps)
  next
    case (Some w)
    have eq: "dispose_loop d c s = dispose_loop d (Some w) (dispose_one d w s)"
      using Some by (simp add: dispose_loop.simps [of d c])
    show ?thesis
      using dispose_one_keeps [OF "1.prems", of d w v] "1.IH" [OF Some] unfolding eq by metis
  qed
qed

lemma terminal_keeps:
  assumes ok: "ctl_ok s" and run: "ctl_exec (EvTerminal ws n) s = Some s'"
  shows "ctl_ok s' \<and> (obliged s v \<and> v \<notin> set ws \<longrightarrow> obliged s' v)"
proof -
  have "om_ok (ob_obligations (snd (n, cs_budget s)))" using ok by (simp add: ctl_ok_def)
  note keeps = dispose_loop_keeps [OF this, of "\<lambda>w. w \<in> set ws" None]
  have s': "s' = s\<lparr>cs_budget := snd (dispose_loop (\<lambda>w. w \<in> set ws) None (n, cs_budget s))\<rparr>"
    using run by (simp add: dispose_terminal_obligations_def Let_def)
  show ?thesis using keeps ok unfolding s' ctl_ok_def obliged_def issued_def by simp
qed

lemma harvest_states:
  assumes "di_ok d" and "di_pop_due now n d = Some (due, d')" and "om_get (di_states d') w \<noteq> None"
  shows "om_get (di_states d) w \<noteq> None"
proof (cases "find (\<lambda>key. dk_waiter_id key = w) due")
  case None
  then show ?thesis using di_pop_due_SomeD(3) [OF assms(1,2), of w] assms(3) by (simp add: after_fire_def)
next
  case (Some key)
  then have "key \<in> set due" "dk_waiter_id key = w" by (auto simp: find_Some_iff)
  then have "(dk_instant key, w) \<in> set (di_deadlines d)"
    unfolding di_pop_due_SomeD(2) [OF assms(1,2)] by force
  then show ?thesis using di_ok_armed [OF assms(1)] by auto
qed

lemma ctl_exec_keeps:
  assumes ok: "ctl_ok s" and run: "ctl_exec e s = Some s'"
  shows "ctl_ok s' \<and> (obliged s v \<and>
    (\<forall>item ops. e = EvPoll item ObDone ops \<longrightarrow> rk_waiter_id (ri_key item) \<noteq> v) \<and>
    (\<forall>ws n. e = EvTerminal ws n \<longrightarrow> v \<notin> set ws) \<longrightarrow> obliged s' v)"
proof (cases e)
  case (EvOp op)
  with run ctl_ext_op [OF ok] show ?thesis by (auto simp: ctl_ext_def)
next
  case (EvPoll item r ops)
  with run poll_keeps [OF ok, of item r ops s'] show ?thesis by blast
next
  case (EvTerminal ws n)
  with run terminal_keeps [OF ok, of ws n s' v] show ?thesis by blast
next
  case EvServe
  with run ok rq_pop_next_ok [of "cs_ready s"] show ?thesis
    by (auto simp: ctl_ok_def obliged_def issued_def)
next
  case (EvHarvest now n)
  then obtain due d where d: "di_pop_due now n (cs_deadlines s) = Some (due, d)" "s' = s\<lparr>cs_deadlines := d\<rparr>"
    using run by auto
  have dok: "di_ok (cs_deadlines s)" using ok by (simp add: ctl_ok_def)
  show ?thesis
    using ok d(2) di_pop_due_SomeD(1) [OF dok d(1)] harvest_states [OF dok d(1)]
    by (auto simp: ctl_ok_def obliged_def issued_def)
qed

interpretation control: event_invariant ctl_exec ctl_ok
  by unfold_locales (use ctl_exec_keeps in blast)

lemmas control_eval = control_start_def allocate_and_retain_owner_obligation_def waiter_ids_next_def
  checked_add_def u64_max_def retain_owner_obligation_def di_arm_def di_state_def deadline_index_new_def
  deadline_state_default_def Let_def mark_obligation_ready_def om_contains_def rq_mark_def
  owner_budget_with_bound_def poll_owner_obligation_item_def note_past_deadline_def
  reasons_contains_def READY_DEADLINE_def closure_def settle_obligation_def om_remove_def om_modify_def
  ready_queues_new_def RETAINED_OPERATION_DEADLINE_def

section \<open>Properties\<close>



text \<open>C8. Retaining cleanup is never refused, even at the admission threshold.  In every
  reachable control state with an identity left, retention succeeds without panic: the new
  obligation has a fresh identity, the obligations there were are untouched, its deadline is
  armed thirty seconds ahead and, unless the run queue has no serial left, it is queued with
  the initial reason.\<close>

theorem owner_retention_total:
  assumes "run_events ctl_exec hist (control_start bound) = Some s"
    and "wis_next (cs_waiter_ids s) < u64_max"
  shows "\<exists>w s'. allocate_and_retain_owner_obligation label now s = Some s' \<and>
    \<not> obliged s w \<and> obliged s' w \<and>
    (\<forall>v. v \<noteq> w \<longrightarrow> om_get (ob_obligations (cs_budget s')) v = om_get (ob_obligations (cs_budget s)) v) \<and>
    (now + RETAINED_OPERATION_DEADLINE, w) \<in> set (di_deadlines (cs_deadlines s')) \<and>
    (rq_next_enqueue_serial (cs_ready s) < u64_max \<longrightarrow>
       (\<exists>row. om_get (rq_queued (cs_ready s')) w = Some row \<and> reasons_contains (ri_reasons row) READY_INITIAL))"
proof -
  define w where "w = WaiterId (wis_next (cs_waiter_ids s) + 1)"
  have ok: "ctl_ok s" using control.inv_run [OF assms(1) ctl_ok_start] .
  have fresh: "\<not> issued s w" by (simp add: issued_def w_def)
  then have none: "\<not> obliged s w" "om_get (di_states (cs_deadlines s)) w = None"
    using ok by (auto simp: ctl_ok_def)
  let ?t = "retained_state w label now s"
  have d: "(now + RETAINED_OPERATION_DEADLINE, w) \<in> set (di_deadlines (cs_deadlines ?t))"
    by (simp add: retained_state_def di_arm_def di_state_def none deadline_state_default_def Let_def)
  have ob: "om_contains (ob_obligations (cs_budget ?t)) w"
    by (simp add: retained_state_def om_contains_def)
  have row: "\<exists>row. om_get (rq_queued (snd (rq_mark w Cleanup READY_INITIAL (cs_ready s)))) w = Some row \<and>
      reasons_contains (ri_reasons row) READY_INITIAL" if "rq_next_enqueue_serial (cs_ready s) < u64_max"
    using that by (cases "om_get (rq_queued (cs_ready s)) w") (simp_all add: rq_mark_def checked_add_def Let_def)
  obtain r q where mark: "rq_mark w Cleanup READY_INITIAL (cs_ready s) = (r, q)" by fastforce
  have same: "cs_ready ?t = cs_ready s"
    "\<And>v. v \<noteq> w \<Longrightarrow> om_get (ob_obligations (cs_budget ?t)) v = om_get (ob_obligations (cs_budget s)) v"
    by (simp_all add: retained_state_def)
  show ?thesis
    using none(1) d ob row same mark unfolding allocate_and_retain_eq [OF ok assms(2), folded w_def]
    by (intro exI [of _ w] exI [of _ "snd (mark_obligation_ready w READY_INITIAL (retained_state w label now s))"])
      (auto simp: mark_obligation_ready_def obliged_def om_contains_def split: sum.splits)
qed

theorem owner_retention_total_witness:
  "\<exists>s. run_events ctl_exec [EvOp (OpRetain ''detach'' 5)] (control_start 1) = Some s \<and>
     fst (control_admits_work s) = False \<and>
     (\<exists>w s'. allocate_and_retain_owner_obligation ''retire'' 9 s = Some s' \<and> \<not> obliged s w \<and> obliged s' w)"
proof -
  define s where "s = the (run_events ctl_exec [EvOp (OpRetain ''detach'' 5)] (control_start 1))"
  have run: "run_events ctl_exec [EvOp (OpRetain ''detach'' 5)] (control_start 1) = Some s"
    unfolding s_def by (simp add: control_eval)
  have "wis_next (cs_waiter_ids s) < u64_max" "fst (control_admits_work s) = False"
    unfolding s_def by (simp_all add: control_eval control_admits_work_def admits_work_def has_room_def)
  with run owner_retention_total [OF run, of "''retire''" 9] show ?thesis by blast
qed

end
