(* ===== verification/Owner_Turn.thy ===== *)
theory Owner_Turn
  imports Hub_Prelude
begin

text \<open>
  \<open>src/src/daemon/owner_turn.rs\<close>: the budget of one owner turn.  Instants and durations are
  nanoseconds; \<open>usize\<close> has 64 bits.
\<close>

section \<open>The budget\<close>

definition OWNER_TURN_TIME_LIMIT :: nat where
  "OWNER_TURN_TIME_LIMIT = 2000000"

definition OWNER_TURN_ITEM_LIMIT :: usize where
  "OWNER_TURN_ITEM_LIMIT = 64"

definition OWNER_TURN_INSPECTED_BYTE_LIMIT :: usize where
  "OWNER_TURN_INSPECTED_BYTE_LIMIT = 256 * 1024"

record owner_turn_charge =
  otc_inspected_bytes :: usize

definition opaque_move :: owner_turn_charge where
  "opaque_move = \<lparr>otc_inspected_bytes = 0\<rparr>"

definition inspection :: "usize \<Rightarrow> owner_turn_charge" where
  "inspection n = \<lparr>otc_inspected_bytes = n\<rparr>"

datatype owner_turn_budget_error =
    TurnTime
  | TurnItems (requested: usize) (remaining: usize)
  | TurnInspectedBytes (requested: usize) (remaining: usize)
  | TurnOverflow

record owner_turn_budget =
  otb_started_at :: nat
  otb_spent_items :: usize
  otb_spent_inspected_bytes :: usize

definition owner_turn_new :: "nat \<Rightarrow> owner_turn_budget" where
  "owner_turn_new started = \<lparr>otb_started_at = started, otb_spent_items = 0, otb_spent_inspected_bytes = 0\<rparr>"

definition try_charge ::
  "nat \<Rightarrow> owner_turn_charge \<Rightarrow> owner_turn_budget \<Rightarrow> (owner_turn_budget_error + unit) \<times> owner_turn_budget"
where
  "try_charge now charge b =
     (case checked_sub now (otb_started_at b) of
        None \<Rightarrow> (Inl TurnTime, b)
      | Some elapsed \<Rightarrow>
          if OWNER_TURN_TIME_LIMIT \<le> elapsed then (Inl TurnTime, b)
          else if OWNER_TURN_ITEM_LIMIT \<le> otb_spent_items b then (Inl (TurnItems 1 0), b)
          else if OWNER_TURN_INSPECTED_BYTE_LIMIT \<le> otb_spent_inspected_bytes b
          then (Inl (TurnInspectedBytes (otc_inspected_bytes charge) 0), b)
          else
            case checked_add (otb_spent_items b) 1 of
              None \<Rightarrow> (Inl TurnOverflow, b)
            | Some items \<Rightarrow>
                case checked_add (otb_spent_inspected_bytes b) (otc_inspected_bytes charge) of
                  None \<Rightarrow> (Inl TurnOverflow, b)
                | Some bytes \<Rightarrow>
                    if OWNER_TURN_ITEM_LIMIT < items
                    then (Inl (TurnItems 1 (OWNER_TURN_ITEM_LIMIT - otb_spent_items b)), b)
                    else if OWNER_TURN_INSPECTED_BYTE_LIMIT < bytes
                    then (Inl (TurnInspectedBytes (otc_inspected_bytes charge)
                            (OWNER_TURN_INSPECTED_BYTE_LIMIT - otb_spent_inspected_bytes b)), b)
                    else (Inr (), b\<lparr>otb_spent_items := items, otb_spent_inspected_bytes := bytes\<rparr>))"

text \<open>A turn asks for one charge after the other and keeps what it was granted.\<close>

fun turn_run ::
  "(nat \<times> owner_turn_charge) list \<Rightarrow> owner_turn_budget \<Rightarrow> (nat \<times> owner_turn_charge) list \<times> owner_turn_budget"
where
  "turn_run [] b = ([], b)"
| "turn_run ((now, c) # rs) b =
     (let (r, b') = try_charge now c b; (granted, b'') = turn_run rs b'
      in (case r of Inl _ \<Rightarrow> granted | Inr _ \<Rightarrow> (now, c) # granted, b''))"

section \<open>What a charge does\<close>

lemmas turn_limits = OWNER_TURN_TIME_LIMIT_def OWNER_TURN_ITEM_LIMIT_def OWNER_TURN_INSPECTED_BYTE_LIMIT_def

definition turn_admits :: "nat \<Rightarrow> owner_turn_charge \<Rightarrow> owner_turn_budget \<Rightarrow> bool" where
  "turn_admits now c b \<longleftrightarrow>
     otb_started_at b \<le> now \<and> now < otb_started_at b + OWNER_TURN_TIME_LIMIT \<and>
     otb_spent_items b < OWNER_TURN_ITEM_LIMIT \<and>
     otb_spent_inspected_bytes b < OWNER_TURN_INSPECTED_BYTE_LIMIT \<and>
     otb_spent_inspected_bytes b + otc_inspected_bytes c \<le> OWNER_TURN_INSPECTED_BYTE_LIMIT"

lemma try_charge_granted:
  "turn_admits now c b \<Longrightarrow> try_charge now c b =
     (Inr (), b\<lparr>otb_spent_items := otb_spent_items b + 1,
                otb_spent_inspected_bytes := otb_spent_inspected_bytes b + otc_inspected_bytes c\<rparr>)"
  by (auto simp: try_charge_def turn_admits_def turn_limits u64_max_def split: option.splits)

lemma try_charge_refused: "\<not> turn_admits now c b \<Longrightarrow> \<exists>e. try_charge now c b = (Inl e, b)"
  by (auto simp: try_charge_def turn_admits_def turn_limits split: option.splits)

lemma turn_run_accounts:
  "turn_run rs b = (granted, b') \<Longrightarrow>
     otb_started_at b' = otb_started_at b \<and>
     otb_spent_items b' = otb_spent_items b + length granted \<and>
     otb_spent_inspected_bytes b' =
       otb_spent_inspected_bytes b + sum_list (map (otc_inspected_bytes \<circ> snd) granted) \<and>
     (\<forall>(now, c) \<in> set granted. otb_started_at b \<le> now \<and> now < otb_started_at b + OWNER_TURN_TIME_LIMIT) \<and>
     (otb_spent_items b \<le> OWNER_TURN_ITEM_LIMIT \<longrightarrow> otb_spent_items b' \<le> OWNER_TURN_ITEM_LIMIT) \<and>
     (otb_spent_inspected_bytes b \<le> OWNER_TURN_INSPECTED_BYTE_LIMIT \<longrightarrow>
        otb_spent_inspected_bytes b' \<le> OWNER_TURN_INSPECTED_BYTE_LIMIT)"
proof (induction rs b arbitrary: granted b' rule: turn_run.induct)
  case (2 now c rs b)
  obtain r b1 granted1 where step: "try_charge now c b = (r, b1)" "turn_run rs b1 = (granted1, b')"
      "granted = (case r of Inl _ \<Rightarrow> granted1 | Inr _ \<Rightarrow> (now, c) # granted1)"
    using "2.prems" by (auto split: prod.splits)
  note IH = "2.IH" [OF step(1) [symmetric] _ step(2)]
  show ?case
  proof (cases "turn_admits now c b")
    case True
    with step show ?thesis
      using IH try_charge_granted [OF True] by (auto simp: turn_admits_def)
  next
    case False
    with step show ?thesis using IH try_charge_refused [OF False] by auto
  qed
qed simp

section \<open>Properties\<close>

text \<open>An owner turn is bounded.  Whatever work asks for a charge in whatever order, the
  granted charges are at most 64 items and at most 256 KiB of inspected bytes, each granted
  less than two milliseconds after the turn started; the counters are exactly the granted
  work, so a refused charge left them alone, and a charge is granted exactly when time,
  items and bytes all have room.\<close>

theorem owner_turn_bounded:
  assumes "turn_run rs (owner_turn_new started) = (granted, b)"
  shows "length granted \<le> OWNER_TURN_ITEM_LIMIT \<and>
    sum_list (map (otc_inspected_bytes \<circ> snd) granted) \<le> OWNER_TURN_INSPECTED_BYTE_LIMIT \<and>
    (\<forall>(now, c) \<in> set granted. started \<le> now \<and> now < started + OWNER_TURN_TIME_LIMIT) \<and>
    otb_spent_items b = length granted \<and>
    otb_spent_inspected_bytes b = sum_list (map (otc_inspected_bytes \<circ> snd) granted) \<and>
    (fst (try_charge now c b) = Inr () \<longleftrightarrow> turn_admits now c b)"
proof -
  have "fst (try_charge now c b) = Inr () \<longleftrightarrow> turn_admits now c b"
    using try_charge_granted [of now c b] try_charge_refused [of now c b] by fastforce
  with turn_run_accounts [OF assms] show ?thesis by (simp add: owner_turn_new_def)
qed

theorem owner_turn_bounded_witness:
  "\<exists>granted b. turn_run [(5, inspection 200000), (6, inspection 100000), (7, opaque_move), (2000005, opaque_move)]
       (owner_turn_new 5) = (granted, b) \<and>
     map fst granted = [5, 7] \<and> otb_spent_inspected_bytes b = 200000 \<and>
     length granted \<le> OWNER_TURN_ITEM_LIMIT"
proof -
  have run: "turn_run [(5, inspection 200000), (6, inspection 100000), (7, opaque_move), (2000005, opaque_move)]
      (owner_turn_new 5) = ([(5, inspection 200000), (7, opaque_move)],
        \<lparr>otb_started_at = 5, otb_spent_items = 2, otb_spent_inspected_bytes = 200000\<rparr>)"
    by (simp add: owner_turn_new_def try_charge_def inspection_def opaque_move_def checked_sub_def
        checked_add_def turn_limits u64_max_def)
  show ?thesis using run owner_turn_bounded [OF run] by simp
qed

end
