(* ===== verification/Owner_Signal.thy ===== *)
theory Owner_Signal
  imports Hub_Prelude
begin

text \<open>
  \<open>src/src/daemon/owner_signal.rs\<close>: epochs and a doorbell that wake the owner, and the mutex
  that raises its own key when a guard drops while the owner is armed on it.  The operations
  are first given as functions; the protocol between the owner and any number of lock holders
  interleaves their atomic parts in a step relation.
\<close>

section \<open>Epochs and doorbell\<close>

datatype signal_key =
    PackageEvents | EventRouter | EventConnections | ConnectionSlots | ConnectionPool
  | DataPlaneCapacity | PluginEngine

definition signal_key_count :: nat where
  "signal_key_count = 7"

fun signal_key_index :: "signal_key \<Rightarrow> nat" where
  "signal_key_index PackageEvents = 0"
| "signal_key_index EventRouter = 1"
| "signal_key_index EventConnections = 2"
| "signal_key_index ConnectionSlots = 3"
| "signal_key_index ConnectionPool = 4"
| "signal_key_index DataPlaneCapacity = 5"
| "signal_key_index PluginEngine = 6"

record seen =
  seen_key :: signal_key
  seen_epoch :: "64 word"

text \<open>The doorbell is a \<open>tokio::sync::Notify\<close>: it stores at most one permit.\<close>

record owner_signal =
  os_epochs :: "64 word list"
  os_permit :: bool

definition owner_signal_new :: owner_signal where
  "owner_signal_new = \<lparr>os_epochs = replicate signal_key_count 0, os_permit = False\<rparr>"

definition signal_bump :: "signal_key \<Rightarrow> owner_signal \<Rightarrow> owner_signal" where
  "signal_bump k s = s\<lparr>os_epochs := (os_epochs s)[signal_key_index k := os_epochs s ! signal_key_index k + 1]\<rparr>"

definition signal_notify :: "owner_signal \<Rightarrow> owner_signal" where
  "signal_notify s = s\<lparr>os_permit := True\<rparr>"

definition signal_raise :: "signal_key \<Rightarrow> owner_signal \<Rightarrow> owner_signal" where
  "signal_raise k s = signal_notify (signal_bump k s)"

definition signal_seen :: "signal_key \<Rightarrow> owner_signal \<Rightarrow> seen" where
  "signal_seen k s = \<lparr>seen_key = k, seen_epoch = os_epochs s ! signal_key_index k\<rparr>"

definition signal_moved :: "seen \<Rightarrow> owner_signal \<Rightarrow> bool" where
  "signal_moved x s \<longleftrightarrow> os_epochs s ! signal_key_index (seen_key x) \<noteq> seen_epoch x"

text \<open>\<open>rung().await\<close> returns only by taking the permit.\<close>

definition signal_rung :: "owner_signal \<Rightarrow> owner_signal option" where
  "signal_rung s = (if os_permit s then Some (s\<lparr>os_permit := False\<rparr>) else None)"

section \<open>The signaling mutex\<close>

datatype party = Owner | Holder nat

record signaling_mutex =
  sm_holder :: "party option"
  sm_poisoned :: bool
  sm_armed :: bool
  sm_signal :: owner_signal
  sm_key :: signal_key

datatype try_lock = Locked | WouldBlock | Poisoned

definition signaling_mutex_new :: "owner_signal \<Rightarrow> signal_key \<Rightarrow> signaling_mutex" where
  "signaling_mutex_new sig k =
     \<lparr>sm_holder = None, sm_poisoned = False, sm_armed = False, sm_signal = sig, sm_key = k\<rparr>"

definition sm_try_lock :: "party \<Rightarrow> signaling_mutex \<Rightarrow> try_lock \<times> signaling_mutex" where
  "sm_try_lock p m =
     (if sm_holder m \<noteq> None then (WouldBlock, m)
      else if sm_poisoned m then (Poisoned, m)
      else (Locked, m\<lparr>sm_holder := Some p\<rparr>))"

definition sm_arm :: "signaling_mutex \<Rightarrow> seen \<times> signaling_mutex" where
  "sm_arm m = (signal_seen (sm_key m) (sm_signal m), m\<lparr>sm_armed := True\<rparr>)"

text \<open>Dropping a guard: release, then swap the flag, then raise if it was set.\<close>

definition sm_release :: "bool \<Rightarrow> signaling_mutex \<Rightarrow> signaling_mutex" where
  "sm_release panicking m = m\<lparr>sm_holder := None, sm_poisoned := sm_poisoned m \<or> panicking\<rparr>"

definition sm_drop :: "bool \<Rightarrow> signaling_mutex \<Rightarrow> signaling_mutex" where
  "sm_drop panicking m =
     (let m' = sm_release panicking m
      in if sm_armed m'
         then m'\<lparr>sm_armed := False, sm_signal := signal_raise (sm_key m') (sm_signal m')\<rparr>
         else m'\<lparr>sm_armed := False\<rparr>)"

datatype owner_lock = OwnerLocked | OwnerBusy seen | OwnerPoisoned

text \<open>
  \<open>try_lock_or_arm\<close>; \<open>race\<close> is what the other threads do between the arming and the retry.
\<close>

definition sm_try_lock_or_arm ::
  "(signaling_mutex \<Rightarrow> signaling_mutex) \<Rightarrow> signaling_mutex \<Rightarrow> owner_lock \<times> signaling_mutex"
where
  "sm_try_lock_or_arm race m =
     (case sm_try_lock Owner m of
        (Locked, m') \<Rightarrow> (OwnerLocked, m')
      | (Poisoned, m') \<Rightarrow> (OwnerPoisoned, m')
      | (WouldBlock, m') \<Rightarrow>
          let (x, armed) = sm_arm m' in
          case sm_try_lock Owner (race armed) of
            (Locked, m'') \<Rightarrow> (OwnerLocked, m'')
          | (Poisoned, m'') \<Rightarrow> (OwnerPoisoned, m'')
          | (WouldBlock, m'') \<Rightarrow> (OwnerBusy x, m''))"

section \<open>The interleaved protocol\<close>

text \<open>
  Where the owner is in \<open>try_lock_or_arm\<close>, parked, or dropping its guard, and where each holder
  is.  \<open>raised\<close> counts the raises of the lock's key and \<open>seen_at\<close> is its value when the owner
  read the epoch: both are ghosts.
\<close>

datatype owner_pc =
    OIdle | OArm | OSeen seen | OArmed seen | OParked seen | OWait seen
  | OHolding | OReleased | OMustRaise | OMustRing

datatype holder_pc = HIdle | HHolding | HReleased | HMustRaise | HMustRing

record race =
  rc_mutex :: signaling_mutex
  rc_owner :: owner_pc
  rc_holders :: "nat \<Rightarrow> holder_pc"
  rc_raised :: nat
  rc_seen_at :: nat

definition race_new :: "signal_key \<Rightarrow> race" where
  "race_new k =
     \<lparr>rc_mutex = signaling_mutex_new owner_signal_new k, rc_owner = OIdle, rc_holders = (\<lambda>_. HIdle),
      rc_raised = 0, rc_seen_at = 0\<rparr>"

abbreviation on_signal :: "(owner_signal \<Rightarrow> owner_signal) \<Rightarrow> signaling_mutex \<Rightarrow> signaling_mutex" where
  "on_signal f \<equiv> sm_signal_update f"

inductive signal_step :: "race \<Rightarrow> race \<Rightarrow> bool" where
  owner_first_try:
    "rc_owner s = OIdle \<Longrightarrow> sm_try_lock Owner (rc_mutex s) = (r, m) \<Longrightarrow>
     signal_step s (s\<lparr>rc_mutex := m,
       rc_owner := (case r of Locked \<Rightarrow> OHolding | Poisoned \<Rightarrow> OIdle | WouldBlock \<Rightarrow> OArm)\<rparr>)"
| owner_seen:
    "rc_owner s = OArm \<Longrightarrow>
     signal_step s (s\<lparr>rc_owner := OSeen (signal_seen (sm_key (rc_mutex s)) (sm_signal (rc_mutex s))),
       rc_seen_at := rc_raised s\<rparr>)"
| owner_armed:
    "rc_owner s = OSeen x \<Longrightarrow>
     signal_step s (s\<lparr>rc_owner := OArmed x, rc_mutex := (rc_mutex s)\<lparr>sm_armed := True\<rparr>\<rparr>)"
| owner_retry:
    "rc_owner s = OArmed x \<Longrightarrow> sm_try_lock Owner (rc_mutex s) = (r, m) \<Longrightarrow>
     signal_step s (s\<lparr>rc_mutex := m,
       rc_owner := (case r of Locked \<Rightarrow> OHolding | Poisoned \<Rightarrow> OIdle | WouldBlock \<Rightarrow> OParked x)\<rparr>)"
| owner_check:
    "rc_owner s = OParked x \<Longrightarrow>
     signal_step s (s\<lparr>rc_owner := (if signal_moved x (sm_signal (rc_mutex s)) then OIdle else OWait x)\<rparr>)"
| owner_rung:
    "rc_owner s = OWait x \<Longrightarrow> signal_rung (sm_signal (rc_mutex s)) = Some sig \<Longrightarrow>
     signal_step s (s\<lparr>rc_owner := OParked x, rc_mutex := (rc_mutex s)\<lparr>sm_signal := sig\<rparr>\<rparr>)"
| owner_release:
    "rc_owner s = OHolding \<Longrightarrow>
     signal_step s (s\<lparr>rc_owner := OReleased, rc_mutex := sm_release panicking (rc_mutex s)\<rparr>)"
| owner_swap:
    "rc_owner s = OReleased \<Longrightarrow>
     signal_step s (s\<lparr>rc_owner := (if sm_armed (rc_mutex s) then OMustRaise else OIdle),
       rc_mutex := (rc_mutex s)\<lparr>sm_armed := False\<rparr>\<rparr>)"
| owner_bump:
    "rc_owner s = OMustRaise \<Longrightarrow>
     signal_step s (s\<lparr>rc_owner := OMustRing, rc_raised := rc_raised s + 1,
       rc_mutex := on_signal (signal_bump (sm_key (rc_mutex s))) (rc_mutex s)\<rparr>)"
| owner_ring:
    "rc_owner s = OMustRing \<Longrightarrow>
     signal_step s (s\<lparr>rc_owner := OIdle, rc_mutex := on_signal signal_notify (rc_mutex s)\<rparr>)"
| holder_lock:
    "rc_holders s a = HIdle \<Longrightarrow> sm_holder (rc_mutex s) = None \<Longrightarrow>
     signal_step s (s\<lparr>rc_holders := (rc_holders s)(a := HHolding),
       rc_mutex := (rc_mutex s)\<lparr>sm_holder := Some (Holder a)\<rparr>\<rparr>)"
| holder_release:
    "rc_holders s a = HHolding \<Longrightarrow>
     signal_step s (s\<lparr>rc_holders := (rc_holders s)(a := HReleased),
       rc_mutex := sm_release panicking (rc_mutex s)\<rparr>)"
| holder_swap:
    "rc_holders s a = HReleased \<Longrightarrow>
     signal_step s (s\<lparr>rc_holders := (rc_holders s)(a := if sm_armed (rc_mutex s) then HMustRaise else HIdle),
       rc_mutex := (rc_mutex s)\<lparr>sm_armed := False\<rparr>\<rparr>)"
| holder_bump:
    "rc_holders s a = HMustRaise \<Longrightarrow>
     signal_step s (s\<lparr>rc_holders := (rc_holders s)(a := HMustRing), rc_raised := rc_raised s + 1,
       rc_mutex := on_signal (signal_bump (sm_key (rc_mutex s))) (rc_mutex s)\<rparr>)"
| holder_ring:
    "rc_holders s a = HMustRing \<Longrightarrow>
     signal_step s (s\<lparr>rc_holders := (rc_holders s)(a := HIdle),
       rc_mutex := on_signal signal_notify (rc_mutex s)\<rparr>)"
| other_raise:
    "k \<noteq> sm_key (rc_mutex s) \<Longrightarrow>
     signal_step s (s\<lparr>rc_mutex := on_signal (signal_raise k) (rc_mutex s)\<rparr>)"

section \<open>Invariant\<close>

lemma signal_key_index_less: "signal_key_index k < signal_key_count"
  by (cases k) (simp_all add: signal_key_count_def)

lemma signal_key_index_inj: "signal_key_index k = signal_key_index l \<longleftrightarrow> k = l"
  by (cases k; cases l) simp_all

abbreviation rc_epoch :: "race \<Rightarrow> 64 word" where
  "rc_epoch s \<equiv> os_epochs (sm_signal (rc_mutex s)) ! signal_key_index (sm_key (rc_mutex s))"

fun waits_for :: "owner_pc \<Rightarrow> seen option" where
  "waits_for (OSeen x) = Some x"
| "waits_for (OArmed x) = Some x"
| "waits_for (OParked x) = Some x"
| "waits_for (OWait x) = Some x"
| "waits_for _ = None"

definition some_at :: "holder_pc \<Rightarrow> (nat \<Rightarrow> holder_pc) \<Rightarrow> bool" where
  "some_at pc h \<longleftrightarrow> (\<exists>a. h a = pc)"

abbreviation raise_coming :: "race \<Rightarrow> bool" where
  "raise_coming s \<equiv> some_at HMustRaise (rc_holders s)"

abbreviation release_coming :: "race \<Rightarrow> bool" where
  "release_coming s \<equiv> some_at HHolding (rc_holders s) \<or> some_at HReleased (rc_holders s)"

abbreviation ring_coming :: "race \<Rightarrow> bool" where
  "ring_coming s \<equiv> some_at HMustRing (rc_holders s)"

definition race_ok :: "race \<Rightarrow> bool" where
  "race_ok s \<longleftrightarrow>
     length (os_epochs (sm_signal (rc_mutex s))) = signal_key_count \<and>
     rc_epoch s = of_nat (rc_raised s) \<and>
     (rc_owner s = OHolding \<longleftrightarrow> sm_holder (rc_mutex s) = Some Owner) \<and>
     (\<forall>a. rc_holders s a = HHolding \<longleftrightarrow> sm_holder (rc_mutex s) = Some (Holder a)) \<and>
     (\<forall>x. waits_for (rc_owner s) = Some x \<longrightarrow>
        seen_key x = sm_key (rc_mutex s) \<and> seen_epoch x = of_nat (rc_seen_at s) \<and> rc_seen_at s \<le> rc_raised s)"

definition wake_ok :: "race \<Rightarrow> bool" where
  "wake_ok s \<longleftrightarrow> (case rc_owner s of
       OArmed x \<Rightarrow> rc_raised s = rc_seen_at s \<longrightarrow> sm_armed (rc_mutex s) \<or> raise_coming s
     | OParked x \<Rightarrow> rc_raised s = rc_seen_at s \<longrightarrow> sm_armed (rc_mutex s) \<and> release_coming s \<or> raise_coming s
     | OWait x \<Rightarrow> (if rc_raised s = rc_seen_at s
                   then sm_armed (rc_mutex s) \<and> release_coming s \<or> raise_coming s
                   else os_permit (sm_signal (rc_mutex s)) \<or> ring_coming s)
     | _ \<Rightarrow> True)"

lemmas signal_defs = signal_bump_def signal_notify_def signal_raise_def signal_seen_def signal_rung_def
  sm_release_def sm_try_lock_def

lemma race_ok_new: "race_ok (race_new k)"
  using signal_key_index_less [of k]
  by (simp add: race_ok_def race_new_def signaling_mutex_new_def owner_signal_new_def)

lemma race_ok_step: "signal_step s t \<Longrightarrow> race_ok s \<Longrightarrow> race_ok t"
proof (induction rule: signal_step.induct)
  case (owner_rung s x sig)
  then show ?case by (auto simp: race_ok_def signal_defs split: if_splits)
next
  case (owner_bump s)
  then show ?case
    using signal_key_index_less [of "sm_key (rc_mutex s)"]
    by (auto simp: race_ok_def signal_defs)
next
  case (holder_bump s a)
  then show ?case
    using signal_key_index_less [of "sm_key (rc_mutex s)"]
    by (auto simp: race_ok_def signal_defs dest: spec [of _ a])
next
  case (other_raise k s)
  then show ?case
    using signal_key_index_less [of k] signal_key_index_inj [of k "sm_key (rc_mutex s)"]
    by (auto simp: race_ok_def signal_defs)
next
  case (holder_swap s a)
  then show ?case by (auto simp: race_ok_def dest: spec [of _ a])
next
  case (holder_ring s a)
  then show ?case by (auto simp: race_ok_def signal_defs dest: spec [of _ a])
qed (auto simp: race_ok_def signal_defs split: if_splits try_lock.splits)

lemma raised_mono: "signal_step s t \<Longrightarrow> rc_raised s \<le> rc_raised t"
  by (induction rule: signal_step.induct) simp_all

lemma some_at_upd: "h a \<noteq> pc \<Longrightarrow> some_at pc (h(a := v)) \<longleftrightarrow> v = pc \<or> some_at pc h"
  by (auto simp: some_at_def)

lemma some_at_upd_self: "some_at pc (h(a := pc))"
  by (auto simp: some_at_def)

lemma not_moved_iff:
  "race_ok s \<Longrightarrow> waits_for (rc_owner s) = Some x \<Longrightarrow> rc_raised s < 2 ^ 64 \<Longrightarrow>
     signal_moved x (sm_signal (rc_mutex s)) \<longleftrightarrow> rc_raised s \<noteq> rc_seen_at s"
  by (auto simp: race_ok_def signal_moved_def word_of_nat_eq_iff take_bit_nat_eq_self)

lemma wake_ok_step:
  "signal_step s t \<Longrightarrow> race_ok s \<Longrightarrow> rc_raised t < 2 ^ 64 \<Longrightarrow> wake_ok s \<Longrightarrow> wake_ok t"
proof (induction rule: signal_step.induct)
  case (owner_check s x)
  then show ?case using not_moved_iff [of s x] by (auto simp: wake_ok_def)
next
  case (owner_retry s x r m)
  have "release_coming s" if "sm_holder (rc_mutex s) \<noteq> None"
  proof -
    from that obtain p where p: "sm_holder (rc_mutex s) = Some p" by auto
    with owner_retry show ?thesis
      by (cases p) (auto simp: race_ok_def some_at_def)
  qed
  with owner_retry show ?case
    by (auto simp: wake_ok_def some_at_upd some_at_upd_self signal_defs split: if_splits)
next
  case (holder_bump s a)
  then have "rc_seen_at s \<le> rc_raised s" if "waits_for (rc_owner s) = Some x" for x
    using that by (simp add: race_ok_def)
  with holder_bump show ?case
    by (auto simp: wake_ok_def some_at_upd_self signal_defs split: owner_pc.splits if_splits)
qed (auto simp: wake_ok_def some_at_upd some_at_upd_self signal_defs split: if_splits try_lock.splits owner_pc.splits)

interpretation signal_race: transition_invariant "\<lambda>s. \<exists>k. s = race_new k" signal_step
  "\<lambda>s. race_ok s \<and> (rc_raised s < 2 ^ 64 \<longrightarrow> wake_ok s)"
proof
  fix s t
  assume "\<exists>k. s = race_new k"
  then show "race_ok s \<and> (rc_raised s < 2 ^ 64 \<longrightarrow> wake_ok s)"
    using race_ok_new by (auto simp: wake_ok_def race_new_def)
next
  fix s t
  assume "race_ok s \<and> (rc_raised s < 2 ^ 64 \<longrightarrow> wake_ok s)" and step: "signal_step s t"
  then show "race_ok t \<and> (rc_raised t < 2 ^ 64 \<longrightarrow> wake_ok t)"
    using race_ok_step [OF step] wake_ok_step [OF step] raised_mono [OF step] by simp
qed

section \<open>Properties\<close>


text \<open>A schedule for the witness: the release falls between the owner's check and its wait.\<close>

lemma witness_schedule:
  defines "x \<equiv> \<lparr>seen_key = EventRouter, seen_epoch = 0\<rparr>"
  defines "m \<equiv> signaling_mutex_new owner_signal_new EventRouter"
  defines "h \<equiv> \<lambda>pc. (\<lambda>_. HIdle)(3 := pc)"
  defines "mk \<equiv> \<lambda>mu ow ho n. \<lparr>rc_mutex = mu, rc_owner = ow, rc_holders = ho, rc_raised = n, rc_seen_at = 0\<rparr>"
  shows "signal_step\<^sup>*\<^sup>* (race_new EventRouter)
    (mk (on_signal (signal_raise EventRouter) m) (OWait x) (h HIdle) 1)"
proof -
  let ?held = "m\<lparr>sm_holder := Some (Holder 3)\<rparr>"
  let ?armed = "m\<lparr>sm_armed := True\<rparr>"
  let ?ha = "?held\<lparr>sm_armed := True\<rparr>"
  let ?bumped = "on_signal (signal_bump EventRouter) m"
  note defs = x_def m_def h_def mk_def race_new_def signaling_mutex_new_def owner_signal_new_def
    signal_key_count_def signal_defs signal_moved_def fun_eq_iff
  have "signal_step (race_new EventRouter) (mk ?held OIdle (h HHolding) 0)"
    using holder_lock [of "race_new EventRouter" 3] by (simp add: defs)
  moreover have "signal_step (mk ?held OIdle (h HHolding) 0) (mk ?held OArm (h HHolding) 0)"
    using owner_first_try [of "mk ?held OIdle (h HHolding) 0"] by (simp add: defs)
  moreover have "signal_step (mk ?held OArm (h HHolding) 0) (mk ?held (OSeen x) (h HHolding) 0)"
    using owner_seen [of "mk ?held OArm (h HHolding) 0"] by (simp add: defs)
  moreover have "signal_step (mk ?held (OSeen x) (h HHolding) 0) (mk ?ha (OArmed x) (h HHolding) 0)"
    using owner_armed [of "mk ?held (OSeen x) (h HHolding) 0" x] by (simp add: defs)
  moreover have "signal_step (mk ?ha (OArmed x) (h HHolding) 0) (mk ?ha (OParked x) (h HHolding) 0)"
    using owner_retry [of "mk ?ha (OArmed x) (h HHolding) 0" x] by (simp add: defs)
  moreover have "signal_step (mk ?ha (OParked x) (h HHolding) 0) (mk ?ha (OWait x) (h HHolding) 0)"
    using owner_check [of "mk ?ha (OParked x) (h HHolding) 0" x] by (simp add: defs)
  moreover have "signal_step (mk ?ha (OWait x) (h HHolding) 0) (mk ?armed (OWait x) (h HReleased) 0)"
    using holder_release [of "mk ?ha (OWait x) (h HHolding) 0" 3 False] by (simp add: defs)
  moreover have "signal_step (mk ?armed (OWait x) (h HReleased) 0) (mk m (OWait x) (h HMustRaise) 0)"
    using holder_swap [of "mk ?armed (OWait x) (h HReleased) 0" 3] by (simp add: defs)
  moreover have "signal_step (mk m (OWait x) (h HMustRaise) 0) (mk ?bumped (OWait x) (h HMustRing) 1)"
    using holder_bump [of "mk m (OWait x) (h HMustRaise) 0" 3] by (simp add: defs)
  moreover have "signal_step (mk ?bumped (OWait x) (h HMustRing) 1)
      (mk (on_signal (signal_raise EventRouter) m) (OWait x) (h HIdle) 1)"
    using holder_ring [of "mk ?bumped (OWait x) (h HMustRing) 1" 3] by (simp add: defs)
  ultimately show ?thesis by (meson converse_rtranclp_into_rtranclp rtranclp.rtrancl_refl)
qed


end
