(* ===== verification/Causal_Queue.thy ===== *)
theory Causal_Queue
  imports Hub_Prelude
begin

text \<open>
  \<open>src/src/runtime/causal.rs\<close> and its one consumer \<open>apply_causal_owner_ops\<close> in
  \<open>src/src/runtime.rs\<close>: the bounded queue of causal transitions of the runtime thread.  A
  caller reserves a position before it commits an operation to it; a receipt names the
  position.  The operations are opaque.  \<open>None\<close> is a panic of an \<open>expect\<close> or \<open>assert\<close>.
\<close>

section \<open>Operations\<close>

definition CAUSAL_OWNER_CAPACITY :: usize where
  "CAUSAL_OWNER_CAPACITY = 256"

datatype causal_transition_status = CausalApplied | CausalWaiting | CausalFault

record 'op queue_state =
  qs_pending :: "'op list"
  qs_reserved :: usize
  qs_committed :: u64
  qs_applied :: u64
  qs_capacity_changed :: bool

definition causal_queue_default :: "'op queue_state" where
  "causal_queue_default =
     \<lparr>qs_pending = [], qs_reserved = 0, qs_committed = 0, qs_applied = 0, qs_capacity_changed = False\<rparr>"

text \<open>A receipt is the sequence of its operation.\<close>

definition receipt_is_applied :: "u64 \<Rightarrow> 'op queue_state \<Rightarrow> bool" where
  "receipt_is_applied sequence q \<longleftrightarrow> sequence \<le> qs_applied q"

definition causal_reserve :: "'op queue_state \<Rightarrow> (causal_transition_status + unit) \<times> 'op queue_state" where
  "causal_reserve q =
     (let remaining = u64_max - qs_committed q in
      if remaining = 0 then (Inl CausalFault, q)
      else if CAUSAL_OWNER_CAPACITY \<le> length (qs_pending q) + qs_reserved q \<or> remaining \<le> qs_reserved q
      then (Inl CausalWaiting, q)
      else (Inr (), q\<lparr>qs_reserved := qs_reserved q + 1\<rparr>))"

definition causal_is_exhausted :: "'op queue_state \<Rightarrow> bool" where
  "causal_is_exhausted q \<longleftrightarrow> qs_committed q = u64_max"

definition causal_is_empty :: "'op queue_state \<Rightarrow> bool" where
  "causal_is_empty q \<longleftrightarrow> qs_pending q = []"

definition causal_len :: "'op queue_state \<Rightarrow> usize" where
  "causal_len q = length (qs_pending q)"

definition causal_take_head :: "'op queue_state \<Rightarrow> 'op option \<times> 'op queue_state" where
  "causal_take_head q =
     (case qs_pending q of [] \<Rightarrow> (None, q) | op # ops \<Rightarrow> (Some op, q\<lparr>qs_pending := ops\<rparr>))"

definition causal_restore_head :: "'op \<Rightarrow> 'op queue_state \<Rightarrow> 'op queue_state" where
  "causal_restore_head op q = q\<lparr>qs_pending := op # qs_pending q\<rparr>"

definition causal_note_applied :: "'op queue_state \<Rightarrow> 'op queue_state option" where
  "causal_note_applied q =
     (case checked_add (qs_applied q) 1 of
        None \<Rightarrow> None
      | Some next \<Rightarrow>
          if next \<le> qs_committed q then Some (q\<lparr>qs_applied := next, qs_capacity_changed := True\<rparr>) else None)"

definition causal_take_capacity_notification :: "'op queue_state \<Rightarrow> bool \<times> 'op queue_state" where
  "causal_take_capacity_notification q = (qs_capacity_changed q, q\<lparr>qs_capacity_changed := False\<rparr>)"

definition reservation_commit :: "'op \<Rightarrow> 'op queue_state \<Rightarrow> (u64 \<times> 'op queue_state) option" where
  "reservation_commit op q =
     (case checked_add (qs_committed q) 1 of
        None \<Rightarrow> None
      | Some sequence \<Rightarrow>
          (case checked_sub (qs_reserved q) 1 of
             None \<Rightarrow> None
           | Some reserved \<Rightarrow>
               Some (sequence,
                     q\<lparr>qs_pending := qs_pending q @ [op], qs_committed := sequence, qs_reserved := reserved,
                       qs_capacity_changed := (if sequence = u64_max then True else qs_capacity_changed q)\<rparr>)))"

definition reservation_drop :: "'op queue_state \<Rightarrow> 'op queue_state option" where
  "reservation_drop q =
     (let was_full = length (qs_pending q) + qs_reserved q = CAUSAL_OWNER_CAPACITY;
          positions_reserved = u64_max - qs_committed q = qs_reserved q
      in case checked_sub (qs_reserved q) 1 of
           None \<Rightarrow> None
         | Some reserved \<Rightarrow>
             Some (q\<lparr>qs_reserved := reserved,
                     qs_capacity_changed :=
                       (if was_full \<or> positions_reserved then True else qs_capacity_changed q)\<rparr>))"

text \<open>\<open>try_apply\<close> stands for the causal scope table: whether it applied the operation now.\<close>

definition apply_causal_owner_ops :: "('op \<Rightarrow> bool) \<Rightarrow> 'op queue_state \<Rightarrow> 'op queue_state option" where
  "apply_causal_owner_ops try_apply q =
     (case causal_take_head q of
        (None, q') \<Rightarrow> Some q'
      | (Some op, q') \<Rightarrow>
          if try_apply op then causal_note_applied q' else Some (causal_restore_head op q'))"

section \<open>Callers\<close>

text \<open>
  The callers hold \<open>ca_live\<close> live reservations; one is consumed by each commit and each drop.
  \<open>ca_log\<close> lists everything committed, \<open>ca_done\<close> everything applied, and \<open>ca_refused\<close> tells that a
  reservation had to wait since the last capacity notification was taken.
\<close>

record 'op causal_callers =
  ca_queue :: "'op queue_state"
  ca_live :: nat
  ca_log :: "'op list"
  ca_done :: "'op list"
  ca_refused :: bool

datatype 'op causal_event = CeReserve | CeCommit 'op | CeDrop | CeApply bool | CeNotify

definition callers_new :: "'op causal_callers" where
  "callers_new = \<lparr>ca_queue = causal_queue_default, ca_live = 0, ca_log = [], ca_done = [], ca_refused = False\<rparr>"

text \<open>An event without a live reservation to spend does nothing.\<close>

fun causal_exec :: "'op causal_event \<Rightarrow> 'op causal_callers \<Rightarrow> 'op causal_callers option" where
  "causal_exec CeReserve s =
     (case causal_reserve (ca_queue s) of
        (Inr _, q) \<Rightarrow> Some (s\<lparr>ca_queue := q, ca_live := ca_live s + 1\<rparr>)
      | (Inl e, q) \<Rightarrow> Some (s\<lparr>ca_queue := q, ca_refused := (ca_refused s \<or> e = CausalWaiting)\<rparr>))"
| "causal_exec (CeCommit op) s =
     (if ca_live s = 0 then Some s
      else map_option (\<lambda>(_, q). s\<lparr>ca_queue := q, ca_live := ca_live s - 1, ca_log := ca_log s @ [op]\<rparr>)
             (reservation_commit op (ca_queue s)))"
| "causal_exec CeDrop s =
     (if ca_live s = 0 then Some s
      else map_option (\<lambda>q. s\<lparr>ca_queue := q, ca_live := ca_live s - 1\<rparr>) (reservation_drop (ca_queue s)))"
| "causal_exec (CeApply ok) s =
     map_option (\<lambda>q. s\<lparr>ca_queue := q,
                     ca_done := (if ok then ca_done s @ take 1 (qs_pending (ca_queue s)) else ca_done s)\<rparr>)
       (apply_causal_owner_ops (\<lambda>_. ok) (ca_queue s))"
| "causal_exec CeNotify s =
     Some (s\<lparr>ca_queue := snd (causal_take_capacity_notification (ca_queue s)), ca_refused := False\<rparr>)"

definition can_reserve :: "'op queue_state \<Rightarrow> bool" where
  "can_reserve q \<longleftrightarrow> fst (causal_reserve q) \<noteq> Inl CausalWaiting"

definition callers_ok :: "'op causal_callers \<Rightarrow> bool" where
  "callers_ok s \<longleftrightarrow>
     (let q = ca_queue s in
      qs_reserved q = ca_live s \<and> length (qs_pending q) + qs_reserved q \<le> CAUSAL_OWNER_CAPACITY \<and>
      qs_committed q + qs_reserved q \<le> u64_max \<and>
      ca_log s = ca_done s @ qs_pending q \<and>
      qs_committed q = length (ca_log s) \<and> qs_applied q = length (ca_done s) \<and>
      (ca_refused s \<and> can_reserve q \<longrightarrow> qs_capacity_changed q))"

lemma can_reserve_iff:
  assumes "length (qs_pending q) + qs_reserved q \<le> CAUSAL_OWNER_CAPACITY"
    and "qs_committed q + qs_reserved q \<le> u64_max"
  shows "can_reserve q \<longleftrightarrow> qs_committed q = u64_max \<or>
    length (qs_pending q) + qs_reserved q < CAUSAL_OWNER_CAPACITY \<and> qs_committed q + qs_reserved q < u64_max"
  using assms by (auto simp: can_reserve_def causal_reserve_def Let_def)

text \<open>The five invariants over the fields, so that each event is arithmetic.\<close>

lemma callers_okI:
  assumes "qs_reserved q = live" "length (qs_pending q) + live \<le> CAUSAL_OWNER_CAPACITY"
    "qs_committed q + live \<le> u64_max" "log = done @ qs_pending q"
    "qs_committed q = length log" "qs_applied q = length done"
    "refused \<Longrightarrow> qs_committed q = u64_max \<or>
       length (qs_pending q) + live < CAUSAL_OWNER_CAPACITY \<and> qs_committed q + live < u64_max \<Longrightarrow> qs_capacity_changed q"
  shows "callers_ok \<lparr>ca_queue = q, ca_live = live, ca_log = log, ca_done = done, ca_refused = refused\<rparr>"
  using assms can_reserve_iff [of q] by (auto simp: callers_ok_def)

lemma callers_okD:
  assumes "callers_ok s"
  obtains pend live comm app flag log dn refused where
    "s = \<lparr>ca_queue = \<lparr>qs_pending = pend, qs_reserved = live, qs_committed = comm, qs_applied = app,
        qs_capacity_changed = flag\<rparr>, ca_live = live, ca_log = log, ca_done = dn, ca_refused = refused\<rparr>"
    "length pend + live \<le> CAUSAL_OWNER_CAPACITY" "comm + live \<le> u64_max" "log = dn @ pend"
    "comm = length log" "app = length dn"
    "refused \<and> (comm = u64_max \<or> length pend + live < CAUSAL_OWNER_CAPACITY \<and> comm + live < u64_max) \<longrightarrow> flag"
proof -
  have eq: "s = \<lparr>ca_queue = \<lparr>qs_pending = qs_pending (ca_queue s), qs_reserved = ca_live s,
      qs_committed = qs_committed (ca_queue s), qs_applied = qs_applied (ca_queue s),
      qs_capacity_changed = qs_capacity_changed (ca_queue s)\<rparr>, ca_live = ca_live s, ca_log = ca_log s,
      ca_done = ca_done s, ca_refused = ca_refused s\<rparr>"
    using assms by (simp add: callers_ok_def Let_def)
  show ?thesis
    using assms by (intro that [OF eq]) (auto simp: callers_ok_def Let_def can_reserve_iff)
qed

lemmas causal_defs = causal_reserve_def reservation_commit_def reservation_drop_def apply_causal_owner_ops_def
  causal_take_head_def causal_note_applied_def causal_restore_head_def causal_take_capacity_notification_def

lemma callers_ok_exec:
  assumes "callers_ok s"
  shows "\<exists>t. causal_exec e s = Some t \<and> callers_ok t"
proof -
  from assms obtain pend live comm app flag log dn refused where
    s: "s = \<lparr>ca_queue = \<lparr>qs_pending = pend, qs_reserved = live, qs_committed = comm, qs_applied = app,
        qs_capacity_changed = flag\<rparr>, ca_live = live, ca_log = log, ca_done = dn, ca_refused = refused\<rparr>"
    and inv: "length pend + live \<le> CAUSAL_OWNER_CAPACITY" "comm + live \<le> u64_max" "log = dn @ pend"
    "comm = length log" "app = length dn"
    "refused \<and> (comm = u64_max \<or> length pend + live < CAUSAL_OWNER_CAPACITY \<and> comm + live < u64_max) \<longrightarrow> flag"
    by (rule callers_okD)
  show ?thesis
  proof (cases e)
    case CeReserve
    then show ?thesis using inv
      by (auto simp: s causal_reserve_def Let_def intro!: callers_okI)
  next
    case (CeCommit op)
    show ?thesis
    proof (cases live)
      case (Suc n)
      then have "reservation_commit op (ca_queue s) = Some (comm + 1,
          \<lparr>qs_pending = pend @ [op], qs_reserved = n, qs_committed = comm + 1, qs_applied = app,
           qs_capacity_changed = (if comm + 1 = u64_max then True else flag)\<rparr>)"
        using inv(2) by (simp add: s reservation_commit_def checked_add_def checked_sub_def)
      then show ?thesis using CeCommit Suc inv by (auto simp: s intro!: callers_okI)
    qed (use assms CeCommit s in auto)
  next
    case CeDrop
    show ?thesis
    proof (cases live)
      case (Suc n)
      then show ?thesis using CeDrop inv
        by (auto simp: s reservation_drop_def checked_sub_def Let_def intro!: callers_okI)
    qed (use assms CeDrop s in auto)
  next
    case (CeApply ok)
    show ?thesis
    proof (cases pend)
      case Nil
      then show ?thesis using CeApply assms by (simp add: s apply_causal_owner_ops_def causal_take_head_def)
    next
      case (Cons op ops)
      show ?thesis
      proof (cases ok)
        case True
        have "apply_causal_owner_ops (\<lambda>_. True) (ca_queue s) = Some
            \<lparr>qs_pending = ops, qs_reserved = live, qs_committed = comm, qs_applied = app + 1, qs_capacity_changed = True\<rparr>"
          using inv(2-5) Cons by (simp add: s causal_defs checked_add_def)
        with True show ?thesis using CeApply Cons inv by (auto simp: s intro!: callers_okI)
      next
        case False
        then show ?thesis using CeApply Cons assms
          by (simp add: s apply_causal_owner_ops_def causal_take_head_def causal_restore_head_def)
      qed
    qed
  next
    case CeNotify
    then show ?thesis using inv
      by (auto simp: s causal_take_capacity_notification_def intro!: callers_okI)
  qed
qed

interpretation causal: event_invariant causal_exec "callers_ok :: 'op causal_callers \<Rightarrow> bool"
proof
  fix e and s t :: "'op causal_callers"
  assume "causal_exec e s = Some t" "callers_ok s"
  with callers_ok_exec [of s e] show "callers_ok t" by auto
qed

lemma callers_ok_new: "callers_ok callers_new"
  by (simp add: callers_ok_def callers_new_def causal_queue_default_def CAUSAL_OWNER_CAPACITY_def)

lemma causal_run_total:
  "callers_ok s \<Longrightarrow> \<exists>t. run_events causal_exec es s = Some t"
proof (induction es arbitrary: s)
  case (Cons e es)
  from callers_ok_exec [OF Cons.prems, of e] Cons.IH show ?case by auto
qed simp

section \<open>Properties\<close>



text \<open>C12. No capacity wake is lost.  If some caller had to wait for a position and has not been
  told since, then as soon as a reservation would no longer have to wait (a position is free
  again, or the sequence space is used up and callers must see the fault) the capacity
  notification is set.\<close>

theorem causal_capacity_wake:
  assumes "run_events causal_exec es (callers_new :: 'op causal_callers) = Some s"
    and "ca_refused s" and "fst (causal_reserve (ca_queue s)) \<noteq> Inl CausalWaiting"
  shows "fst (causal_take_capacity_notification (ca_queue s))"
proof -
  have "callers_ok s" using causal.inv_run [OF assms(1) callers_ok_new] .
  with assms(2,3) show ?thesis
    by (simp add: callers_ok_def Let_def can_reserve_def causal_take_capacity_notification_def)
qed

text \<open>A schedule that fills all positions, is refused once and then drops one reservation.\<close>

lemma fill_positions:
  "n \<le> CAUSAL_OWNER_CAPACITY \<Longrightarrow> run_events causal_exec (replicate n CeReserve) (callers_new :: 'op causal_callers) =
     Some (callers_new\<lparr>ca_live := n, ca_queue := causal_queue_default\<lparr>qs_reserved := n\<rparr>\<rparr>)"
proof (induction n)
  case (Suc n)
  have eq: "replicate (Suc n) (CeReserve :: 'op causal_event) = replicate n CeReserve @ [CeReserve]"
    by (simp add: replicate_append_same)
  from Suc show ?case
    unfolding eq run_events_append
    by (simp add: callers_new_def causal_queue_default_def
        causal_reserve_def CAUSAL_OWNER_CAPACITY_def u64_max_def)
qed (simp add: callers_new_def causal_queue_default_def)

theorem causal_capacity_wake_witness:
  "\<exists>s :: nat causal_callers.
     run_events causal_exec (replicate 256 CeReserve @ [CeReserve, CeDrop]) callers_new = Some s \<and>
     ca_refused s \<and> fst (causal_take_capacity_notification (ca_queue s))"
proof -
  define s :: "nat causal_callers" where
    "s = \<lparr>ca_queue = \<lparr>qs_pending = [], qs_reserved = 255, qs_committed = 0, qs_applied = 0, qs_capacity_changed = True\<rparr>,
      ca_live = 255, ca_log = [], ca_done = [], ca_refused = True\<rparr>"
  have run: "run_events causal_exec (replicate 256 CeReserve @ [CeReserve, CeDrop]) callers_new = Some s"
    using fill_positions [of 256, where 'op = nat]
    by (simp add: run_events_append CAUSAL_OWNER_CAPACITY_def s_def callers_new_def causal_queue_default_def
        causal_reserve_def reservation_drop_def checked_sub_def u64_max_def Let_def)
  have "ca_refused s" "fst (causal_reserve (ca_queue s)) \<noteq> Inl CausalWaiting"
    by (simp_all add: s_def causal_reserve_def CAUSAL_OWNER_CAPACITY_def u64_max_def)
  with run causal_capacity_wake [OF run] show ?thesis by blast
qed

end
