(* ===== verification/Shared_View.thy ===== *)
theory Shared_View
  imports Ordered_Map
begin

text \<open>
  \<open>src/src/shared_view.rs\<close>: one atomic byte counter shared by every immutable view.  A view
  is one allocation with a charge; its clones share the charge and the last one to go
  returns it.  The reserve loop is modelled as the operation it implements and as the
  interleaving of its loads and weak exchanges over any number of threads.
\<close>

section \<open>Operations\<close>

definition SHARED_VIEW_BYTE_CAPACITY :: usize where
  "SHARED_VIEW_BYTE_CAPACITY = 64 * 1024 * 1024"

record shared_view_budget =
  svb_capacity :: usize
  svb_used :: usize

definition shared_view_budget_new :: shared_view_budget where
  "shared_view_budget_new = \<lparr>svb_capacity = SHARED_VIEW_BYTE_CAPACITY, svb_used = 0\<rparr>"

definition shared_view_budget_with_capacity :: "usize \<Rightarrow> shared_view_budget" where
  "shared_view_budget_with_capacity n = \<lparr>svb_capacity = n, svb_used = 0\<rparr>"

record shared_view_capacity_error =
  sce_requested :: usize
  sce_available :: usize

definition capacity_error :: "usize \<Rightarrow> usize \<Rightarrow> usize \<Rightarrow> shared_view_capacity_error" where
  "capacity_error capacity requested used =
     \<lparr>sce_requested = requested, sce_available = saturating_sub capacity used\<rparr>"

text \<open>One round of the loop on the value it has observed: the next value or the error.\<close>

definition reserve_next :: "usize \<Rightarrow> usize \<Rightarrow> usize \<Rightarrow> shared_view_capacity_error + usize" where
  "reserve_next capacity bytes used =
     (case checked_add used bytes of
        None \<Rightarrow> Inl (capacity_error capacity bytes used)
      | Some next \<Rightarrow> if capacity < next then Inl (capacity_error capacity bytes used) else Inr next)"

text \<open>A charge is the number of bytes it returns when it is dropped.\<close>

definition svb_reserve ::
  "usize \<Rightarrow> shared_view_budget \<Rightarrow> (shared_view_capacity_error + usize) \<times> shared_view_budget"
where
  "svb_reserve bytes b =
     (case reserve_next (svb_capacity b) bytes (svb_used b) of
        Inl e \<Rightarrow> (Inl e, b)
      | Inr next \<Rightarrow> (Inr bytes, b\<lparr>svb_used := next\<rparr>))"

text \<open>\<open>fetch_sub\<close> wraps.\<close>

definition svb_drop_charge :: "usize \<Rightarrow> shared_view_budget \<Rightarrow> shared_view_budget" where
  "svb_drop_charge bytes b = b\<lparr>svb_used := (svb_used b + (u64_max + 1) - bytes) mod (u64_max + 1)\<rparr>"

lemma reserve_next_Inr:
  "reserve_next capacity bytes used = Inr n \<longleftrightarrow> n = used + bytes \<and> n \<le> capacity \<and> n \<le> u64_max"
  by (auto simp: reserve_next_def split: option.splits)

lemma svb_drop_charge_exact:
  "bytes \<le> svb_used b \<Longrightarrow> svb_used b \<le> u64_max \<Longrightarrow>
     svb_drop_charge bytes b = b\<lparr>svb_used := svb_used b - bytes\<rparr>"
  by (simp add: svb_drop_charge_def mod_if)

section \<open>Threads and clones\<close>

text \<open>
  Each allocation has its bytes and the number of its live handles.  \<open>SvLoop bytes used\<close> is a
  thread in the reserve loop with the value it observed last.
\<close>

datatype sv_pc = SvIdle | SvLoop usize usize

record sv_world =
  sw_budget :: shared_view_budget
  sw_views :: "(nat, usize \<times> nat) omap"
  sw_threads :: "nat \<Rightarrow> sv_pc"

definition sv_world_new :: "usize \<Rightarrow> sv_world" where
  "sv_world_new capacity =
     \<lparr>sw_budget = shared_view_budget_with_capacity capacity, sw_views = [], sw_threads = (\<lambda>_. SvIdle)\<rparr>"

inductive sv_step :: "sv_world \<Rightarrow> sv_world \<Rightarrow> bool" where
  load:
    "sw_threads s t = SvIdle \<Longrightarrow>
     sv_step s (s\<lparr>sw_threads := (sw_threads s)(t := SvLoop bytes (svb_used (sw_budget s)))\<rparr>)"
| refused:
    "sw_threads s t = SvLoop bytes used \<Longrightarrow>
     reserve_next (svb_capacity (sw_budget s)) bytes used = Inl e \<Longrightarrow>
     sv_step s (s\<lparr>sw_threads := (sw_threads s)(t := SvIdle)\<rparr>)"
| exchange_failed:
    "sw_threads s t = SvLoop bytes used \<Longrightarrow>
     reserve_next (svb_capacity (sw_budget s)) bytes used = Inr n \<Longrightarrow>
     sv_step s (s\<lparr>sw_threads := (sw_threads s)(t := SvLoop bytes (svb_used (sw_budget s)))\<rparr>)"
| exchanged:
    "sw_threads s t = SvLoop bytes used \<Longrightarrow>
     reserve_next (svb_capacity (sw_budget s)) bytes used = Inr n \<Longrightarrow>
     used = svb_used (sw_budget s) \<Longrightarrow> om_get (sw_views s) v = None \<Longrightarrow>
     sv_step s (s\<lparr>sw_threads := (sw_threads s)(t := SvIdle),
       sw_budget := (sw_budget s)\<lparr>svb_used := n\<rparr>, sw_views := om_insert v (bytes, 1) (sw_views s)\<rparr>)"
| cloned:
    "om_get (sw_views s) v = Some (bytes, n) \<Longrightarrow>
     sv_step s (s\<lparr>sw_views := om_insert v (bytes, n + 1) (sw_views s)\<rparr>)"
| dropped_clone:
    "om_get (sw_views s) v = Some (bytes, n) \<Longrightarrow> 1 < n \<Longrightarrow>
     sv_step s (s\<lparr>sw_views := om_insert v (bytes, n - 1) (sw_views s)\<rparr>)"
| dropped_last:
    "om_get (sw_views s) v = Some (bytes, 1) \<Longrightarrow>
     sv_step s (s\<lparr>sw_views := om_remove v (sw_views s), sw_budget := svb_drop_charge bytes (sw_budget s)\<rparr>)"

definition view_bytes :: "(nat, usize \<times> nat) omap \<Rightarrow> nat" where
  "view_bytes m = sum_list (map (fst \<circ> snd) m)"

definition sv_ok :: "sv_world \<Rightarrow> bool" where
  "sv_ok s \<longleftrightarrow> om_ok (sw_views s) \<and> svb_used (sw_budget s) = view_bytes (sw_views s) \<and>
     svb_used (sw_budget s) \<le> svb_capacity (sw_budget s) \<and> svb_used (sw_budget s) \<le> u64_max"

lemmas view_bytes_eq = view_bytes_def comp_def

lemma sv_ok_step: "sv_step s t \<Longrightarrow> sv_ok s \<Longrightarrow> sv_ok t"
proof (induction rule: sv_step.induct)
  case (exchanged s t bytes used n v)
  then show ?case
    using sum_om_insert_absent [of "sw_views s" v fst "(bytes, 1)"]
    by (auto simp: sv_ok_def view_bytes_eq reserve_next_Inr)
next
  case (cloned s v bytes n)
  then show ?case
    using sum_om_insert_present [of "sw_views s" v "(bytes, n)" fst "(bytes, n + 1)"]
    by (auto simp: sv_ok_def view_bytes_eq)
next
  case (dropped_clone s v bytes n)
  then show ?case
    using sum_om_insert_present [of "sw_views s" v "(bytes, n)" fst "(bytes, n - 1)"]
    by (auto simp: sv_ok_def view_bytes_eq)
next
  case (dropped_last s v bytes)
  then have "view_bytes (om_remove v (sw_views s)) + bytes = svb_used (sw_budget s)"
    using sum_om_remove [of "sw_views s" v "(bytes, 1)" fst] by (simp add: sv_ok_def view_bytes_eq)
  with dropped_last show ?case
    using svb_drop_charge_exact [of bytes "sw_budget s"] by (auto simp: sv_ok_def)
qed (simp_all add: sv_ok_def)

interpretation shared_views: transition_invariant "\<lambda>s. \<exists>c. s = sv_world_new c" sv_step sv_ok
proof
  fix s
  assume "\<exists>c. s = sv_world_new c"
  then show "sv_ok s"
    by (auto simp: sv_ok_def sv_world_new_def shared_view_budget_with_capacity_def view_bytes_def)
qed (use sv_ok_step in blast)

section \<open>Properties\<close>

text \<open>C10. However the threads that reserve, clone and drop views interleave, spurious
  failures of the weak exchange included, the counter is exactly the bytes of the live
  views, each counted once however many clones it has, and it never passes the capacity;
  in particular no return of a charge wraps the counter.\<close>

theorem shared_view_budget_exact:
  assumes "sv_step\<^sup>*\<^sup>* (sv_world_new capacity) s"
  shows "svb_used (sw_budget s) = view_bytes (sw_views s) \<and> view_bytes (sw_views s) \<le> capacity"
proof -
  have "sv_ok s" using shared_views.inv_reachable [OF _ assms] by blast
  moreover have "svb_capacity (sw_budget s) = capacity"
    using assms
  proof (induction rule: rtranclp_induct)
    case (step s t)
    from step(2) have "svb_capacity (sw_budget t) = svb_capacity (sw_budget s)"
      by cases (simp_all add: svb_drop_charge_def)
    with step show ?case by simp
  qed (simp add: sv_world_new_def shared_view_budget_with_capacity_def)
  ultimately show ?thesis by (simp add: sv_ok_def)
qed

theorem shared_view_budget_exact_witness:
  "\<exists>s. sv_step\<^sup>*\<^sup>* (sv_world_new 10) s \<and> sw_views s = [(0, 6, 2)] \<and> svb_used (sw_budget s) = 6 \<and>
     view_bytes (sw_views s) \<le> 10"
proof -
  define s1 where "s1 = (sv_world_new 10)\<lparr>sw_threads := (\<lambda>_. SvIdle)(7 := SvLoop 6 0)\<rparr>"
  define s2 where "s2 = (sv_world_new 10)\<lparr>sw_threads := (\<lambda>_. SvIdle)(7 := SvIdle),
    sw_budget := \<lparr>svb_capacity = 10, svb_used = 6\<rparr>, sw_views := [(0, 6, 1)]\<rparr>"
  define s3 where "s3 = s2\<lparr>sw_views := [(0, 6, 2)]\<rparr>"
  note defs = s1_def s2_def s3_def sv_world_new_def shared_view_budget_with_capacity_def
  have "sv_step (sv_world_new 10) s1"
    using load [of "sv_world_new 10" 7 6] by (simp add: defs)
  moreover have "sv_step s1 s2"
    using exchanged [of s1 7 6 0 6 0] by (simp add: defs reserve_next_Inr u64_max_def)
  moreover have "sv_step s2 s3"
    using cloned [of s2 0 6 1] by (simp add: defs numeral_2_eq_2)
  ultimately have run: "sv_step\<^sup>*\<^sup>* (sv_world_new 10) s3"
    by (meson converse_rtranclp_into_rtranclp rtranclp.rtrancl_refl)
  have "sw_views s3 = [(0, 6, 2)]" by (simp add: defs)
  with run shared_view_budget_exact [OF run] show ?thesis by (auto simp: view_bytes_def)
qed

end
