(* ===== verification/Session_Reservations.thy ===== *)
theory Session_Reservations
  imports Shared_View
begin

text \<open>
  \<open>src/src/runtime/session_reservations.rs\<close>: who owes Core the release of each reserved session
  id.  Core's tokens and identities are opaque; an identity is a number.  The world around
  the records (Core's occupied ids, the spawns, the releases under way and the retained
  ones) follows the protocol the file documents.
\<close>

section \<open>Records\<close>

datatype session_reservation = SessionReservation (token_identity: nat)

datatype record_state = Launching (removed_flag: bool) | Installed session_reservation | Releasing

record sr_record =
  sr_identity :: nat
  sr_state :: record_state
  sr_charge :: usize

datatype handoff = Kept | HandReleaseNow session_reservation | Unregistered session_reservation

datatype removal = RemReleaseNow session_reservation | Deferred | RemNone

datatype register_error = Duplicate

type_synonym sr_records = "(string, sr_record) omap"

text \<open>\<open>node_bytes\<close> is \<open>btree_nodes_checked(1)\<close> of the memory layout.\<close>

definition record_bytes :: "usize option \<Rightarrow> string \<Rightarrow> usize option" where
  "record_bytes node_bytes sid =
     (case node_bytes of None \<Rightarrow> None | Some n \<Rightarrow> checked_add n (length sid))"

definition records_charge ::
  "usize option \<Rightarrow> string \<Rightarrow> shared_view_budget \<Rightarrow> (shared_view_capacity_error + string \<times> usize) \<times> shared_view_budget"
where
  "records_charge node_bytes sid b =
     (case record_bytes node_bytes sid of
        None \<Rightarrow> (Inl \<lparr>sce_requested = u64_max, sce_available = 0\<rparr>, b)
      | Some bytes \<Rightarrow>
          (case svb_reserve bytes b of
             (Inl e, b') \<Rightarrow> (Inl e, b')
           | (Inr charge, b') \<Rightarrow> (Inr (sid, charge), b')))"

text \<open>A refused registration drops the charge it was given.\<close>

definition records_register ::
  "string \<times> usize \<Rightarrow> nat \<Rightarrow> sr_records \<times> shared_view_budget \<Rightarrow>
   (register_error + unit) \<times> sr_records \<times> shared_view_budget"
where
  "records_register c identity s =
     (let (sid, charge) = c; (m, b) = s in
      if om_contains m sid then (Inl Duplicate, m, svb_drop_charge charge b)
      else (Inr (), om_insert sid \<lparr>sr_identity = identity, sr_state = Launching False, sr_charge = charge\<rparr> m, b))"

definition records_capture :: "string \<Rightarrow> sr_records \<Rightarrow> nat option" where
  "records_capture sid m = map_option sr_identity (om_get m sid)"

definition set_state :: "string \<Rightarrow> record_state \<Rightarrow> sr_records \<Rightarrow> sr_records" where
  "set_state sid st m = om_modify sid (\<lambda>r. r\<lparr>sr_state := st\<rparr>) m"

definition records_install :: "string \<Rightarrow> session_reservation \<Rightarrow> sr_records \<Rightarrow> handoff \<times> sr_records" where
  "records_install sid token m =
     (case om_get m sid of
        None \<Rightarrow> (Unregistered token, m)
      | Some r \<Rightarrow>
          if sr_identity r \<noteq> token_identity token then (Unregistered token, m)
          else case sr_state r of
            Launching False \<Rightarrow> (Kept, set_state sid (Installed token) m)
          | Launching True \<Rightarrow> (HandReleaseNow token, set_state sid Releasing m)
          | _ \<Rightarrow> (Unregistered token, m))"

definition records_removed :: "string \<Rightarrow> nat \<Rightarrow> sr_records \<Rightarrow> removal \<times> sr_records" where
  "records_removed sid captured m =
     (case om_get m sid of
        None \<Rightarrow> (RemNone, m)
      | Some r \<Rightarrow>
          if sr_identity r \<noteq> captured then (RemNone, m)
          else case sr_state r of
            Installed token \<Rightarrow> (RemReleaseNow token, set_state sid Releasing m)
          | Launching _ \<Rightarrow> (Deferred, set_state sid (Launching True) m)
          | Releasing \<Rightarrow> (RemNone, set_state sid Releasing m))"

definition records_removed_during_launch :: "string \<Rightarrow> nat \<Rightarrow> sr_records \<Rightarrow> bool" where
  "records_removed_during_launch sid identity m =
     (case om_get m sid of
        None \<Rightarrow> False
      | Some r \<Rightarrow> sr_identity r = identity \<and> sr_state r = Launching True)"

text \<open>The removed record drops its charge.\<close>

definition records_retire ::
  "string \<Rightarrow> nat \<Rightarrow> sr_records \<times> shared_view_budget \<Rightarrow> sr_records \<times> shared_view_budget"
where
  "records_retire sid identity s =
     (let (m, b) = s in
      case om_get m sid of
        None \<Rightarrow> s
      | Some r \<Rightarrow>
          if sr_identity r = identity then (om_remove sid m, svb_drop_charge (sr_charge r) b) else s)"

section \<open>The world around the records\<close>

text \<open>
  Core refuses a reservation of an occupied id, gives every reservation a new identity, and
  frees the id when its token is released.
\<close>

record sr_world =
  sr_records :: sr_records
  sr_budget :: shared_view_budget
  sr_core :: "string \<rightharpoonup> nat"
  sr_next :: nat
  sr_spawns :: "(string \<times> nat) set"
  sr_releasing :: "(string \<times> nat) set"
  sr_retained :: "(string \<times> nat) set"

datatype sr_event =
    SrSpawn string "usize option"
  | SrInstall string nat
  | SrSpawnFailed string nat
  | SrRemoved string nat
  | SrReleased string nat
  | SrReleaseFailed string nat
  | SrRetainedReleased string nat

definition sr_world_new :: "usize \<Rightarrow> sr_world" where
  "sr_world_new capacity =
     \<lparr>sr_records = [], sr_budget = shared_view_budget_with_capacity capacity, sr_core = Map.empty,
      sr_next = 0, sr_spawns = {}, sr_releasing = {}, sr_retained = {}\<rparr>"

definition sr_spawn :: "string \<Rightarrow> usize option \<Rightarrow> sr_world \<Rightarrow> sr_world" where
  "sr_spawn sid node_bytes w =
     (case records_charge node_bytes sid (sr_budget w) of
        (Inl _, b) \<Rightarrow> w\<lparr>sr_budget := b\<rparr>
      | (Inr c, b) \<Rightarrow>
          if sr_core w sid \<noteq> None then w\<lparr>sr_budget := svb_drop_charge (snd c) b\<rparr>
          else
            let identity = sr_next w;
                (r, m, b') = records_register c identity (sr_records w, b);
                w' = w\<lparr>sr_records := m, sr_budget := b', sr_core := (sr_core w)(sid \<mapsto> identity), sr_next := identity + 1\<rparr>
            in case r of
                 Inr _ \<Rightarrow> w'\<lparr>sr_spawns := insert (sid, identity) (sr_spawns w)\<rparr>
               | Inl _ \<Rightarrow> w'\<lparr>sr_releasing := insert (sid, identity) (sr_releasing w)\<rparr>)"

definition sr_retire_token :: "string \<Rightarrow> nat \<Rightarrow> sr_world \<Rightarrow> sr_world" where
  "sr_retire_token sid n w =
     (let (m, b) = records_retire sid n (sr_records w, sr_budget w)
      in w\<lparr>sr_records := m, sr_budget := b, sr_releasing := sr_releasing w - {(sid, n)}\<rparr>)"

fun sr_exec :: "sr_event \<Rightarrow> sr_world \<Rightarrow> sr_world option" where
  "sr_exec (SrSpawn sid node_bytes) w = Some (sr_spawn sid node_bytes w)"
| "sr_exec (SrInstall sid n) w =
     (if (sid, n) \<notin> sr_spawns w then None
      else case records_install sid (SessionReservation n) (sr_records w) of
        (Kept, m) \<Rightarrow> Some (w\<lparr>sr_records := m, sr_spawns := sr_spawns w - {(sid, n)}\<rparr>)
      | (_, m) \<Rightarrow> Some (w\<lparr>sr_records := m, sr_spawns := sr_spawns w - {(sid, n)},
                        sr_releasing := insert (sid, n) (sr_releasing w)\<rparr>))"
| "sr_exec (SrSpawnFailed sid n) w =
     (if (sid, n) \<notin> sr_spawns w then None
      else Some (w\<lparr>sr_spawns := sr_spawns w - {(sid, n)}, sr_releasing := insert (sid, n) (sr_releasing w)\<rparr>))"
| "sr_exec (SrRemoved sid captured) w =
     (case records_removed sid captured (sr_records w) of
        (RemReleaseNow token, m) \<Rightarrow>
          Some (w\<lparr>sr_records := m, sr_releasing := insert (sid, token_identity token) (sr_releasing w)\<rparr>)
      | (_, m) \<Rightarrow> Some (w\<lparr>sr_records := m\<rparr>))"
| "sr_exec (SrReleased sid n) w =
     (if (sid, n) \<notin> sr_releasing w then None
      else Some ((sr_retire_token sid n w)\<lparr>sr_core := (sr_core w)(sid := None)\<rparr>))"
| "sr_exec (SrReleaseFailed sid n) w =
     (if (sid, n) \<notin> sr_releasing w then None
      else Some ((sr_retire_token sid n w)\<lparr>sr_retained := insert (sid, n) (sr_retained w)\<rparr>))"
| "sr_exec (SrRetainedReleased sid n) w =
     (if (sid, n) \<notin> sr_retained w then None
      else Some (w\<lparr>sr_retained := sr_retained w - {(sid, n)}, sr_core := (sr_core w)(sid := None)\<rparr>))"

section \<open>Invariant\<close>

definition installed_at :: "sr_world \<Rightarrow> string \<Rightarrow> nat \<Rightarrow> bool" where
  "installed_at w sid n \<longleftrightarrow>
     (\<exists>r. om_get (sr_records w) sid = Some r \<and> sr_state r = Installed (SessionReservation n))"

text \<open>The places a token can be, as a list of truth values.\<close>

definition token_places :: "sr_world \<Rightarrow> string \<Rightarrow> nat \<Rightarrow> bool list" where
  "token_places w sid n =
     [(sid, n) \<in> sr_spawns w, installed_at w sid n, (sid, n) \<in> sr_releasing w, (sid, n) \<in> sr_retained w]"

definition id_ok :: "sr_world \<Rightarrow> string \<Rightarrow> bool" where
  "id_ok w sid \<longleftrightarrow>
     (case sr_core w sid of
        None \<Rightarrow> om_get (sr_records w) sid = None \<and>
          (\<forall>n. (sid, n) \<notin> sr_spawns w \<union> sr_releasing w \<union> sr_retained w)
      | Some n \<Rightarrow> n < sr_next w \<and>
          (\<forall>k. (sid, k) \<in> sr_spawns w \<union> sr_releasing w \<union> sr_retained w \<longrightarrow> k = n) \<and>
          (case om_get (sr_records w) sid of
             None \<Rightarrow> (sid, n) \<in> sr_retained w \<and> (sid, n) \<notin> sr_spawns w \<union> sr_releasing w
           | Some r \<Rightarrow> sr_identity r = n \<and> (sid, n) \<notin> sr_retained w \<and>
               (case sr_state r of
                  Installed t \<Rightarrow> t = SessionReservation n \<and> (sid, n) \<notin> sr_spawns w \<union> sr_releasing w
                | Releasing \<Rightarrow> (sid, n) \<in> sr_releasing w \<and> (sid, n) \<notin> sr_spawns w
                | Launching _ \<Rightarrow> (sid, n) \<in> sr_spawns w \<longleftrightarrow> (sid, n) \<notin> sr_releasing w)))"

definition charges_ok :: "sr_records \<Rightarrow> shared_view_budget \<Rightarrow> bool" where
  "charges_ok m b \<longleftrightarrow> om_ok m \<and> svb_used b = sum_list (map (\<lambda>e. sr_charge (snd e)) m) \<and>
     svb_used b \<le> svb_capacity b \<and> svb_used b \<le> u64_max"

definition sr_ok :: "sr_world \<Rightarrow> bool" where
  "sr_ok w \<longleftrightarrow> charges_ok (sr_records w) (sr_budget w) \<and> (\<forall>sid. id_ok w sid)"

lemma sr_ok_new: "sr_ok (sr_world_new capacity)"
  by (simp add: sr_ok_def sr_world_new_def charges_ok_def id_ok_def shared_view_budget_with_capacity_def)

text \<open>The charges: taken, given back, moved into a record and out of it.\<close>

lemma set_state_charge:
  "map (\<lambda>e. sr_charge (snd e)) (set_state sid st m) = map (\<lambda>e. sr_charge (snd e)) m"
  by (auto simp: set_state_def om_modify_def)

lemma charges_ok_set_state [simp]: "charges_ok (set_state sid st m) b \<longleftrightarrow> charges_ok m b"
  by (auto simp: charges_ok_def set_state_charge) (simp_all add: set_state_def om_ok_def)

lemma svb_reserve_drop:
  assumes "svb_reserve bytes b = (Inr c, b')" and "svb_used b \<le> u64_max"
  shows "c = bytes \<and> svb_drop_charge c b' = b \<and> b' = b\<lparr>svb_used := svb_used b + bytes\<rparr> \<and>
    svb_used b' \<le> svb_capacity b' \<and> svb_used b' \<le> u64_max"
  using assms svb_drop_charge_exact [of bytes b']
  by (auto simp: svb_reserve_def reserve_next_Inr split: sum.splits)

lemma charges_ok_retire:
  assumes "charges_ok m b" and "records_retire sid n (m, b) = (m', b')"
  shows "charges_ok m' b' \<and> m' = (if map_option sr_identity (om_get m sid) = Some n then om_remove sid m else m)"
proof (cases "om_get m sid")
  case (Some r)
  show ?thesis
  proof (cases "sr_identity r = n")
    case True
    have sum: "sum_list (map (\<lambda>e. sr_charge (snd e)) (om_remove sid m)) + sr_charge r = svb_used b"
      using assms(1) Some sum_om_remove [of m sid r sr_charge] by (simp add: charges_ok_def)
    have "svb_drop_charge (sr_charge r) b =
        b\<lparr>svb_used := sum_list (map (\<lambda>e. sr_charge (snd e)) (om_remove sid m))\<rparr>"
      unfolding sum [symmetric] using sum assms(1)
      by (subst svb_drop_charge_exact) (auto simp: charges_ok_def simp flip: sum)
    with True Some assms sum show ?thesis by (auto simp: charges_ok_def records_retire_def)
  qed (use Some assms in \<open>auto simp: records_retire_def\<close>)
qed (use assms in \<open>auto simp: records_retire_def\<close>)

text \<open>Ids other than the one an event names keep their standing.\<close>

lemma id_ok_other:
  assumes "id_ok w x" and "sr_core w' x = sr_core w x" and "sr_next w \<le> sr_next w'"
    and "om_get (sr_records w') x = om_get (sr_records w) x"
    and "\<And>n. (x, n) \<in> sr_spawns w' \<longleftrightarrow> (x, n) \<in> sr_spawns w"
    and "\<And>n. (x, n) \<in> sr_releasing w' \<longleftrightarrow> (x, n) \<in> sr_releasing w"
    and "\<And>n. (x, n) \<in> sr_retained w' \<longleftrightarrow> (x, n) \<in> sr_retained w"
  shows "id_ok w' x"
  using assms by (auto simp: id_ok_def split: option.splits record_state.splits)

lemma sr_spawn_ok:
  assumes ok: "sr_ok w"
  shows "sr_ok (sr_spawn sid node_bytes w)"
proof -
  note ch = ok [unfolded sr_ok_def charges_ok_def, THEN conjunct1]
  obtain r b where c: "records_charge node_bytes sid (sr_budget w) = (r, b)" by fastforce
  show ?thesis
  proof (cases r)
    case (Inl e)
    with c have "b = sr_budget w"
      by (auto simp: records_charge_def svb_reserve_def split: option.splits sum.splits prod.splits)
    with ok c Inl show ?thesis by (simp add: sr_spawn_def)
  next
    case (Inr p)
    then obtain bytes where p: "p = (sid, bytes)" "svb_reserve bytes (sr_budget w) = (Inr bytes, b)"
      using c by (auto simp: records_charge_def svb_reserve_def split: option.splits sum.splits prod.splits)
    note res = svb_reserve_drop [OF p(2)]
    show ?thesis
    proof (cases "sr_core w sid")
      case (Some n)
      have "svb_drop_charge bytes b = sr_budget w" using res ch by blast
      with ok c Inr p(1) Some show ?thesis by (simp add: sr_spawn_def)
    next
      case None
      then have none: "om_get (sr_records w) sid = None" "\<And>n. (sid, n) \<notin> sr_spawns w \<union> sr_releasing w \<union> sr_retained w"
        using ok [unfolded sr_ok_def, THEN conjunct2, rule_format, of sid] by (auto simp: id_ok_def)
      let ?r = "\<lparr>sr_identity = sr_next w, sr_state = Launching False, sr_charge = bytes\<rparr>"
      have eq: "sr_spawn sid node_bytes w =
          w\<lparr>sr_records := om_insert sid ?r (sr_records w), sr_budget := b,
            sr_core := (sr_core w)(sid \<mapsto> sr_next w), sr_next := sr_next w + 1,
            sr_spawns := insert (sid, sr_next w) (sr_spawns w)\<rparr>"
        using None none c Inr p by (simp add: sr_spawn_def records_register_def om_contains_def Let_def)
      have "charges_ok (om_insert sid ?r (sr_records w)) b"
        using res ch sum_om_insert_absent [OF none(1), of sr_charge ?r] by (auto simp: charges_ok_def)
      moreover have "id_ok (sr_spawn sid node_bytes w) x" for x
      proof (cases "x = sid")
        case True
        with none show ?thesis unfolding eq by (auto simp: id_ok_def)
      next
        case False
        with ok show ?thesis unfolding eq by - (rule id_ok_other [of w x], auto simp: sr_ok_def)
      qed
      ultimately show ?thesis unfolding sr_ok_def eq by auto
    qed
  qed
qed

lemma sr_retire_token_eq:
  assumes "sr_ok w" and "(sid, n) \<in> sr_releasing w"
  shows "\<exists>b. sr_retire_token sid n w =
      w\<lparr>sr_records := om_remove sid (sr_records w), sr_budget := b, sr_releasing := sr_releasing w - {(sid, n)}\<rparr> \<and>
    charges_ok (om_remove sid (sr_records w)) b \<and> sr_core w sid = Some n \<and>
    (sid, n) \<notin> sr_spawns w \<union> sr_retained w \<and> n < sr_next w"
proof -
  have id: "id_ok w sid" using assms(1) by (simp add: sr_ok_def)
  then have core: "sr_core w sid = Some n" "n < sr_next w" and
      rec: "map_option sr_identity (om_get (sr_records w) sid) = Some n" and
      others: "(sid, n) \<notin> sr_spawns w \<union> sr_retained w"
    using assms(2) by (auto simp: id_ok_def split: option.splits record_state.splits)
  obtain m b where ret: "records_retire sid n (sr_records w, sr_budget w) = (m, b)" by fastforce
  with charges_ok_retire [of "sr_records w" "sr_budget w" sid n m b] assms(1) rec
  have "charges_ok m b" "m = om_remove sid (sr_records w)" by (auto simp: sr_ok_def)
  with ret core others show ?thesis by (auto simp: sr_retire_token_def)
qed

lemma get_set_state:
  "om_get (set_state sid st m) x = (if x = sid then map_option (\<lambda>r. r\<lparr>sr_state := st\<rparr>) (om_get m sid) else om_get m x)"
  by (simp add: set_state_def)

lemma held_record:
  assumes "id_ok w sid" and "(sid, n) \<in> sr_spawns w"
  shows "\<exists>r f. om_get (sr_records w) sid = Some r \<and> sr_identity r = n \<and> sr_state r = Launching f \<and>
    sr_core w sid = Some n \<and> (sid, n) \<notin> sr_releasing w \<union> sr_retained w"
  using assms by (auto simp: id_ok_def split: option.splits record_state.splits)

text \<open>Changing the state of one record and the places of its token.\<close>

lemma id_ok_record:
  "sr_core w sid = Some n \<Longrightarrow> om_get (sr_records w) sid = Some r \<Longrightarrow>
   id_ok w sid \<longleftrightarrow> n < sr_next w \<and> sr_identity r = n \<and>
     (\<forall>k. (sid, k) \<in> sr_spawns w \<union> sr_releasing w \<union> sr_retained w \<longrightarrow> k = n) \<and> (sid, n) \<notin> sr_retained w \<and>
     (case sr_state r of
        Installed t \<Rightarrow> t = SessionReservation n \<and> (sid, n) \<notin> sr_spawns w \<union> sr_releasing w
      | Releasing \<Rightarrow> (sid, n) \<in> sr_releasing w \<and> (sid, n) \<notin> sr_spawns w
      | Launching _ \<Rightarrow> (sid, n) \<in> sr_spawns w \<longleftrightarrow> (sid, n) \<notin> sr_releasing w)"
  by (auto simp: id_ok_def)

lemma id_ok_has_core:
  "id_ok w sid \<Longrightarrow> om_get (sr_records w) sid = Some r \<Longrightarrow> sr_core w sid = Some (sr_identity r)"
  by (auto simp: id_ok_def split: option.splits)

lemma sr_frame:
  assumes "sr_ok w" and "charges_ok (sr_records w') (sr_budget w')" and "id_ok w' sid" and "sr_next w \<le> sr_next w'"
    and "\<And>x. x \<noteq> sid \<Longrightarrow> sr_core w' x = sr_core w x \<and> om_get (sr_records w') x = om_get (sr_records w) x"
    and "\<And>x n. x \<noteq> sid \<Longrightarrow> ((x, n) \<in> sr_spawns w' \<longleftrightarrow> (x, n) \<in> sr_spawns w) \<and>
      ((x, n) \<in> sr_releasing w' \<longleftrightarrow> (x, n) \<in> sr_releasing w) \<and> ((x, n) \<in> sr_retained w' \<longleftrightarrow> (x, n) \<in> sr_retained w)"
  shows "sr_ok w'"
  using assms(1-3) id_ok_other [of w _ w'] assms(4-) unfolding sr_ok_def by metis

lemma sr_set_state:
  assumes ok: "sr_ok w" and r: "om_get (sr_records w) sid = Some r"
    and w': "sr_records w' = set_state sid st (sr_records w)" "sr_spawns w' = S" "sr_releasing w' = R"
      "sr_retained w' = sr_retained w" "sr_core w' = sr_core w" "sr_next w' = sr_next w" "sr_budget w' = sr_budget w"
    and S: "S \<subseteq> sr_spawns w" "sr_spawns w \<subseteq> insert (sid, sr_identity r) S"
    and R: "sr_releasing w \<subseteq> R" "R \<subseteq> insert (sid, sr_identity r) (sr_releasing w)"
    and st: "case st of
        Installed t \<Rightarrow> t = SessionReservation (sr_identity r) \<and> (sid, sr_identity r) \<notin> S \<union> R
      | Releasing \<Rightarrow> (sid, sr_identity r) \<in> R \<and> (sid, sr_identity r) \<notin> S
      | Launching _ \<Rightarrow> (sid, sr_identity r) \<in> S \<longleftrightarrow> (sid, sr_identity r) \<notin> R"
  shows "sr_ok w'"
proof (rule sr_frame [OF ok, of w' sid])
  have id: "id_ok w sid" using ok by (simp add: sr_ok_def)
  note core = id_ok_has_core [OF id r]
  show "charges_ok (sr_records w') (sr_budget w')" using ok by (simp add: w' sr_ok_def)
  have r': "om_get (sr_records w') sid = Some (r\<lparr>sr_state := st\<rparr>)" and core': "sr_core w' sid = Some (sr_identity r)"
    using r core by (simp_all add: w' get_set_state)
  show "id_ok w' sid"
    unfolding id_ok_record [OF core' r'] w'(2-)
    using id [unfolded id_ok_record [OF core r]] S R st by auto
qed (use S R in \<open>auto simp: w' get_set_state\<close>)

lemma sr_exec_ok:
  assumes ok: "sr_ok w" and run: "sr_exec e w = Some w'"
  shows "sr_ok w'"
proof -
  have id: "id_ok w x" for x using ok by (simp add: sr_ok_def)
  show ?thesis
  proof (cases e)
    case (SrSpawn sid nb)
    with run sr_spawn_ok [OF ok, of sid nb] show ?thesis by auto
  next
    case (SrInstall sid n)
    then have held: "(sid, n) \<in> sr_spawns w" using run by (auto split: if_splits)
    from held_record [OF id held] obtain r f where r: "om_get (sr_records w) sid = Some r"
        "sr_identity r = n" "sr_state r = Launching f" "(sid, n) \<notin> sr_releasing w" by blast
    show ?thesis
    proof (cases f)
      case True
      with r held SrInstall run show ?thesis
        by (intro sr_set_state [OF ok r(1), where st = Releasing and S = "sr_spawns w - {(sid, n)}" and
              R = "insert (sid, n) (sr_releasing w)"]) (auto simp: records_install_def)
    next
      case False
      with r held SrInstall run show ?thesis
        by (intro sr_set_state [OF ok r(1), where st = "Installed (SessionReservation n)" and
              S = "sr_spawns w - {(sid, n)}" and R = "sr_releasing w"]) (auto simp: records_install_def)
    qed
  next
    case (SrRemoved sid n)
    show ?thesis
    proof (cases "\<exists>r. om_get (sr_records w) sid = Some r \<and> sr_identity r = n")
      case True
      then obtain r where r: "om_get (sr_records w) sid = Some r" "sr_identity r = n" by blast
      note place = id [of sid, unfolded id_ok_record [OF id_ok_has_core [OF id r(1)] r(1)]]
      show ?thesis
      proof (cases "sr_state r")
        case (Launching f)
        have "w' = w\<lparr>sr_records := set_state sid (Launching True) (sr_records w)\<rparr>"
          using SrRemoved run r Launching by (simp add: records_removed_def)
        moreover have "(sid, sr_identity r) \<in> sr_spawns w \<longleftrightarrow> (sid, sr_identity r) \<notin> sr_releasing w"
          using place Launching by simp
        ultimately show ?thesis
          by (intro sr_set_state [OF ok r(1), where st = "Launching True"]) auto
      next
        case (Installed t)
        have "w' = w\<lparr>sr_records := set_state sid Releasing (sr_records w),
            sr_releasing := insert (sid, token_identity t) (sr_releasing w)\<rparr>"
          using SrRemoved run r Installed by (simp add: records_removed_def)
        moreover have "t = SessionReservation (sr_identity r)" "(sid, sr_identity r) \<notin> sr_spawns w"
          using place Installed by auto
        ultimately show ?thesis
          by (intro sr_set_state [OF ok r(1), where st = Releasing]) auto
      next
        case Releasing
        have "w' = w\<lparr>sr_records := set_state sid Releasing (sr_records w)\<rparr>"
          using SrRemoved run r Releasing by (simp add: records_removed_def)
        moreover have "(sid, sr_identity r) \<in> sr_releasing w" "(sid, sr_identity r) \<notin> sr_spawns w"
          using place Releasing by auto
        ultimately show ?thesis
          by (intro sr_set_state [OF ok r(1), where st = Releasing]) auto
      qed
    next
      case False
      with SrRemoved run ok show ?thesis by (auto simp: records_removed_def split: option.splits)
    qed
  next
    case (SrSpawnFailed sid n)
    then have held: "(sid, n) \<in> sr_spawns w" and w': "w' = w\<lparr>sr_spawns := sr_spawns w - {(sid, n)},
        sr_releasing := insert (sid, n) (sr_releasing w)\<rparr>"
      using run by (auto split: if_splits)
    from held_record [OF id held] obtain r f where r: "om_get (sr_records w) sid = Some r"
        "sr_identity r = n" "sr_state r = Launching f" "sr_core w sid = Some n" by blast
    have "id_ok w' sid"
      using id [of sid, unfolded id_ok_record [OF r(4,1)]] r
      by (subst id_ok_record [of _ _ n r]) (auto simp: w')
    then show ?thesis using ok by (intro sr_frame [OF ok, of w' sid]) (auto simp: w' sr_ok_def)
  next
    case (SrReleased sid n)
    then obtain b where w': "w' = w\<lparr>sr_records := om_remove sid (sr_records w), sr_budget := b,
        sr_releasing := sr_releasing w - {(sid, n)}, sr_core := (sr_core w)(sid := None)\<rparr>"
        "charges_ok (om_remove sid (sr_records w)) b" "sr_core w sid = Some n"
        "(sid, n) \<notin> sr_spawns w \<union> sr_retained w"
      using run sr_retire_token_eq [OF ok, of sid n] by (auto split: if_splits)
    then have "id_ok w' sid" using id [of sid] by (auto simp: id_ok_def)
    with w' show ?thesis by (intro sr_frame [OF ok, of w' sid]) auto
  next
    case (SrReleaseFailed sid n)
    then obtain b where w': "w' = w\<lparr>sr_records := om_remove sid (sr_records w), sr_budget := b,
        sr_releasing := sr_releasing w - {(sid, n)}, sr_retained := insert (sid, n) (sr_retained w)\<rparr>"
        "charges_ok (om_remove sid (sr_records w)) b" "sr_core w sid = Some n"
        "(sid, n) \<notin> sr_spawns w \<union> sr_retained w"
      using run sr_retire_token_eq [OF ok, of sid n] by (auto split: if_splits)
    then have "id_ok w' sid" using id [of sid] by (auto simp: id_ok_def)
    with w' show ?thesis by (intro sr_frame [OF ok, of w' sid]) auto
  next
    case (SrRetainedReleased sid n)
    then have held: "(sid, n) \<in> sr_retained w" and w': "w' = w\<lparr>sr_retained := sr_retained w - {(sid, n)},
        sr_core := (sr_core w)(sid := None)\<rparr>"
      using run by (auto split: if_splits)
    then have "id_ok w' sid" using id [of sid] by (auto simp: id_ok_def split: option.splits)
    then show ?thesis using ok w' by (intro sr_frame [OF ok, of w' sid]) (auto simp: sr_ok_def)
  qed
qed

interpretation reservations: event_invariant sr_exec sr_ok
  by unfold_locales (rule sr_exec_ok)

lemma token_places_count:
  assumes "id_ok w sid"
  shows "length (filter id (token_places w sid n)) = (if sr_core w sid = Some n then 1 else 0)"
proof (cases "sr_core w sid")
  case None
  with assms show ?thesis by (auto simp: id_ok_def token_places_def installed_at_def)
next
  case (Some k)
  show ?thesis
  proof (cases "om_get (sr_records w) sid")
    case None
    with assms Some show ?thesis by (auto simp: id_ok_def token_places_def installed_at_def)
  next
    case rec: (Some r)
    with assms [unfolded id_ok_record [OF Some rec]] Some show ?thesis
      by (cases "sr_state r") (auto simp: token_places_def installed_at_def)
  qed
qed

text \<open>A removed launch stays removed.\<close>

definition removal_noted :: "string \<Rightarrow> nat \<Rightarrow> sr_world \<Rightarrow> bool" where
  "removal_noted sid n w \<longleftrightarrow> n < sr_next w \<and>
     (\<forall>r. om_get (sr_records w) sid = Some r \<and> sr_identity r = n \<longrightarrow> sr_state r \<in> {Launching True, Releasing})"

lemma removal_noted_retire:
  "removal_noted sid n w \<Longrightarrow> removal_noted sid n (sr_retire_token x k w)"
  by (auto simp: removal_noted_def sr_retire_token_def records_retire_def split: option.splits if_splits)

lemma removal_noted_exec:
  assumes ok: "sr_ok w" and run: "sr_exec e w = Some w'" and noted: "removal_noted sid n w"
  shows "removal_noted sid n w'"
proof (cases e)
  case (SrSpawn x nb)
  with run noted show ?thesis
    by (auto simp: removal_noted_def sr_spawn_def records_register_def Let_def split: sum.splits prod.splits if_splits)
next
  case (SrInstall x k)
  with run noted show ?thesis
    by (auto simp: removal_noted_def records_install_def get_set_state
        split: if_splits option.splits record_state.splits bool.splits)
next
  case (SrRemoved x k)
  with run noted show ?thesis
    by (auto simp: removal_noted_def records_removed_def get_set_state
        split: if_splits option.splits record_state.splits)
next
  case (SrReleased x k)
  with run removal_noted_retire [OF noted, of x k] show ?thesis
    by (auto simp: removal_noted_def split: if_splits)
next
  case (SrReleaseFailed x k)
  with run removal_noted_retire [OF noted, of x k] show ?thesis
    by (auto simp: removal_noted_def split: if_splits)
qed (use run noted in \<open>auto simp: removal_noted_def split: if_splits\<close>)

section \<open>Properties\<close>

text \<open>C13. Every reserved session id has exactly one owner of its token.  Under any schedule of
  spawns, handoffs, failures, removals and releases, the token of an occupied id is in
  exactly one place (a spawn, an installed record, a release under way or the retained list)
  and no other token for that id is anywhere; a handoff never finds its record missing, a
  registration is never a duplicate, and the budget is charged exactly for the records.\<close>

theorem session_token_one_owner:
  assumes "run_events sr_exec es (sr_world_new capacity) = Some w"
  shows "(\<forall>sid n. length (filter id (token_places w sid n)) = (if sr_core w sid = Some n then 1 else 0)) \<and>
    (\<forall>sid n. (sid, n) \<in> sr_spawns w \<longrightarrow>
       fst (records_install sid (SessionReservation n) (sr_records w)) \<noteq> Unregistered (SessionReservation n)) \<and>
    (\<forall>sid bytes n b. sr_core w sid = None \<longrightarrow>
       fst (records_register (sid, bytes) n (sr_records w, b)) = Inr ()) \<and>
    svb_used (sr_budget w) = sum_list (map (sr_charge \<circ> snd) (sr_records w))"
proof -
  have ok: "sr_ok w" using reservations.inv_run [OF assms sr_ok_new] .
  then have id: "id_ok w sid" for sid by (simp add: sr_ok_def)
  have "fst (records_install sid (SessionReservation n) (sr_records w)) \<noteq> Unregistered (SessionReservation n)"
    if held: "(sid, n) \<in> sr_spawns w" for sid n
    using held_record [OF id held] by (auto simp: records_install_def split: bool.splits)
  moreover have "fst (records_register (sid, bytes) n (sr_records w, b)) = Inr ()"
    if "sr_core w sid = None" for sid bytes n b
    using that id [of sid] by (simp add: id_ok_def records_register_def om_contains_def)
  ultimately show ?thesis
    using ok token_places_count [OF id] by (simp add: sr_ok_def charges_ok_def comp_def)
qed

theorem session_token_one_owner_witness:
  "\<exists>w. run_events sr_exec [SrSpawn ''a'' (Some 8), SrSpawn ''b'' (Some 8), SrRemoved ''a'' 0, SrInstall ''a'' 0, SrInstall ''b'' 1]
       (sr_world_new 100) = Some w \<and>
     token_places w ''a'' 0 = [False, False, True, False] \<and> token_places w ''b'' 1 = [False, True, False, False] \<and>
     svb_used (sr_budget w) = sum_list (map (sr_charge \<circ> snd) (sr_records w)) \<and> svb_used (sr_budget w) = 18"
proof -
  let ?es = "[SrSpawn ''a'' (Some 8), SrSpawn ''b'' (Some 8), SrRemoved ''a'' 0, SrInstall ''a'' 0, SrInstall ''b'' 1]"
  note eval = sr_world_new_def sr_spawn_def records_charge_def record_bytes_def checked_add_def u64_max_def
    svb_reserve_def reserve_next_def shared_view_budget_with_capacity_def records_register_def om_contains_def
    Let_def records_removed_def records_install_def set_state_def om_modify_def installed_at_def token_places_def
  define w where "w = the (run_events sr_exec ?es (sr_world_new 100))"
  have run: "run_events sr_exec ?es (sr_world_new 100) = Some w"
    unfolding w_def by (simp add: eval)
  have "token_places w ''a'' 0 = [False, False, True, False]" "token_places w ''b'' 1 = [False, True, False, False]"
      "svb_used (sr_budget w) = 18"
    unfolding w_def by (simp_all add: eval)
  with run session_token_one_owner [OF run] show ?thesis by blast
qed



end
