(* ===== verification/Connection_Budget.thy ===== *)
theory Connection_Budget
  imports Ordered_Map
begin

text \<open>
  \<open>src/src/admission/connection_budget.rs\<close>: the channels and the buffered bytes of one peer.
  The counters are naturals; \<open>usize\<close> has 64 bits.  The first part gives every operation as one
  step; the second interleaves the loads and exchanges of the authorization loop.
\<close>

section \<open>Constants and data\<close>

definition MAX_CONTROL_CHANNELS :: usize where
  "MAX_CONTROL_CHANNELS = 1"

definition MAX_SUBSCRIPTION_CHANNELS :: usize where
  "MAX_SUBSCRIPTION_CHANNELS = 32"

definition MAX_TOTAL_CHANNELS :: usize where
  "MAX_TOTAL_CHANNELS = MAX_CONTROL_CHANNELS + MAX_SUBSCRIPTION_CHANNELS"

definition AGGREGATE_BUFFERED_HIGH :: usize where
  "AGGREGATE_BUFFERED_HIGH = 2097152"

definition AGGREGATE_BUFFERED_LOW :: usize where
  "AGGREGATE_BUFFERED_LOW = 1048576"

definition CHANNEL_DRAINED_BYTES :: usize where
  "CHANNEL_DRAINED_BYTES = 64 * 1024"

datatype channel_class = Control | Terminal | Entity | Event

datatype channel_budget_error = ChannelLimit | AggregateBuffered

text \<open>A channel's usage cell is one of the aggregate's slots, or its own for the control channel.\<close>

record channel_usage =
  cu_class :: channel_class
  cu_own_buffered :: usize
  cu_aggregate_slot :: "nat option"

text \<open>Waiters are named by numbers; whether one is still live is asked when it matters.\<close>

record connection_aggregate =
  ag_slots :: "usize list"
  ag_authorized :: usize
  ag_waiters :: "nat list"

record connection_budget =
  cb_channels :: "(string, channel_usage) omap"
  cb_aggregate :: connection_aggregate

lemmas channel_limits = MAX_CONTROL_CHANNELS_def MAX_SUBSCRIPTION_CHANNELS_def MAX_TOTAL_CHANNELS_def
lemmas byte_limits = AGGREGATE_BUFFERED_HIGH_def AGGREGATE_BUFFERED_LOW_def CHANNEL_DRAINED_BYTES_def

section \<open>The aggregate\<close>

definition connection_aggregate_new :: connection_aggregate where
  "connection_aggregate_new =
     \<lparr>ag_slots = replicate MAX_SUBSCRIPTION_CHANNELS 0, ag_authorized = 0, ag_waiters = []\<rparr>"

definition register_waiter :: "(nat \<Rightarrow> bool) \<Rightarrow> nat \<Rightarrow> connection_aggregate \<Rightarrow> connection_aggregate" where
  "register_waiter live w a = a\<lparr>ag_waiters := filter live (ag_waiters a) @ [w]\<rparr>"

definition published_buffered :: "connection_aggregate \<Rightarrow> usize" where
  "published_buffered a = sum_list (ag_slots a)"

definition ag_buffered :: "connection_aggregate \<Rightarrow> usize" where
  "ag_buffered a = saturating_add (published_buffered a) (ag_authorized a)"

definition published_drained :: "connection_aggregate \<Rightarrow> bool" where
  "published_drained a \<longleftrightarrow> list_all (\<lambda>n. n \<le> CHANNEL_DRAINED_BYTES) (ag_slots a)"

definition quiescent :: "connection_aggregate \<Rightarrow> bool" where
  "quiescent a \<longleftrightarrow> ag_authorized a = 0 \<and> published_drained a"

definition below_low_water :: "connection_aggregate \<Rightarrow> bool" where
  "below_low_water a \<longleftrightarrow> ag_buffered a < AGGREGATE_BUFFERED_LOW"

text \<open>The waiters that are told, and the aggregate without the retired ones.\<close>

definition ag_capacity_released :: "(nat \<Rightarrow> bool) \<Rightarrow> connection_aggregate \<Rightarrow> nat list \<times> connection_aggregate" where
  "ag_capacity_released live a =
     (if \<not> below_low_water a \<and> \<not> quiescent a then ([], a)
      else (filter live (ag_waiters a), a\<lparr>ag_waiters := filter live (ag_waiters a)\<rparr>))"

definition extends_fit :: "usize \<Rightarrow> usize \<Rightarrow> usize \<Rightarrow> bool" where
  "extends_fit published authorized frame \<longleftrightarrow>
     saturating_add (saturating_add published authorized) frame \<le> AGGREGATE_BUFFERED_HIGH"

definition try_extend_authorized :: "usize \<Rightarrow> connection_aggregate \<Rightarrow> bool \<times> connection_aggregate" where
  "try_extend_authorized frame a =
     (let fits = extends_fit (published_buffered a) (ag_authorized a) frame in
      if \<not> fits \<and> (ag_authorized a \<noteq> 0 \<or> \<not> published_drained a) then (False, a)
      else (True, a\<lparr>ag_authorized := saturating_add (ag_authorized a) frame\<rparr>))"

definition admits_refused :: "usize \<Rightarrow> connection_aggregate \<Rightarrow> bool" where
  "admits_refused need a \<longleftrightarrow>
     ag_buffered a < AGGREGATE_BUFFERED_LOW \<and> saturating_add (ag_buffered a) need \<le> AGGREGATE_BUFFERED_HIGH \<or>
     quiescent a"

text \<open>A permit is the number of bytes it stands for.\<close>

definition try_authorize :: "usize \<Rightarrow> connection_aggregate \<Rightarrow> usize option \<times> connection_aggregate" where
  "try_authorize frame a =
     (let (ok, a') = try_extend_authorized frame a in (if ok then Some frame else None, a'))"

definition permit_resize :: "usize \<Rightarrow> usize \<Rightarrow> connection_aggregate \<Rightarrow> (bool \<times> usize) \<times> connection_aggregate" where
  "permit_resize frame old a =
     (if old < frame then
        (let (ok, a') = try_extend_authorized (frame - old) a in ((ok, if ok then frame else old), a'))
      else if frame < old then ((True, frame), a\<lparr>ag_authorized := ag_authorized a - (old - frame)\<rparr>)
      else ((True, frame), a))"

definition permit_drop ::
  "(nat \<Rightarrow> bool) \<Rightarrow> bool \<Rightarrow> usize \<Rightarrow> connection_aggregate \<Rightarrow> nat list \<times> connection_aggregate"
where
  "permit_drop live transferred frame a =
     (let a' = a\<lparr>ag_authorized := ag_authorized a - frame\<rparr>
      in if transferred then ([], a') else ag_capacity_released live a')"

section \<open>The channels\<close>

definition connection_budget_default :: connection_budget where
  "connection_budget_default = \<lparr>cb_channels = [], cb_aggregate = connection_aggregate_new\<rparr>"

definition count_class :: "(channel_class \<Rightarrow> bool) \<Rightarrow> connection_budget \<Rightarrow> usize" where
  "count_class P b = length (filter (\<lambda>u. P (cu_class u)) (om_values (cb_channels b)))"

definition free_slot :: "connection_budget \<Rightarrow> nat option" where
  "free_slot b =
     find (\<lambda>slot. list_all (\<lambda>u. cu_aggregate_slot u \<noteq> Some slot) (om_values (cb_channels b)))
       [0 ..< MAX_SUBSCRIPTION_CHANNELS]"

definition cb_reserve ::
  "string \<Rightarrow> channel_class \<Rightarrow> connection_budget \<Rightarrow> (channel_budget_error + nat option) \<times> connection_budget"
where
  "cb_reserve label class b =
     (if (if class = Control then MAX_CONTROL_CHANNELS \<le> count_class (\<lambda>c. c = Control) b
          else MAX_SUBSCRIPTION_CHANNELS \<le> count_class (\<lambda>c. c \<noteq> Control) b)
      then (Inl ChannelLimit, b)
      else if MAX_TOTAL_CHANNELS \<le> length (cb_channels b) then (Inl ChannelLimit, b)
      else if class \<noteq> Control \<and> AGGREGATE_BUFFERED_HIGH \<le> ag_buffered (cb_aggregate b)
      then (Inl AggregateBuffered, b)
      else
        let slot = (if class = Control then None else free_slot b) in
        if class \<noteq> Control \<and> slot = None then (Inl ChannelLimit, b)
        else
          (Inr slot,
           b\<lparr>cb_aggregate :=
               (case slot of None \<Rightarrow> cb_aggregate b
                | Some i \<Rightarrow> (cb_aggregate b)\<lparr>ag_slots := (ag_slots (cb_aggregate b))[i := 0]\<rparr>),
             cb_channels :=
               om_insert label \<lparr>cu_class = class, cu_own_buffered = 0, cu_aggregate_slot = slot\<rparr> (cb_channels b)\<rparr>))"

definition cb_release :: "(nat \<Rightarrow> bool) \<Rightarrow> string \<Rightarrow> connection_budget \<Rightarrow> (bool \<times> nat list) \<times> connection_budget" where
  "cb_release live label b =
     (case om_get (cb_channels b) label of
        None \<Rightarrow> ((False, []), b)
      | Some u \<Rightarrow>
          let a = (case cu_aggregate_slot u of
                     None \<Rightarrow> cb_aggregate b
                   | Some i \<Rightarrow> (cb_aggregate b)\<lparr>ag_slots := (ag_slots (cb_aggregate b))[i := 0]\<rparr>);
              (woken, a') = ag_capacity_released live a
          in ((True, woken), b\<lparr>cb_channels := om_remove label (cb_channels b), cb_aggregate := a'\<rparr>))"

definition cb_usage :: "string \<Rightarrow> connection_budget \<Rightarrow> usize option" where
  "cb_usage label b =
     map_option (\<lambda>u. case cu_aggregate_slot u of
                      None \<Rightarrow> cu_own_buffered u
                    | Some i \<Rightarrow> ag_slots (cb_aggregate b) ! i) (om_get (cb_channels b) label)"

definition cb_authorize_send :: "string \<Rightarrow> usize \<Rightarrow> connection_budget \<Rightarrow> usize option \<times> connection_budget" where
  "cb_authorize_send label frame b =
     (if om_contains (cb_channels b) label
      then let (p, a) = try_authorize frame (cb_aggregate b) in (p, b\<lparr>cb_aggregate := a\<rparr>)
      else (None, b))"

section \<open>One peer's history\<close>

text \<open>
  Permits are held under numbers.  Publishing adds a permit's bytes to its channel's slot and
  ends the permit as transferred; draining is what the transport does to a slot.
\<close>

record cb_world =
  cw_budget :: connection_budget
  cw_permits :: "(nat, usize) omap"

datatype cb_event =
    CbReserve string channel_class
  | CbRelease string
  | CbAuthorize nat string usize
  | CbResize nat usize
  | CbPublish nat string
  | CbDropPermit nat
  | CbDrain nat usize

definition cb_world_new :: cb_world where
  "cb_world_new = \<lparr>cw_budget = connection_budget_default, cw_permits = []\<rparr>"

definition on_aggregate :: "(connection_aggregate \<Rightarrow> connection_aggregate) \<Rightarrow> cb_world \<Rightarrow> cb_world" where
  "on_aggregate f w = w\<lparr>cw_budget := cb_aggregate_update f (cw_budget w)\<rparr>"

fun cb_exec :: "cb_event \<Rightarrow> cb_world \<Rightarrow> cb_world option" where
  "cb_exec (CbReserve label class) w = Some (w\<lparr>cw_budget := snd (cb_reserve label class (cw_budget w))\<rparr>)"
| "cb_exec (CbRelease label) w = Some (w\<lparr>cw_budget := snd (cb_release (\<lambda>_. True) label (cw_budget w))\<rparr>)"
| "cb_exec (CbAuthorize p label frame) w =
     (if om_contains (cw_permits w) p then None
      else case cb_authorize_send label frame (cw_budget w) of
        (None, b) \<Rightarrow> Some (w\<lparr>cw_budget := b\<rparr>)
      | (Some n, b) \<Rightarrow> Some (w\<lparr>cw_budget := b, cw_permits := om_insert p n (cw_permits w)\<rparr>))"
| "cb_exec (CbResize p frame) w =
     (case om_get (cw_permits w) p of
        None \<Rightarrow> None
      | Some old \<Rightarrow>
          let ((ok, n), a) = permit_resize frame old (cb_aggregate (cw_budget w))
          in Some ((on_aggregate (\<lambda>_. a) w)\<lparr>cw_permits := om_insert p n (cw_permits w)\<rparr>))"
| "cb_exec (CbPublish p label) w =
     (case om_get (cw_permits w) p of
        None \<Rightarrow> None
      | Some n \<Rightarrow>
          (case om_get (cb_channels (cw_budget w)) label of
             None \<Rightarrow> None
           | Some u \<Rightarrow>
               (case cu_aggregate_slot u of
                  None \<Rightarrow> None
                | Some i \<Rightarrow>
                    Some ((on_aggregate (\<lambda>a. snd (permit_drop (\<lambda>_. True) True n
                              (a\<lparr>ag_slots := (ag_slots a)[i := ag_slots a ! i + n]\<rparr>))) w)
                            \<lparr>cw_permits := om_remove p (cw_permits w)\<rparr>))))"
| "cb_exec (CbDropPermit p) w =
     (case om_get (cw_permits w) p of
        None \<Rightarrow> None
      | Some n \<Rightarrow>
          Some ((on_aggregate (\<lambda>a. snd (permit_drop (\<lambda>_. True) False n a)) w)\<lparr>cw_permits := om_remove p (cw_permits w)\<rparr>))"
| "cb_exec (CbDrain i n) w =
     Some (on_aggregate (\<lambda>a. if i < length (ag_slots a) \<and> n \<le> ag_slots a ! i
                            then a\<lparr>ag_slots := (ag_slots a)[i := n]\<rparr> else a) w)"

section \<open>Bytes\<close>

definition occupied :: "cb_world \<Rightarrow> nat" where
  "occupied w = published_buffered (cb_aggregate (cw_budget w)) + ag_authorized (cb_aggregate (cw_budget w))"

lemma sum_list_bounded: "list_all (\<lambda>n. n \<le> c) xs \<Longrightarrow> sum_list xs \<le> length xs * (c :: nat)"
  by (induction xs) auto

lemma drained_bound:
  "published_drained a \<Longrightarrow> published_buffered a \<le> length (ag_slots a) * CHANNEL_DRAINED_BYTES"
  by (simp add: published_drained_def published_buffered_def sum_list_bounded)

lemma try_extend_True:
  assumes "try_extend_authorized f a = (True, a')" and "f \<le> u64_max"
  shows "a' = a\<lparr>ag_authorized := ag_authorized a + f\<rparr>"
    and "published_buffered a + ag_authorized a + f \<le> AGGREGATE_BUFFERED_HIGH \<or> quiescent a"
proof -
  have high: "AGGREGATE_BUFFERED_HIGH < u64_max" by (simp add: byte_limits u64_max_def)
  then have fit: "extends_fit p q f \<longleftrightarrow> p + q + f \<le> AGGREGATE_BUFFERED_HIGH" for p q
    by (auto simp: extends_fit_def saturating_add_def)
  from assms(1) have ok: "published_buffered a + ag_authorized a + f \<le> AGGREGATE_BUFFERED_HIGH \<or> quiescent a"
    and a': "a' = a\<lparr>ag_authorized := saturating_add (ag_authorized a) f\<rparr>"
    by (auto simp: try_extend_authorized_def fit quiescent_def Let_def split: if_splits)
  show "published_buffered a + ag_authorized a + f \<le> AGGREGATE_BUFFERED_HIGH \<or> quiescent a" by (rule ok)
  have "ag_authorized a + f \<le> u64_max" using ok assms(2) high by (auto simp: quiescent_def)
  then show "a' = a\<lparr>ag_authorized := ag_authorized a + f\<rparr>" by (simp add: a' saturating_add_exact)
qed

lemma try_extend_False: "try_extend_authorized f a = (False, a') \<Longrightarrow> a' = a"
  by (auto simp: try_extend_authorized_def Let_def split: if_splits)

lemma capacity_released_keeps:
  "ag_slots (snd (ag_capacity_released live a)) = ag_slots a"
  "ag_authorized (snd (ag_capacity_released live a)) = ag_authorized a"
  by (simp_all add: ag_capacity_released_def)

definition bytes_ok :: "nat \<Rightarrow> cb_world \<Rightarrow> bool" where
  "bytes_ok F w \<longleftrightarrow>
     om_ok (cw_permits w) \<and> length (ag_slots (cb_aggregate (cw_budget w))) = MAX_SUBSCRIPTION_CHANNELS \<and>
     ag_authorized (cb_aggregate (cw_budget w)) = sum_list (om_values (cw_permits w)) \<and>
     occupied w \<le> AGGREGATE_BUFFERED_HIGH + F"

lemma slot_update_le: "n \<le> xs ! i \<Longrightarrow> sum_list (xs[i := n]) \<le> sum_list (xs :: nat list)"
proof (cases "i < length xs")
  case True
  assume "n \<le> xs ! i"
  with sum_list_update_nat [OF True, of n] show ?thesis by linarith
qed (simp add: list_update_beyond)

lemma cb_reserve_keeps:
  "length (ag_slots (cb_aggregate (snd (cb_reserve l c b)))) = length (ag_slots (cb_aggregate b))"
  "ag_authorized (cb_aggregate (snd (cb_reserve l c b))) = ag_authorized (cb_aggregate b)"
  "published_buffered (cb_aggregate (snd (cb_reserve l c b))) \<le> published_buffered (cb_aggregate b)"
  by (simp_all add: cb_reserve_def Let_def published_buffered_def slot_update_le split: option.splits)

lemma cb_release_keeps:
  "length (ag_slots (cb_aggregate (snd (cb_release v l b)))) = length (ag_slots (cb_aggregate b))"
  "ag_authorized (cb_aggregate (snd (cb_release v l b))) = ag_authorized (cb_aggregate b)"
  "published_buffered (cb_aggregate (snd (cb_release v l b))) \<le> published_buffered (cb_aggregate b)"
  by (simp_all add: cb_release_def Let_def published_buffered_def slot_update_le capacity_released_keeps
      split: option.splits prod.splits)
    (auto simp: ag_capacity_released_def slot_update_le split: if_splits)

text \<open>What each request asks for.\<close>

fun frame_of :: "cb_event \<Rightarrow> nat" where
  "frame_of (CbAuthorize _ _ n) = n"
| "frame_of (CbResize _ n) = n"
| "frame_of _ = 0"

lemma extend_bound:
  assumes "bytes_ok F w" and "try_extend_authorized f (cb_aggregate (cw_budget w)) = (True, a)" and "f \<le> F" and "F \<le> u64_max"
  shows "a = (cb_aggregate (cw_budget w))\<lparr>ag_authorized := ag_authorized (cb_aggregate (cw_budget w)) + f\<rparr> \<and>
    published_buffered (cb_aggregate (cw_budget w)) + (ag_authorized (cb_aggregate (cw_budget w)) + f)
      \<le> AGGREGATE_BUFFERED_HIGH + F"
proof -
  let ?a = "cb_aggregate (cw_budget w)"
  have len: "length (ag_slots ?a) = MAX_SUBSCRIPTION_CHANNELS" using assms(1) by (simp add: bytes_ok_def)
  have "published_buffered ?a \<le> AGGREGATE_BUFFERED_HIGH \<and> ag_authorized ?a = 0" if "quiescent ?a"
    using that drained_bound [of ?a] by (simp add: quiescent_def len byte_limits channel_limits)
  with try_extend_True [OF assms(2)] assms(3,4) show ?thesis by auto
qed

lemma bytes_ok_budget:
  assumes "bytes_ok F w" and "length (ag_slots (cb_aggregate b)) = length (ag_slots (cb_aggregate (cw_budget w)))"
    and "ag_authorized (cb_aggregate b) = ag_authorized (cb_aggregate (cw_budget w))"
    and "published_buffered (cb_aggregate b) \<le> published_buffered (cb_aggregate (cw_budget w))"
  shows "bytes_ok F (w\<lparr>cw_budget := b\<rparr>)"
  using assms by (simp add: bytes_ok_def occupied_def)

abbreviation ag :: "cb_world \<Rightarrow> connection_aggregate" where
  "ag w \<equiv> cb_aggregate (cw_budget w)"

text \<open>The sums over the permits, with the value itself as the field.\<close>

lemmas permit_sums = sum_om_insert_absent [where f = "\<lambda>n. n"] sum_om_insert_present [where f = "\<lambda>n. n"]
  sum_om_remove [where f = "\<lambda>n. n"]

lemma bytes_ok_exec:
  assumes ok: "bytes_ok F w" and run: "cb_exec e w = Some w'" and F: "frame_of e \<le> F" "F \<le> u64_max"
  shows "bytes_ok F w'"
proof (cases e)
  case (CbReserve l c)
  with run bytes_ok_budget [OF ok cb_reserve_keeps] show ?thesis by auto
next
  case (CbRelease l)
  with run bytes_ok_budget [OF ok cb_release_keeps] show ?thesis by auto
next
  case (CbAuthorize p l f)
  have absent: "om_get (cw_permits w) p = None" using run CbAuthorize by (auto simp: om_contains_def split: if_splits)
  obtain r a where ext: "try_extend_authorized f (ag w) = (r, a)" by fastforce
  show ?thesis
  proof (cases "r \<and> om_contains (cb_channels (cw_budget w)) l")
    case True
    then have w': "w' = w\<lparr>cw_budget := (cw_budget w)\<lparr>cb_aggregate := a\<rparr>, cw_permits := om_insert p f (cw_permits w)\<rparr>"
      using run CbAuthorize ext absent by (auto simp: cb_authorize_send_def try_authorize_def om_contains_def)
    from extend_bound [OF ok, of f a] ext True F CbAuthorize
    have "a = (ag w)\<lparr>ag_authorized := ag_authorized (ag w) + f\<rparr>"
        "published_buffered (ag w) + (ag_authorized (ag w) + f) \<le> AGGREGATE_BUFFERED_HIGH + F" by auto
    then show ?thesis using ok permit_sums(1) [OF absent, of f]
      by (simp add: w' bytes_ok_def occupied_def published_buffered_def)
  next
    case False
    then have "w' = w"
      using run CbAuthorize ext try_extend_False [of f "ag w" a] absent
      by (auto simp: cb_authorize_send_def try_authorize_def om_contains_def split: if_splits)
    with ok show ?thesis by simp
  qed
next
  case (CbResize p f)
  then obtain old where old: "om_get (cw_permits w) p = Some old" using run by (auto split: option.splits)
  have perm: "om_ok (cw_permits w)" and auth: "ag_authorized (ag w) = sum_list (om_values (cw_permits w))"
    using ok by (simp_all add: bytes_ok_def)
  note sum = permit_sums(2) [OF perm old]
  consider (grow) "old < f" | (shrink) "f < old" | (same) "f = old" by linarith
  then show ?thesis
  proof cases
    case grow
    obtain r a where ext: "try_extend_authorized (f - old) (ag w) = (r, a)" by fastforce
    have w': "w' = w\<lparr>cw_budget := (cw_budget w)\<lparr>cb_aggregate := a\<rparr>,
        cw_permits := om_insert p (if r then f else old) (cw_permits w)\<rparr>"
      using run CbResize old grow ext by (auto simp: permit_resize_def on_aggregate_def Let_def)
    show ?thesis
    proof (cases r)
      case True
      from extend_bound [OF ok, of "f - old" a] ext True F CbResize
      have "a = (ag w)\<lparr>ag_authorized := ag_authorized (ag w) + (f - old)\<rparr>"
        "published_buffered (ag w) + (ag_authorized (ag w) + (f - old)) \<le> AGGREGATE_BUFFERED_HIGH + F" by auto
      then show ?thesis using ok sum [of f] grow True
        by (simp add: w' bytes_ok_def occupied_def published_buffered_def)
    next
      case False
      with ok try_extend_False [of "f - old" "ag w" a] ext sum [of old] show ?thesis
        by (simp add: w' bytes_ok_def occupied_def)
    qed
  next
    case shrink
    then have "w' = w\<lparr>cw_budget := (cw_budget w)\<lparr>cb_aggregate := (ag w)\<lparr>ag_authorized := ag_authorized (ag w) - (old - f)\<rparr>\<rparr>,
        cw_permits := om_insert p f (cw_permits w)\<rparr>"
      using run CbResize old by (auto simp: permit_resize_def on_aggregate_def)
    then show ?thesis using ok sum [of f] shrink auth
      by (auto simp: bytes_ok_def occupied_def published_buffered_def)
  next
    case same
    then have "w' = w\<lparr>cw_budget := (cw_budget w)\<lparr>cb_aggregate := ag w\<rparr>, cw_permits := om_insert p f (cw_permits w)\<rparr>"
      using run CbResize old by (auto simp: permit_resize_def on_aggregate_def)
    then show ?thesis using ok sum [of f] same by (simp add: bytes_ok_def occupied_def)
  qed
next
  case (CbDropPermit p)
  then obtain n where n: "om_get (cw_permits w) p = Some n" using run by (auto split: option.splits)
  have "om_ok (cw_permits w)" using ok by (simp add: bytes_ok_def)
  note sum = permit_sums(3) [OF this n]
  have w': "w' = (on_aggregate (\<lambda>a. snd (permit_drop (\<lambda>_. True) False n a)) w)\<lparr>cw_permits := om_remove p (cw_permits w)\<rparr>"
    using run CbDropPermit n by simp
  show ?thesis using ok sum
    by (auto simp: w' bytes_ok_def occupied_def on_aggregate_def permit_drop_def Let_def
        capacity_released_keeps published_buffered_def)
next
  case (CbPublish p l)
  then obtain n u i where n: "om_get (cw_permits w) p = Some n"
    and u: "om_get (cb_channels (cw_budget w)) l = Some u" "cu_aggregate_slot u = Some i"
    using run by (auto split: option.splits)
  have "om_ok (cw_permits w)" using ok by (simp add: bytes_ok_def)
  note sum = permit_sums(3) [OF this n]
  have w': "w' = (on_aggregate (\<lambda>a. snd (permit_drop (\<lambda>_. True) True n
      (a\<lparr>ag_slots := (ag_slots a)[i := ag_slots a ! i + n]\<rparr>))) w)\<lparr>cw_permits := om_remove p (cw_permits w)\<rparr>"
    using run CbPublish n u by simp
  have "sum_list ((ag_slots (ag w))[i := ag_slots (ag w) ! i + n]) \<le> sum_list (ag_slots (ag w)) + n"
    using sum_list_update_nat [of i "ag_slots (ag w)" "ag_slots (ag w) ! i + n"]
    by (cases "i < length (ag_slots (ag w))") (auto simp: list_update_beyond)
  then show ?thesis using ok sum
    by (auto simp: w' bytes_ok_def occupied_def on_aggregate_def permit_drop_def published_buffered_def)
next
  case (CbDrain i n)
  have "sum_list ((ag_slots (ag w))[i := n]) \<le> sum_list (ag_slots (ag w))" if "n \<le> ag_slots (ag w) ! i"
    using that by (rule slot_update_le)
  with ok run CbDrain show ?thesis
    by (auto simp: bytes_ok_def occupied_def on_aggregate_def published_buffered_def)
qed

lemma bytes_ok_run:
  "bytes_ok F w \<Longrightarrow> run_events cb_exec es w = Some w' \<Longrightarrow> \<forall>e \<in> set es. frame_of e \<le> F \<Longrightarrow> F \<le> u64_max \<Longrightarrow>
     bytes_ok F w'"
  by (induction es arbitrary: w) (auto split: option.splits dest: bytes_ok_exec)

section \<open>Channels\<close>

definition chan_ok :: "connection_budget \<Rightarrow> bool" where
  "chan_ok b \<longleftrightarrow> om_ok (cb_channels b) \<and>
     (\<forall>l u. om_get (cb_channels b) l = Some u \<longrightarrow>
        (cu_class u = Control \<longleftrightarrow> cu_aggregate_slot u = None) \<and>
        (\<forall>i. cu_aggregate_slot u = Some i \<longrightarrow> i < MAX_SUBSCRIPTION_CHANNELS)) \<and>
     (\<forall>l k u v i. om_get (cb_channels b) l = Some u \<longrightarrow> om_get (cb_channels b) k = Some v \<longrightarrow>
        cu_aggregate_slot u = Some i \<longrightarrow> cu_aggregate_slot v = Some i \<longrightarrow> l = k) \<and>
     count_class (\<lambda>c. c = Control) b \<le> MAX_CONTROL_CHANNELS \<and>
     count_class (\<lambda>c. c \<noteq> Control) b \<le> MAX_SUBSCRIPTION_CHANNELS"

lemma count_insert_le:
  "length (filter P (om_values (om_insert k v m))) \<le> length (filter P (om_values m)) + (if P v then 1 else 0)"
  by (induction m) auto

lemma count_remove_le: "length (filter P (om_values (om_remove k m))) \<le> length (filter P (om_values m))"
  by (induction m) (auto simp: om_remove_def)

lemma free_slot_Some:
  assumes "free_slot b = Some i"
  shows "i < MAX_SUBSCRIPTION_CHANNELS" and "om_get (cb_channels b) l = Some u \<Longrightarrow> cu_aggregate_slot u \<noteq> Some i"
  using assms map_of_SomeD [of "cb_channels b" l u]
  by (auto simp: free_slot_def find_Some_iff list_all_iff)

lemma cb_reserve_cases:
  assumes "cb_reserve l c b = (r, b')"
  obtains (refused) e where "r = Inl e" "b' = b"
  | (control) "c = Control" "r = Inr None" "count_class (\<lambda>c. c = Control) b < MAX_CONTROL_CHANNELS"
      "cb_channels b' = om_insert l \<lparr>cu_class = Control, cu_own_buffered = 0, cu_aggregate_slot = None\<rparr> (cb_channels b)"
  | (slot) i where "c \<noteq> Control" "r = Inr (Some i)" "free_slot b = Some i"
      "count_class (\<lambda>c. c \<noteq> Control) b < MAX_SUBSCRIPTION_CHANNELS"
      "cb_channels b' = om_insert l \<lparr>cu_class = c, cu_own_buffered = 0, cu_aggregate_slot = Some i\<rparr> (cb_channels b)"
  using assms by (auto simp: cb_reserve_def Let_def not_le split: if_splits option.splits)

lemma chan_ok_insert:
  assumes ok: "chan_ok b" and new: "(cu_class u = Control \<longleftrightarrow> cu_aggregate_slot u = None)"
      "\<And>i. cu_aggregate_slot u = Some i \<Longrightarrow> i < MAX_SUBSCRIPTION_CHANNELS"
      "\<And>i k v. cu_aggregate_slot u = Some i \<Longrightarrow> om_get (cb_channels b) k = Some v \<Longrightarrow> cu_aggregate_slot v \<noteq> Some i"
    and room: "if cu_class u = Control then count_class (\<lambda>c. c = Control) b < MAX_CONTROL_CHANNELS
       else count_class (\<lambda>c. c \<noteq> Control) b < MAX_SUBSCRIPTION_CHANNELS"
    and b': "cb_channels b' = om_insert l u (cb_channels b)"
  shows "chan_ok b'"
proof -
  have counts: "count_class P b' \<le> count_class P b + (if P (cu_class u) then 1 else 0)" for P
    using count_insert_le [of "\<lambda>u. P (cu_class u)" l u "cb_channels b"] by (simp add: count_class_def b')
  have "count_class (\<lambda>c. c = Control) b' \<le> MAX_CONTROL_CHANNELS"
    using counts [of "\<lambda>c. c = Control"] ok room by (auto simp: chan_ok_def split: if_splits)
  moreover have "count_class (\<lambda>c. c \<noteq> Control) b' \<le> MAX_SUBSCRIPTION_CHANNELS"
    using counts [of "\<lambda>c. c \<noteq> Control"] ok room by (auto simp: chan_ok_def split: if_splits)
  ultimately show ?thesis
    using ok new unfolding chan_ok_def b' by (auto split: if_splits)
qed

lemma chan_ok_reserve: "chan_ok b \<Longrightarrow> chan_ok (snd (cb_reserve l c b))"
proof -
  assume ok: "chan_ok b"
  obtain r b' where res: "cb_reserve l c b = (r, b')" by fastforce
  from this ok show ?thesis
  proof (cases rule: cb_reserve_cases)
    case control
    with ok res show ?thesis by (auto intro!: chan_ok_insert [OF ok])
  next
    case (slot i)
    then have "chan_ok b'"
      using free_slot_Some [OF slot(3)] by (intro chan_ok_insert [OF ok _ _ _ _ slot(5)]) auto
    with res show ?thesis by simp
  qed (use res in simp)
qed

lemma chan_ok_release: "chan_ok b \<Longrightarrow> chan_ok (snd (cb_release v l b))"
proof -
  assume ok: "chan_ok b"
  have chans: "cb_channels (snd (cb_release v l b)) = om_remove l (cb_channels b)"
    using om_remove_absent [of "cb_channels b" l] by (auto simp: cb_release_def Let_def split: option.splits prod.splits)
  have "count_class P (snd (cb_release v l b)) \<le> count_class P b" for P
    using count_remove_le by (simp add: count_class_def chans)
  with ok show ?thesis unfolding chan_ok_def chans
    by (auto split: if_splits intro: order_trans)
qed

text \<open>With fewer than 32 subscription channels some slot is free.\<close>

lemma free_slot_exists:
  assumes ok: "chan_ok b" and room: "count_class (\<lambda>c. c \<noteq> Control) b < MAX_SUBSCRIPTION_CHANNELS"
  shows "free_slot b \<noteq> None"
proof
  assume "free_slot b = None"
  then have used: "\<forall>i < MAX_SUBSCRIPTION_CHANNELS. \<exists>u \<in> set (om_values (cb_channels b)). cu_aggregate_slot u = Some i"
    by (auto simp: free_slot_def find_None_iff list_all_iff)
  let ?subs = "filter (\<lambda>u. cu_class u \<noteq> Control) (om_values (cb_channels b))"
  have "{0 ..< MAX_SUBSCRIPTION_CHANNELS} \<subseteq> (\<lambda>u. the (cu_aggregate_slot u)) ` set ?subs"
  proof
    fix i assume "i \<in> {0 ..< MAX_SUBSCRIPTION_CHANNELS}"
    then obtain u where u: "u \<in> set (om_values (cb_channels b))" "cu_aggregate_slot u = Some i"
      using used by fastforce
    then obtain l where "om_get (cb_channels b) l = Some u"
      using ok by (auto simp: chan_ok_def om_in_set_iff)
    with ok u have "cu_class u \<noteq> Control" by (auto simp: chan_ok_def)
    with u show "i \<in> (\<lambda>u. the (cu_aggregate_slot u)) ` set ?subs" by (force intro: rev_image_eqI)
  qed
  then have "MAX_SUBSCRIPTION_CHANNELS \<le> card ((\<lambda>u. the (cu_aggregate_slot u)) ` set ?subs)"
    using card_mono [of "(\<lambda>u. the (cu_aggregate_slot u)) ` set ?subs" "{0 ..< MAX_SUBSCRIPTION_CHANNELS}"] by simp
  also have "\<dots> \<le> length ?subs"
    using card_length [of "map (\<lambda>u. the (cu_aggregate_slot u)) ?subs"] by simp
  finally show False using room by (simp add: count_class_def)
qed

lemma cb_exec_channels:
  assumes "cb_exec e w = Some w'" and "chan_ok (cw_budget w)"
  shows "chan_ok (cw_budget w')"
proof -
  have same: "chan_ok b' \<longleftrightarrow> chan_ok b" if "cb_channels b' = cb_channels b" for b b'
    using that by (simp add: chan_ok_def count_class_def)
  show ?thesis
  proof (cases e)
    case (CbReserve l c)
    with assms show ?thesis by (auto intro: chan_ok_reserve)
  next
    case (CbRelease l)
    with assms show ?thesis by (auto intro: chan_ok_release)
  next
    case (CbAuthorize p l f)
    then have "cb_channels (cw_budget w') = cb_channels (cw_budget w)"
      using assms(1) by (auto simp: cb_authorize_send_def Let_def split: if_splits prod.splits option.splits)
    with assms(2) same show ?thesis by blast
  qed (use assms same [of "cw_budget w'" "cw_budget w"] in
      \<open>auto simp: on_aggregate_def Let_def split: option.splits prod.splits\<close>)
qed

interpretation channels: event_invariant cb_exec "\<lambda>w. chan_ok (cw_budget w)"
  by unfold_locales (rule cb_exec_channels)

lemma cb_world_new_ok:
  "bytes_ok F cb_world_new" "chan_ok (cw_budget cb_world_new)"
  by (simp_all add: bytes_ok_def chan_ok_def cb_world_new_def connection_budget_default_def
      connection_aggregate_new_def occupied_def published_buffered_def count_class_def sum_list_replicate)

section \<open>Properties\<close>

text \<open>C15. The buffered bytes of a peer are bounded.  When no frame is longer than \<open>F\<close>, the
  published and the authorized bytes together never pass the high mark by more than one such
  frame, whatever is reserved, released, authorized, resized, published, drained and dropped;
  and the authorized bytes are exactly those of the live permits, so no return underflows.\<close>

theorem aggregate_bytes_bounded:
  assumes "run_events cb_exec es cb_world_new = Some w"
    and "\<forall>e \<in> set es. frame_of e \<le> F" and "F \<le> u64_max"
  shows "published_buffered (cb_aggregate (cw_budget w)) + ag_authorized (cb_aggregate (cw_budget w))
      \<le> AGGREGATE_BUFFERED_HIGH + F \<and>
    ag_authorized (cb_aggregate (cw_budget w)) = sum_list (om_values (cw_permits w))"
  using bytes_ok_run [OF cb_world_new_ok(1) assms] by (simp add: bytes_ok_def occupied_def)

lemma empty_slots: "replicate 32 (0 :: nat) =
  [0, 0, 0, 0, 0, 0, 0, 0, 0, 0, 0, 0, 0, 0, 0, 0, 0, 0, 0, 0, 0, 0, 0, 0, 0, 0, 0, 0, 0, 0, 0, 0]"
  by (simp add: numeral_eq_Suc)

lemmas cb_eval = cb_world_new_def connection_budget_default_def connection_aggregate_new_def cb_reserve_def
  cb_authorize_send_def try_authorize_def try_extend_authorized_def extends_fit_def published_buffered_def
  published_drained_def ag_buffered_def count_class_def free_slot_def channel_limits byte_limits u64_max_def
  saturating_add_def on_aggregate_def permit_drop_def om_contains_def om_remove_def Let_def empty_slots

theorem aggregate_bytes_bounded_witness:
  "\<exists>w. run_events cb_exec [CbReserve ''t'' Terminal, CbAuthorize 0 ''t'' 3000000, CbAuthorize 1 ''t'' 5, CbPublish 0 ''t'']
       cb_world_new = Some w \<and>
     published_buffered (cb_aggregate (cw_budget w)) = 3000000 \<and> om_values (cw_permits w) = [] \<and>
     ag_authorized (cb_aggregate (cw_budget w)) = sum_list (om_values (cw_permits w)) \<and>
     published_buffered (cb_aggregate (cw_budget w)) + ag_authorized (cb_aggregate (cw_budget w))
       \<le> AGGREGATE_BUFFERED_HIGH + 3000000"
proof -
  let ?es = "[CbReserve ''t'' Terminal, CbAuthorize 0 ''t'' 3000000, CbAuthorize 1 ''t'' 5, CbPublish 0 ''t'']"
  define w where "w = the (run_events cb_exec ?es cb_world_new)"
  have run: "run_events cb_exec ?es cb_world_new = Some w"
    unfolding w_def by (simp add: cb_eval upt_conv_Cons)
  have "published_buffered (cb_aggregate (cw_budget w)) = 3000000" "om_values (cw_permits w) = []"
    unfolding w_def by (simp_all add: cb_eval upt_conv_Cons)
  with run aggregate_bytes_bounded [OF run, of 3000000] show ?thesis by (auto simp: u64_max_def)
qed

text \<open>C16. Waiting senders make progress.  A write that was refused and that the aggregate says
  it would now admit is authorized, and whenever some refused write would be admitted a
  release of capacity tells every live waiter.\<close>

theorem refused_write_resumes:
  assumes "admits_refused need a" and "need \<le> u64_max"
  shows "fst (try_extend_authorized need a) \<and>
    fst (ag_capacity_released live a) = filter live (ag_waiters a)"
proof -
  have "AGGREGATE_BUFFERED_HIGH < u64_max" by (simp add: byte_limits u64_max_def)
  then have "fst (try_extend_authorized need a)"
    using assms by (auto simp: admits_refused_def try_extend_authorized_def extends_fit_def ag_buffered_def
        quiescent_def Let_def)
  moreover have "below_low_water a \<or> quiescent a"
    using assms(1) by (auto simp: admits_refused_def below_low_water_def)
  ultimately show ?thesis by (auto simp: ag_capacity_released_def)
qed

theorem refused_write_resumes_witness:
  "admits_refused 3000000 (connection_aggregate_new\<lparr>ag_slots := 65536 # replicate 31 0, ag_waiters := [4, 9]\<rparr>) \<and>
   fst (ag_capacity_released (\<lambda>w. w \<noteq> 4) (connection_aggregate_new\<lparr>ag_slots := 65536 # replicate 31 0, ag_waiters := [4, 9]\<rparr>))
     = [9]"
proof -
  let ?a = "connection_aggregate_new\<lparr>ag_slots := 65536 # replicate 31 0, ag_waiters := [4, 9]\<rparr>"
  have adm: "admits_refused 3000000 ?a"
    by (simp add: admits_refused_def quiescent_def published_drained_def connection_aggregate_new_def byte_limits
        list_all_iff)
  with refused_write_resumes [OF adm, of "\<lambda>w. w \<noteq> 4"] show ?thesis by (simp add: u64_max_def)
qed

text \<open>The channel limits hold and no slot is shared: in every reachable budget there is at
  most one control channel and there are at most 32 others, each with a slot of its own, and a
  subscription channel is refused exactly when 32 are open or the aggregate is at the high
  mark.\<close>

theorem channel_slots_exclusive:
  assumes "run_events cb_exec es cb_world_new = Some w"
  shows "count_class (\<lambda>c. c = Control) (cw_budget w) \<le> 1 \<and>
    count_class (\<lambda>c. c \<noteq> Control) (cw_budget w) \<le> 32 \<and>
    (\<forall>l k u v. om_get (cb_channels (cw_budget w)) l = Some u \<longrightarrow> om_get (cb_channels (cw_budget w)) k = Some v \<longrightarrow>
       cu_class u \<noteq> Control \<longrightarrow> cu_aggregate_slot u = cu_aggregate_slot v \<longrightarrow> l = k) \<and>
    (\<forall>label kind. kind \<noteq> Control \<longrightarrow>
       ((\<exists>e. fst (cb_reserve label kind (cw_budget w)) = Inl e) \<longleftrightarrow>
        count_class (\<lambda>c. c \<noteq> Control) (cw_budget w) = 32 \<or>
        AGGREGATE_BUFFERED_HIGH \<le> ag_buffered (cb_aggregate (cw_budget w))))"
proof -
  let ?b = "cw_budget w"
  have ok: "chan_ok ?b" using channels.inv_run [OF assms cb_world_new_ok(2)] .
  have counts: "count_class (\<lambda>c. c = Control) ?b \<le> 1" "count_class (\<lambda>c. c \<noteq> Control) ?b \<le> 32"
    using ok by (simp_all add: chan_ok_def channel_limits)
  have "length (cb_channels ?b) = count_class (\<lambda>c. c = Control) ?b + count_class (\<lambda>c. c \<noteq> Control) ?b"
    using sum_length_filter_compl [of "\<lambda>u. cu_class u = Control" "om_values (cb_channels ?b)"]
    by (simp add: count_class_def)
  with counts have len: "count_class (\<lambda>c. c \<noteq> Control) ?b < 32 \<Longrightarrow> length (cb_channels ?b) < 33" by linarith
  have "(\<exists>e. fst (cb_reserve label kind ?b) = Inl e) \<longleftrightarrow>
      count_class (\<lambda>c. c \<noteq> Control) ?b = 32 \<or> AGGREGATE_BUFFERED_HIGH \<le> ag_buffered (cb_aggregate ?b)"
    if "kind \<noteq> Control" for label kind
  proof (cases "count_class (\<lambda>c. c \<noteq> Control) ?b = 32")
    case False
    with counts(2) have "count_class (\<lambda>c. c \<noteq> Control) ?b < 32" by simp
    with that len free_slot_exists [OF ok] show ?thesis by (auto simp: cb_reserve_def Let_def channel_limits)
  qed (use that in \<open>auto simp: cb_reserve_def Let_def channel_limits split: option.splits\<close>)
  moreover have "l = k" if h: "om_get (cb_channels ?b) l = Some u" "om_get (cb_channels ?b) k = Some v"
      "cu_class u \<noteq> Control" "cu_aggregate_slot u = cu_aggregate_slot v" for l k u v
  proof -
    obtain i where "cu_aggregate_slot u = Some i" using ok h(1,3) by (auto simp: chan_ok_def)
    with ok h show ?thesis unfolding chan_ok_def by metis
  qed
  ultimately show ?thesis using counts by blast
qed

theorem channel_slots_exclusive_witness:
  "\<exists>w. run_events cb_exec [CbReserve ''c'' Control, CbReserve ''d'' Control, CbReserve ''t'' Terminal, CbReserve ''e'' Event]
       cb_world_new = Some w \<and>
     count_class (\<lambda>c. c = Control) (cw_budget w) = 1 \<and> count_class (\<lambda>c. c \<noteq> Control) (cw_budget w) = 2 \<and>
     (\<exists>s. fst (cb_reserve ''f'' Entity (cw_budget w)) = Inr s)"
proof -
  let ?es = "[CbReserve ''c'' Control, CbReserve ''d'' Control, CbReserve ''t'' Terminal, CbReserve ''e'' Event]"
  define w where "w = the (run_events cb_exec ?es cb_world_new)"
  have run: "run_events cb_exec ?es cb_world_new = Some w" unfolding w_def by simp
  have counts: "count_class (\<lambda>c. c = Control) (cw_budget w) = 1" "count_class (\<lambda>c. c \<noteq> Control) (cw_budget w) = 2"
      "ag_buffered (cb_aggregate (cw_budget w)) = 0"
    unfolding w_def by (simp_all add: cb_eval upt_conv_Cons)
  with channel_slots_exclusive [OF run] have "\<nexists>e. fst (cb_reserve ''f'' Entity (cw_budget w)) = Inl e"
    by (simp add: byte_limits)
  with run counts show ?thesis by (metis sumE)
qed

end
