(* ===== verification/Attach_Routes.thy ===== *)
theory Attach_Routes
  imports Ordered_Map
begin

text \<open>
  \<open>subscription/attach_routes.rs\<close>: the owner's registry of attach streams.  A route is a
  session and a subscription; the registry keeps the stream of each route with the epoch it
  was given, the routes each owner reserved, the routes each connection bound, and the
  occupancy that the status reports.

  A Core generation is the number inside \<open>TerminalSubscriptionGeneration\<close>, and an adapter
  handle is a number.  Closing a handle is an effect on the transport: \<open>ar_host_closed\<close>
  lists the handles whose \<open>close_from_host\<close> ran, in order.  \<open>next_epoch += 1\<close> wraps, as it
  does in a release build.  The methods take the session and the subscription as one route.
\<close>

section \<open>State\<close>

type_synonym route = "string \<times> string"
type_synonym generation = u64
type_synonym adapter = nat

text \<open>The derived order of \<open>ConnectionBoundRoute\<close> compares its fields in this order.\<close>

type_synonym connection_bound_route = "string \<times> string \<times> generation"

datatype route_reservation = Inserted | AlreadyHeld | Full

record attach_stream_owner =
  ow_client_id :: string
  ow_grant_id :: "string option"

definition owner_budget_key :: "attach_stream_owner \<Rightarrow> string" where
  "owner_budget_key owner = (case ow_grant_id owner of Some g \<Rightarrow> g | None \<Rightarrow> ow_client_id owner)"

definition owner_matches :: "attach_stream_owner \<Rightarrow> attach_stream_owner \<Rightarrow> bool" where
  "owner_matches self other =
     (case ow_grant_id self of
        Some g \<Rightarrow> ow_grant_id other = Some g
      | None \<Rightarrow> ow_grant_id other = None \<and> ow_client_id other = ow_client_id self)"

record attachment_identity =
  ai_client_id :: string
  ai_epoch :: u64

record attach_stream =
  as_owner :: attach_stream_owner
  as_epoch :: u64
  as_generation :: "generation option"
  as_adapter_bound :: bool
  as_adapter :: "adapter option"

definition attach_stream_new :: "attach_stream_owner \<Rightarrow> u64 \<Rightarrow> attach_stream" where
  "attach_stream_new owner epoch =
     \<lparr>as_owner = owner, as_epoch = epoch, as_generation = None, as_adapter_bound = False, as_adapter = None\<rparr>"

definition stream_ident :: "attach_stream \<Rightarrow> attachment_identity" where
  "stream_ident s = \<lparr>ai_client_id = ow_client_id (as_owner s), ai_epoch = as_epoch s\<rparr>"

text \<open>\<open>AttachStream::close_adapter\<close>, with the handle it closes, if any.\<close>

definition stream_close_adapter :: "attach_stream \<Rightarrow> adapter list \<times> attach_stream" where
  "stream_close_adapter s =
     (case as_adapter s of None \<Rightarrow> [] | Some a \<Rightarrow> [a], s\<lparr>as_adapter := None, as_adapter_bound := False\<rparr>)"

record inventory_reconcile_progress =
  rp_validated :: usize
  rp_more :: bool
  rp_after :: "route option"
  rp_retired :: "route list"

record attach_stream_registry =
  ar_streams :: "(route, attach_stream) omap"
  ar_next_epoch :: u64
  ar_owner_routes :: "(string, route) ommap"
  ar_active_subscriptions :: "(string, string) ommap"
  ar_attach_owner_grant_ids :: "(route, string) omap"
  ar_live_attach_routes :: "route oset"
  ar_connection_bound_routes :: "(string, connection_bound_route) ommap"
  ar_host_closed :: "adapter list"

definition attach_registry_default :: attach_stream_registry where
  "attach_registry_default =
     \<lparr>ar_streams = [], ar_next_epoch = 0, ar_owner_routes = [], ar_active_subscriptions = [],
      ar_attach_owner_grant_ids = [], ar_live_attach_routes = [], ar_connection_bound_routes = [],
      ar_host_closed = []\<rparr>"

section \<open>Starting, fencing and cancelling a stream\<close>

definition stream_identity :: "attach_stream_registry \<Rightarrow> route \<Rightarrow> attachment_identity option" where
  "stream_identity r k = map_option stream_ident (om_get (ar_streams r) k)"

definition stream_matches :: "route \<Rightarrow> attachment_identity \<Rightarrow> attach_stream_registry \<Rightarrow> bool" where
  "stream_matches k i r \<longleftrightarrow> stream_identity r k = Some i"

definition stream_owner_matches :: "route \<Rightarrow> attach_stream_owner \<Rightarrow> attach_stream_registry \<Rightarrow> bool" where
  "stream_owner_matches k owner r =
     (case om_get (ar_streams r) k of None \<Rightarrow> False | Some s \<Rightarrow> owner_matches owner (as_owner s))"

definition forget_connection_bound_route :: "route \<Rightarrow> attach_stream_registry \<Rightarrow> attach_stream_registry" where
  "forget_connection_bound_route k r =
     (case om_get (ar_streams r) k of
        None \<Rightarrow> r
      | Some s \<Rightarrow>
          let client = ow_client_id (as_owner s)
          in r\<lparr>ar_connection_bound_routes :=
               (case as_generation s of
                  Some g \<Rightarrow> mm_remove client (fst k, snd k, g) (ar_connection_bound_routes r)
                | None \<Rightarrow> mm_retain client (\<lambda>(se, su, _). se \<noteq> fst k \<or> su \<noteq> snd k) (ar_connection_bound_routes r))\<rparr>)"

definition close_adapter :: "route \<Rightarrow> attach_stream_registry \<Rightarrow> attach_stream_registry" where
  "close_adapter k r =
     (case om_get (ar_streams r) k of
        None \<Rightarrow> r
      | Some s \<Rightarrow>
          let (closed, s') = stream_close_adapter s
          in r\<lparr>ar_streams := om_insert k s' (ar_streams r), ar_host_closed := ar_host_closed r @ closed\<rparr>)"

definition remove_stream_metadata :: "route \<Rightarrow> attach_stream_registry \<Rightarrow> attach_stream_registry" where
  "remove_stream_metadata k r =
     r\<lparr>ar_streams := om_remove k (ar_streams r),
       ar_active_subscriptions := mm_remove (fst k) (snd k) (ar_active_subscriptions r),
       ar_attach_owner_grant_ids := om_remove k (ar_attach_owner_grant_ids r)\<rparr>"

definition cancel_stream :: "route \<Rightarrow> attach_stream_registry \<Rightarrow> attach_stream_registry" where
  "cancel_stream k r = remove_stream_metadata k (close_adapter k (forget_connection_bound_route k r))"

definition start_attach ::
  "attach_stream_owner \<Rightarrow> route \<Rightarrow> attach_stream_registry \<Rightarrow> attachment_identity \<times> attach_stream_registry"
where
  "start_attach owner k r =
     (let r = cancel_stream k r;
          epoch = wrapping_add (ar_next_epoch r) 1;
          s = attach_stream_new owner epoch
      in (stream_ident s,
          r\<lparr>ar_attach_owner_grant_ids :=
              (case ow_grant_id owner of
                 Some g \<Rightarrow> om_insert k g (ar_attach_owner_grant_ids r)
               | None \<Rightarrow> ar_attach_owner_grant_ids r),
            ar_active_subscriptions := mm_insert (fst k) (snd k) (ar_active_subscriptions r),
            ar_next_epoch := epoch,
            ar_streams := om_insert k s (ar_streams r)\<rparr>))"

definition record_generation :: "route \<Rightarrow> generation \<Rightarrow> attach_stream_registry \<Rightarrow> attach_stream_registry" where
  "record_generation k g r = r\<lparr>ar_streams := om_modify k (as_generation_update (\<lambda>_. Some g)) (ar_streams r)\<rparr>"

definition mark_adapter_bound ::
  "route \<Rightarrow> generation \<Rightarrow> adapter \<Rightarrow> attach_stream_registry \<Rightarrow> attach_stream_registry"
where
  "mark_adapter_bound k g a r =
     (case om_get (ar_streams r) k of
        None \<Rightarrow> r
      | Some s \<Rightarrow>
          r\<lparr>ar_streams := om_insert k
               (s\<lparr>as_generation := Some g, as_adapter_bound := True, as_adapter := Some a\<rparr>) (ar_streams r),
            ar_connection_bound_routes :=
              mm_insert (ow_client_id (as_owner s)) (fst k, snd k, g) (ar_connection_bound_routes r)\<rparr>)"

definition cancel_stream_if :: "route \<Rightarrow> attachment_identity \<Rightarrow> attach_stream_registry \<Rightarrow> bool \<times> attach_stream_registry" where
  "cancel_stream_if k i r = (if \<not> stream_matches k i r then (False, r) else (True, cancel_stream k r))"

definition close_adapter_if :: "route \<Rightarrow> attachment_identity \<Rightarrow> attach_stream_registry \<Rightarrow> bool \<times> attach_stream_registry" where
  "close_adapter_if k i r = (if \<not> stream_matches k i r then (False, r) else (True, close_adapter k r))"

definition record_generation_if ::
  "route \<Rightarrow> generation \<Rightarrow> attachment_identity \<Rightarrow> attach_stream_registry \<Rightarrow> bool \<times> attach_stream_registry"
where
  "record_generation_if k g i r = (if \<not> stream_matches k i r then (False, r) else (True, record_generation k g r))"

definition mark_adapter_bound_if ::
  "route \<Rightarrow> generation \<Rightarrow> adapter \<Rightarrow> attachment_identity \<Rightarrow> attach_stream_registry \<Rightarrow> bool \<times> attach_stream_registry"
where
  "mark_adapter_bound_if k g a i r =
     (if \<not> stream_matches k i r then (False, r) else (True, mark_adapter_bound k g a r))"

definition is_adapter_bound :: "route \<Rightarrow> attach_stream_registry \<Rightarrow> bool" where
  "is_adapter_bound k r = (case om_get (ar_streams r) k of None \<Rightarrow> False | Some s \<Rightarrow> as_adapter_bound s)"

definition recorded_generation :: "route \<Rightarrow> attach_stream_registry \<Rightarrow> generation option" where
  "recorded_generation k r = (case om_get (ar_streams r) k of None \<Rightarrow> None | Some s \<Rightarrow> as_generation s)"

section \<open>Route reservations of an owner\<close>

text \<open>
  \<open>entry(..).or_default()\<close> leaves an empty set behind when the route is refused; the code
  removes it again, which only happens for a limit of zero.
\<close>

definition reserve_route ::
  "string \<Rightarrow> route \<Rightarrow> usize \<Rightarrow> attach_stream_registry \<Rightarrow> route_reservation \<times> attach_stream_registry"
where
  "reserve_route b k limit r =
     (let routes = mm_get (ar_owner_routes r) b;
          entered = om_insert b routes (ar_owner_routes r)
      in if k \<in> set routes then (AlreadyHeld, r\<lparr>ar_owner_routes := entered\<rparr>)
         else if limit \<le> length routes
         then (Full, r\<lparr>ar_owner_routes := (if routes = [] then om_remove b entered else entered)\<rparr>)
         else (Inserted, r\<lparr>ar_owner_routes := om_insert b (os_insert k routes) entered\<rparr>))"

definition release_route :: "string \<Rightarrow> route \<Rightarrow> attach_stream_registry \<Rightarrow> attach_stream_registry" where
  "release_route b k r = r\<lparr>ar_owner_routes := mm_remove b k (ar_owner_routes r)\<rparr>"

definition take_owner_routes :: "string \<Rightarrow> attach_stream_registry \<Rightarrow> route oset \<times> attach_stream_registry" where
  "take_owner_routes b r =
     (mm_get (ar_owner_routes r) b, r\<lparr>ar_owner_routes := om_remove b (ar_owner_routes r)\<rparr>)"

definition take_connection_bound_routes ::
  "string \<Rightarrow> attach_stream_registry \<Rightarrow> connection_bound_route oset \<times> attach_stream_registry"
where
  "take_connection_bound_routes c r =
     (mm_get (ar_connection_bound_routes r) c,
      r\<lparr>ar_connection_bound_routes := om_remove c (ar_connection_bound_routes r)\<rparr>)"

section \<open>Sweeps over the streams\<close>

definition unbound_routes_for_client ::
  "string \<Rightarrow> attach_stream_registry \<Rightarrow> (string \<times> string \<times> attachment_identity) list"
where
  "unbound_routes_for_client c r =
     [(fst k, snd k, stream_ident s). (k, s) \<leftarrow> ar_streams r,
        ow_client_id (as_owner s) = c \<and> \<not> as_adapter_bound s]"

definition retain_sessions_present_in ::
  "(string \<Rightarrow> bool) \<Rightarrow> attach_stream_registry \<Rightarrow> attach_stream_registry"
where
  "retain_sessions_present_in present r =
     fold cancel_stream (filter (\<lambda>k. \<not> present (fst k)) (om_keys (ar_streams r))) r"

definition bound_route_keys_for_client :: "string \<Rightarrow> attach_stream_registry \<Rightarrow> route oset" where
  "bound_route_keys_for_client c r =
     [k. (k, s) \<leftarrow> ar_streams r, ow_client_id (as_owner s) = c \<and> as_adapter_bound s]"

definition close_adapters_for_client :: "string \<Rightarrow> attach_stream_registry \<Rightarrow> attach_stream_registry" where
  "close_adapters_for_client c r = fold close_adapter (bound_route_keys_for_client c r) r"

definition bound_route_keys_for_session :: "string \<Rightarrow> attach_stream_registry \<Rightarrow> route oset" where
  "bound_route_keys_for_session se r = [k. (k, s) \<leftarrow> ar_streams r, fst k = se \<and> as_adapter_bound s]"

definition close_adapters_for_session :: "string \<Rightarrow> attach_stream_registry \<Rightarrow> attach_stream_registry" where
  "close_adapters_for_session se r = fold close_adapter (bound_route_keys_for_session se r) r"

definition connection_bound_route_still_owned ::
  "string \<Rightarrow> route \<Rightarrow> generation \<Rightarrow> attach_stream_registry \<Rightarrow> bool"
where
  "connection_bound_route_still_owned c k g r =
     (case om_get (ar_streams r) k of
        None \<Rightarrow> False
      | Some s \<Rightarrow> ow_client_id (as_owner s) = c \<and> as_generation s = Some g)"

section \<open>Routes of departing grants\<close>

text \<open>The three sources of a key: the snapshot, the removed grants' routes, and their streams.\<close>

definition departing_keys ::
  "string oset \<Rightarrow> route oset \<Rightarrow> attach_stream_registry \<Rightarrow> (route, string option) omap"
where
  "departing_keys removed snapshot r =
     (let keys = fold (\<lambda>k m. om_insert k None m) snapshot [];
          keys = fold (\<lambda>g m. fold (\<lambda>k. om_insert k (Some g)) (mm_get (ar_owner_routes r) g) m) removed keys
      in fold (\<lambda>(k, s) m.
           case ow_grant_id (as_owner s) of
             Some g \<Rightarrow> if g \<in> set removed then om_insert k (Some g) m else m
           | None \<Rightarrow> m) (ar_streams r) keys)"

definition departing_grant ::
  "string oset \<Rightarrow> string \<Rightarrow> attach_stream_registry \<Rightarrow> route \<Rightarrow> string option \<Rightarrow> string option"
where
  "departing_grant removed primary r k known =
     (case om_get (ar_streams r) k of
        Some s \<Rightarrow>
          (case ow_grant_id (as_owner s) of
             Some g \<Rightarrow> if g \<in> set removed then Some g else None
           | None \<Rightarrow> None)
      | None \<Rightarrow>
          (case (case om_get (ar_attach_owner_grant_ids r) k of
                   Some g \<Rightarrow> if g \<in> set removed then Some g else known
                 | None \<Rightarrow> known) of
             Some g \<Rightarrow> Some g
           | None \<Rightarrow> if primary \<in> set removed then Some primary else None))"

definition departing_routes_for_grants ::
  "string oset \<Rightarrow> string \<Rightarrow> route oset \<Rightarrow> attach_stream_registry \<Rightarrow> (string, route) ommap"
where
  "departing_routes_for_grants removed primary snapshot r =
     (if removed = [] then []
      else fold (\<lambda>(k, known) m.
             case departing_grant removed primary r k known of None \<Rightarrow> m | Some g \<Rightarrow> mm_insert g k m)
           (departing_keys removed snapshot r) [])"

section \<open>Reconciling with the Core inventory\<close>

definition route_is_stale_against_live_generation :: "generation option \<Rightarrow> generation option \<Rightarrow> bool" where
  "route_is_stale_against_live_generation stream_generation live =
     (case live of
        None \<Rightarrow> True
      | Some g \<Rightarrow> (case stream_generation of None \<Rightarrow> False | Some h \<Rightarrow> h \<noteq> g))"

definition inventory_reconcile_routes ::
  "u64 \<Rightarrow> route option \<Rightarrow> usize \<Rightarrow> attach_stream_registry \<Rightarrow> route list"
where
  "inventory_reconcile_routes read_epoch after max_entries r =
     [k. (k, s) \<leftarrow> take max_entries (om_after after (ar_streams r)),
        as_adapter_bound s \<and> ai_epoch (stream_ident s) \<le> read_epoch]"

text \<open>
  One row of the slice.  \<open>lookup\<close> answers \<open>None\<close> for a route the read did not ask about and
  \<open>Some None\<close> for one that Core does not have.
\<close>

type_synonym inventory_lookup = "string \<Rightarrow> string \<Rightarrow> string \<Rightarrow> generation option option"

definition reconcile_row ::
  "inventory_lookup \<Rightarrow> u64 \<Rightarrow> route \<times> bool \<times> attachment_identity \<Rightarrow>
   usize \<times> route list \<times> attach_stream_registry \<Rightarrow> usize \<times> route list \<times> attach_stream_registry"
where
  "reconcile_row lookup read_epoch row acc =
     (case row of (k, adapter_bound, identity) \<Rightarrow> case acc of (validated, retired, r) \<Rightarrow>
        if \<not> adapter_bound \<or> read_epoch < ai_epoch identity then (validated, retired, r)
        else case lookup (ai_client_id identity) (fst k) (snd k) of
          None \<Rightarrow> (validated, retired, r)
        | Some live \<Rightarrow>
            if route_is_stale_against_live_generation (recorded_generation k r) live
            then case cancel_stream_if k identity r of
                   (cancelled, r') \<Rightarrow> (validated + 1, if cancelled then retired @ [k] else retired, r')
            else (validated + 1, retired, r))"

definition reconcile_inventory_slice ::
  "inventory_lookup \<Rightarrow> u64 \<Rightarrow> route option \<Rightarrow> usize \<Rightarrow> attach_stream_registry \<Rightarrow>
   inventory_reconcile_progress \<times> attach_stream_registry"
where
  "reconcile_inventory_slice lookup read_epoch after max_entries r =
     (let rows = om_after after (ar_streams r);
          visit = map (\<lambda>(k, s). (k, as_adapter_bound s, stream_ident s)) (take max_entries rows);
          (validated, retired, r') = fold (reconcile_row lookup read_epoch) visit (0, [], r)
      in (\<lparr>rp_validated = validated, rp_more = max_entries < length rows,
           rp_after = (if visit = [] then after else Some (fst (last visit))),
           rp_retired = retired\<rparr>, r'))"

section \<open>Occupancy and the ownership that responses record\<close>

record attached_subscription =
  sub_session_id :: string
  sub_subscription_id :: string

datatype attached_subscription_change = Attach attached_subscription | Detach attached_subscription

text \<open>The counters of \<open>DaemonLifecycleCounters\<close> that this module writes.\<close>

record lifecycle_counters =
  lc_live_attach_subscriptions :: u64
  lc_high_water_attach_subscriptions :: u64
  lc_reconnect_registrations :: u64

record attach_close_bookkeeping =
  released_attach_generations :: u64

definition apply_attached_subscription_change ::
  "attached_subscription_change option \<Rightarrow> attached_subscription list \<Rightarrow> attached_subscription list"
where
  "apply_attached_subscription_change change subs =
     (case change of
        Some (Attach s) \<Rightarrow> if s \<in> set subs then subs else subs @ [s]
      | Some (Detach s) \<Rightarrow> filter (\<lambda>t. t \<noteq> s) subs
      | None \<Rightarrow> subs)"

abbreviation sub_route :: "attached_subscription \<Rightarrow> route" where
  "sub_route s \<equiv> (sub_session_id s, sub_subscription_id s)"

definition record_attach ::
  "attached_subscription \<Rightarrow> string option \<Rightarrow>
   attach_stream_registry \<times> attach_close_bookkeeping \<times> lifecycle_counters \<Rightarrow>
   attach_stream_registry \<times> attach_close_bookkeeping \<times> lifecycle_counters"
where
  "record_attach s grant rcl =
     (case rcl of (r, close, lc) \<Rightarrow>
      let k = sub_route s;
          inserted = (k \<notin> set (ar_live_attach_routes r));
          r = r\<lparr>ar_live_attach_routes := os_insert k (ar_live_attach_routes r)\<rparr>
      in if \<not> inserted \<and> 0 < lc_live_attach_subscriptions lc then (r, close, lc)
         else
           let reconnect = 0 < released_attach_generations close;
               close' = (if reconnect then close\<lparr>released_attach_generations := released_attach_generations close - 1\<rparr> else close);
               lc = (if reconnect then lc\<lparr>lc_reconnect_registrations := saturating_add (lc_reconnect_registrations lc) 1\<rparr> else lc);
               live = saturating_add (lc_live_attach_subscriptions lc) 1;
               lc = lc\<lparr>lc_live_attach_subscriptions := live,
                       lc_high_water_attach_subscriptions := max (lc_high_water_attach_subscriptions lc) live\<rparr>;
               r = (case grant of
                      Some g \<Rightarrow> r\<lparr>ar_attach_owner_grant_ids := om_insert k g (ar_attach_owner_grant_ids r)\<rparr>
                    | None \<Rightarrow> r)
           in (r, close', lc))"

definition record_detach ::
  "attached_subscription \<Rightarrow>
   attach_stream_registry \<times> attach_close_bookkeeping \<times> lifecycle_counters \<Rightarrow>
   attach_stream_registry \<times> attach_close_bookkeeping \<times> lifecycle_counters"
where
  "record_detach s rcl =
     (case rcl of (r, close, lc) \<Rightarrow>
      let k = sub_route s
      in if k \<notin> set (ar_live_attach_routes r) then (r, close, lc)
         else (r\<lparr>ar_live_attach_routes := os_remove k (ar_live_attach_routes r),
                 ar_attach_owner_grant_ids := om_remove k (ar_attach_owner_grant_ids r)\<rparr>,
               close\<lparr>released_attach_generations := saturating_add (released_attach_generations close) 1\<rparr>,
               lc\<lparr>lc_live_attach_subscriptions := saturating_sub (lc_live_attach_subscriptions lc) 1\<rparr>))"

definition record_attached_subscription_change ::
  "attached_subscription_change option \<Rightarrow> string option \<Rightarrow>
   attach_stream_registry \<times> attach_close_bookkeeping \<times> lifecycle_counters \<Rightarrow>
   attach_stream_registry \<times> attach_close_bookkeeping \<times> lifecycle_counters"
where
  "record_attached_subscription_change change grant rcl =
     (case change of
        None \<Rightarrow> rcl
      | Some (Attach s) \<Rightarrow> record_attach s grant rcl
      | Some (Detach s) \<Rightarrow> record_detach s rcl)"

text \<open>A row of the Core inventory, as far as occupancy reads it, and a reported row.\<close>

record inventory_row =
  iv_session_id :: string
  iv_subscription_id :: string
  iv_generation :: generation

record attach_occupancy =
  oc_session_id :: string
  oc_subscription_id :: string
  oc_generation :: u64

definition occupancy_map ::
  "route oset \<Rightarrow> inventory_row list \<Rightarrow> attach_stream_registry \<Rightarrow> (route, u64) omap"
where
  "occupancy_map hub_routes inventory r =
     (let rows = fold (\<lambda>row. om_insert (iv_session_id row, iv_subscription_id row) (iv_generation row)) inventory []
      in fold (\<lambda>k m. if om_contains m k then m
               else om_insert k (case recorded_generation k r of Some g \<Rightarrow> g | None \<Rightarrow> 0) m) hub_routes rows)"

definition live_attach_occupancy_rows ::
  "route oset \<Rightarrow> inventory_row list \<Rightarrow> attach_stream_registry \<Rightarrow> attach_occupancy list"
where
  "live_attach_occupancy_rows hub_routes inventory r =
     map (\<lambda>((se, su), g). \<lparr>oc_session_id = se, oc_subscription_id = su, oc_generation = g\<rparr>)
       (occupancy_map hub_routes inventory r)"

text \<open>
  \<open>size_of\<close> of the four types is fixed by the compiler: \<open>map_size\<close>, \<open>result_size\<close>, \<open>entry_size\<close>
  and \<open>dto_size\<close>.
\<close>

record occupancy_sizes =
  sz_map :: usize
  sz_result :: usize
  sz_entry :: usize
  sz_dto :: usize

definition occupancy_row_prepared_bytes :: "occupancy_sizes \<Rightarrow> usize \<Rightarrow> usize \<Rightarrow> usize option" where
  "occupancy_row_prepared_bytes sz session_bytes subscription_bytes =
     (case checked_add (sz_entry sz) (sz_dto sz) of None \<Rightarrow> None | Some row \<Rightarrow>
      case checked_add session_bytes subscription_bytes of None \<Rightarrow> None | Some key \<Rightarrow>
      case checked_mul key 2 of None \<Rightarrow> None | Some copies \<Rightarrow> checked_add row copies)"

fun prepared_bytes_loop :: "occupancy_sizes \<Rightarrow> usize \<Rightarrow> route list \<Rightarrow> usize \<Rightarrow> usize option" where
  "prepared_bytes_loop sz limit [] bytes = Some bytes"
| "prepared_bytes_loop sz limit (k # ks) bytes =
     (case occupancy_row_prepared_bytes sz (length (fst k)) (length (snd k)) of None \<Rightarrow> None | Some row \<Rightarrow>
      case checked_add bytes row of None \<Rightarrow> None | Some bytes' \<Rightarrow>
      if limit < bytes' then None else prepared_bytes_loop sz limit ks bytes')"

definition live_attach_occupancy_prepared_bytes ::
  "occupancy_sizes \<Rightarrow> route oset \<Rightarrow> inventory_row list \<Rightarrow> usize \<Rightarrow> usize option"
where
  "live_attach_occupancy_prepared_bytes sz hub_routes inventory limit =
     (case checked_add (sz_map sz) (sz_result sz) of None \<Rightarrow> None | Some bytes \<Rightarrow>
      if limit < bytes then None
      else prepared_bytes_loop sz limit
             (map (\<lambda>row. (iv_session_id row, iv_subscription_id row)) inventory @ hub_routes) bytes)"

definition try_live_attach_occupancy_rows ::
  "occupancy_sizes \<Rightarrow> route oset \<Rightarrow> inventory_row list \<Rightarrow> attach_stream_registry \<Rightarrow> usize \<Rightarrow>
   (attach_occupancy list \<times> usize) option"
where
  "try_live_attach_occupancy_rows sz hub_routes inventory r limit =
     (case live_attach_occupancy_prepared_bytes sz hub_routes inventory limit of
        None \<Rightarrow> None
      | Some bytes \<Rightarrow> Some (live_attach_occupancy_rows hub_routes inventory r, bytes))"

text \<open>Requests and response kinds, as far as the completion projection tells them apart.\<close>

datatype daemon_request =
    ReqAttach string string
  | ReqDetach string string
  | ReqSubscribeEntities string
  | ReqUnsubscribeEntities string
  | ReqOther

datatype response_kind = OperatorError | EntitySubscribed | EntityUnsubscribed | OtherResponse

datatype entity_subscription_change = Subscribe string | Unsubscribe string

record request_completion_projection =
  pr_attached_subscription :: "attached_subscription_change option"
  pr_entity_subscription :: "entity_subscription_change option"

fun attached_change_from_request :: "daemon_request \<Rightarrow> attached_subscription_change option" where
  "attached_change_from_request (ReqAttach se su) = Some (Attach \<lparr>sub_session_id = se, sub_subscription_id = su\<rparr>)"
| "attached_change_from_request (ReqDetach se su) = Some (Detach \<lparr>sub_session_id = se, sub_subscription_id = su\<rparr>)"
| "attached_change_from_request _ = None"

definition projection_from_request :: "daemon_request \<Rightarrow> request_completion_projection" where
  "projection_from_request req =
     \<lparr>pr_attached_subscription = attached_change_from_request req,
      pr_entity_subscription =
        (case req of
           ReqSubscribeEntities su \<Rightarrow> Some (Subscribe su)
         | ReqUnsubscribeEntities su \<Rightarrow> Some (Unsubscribe su)
         | _ \<Rightarrow> None)\<rparr>"

definition response_records_attach_ownership :: "response_kind \<Rightarrow> bool" where
  "response_records_attach_ownership kind \<longleftrightarrow> kind \<noteq> OperatorError"

definition projected_attach_change ::
  "response_kind \<Rightarrow> request_completion_projection \<Rightarrow> attached_subscription_change option"
where
  "projected_attach_change kind p =
     (if response_records_attach_ownership kind then pr_attached_subscription p else None)"

definition projected_entity_change ::
  "response_kind \<Rightarrow> request_completion_projection \<Rightarrow> entity_subscription_change option"
where
  "projected_entity_change kind p =
     (case (pr_entity_subscription p, kind) of
        (Some (Subscribe su), EntitySubscribed) \<Rightarrow> Some (Subscribe su)
      | (Some (Unsubscribe su), EntityUnsubscribed) \<Rightarrow> Some (Unsubscribe su)
      | _ \<Rightarrow> None)"

section \<open>Schedules\<close>

text \<open>
  The owner thread applies the operations in any order.  \<open>record_attached_subscription_change\<close>
  also writes the close bookkeeping and the counters, so a schedule runs on all three.
\<close>

type_synonym attach_world = "attach_stream_registry \<times> attach_close_bookkeeping \<times> lifecycle_counters"

datatype ar_event =
    ArStart attach_stream_owner route
  | ArCancel route
  | ArCancelIf route attachment_identity
  | ArClose route
  | ArCloseIf route attachment_identity
  | ArGeneration route generation
  | ArGenerationIf route generation attachment_identity
  | ArBind route generation adapter
  | ArBindIf route generation adapter attachment_identity
  | ArReserve string route usize
  | ArRelease string route
  | ArTakeOwner string
  | ArTakeConnection string
  | ArRetain "string list"
  | ArCloseClient string
  | ArCloseSession string
  | ArReconcile inventory_lookup u64 "route option" usize
  | ArChange "attached_subscription_change option" "string option"

fun ar_registry_step :: "ar_event \<Rightarrow> attach_stream_registry \<Rightarrow> attach_stream_registry" where
  "ar_registry_step (ArStart owner k) r = snd (start_attach owner k r)"
| "ar_registry_step (ArCancel k) r = cancel_stream k r"
| "ar_registry_step (ArCancelIf k i) r = snd (cancel_stream_if k i r)"
| "ar_registry_step (ArClose k) r = close_adapter k r"
| "ar_registry_step (ArCloseIf k i) r = snd (close_adapter_if k i r)"
| "ar_registry_step (ArGeneration k g) r = record_generation k g r"
| "ar_registry_step (ArGenerationIf k g i) r = snd (record_generation_if k g i r)"
| "ar_registry_step (ArBind k g a) r = mark_adapter_bound k g a r"
| "ar_registry_step (ArBindIf k g a i) r = snd (mark_adapter_bound_if k g a i r)"
| "ar_registry_step (ArReserve b k n) r = snd (reserve_route b k n r)"
| "ar_registry_step (ArRelease b k) r = release_route b k r"
| "ar_registry_step (ArTakeOwner b) r = snd (take_owner_routes b r)"
| "ar_registry_step (ArTakeConnection c) r = snd (take_connection_bound_routes c r)"
| "ar_registry_step (ArRetain ss) r = retain_sessions_present_in (\<lambda>s. s \<in> set ss) r"
| "ar_registry_step (ArCloseClient c) r = close_adapters_for_client c r"
| "ar_registry_step (ArCloseSession se) r = close_adapters_for_session se r"
| "ar_registry_step (ArReconcile lookup e after n) r = snd (reconcile_inventory_slice lookup e after n r)"
| "ar_registry_step (ArChange _ _) r = r"

definition ar_exec :: "ar_event \<Rightarrow> attach_world \<Rightarrow> attach_world option" where
  "ar_exec e w =
     Some (case e of
             ArChange change grant \<Rightarrow> record_attached_subscription_change change grant w
           | _ \<Rightarrow> apfst (ar_registry_step e) w)"

definition ar_world_new :: attach_world where
  "ar_world_new =
     (attach_registry_default, \<lparr>released_attach_generations = 0\<rparr>,
      \<lparr>lc_live_attach_subscriptions = 0, lc_high_water_attach_subscriptions = 0, lc_reconnect_registrations = 0\<rparr>)"

section \<open>What the operations do to the streams\<close>

lemma stream_ident_keeps [simp]:
  "stream_ident (s\<lparr>as_generation := g\<rparr>) = stream_ident s"
  "stream_ident (s\<lparr>as_adapter_bound := b\<rparr>) = stream_ident s"
  "stream_ident (s\<lparr>as_adapter := a\<rparr>) = stream_ident s"
  by (simp_all add: stream_ident_def)

lemma forget_connection_bound_route_fields [simp]:
  "ar_streams (forget_connection_bound_route k r) = ar_streams r"
  "ar_next_epoch (forget_connection_bound_route k r) = ar_next_epoch r"
  "ar_owner_routes (forget_connection_bound_route k r) = ar_owner_routes r"
  "ar_active_subscriptions (forget_connection_bound_route k r) = ar_active_subscriptions r"
  "ar_attach_owner_grant_ids (forget_connection_bound_route k r) = ar_attach_owner_grant_ids r"
  "ar_live_attach_routes (forget_connection_bound_route k r) = ar_live_attach_routes r"
  by (simp_all add: forget_connection_bound_route_def Let_def split: option.splits)

lemma close_adapter_fields [simp]:
  "om_get (ar_streams (close_adapter k r)) =
     (om_get (ar_streams r))(k := map_option (\<lambda>s. s\<lparr>as_adapter := None, as_adapter_bound := False\<rparr>) (om_get (ar_streams r) k))"
  "ar_next_epoch (close_adapter k r) = ar_next_epoch r"
  "ar_owner_routes (close_adapter k r) = ar_owner_routes r"
  "ar_active_subscriptions (close_adapter k r) = ar_active_subscriptions r"
  "ar_attach_owner_grant_ids (close_adapter k r) = ar_attach_owner_grant_ids r"
  "ar_live_attach_routes (close_adapter k r) = ar_live_attach_routes r"
  "ar_connection_bound_routes (close_adapter k r) = ar_connection_bound_routes r"
  by (auto simp: close_adapter_def stream_close_adapter_def fun_eq_iff split: option.splits)

lemma cancel_stream_fields [simp]:
  "om_get (ar_streams (cancel_stream k r)) = (om_get (ar_streams r))(k := None)"
  "ar_next_epoch (cancel_stream k r) = ar_next_epoch r"
  "ar_owner_routes (cancel_stream k r) = ar_owner_routes r"
  "ar_active_subscriptions (cancel_stream k r) = mm_remove (fst k) (snd k) (ar_active_subscriptions r)"
  "ar_attach_owner_grant_ids (cancel_stream k r) = om_remove k (ar_attach_owner_grant_ids r)"
  "ar_live_attach_routes (cancel_stream k r) = ar_live_attach_routes r"
  by (auto simp: cancel_stream_def remove_stream_metadata_def fun_eq_iff)

lemma mark_adapter_bound_fields [simp]:
  "om_get (ar_streams (mark_adapter_bound k g a r)) =
     (om_get (ar_streams r))(k := map_option
        (\<lambda>s. s\<lparr>as_generation := Some g, as_adapter_bound := True, as_adapter := Some a\<rparr>) (om_get (ar_streams r) k))"
  "ar_next_epoch (mark_adapter_bound k g a r) = ar_next_epoch r"
  "ar_owner_routes (mark_adapter_bound k g a r) = ar_owner_routes r"
  "ar_active_subscriptions (mark_adapter_bound k g a r) = ar_active_subscriptions r"
  "ar_attach_owner_grant_ids (mark_adapter_bound k g a r) = ar_attach_owner_grant_ids r"
  "ar_live_attach_routes (mark_adapter_bound k g a r) = ar_live_attach_routes r"
  by (auto simp: mark_adapter_bound_def fun_eq_iff split: option.splits)

text \<open>The four fenced operations satisfy the shared contract of an operation behind an identity.\<close>

interpretation cancel_fence: fenced_operation
  "\<lambda>r i. stream_matches k i r" "cancel_stream k" "cancel_stream_if k" for k
  by unfold_locales (simp_all add: cancel_stream_if_def)

interpretation close_fence: fenced_operation
  "\<lambda>r i. stream_matches k i r" "close_adapter k" "close_adapter_if k" for k
  by unfold_locales (simp_all add: close_adapter_if_def)

interpretation generation_fence: fenced_operation
  "\<lambda>r i. stream_matches k i r" "record_generation k g" "record_generation_if k g" for k g
  by unfold_locales (simp_all add: record_generation_if_def)

interpretation bind_fence: fenced_operation
  "\<lambda>r i. stream_matches k i r" "mark_adapter_bound k g a" "mark_adapter_bound_if k g a" for k g a
  by unfold_locales (simp_all add: mark_adapter_bound_if_def)

text \<open>
  Lemmas about the sweeps go through the operations they repeat: whatever closing one adapter
  and cancelling one stream keep, the sweeps keep.
\<close>

lemma fold_keeps: "P r \<Longrightarrow> (\<And>k r. P r \<Longrightarrow> P (f k r)) \<Longrightarrow> P (fold f ks r)"
  by (induction ks arbitrary: r) auto

lemma reconcile_row_keeps:
  assumes "P r" and "\<And>k r. P r \<Longrightarrow> P (cancel_stream k r)"
  shows "P (snd (snd (reconcile_row lookup e row (n, ks, r))))"
  using assms by (auto simp: reconcile_row_def cancel_stream_if_def split: prod.splits option.splits)

lemma reconcile_rows_keep:
  assumes "P r" and "\<And>k r. P r \<Longrightarrow> P (cancel_stream k r)"
  shows "P (snd (snd (fold (reconcile_row lookup e) rows (n, ks, r))))"
  using assms(1)
proof (induction rows arbitrary: n ks r)
  case (Cons row rows)
  obtain n' ks' r' where row: "reconcile_row lookup e row (n, ks, r) = (n', ks', r')"
    by (cases "reconcile_row lookup e row (n, ks, r)")
  with reconcile_row_keeps [of P, OF Cons.prems assms(2), of lookup e row n ks] have "P r'" by simp
  with Cons.IH row show ?case by simp
qed simp

text \<open>Every event but a start only repeats the primitive operations.\<close>

lemma ar_step_keeps:
  assumes "P r" and "\<And>owner k. e \<noteq> ArStart owner k"
    and "\<And>k r. P r \<Longrightarrow> P (cancel_stream k r)"
    and "\<And>k r. P r \<Longrightarrow> P (close_adapter k r)"
    and "\<And>k g r. P r \<Longrightarrow> P (record_generation k g r)"
    and "\<And>k g a r. P r \<Longrightarrow> P (mark_adapter_bound k g a r)"
    and "\<And>b k n r. e = ArReserve b k n \<Longrightarrow> P r \<Longrightarrow> P (snd (reserve_route b k n r))"
    and "\<And>b k r. P r \<Longrightarrow> P (release_route b k r)"
    and "\<And>b r. P r \<Longrightarrow> P (snd (take_owner_routes b r))"
    and "\<And>c r. P r \<Longrightarrow> P (snd (take_connection_bound_routes c r))"
  shows "P (ar_registry_step e r)"
proof (cases e)
  case (ArCancelIf k i)
  with assms(1,3) cancel_fence.fenced_preserves [of P] show ?thesis by simp
next
  case (ArCloseIf k i)
  with assms(1,4) close_fence.fenced_preserves [of P] show ?thesis by simp
next
  case (ArGenerationIf k g i)
  with assms(1,5) generation_fence.fenced_preserves [of P] show ?thesis by simp
next
  case (ArBindIf k g a i)
  with assms(1,6) bind_fence.fenced_preserves [of P] show ?thesis by simp
next
  case (ArRetain ss)
  with fold_keeps [of P, OF assms(1,3)] show ?thesis by (simp add: retain_sessions_present_in_def)
next
  case (ArCloseClient c)
  with fold_keeps [of P, OF assms(1,4)] show ?thesis by (simp add: close_adapters_for_client_def)
next
  case (ArCloseSession se)
  with fold_keeps [of P, OF assms(1,4)] show ?thesis by (simp add: close_adapters_for_session_def)
next
  case (ArReconcile lookup re after n)
  with reconcile_rows_keep [of P, OF assms(1,3)] show ?thesis
    by (simp add: reconcile_inventory_slice_def Let_def split_def)
qed (use assms in auto)

section \<open>The registry invariant\<close>

text \<open>
  The indexes agree with the streams: \<open>active_subscriptions\<close> holds exactly the routes that
  have a stream, a stream is bound exactly when it holds an adapter, and no index keeps an
  empty set.
\<close>

definition reg_ok :: "attach_stream_registry \<Rightarrow> bool" where
  "reg_ok r \<longleftrightarrow>
     om_ok (ar_streams r) \<and> mm_ok (ar_owner_routes r) \<and> mm_ok (ar_active_subscriptions r) \<and>
     om_ok (ar_attach_owner_grant_ids r) \<and> os_ok (ar_live_attach_routes r) \<and> mm_ok (ar_connection_bound_routes r) \<and>
     (\<forall>k s. om_get (ar_streams r) k = Some s \<longrightarrow> (as_adapter_bound s \<longleftrightarrow> as_adapter s \<noteq> None)) \<and>
     (\<forall>k. snd k \<in> set (mm_get (ar_active_subscriptions r) (fst k)) \<longleftrightarrow> om_get (ar_streams r) k \<noteq> None)"

lemma om_ok_primitives [simp]:
  "om_ok (ar_streams r) \<Longrightarrow> om_ok (ar_streams (close_adapter k r))"
  "om_ok (ar_streams r) \<Longrightarrow> om_ok (ar_streams (cancel_stream k r))"
  "om_ok (ar_streams r) \<Longrightarrow> om_ok (ar_streams (mark_adapter_bound k g a r))"
  by (auto simp: close_adapter_def stream_close_adapter_def cancel_stream_def remove_stream_metadata_def
      mark_adapter_bound_def split: option.splits)

lemma mm_ok_connections [simp]:
  "mm_ok (ar_connection_bound_routes r) \<Longrightarrow> mm_ok (ar_connection_bound_routes (cancel_stream k r))"
  "mm_ok (ar_connection_bound_routes r) \<Longrightarrow> mm_ok (ar_connection_bound_routes (mark_adapter_bound k g a r))"
  by (auto simp: cancel_stream_def remove_stream_metadata_def forget_connection_bound_route_def Let_def
      mark_adapter_bound_def split: option.splits)

lemma reg_ok_cancel: "reg_ok r \<Longrightarrow> reg_ok (cancel_stream k r)"
  unfolding reg_ok_def by (auto simp: mm_get_remove split: if_splits)

lemma reg_ok_close: "reg_ok r \<Longrightarrow> reg_ok (close_adapter k r)"
  by (auto simp: reg_ok_def)

lemma reg_ok_generation: "reg_ok r \<Longrightarrow> reg_ok (record_generation k g r)"
  by (auto simp: reg_ok_def record_generation_def)

lemma reg_ok_bind: "reg_ok r \<Longrightarrow> reg_ok (mark_adapter_bound k g a r)"
  by (auto simp: reg_ok_def)

lemma mm_ok_reserve: "mm_ok (ar_owner_routes r) \<Longrightarrow> mm_ok (ar_owner_routes (snd (reserve_route b k n r)))"
proof -
  assume ok: "mm_ok (ar_owner_routes r)"
  have ne: "os_insert k s \<noteq> []" for s :: "route oset" by (cases s) auto
  have "om_ok (ar_owner_routes r)" using ok by (simp add: mm_ok_def)
  moreover have "os_ok (mm_get (ar_owner_routes r) b)" using ok by (rule mm_ok_get)
  ultimately show ?thesis
    using ok ne by (auto simp: reserve_route_def Let_def mm_ok_def os_ok_Cons split: if_splits)
qed

lemma reserve_route_fields [simp]:
  "ar_streams (snd (reserve_route b k n r)) = ar_streams r"
  "ar_next_epoch (snd (reserve_route b k n r)) = ar_next_epoch r"
  "ar_active_subscriptions (snd (reserve_route b k n r)) = ar_active_subscriptions r"
  "ar_attach_owner_grant_ids (snd (reserve_route b k n r)) = ar_attach_owner_grant_ids r"
  "ar_live_attach_routes (snd (reserve_route b k n r)) = ar_live_attach_routes r"
  "ar_connection_bound_routes (snd (reserve_route b k n r)) = ar_connection_bound_routes r"
  by (simp_all add: reserve_route_def Let_def)

lemma reg_ok_start: "reg_ok r \<Longrightarrow> reg_ok (snd (start_attach owner k r))"
proof -
  assume "reg_ok r"
  then have "reg_ok (cancel_stream k r)" by (rule reg_ok_cancel)
  then show ?thesis
    unfolding start_attach_def Let_def reg_ok_def
    by (auto simp: attach_stream_new_def set_mm_insert split: option.splits if_splits)
qed

lemma reg_ok_owner_routes:
  "reg_ok r \<Longrightarrow> reg_ok (snd (reserve_route b k n r))"
  "reg_ok r \<Longrightarrow> reg_ok (release_route b k r)"
  "reg_ok r \<Longrightarrow> reg_ok (snd (take_owner_routes b r))"
  "reg_ok r \<Longrightarrow> reg_ok (snd (take_connection_bound_routes c r))"
  by (simp_all add: reg_ok_def mm_ok_reserve release_route_def take_owner_routes_def take_connection_bound_routes_def)

lemma reg_ok_step: "reg_ok r \<Longrightarrow> reg_ok (ar_registry_step e r)"
proof (cases "\<exists>owner k. e = ArStart owner k")
  case False
  assume "reg_ok r"
  then show ?thesis
    by (rule ar_step_keeps [of reg_ok])
      (use False in blast,
       simp_all add: reg_ok_cancel reg_ok_close reg_ok_generation reg_ok_bind reg_ok_owner_routes)
qed (auto simp: reg_ok_start)

lemma reg_ok_change:
  "reg_ok (fst w) \<Longrightarrow> reg_ok (fst (record_attached_subscription_change change grant w))"
  by (auto simp: record_attached_subscription_change_def record_attach_def record_detach_def Let_def reg_ok_def
      split: option.splits attached_subscription_change.splits prod.splits)

interpretation attach_registry: event_invariant ar_exec "\<lambda>w. reg_ok (fst w)"
proof
  fix e and w w' :: attach_world
  assume "ar_exec e w = Some w'" "reg_ok (fst w)"
  then show "reg_ok (fst w')"
    using reg_ok_step [of "fst w" e] reg_ok_change [of w]
    by (cases e) (auto simp: ar_exec_def)
qed

lemma ar_world_new_ok: "reg_ok (fst ar_world_new)"
  by (simp add: ar_world_new_def attach_registry_default_def reg_ok_def mm_get_def)

end
