(* ===== verification/Attach_Identity.thy ===== *)
theory Attach_Identity
  imports Attach_Routes
begin

text \<open>
  Properties of the attach registry of \<open>Attach_Routes\<close>: an attachment identity that lost its
  route never fits a later stream, the indexes agree with the streams in every reachable
  registry, the routes of an owner stay within its limit, and the cleanup of departing grants
  takes exactly their routes.
\<close>

section \<open>Epochs\<close>

declare split_paired_All [simp del] split_paired_Ex [simp del]

lemma stream_identity_primitives [simp]:
  "stream_identity (cancel_stream k r) = (stream_identity r)(k := None)"
  "stream_identity (close_adapter k r) = stream_identity r"
  "stream_identity (record_generation k g r) = stream_identity r"
  "stream_identity (mark_adapter_bound k g a r) = stream_identity r"
  "stream_identity (snd (reserve_route b k n r)) = stream_identity r"
  "stream_identity (release_route b k r) = stream_identity r"
  "stream_identity (snd (take_owner_routes b r)) = stream_identity r"
  "stream_identity (snd (take_connection_bound_routes c r)) = stream_identity r"
  by (auto simp: stream_identity_def fun_eq_iff option.map_comp comp_def record_generation_def release_route_def
      take_owner_routes_def take_connection_bound_routes_def)

definition next_identity :: "attach_stream_owner \<Rightarrow> attach_stream_registry \<Rightarrow> attachment_identity" where
  "next_identity owner r = \<lparr>ai_client_id = ow_client_id owner, ai_epoch = wrapping_add (ar_next_epoch r) 1\<rparr>"

lemma stream_identity_start:
  "stream_identity (snd (start_attach owner k r)) = (stream_identity r)(k \<mapsto> next_identity owner r)"
  "ar_next_epoch (snd (start_attach owner k r)) = wrapping_add (ar_next_epoch r) 1"
  "fst (start_attach owner k r) = next_identity owner r"
  by (auto simp: start_attach_def Let_def stream_identity_def attach_stream_new_def stream_ident_def next_identity_def
      fun_eq_iff)

lemma next_epoch_keeps [simp]:
  "ar_next_epoch (record_generation k g r) = ar_next_epoch r"
  "ar_next_epoch (release_route b k r) = ar_next_epoch r"
  "ar_next_epoch (snd (take_owner_routes b r)) = ar_next_epoch r"
  "ar_next_epoch (snd (take_connection_bound_routes c r)) = ar_next_epoch r"
  by (simp_all add: record_generation_def release_route_def take_owner_routes_def take_connection_bound_routes_def)

text \<open>
  Epochs are at most the counter and belong to one route each; \<open>gone e\<close> says that \<open>e\<close> was
  given out and is no stream's any more.
\<close>

definition epochs_ok :: "attach_stream_registry \<Rightarrow> bool" where
  "epochs_ok r \<longleftrightarrow>
     (\<forall>k i. stream_identity r k = Some i \<longrightarrow> ai_epoch i \<le> ar_next_epoch r) \<and>
     (\<forall>k l i j. stream_identity r k = Some i \<longrightarrow> stream_identity r l = Some j \<longrightarrow> ai_epoch i = ai_epoch j \<longrightarrow> k = l)"

definition gone :: "u64 \<Rightarrow> attach_stream_registry \<Rightarrow> bool" where
  "gone e r \<longleftrightarrow> e \<le> ar_next_epoch r \<and> (\<forall>k i. stream_identity r k = Some i \<longrightarrow> ai_epoch i \<noteq> e)"

text \<open>Between two starts streams only disappear.\<close>

definition shrinks :: "attach_stream_registry \<Rightarrow> attach_stream_registry \<Rightarrow> bool" where
  "shrinks r r' \<longleftrightarrow> ar_next_epoch r' = ar_next_epoch r \<and> stream_identity r' \<subseteq>\<^sub>m stream_identity r"

lemma shrinks_same:
  "ar_next_epoch r' = ar_next_epoch r \<Longrightarrow> stream_identity r' = stream_identity r \<Longrightarrow> shrinks r0 r \<Longrightarrow> shrinks r0 r'"
  by (simp add: shrinks_def)

lemma shrinks_step:
  assumes "\<And>owner k. e \<noteq> ArStart owner k"
  shows "shrinks r (ar_registry_step e r)"
proof (rule ar_step_keeps [of "shrinks r"])
  show "shrinks r r" by (simp add: shrinks_def)
  show "shrinks r (cancel_stream k r')" if "shrinks r r'" for k r'
    using that by (auto simp: shrinks_def map_le_def)
qed (use assms in \<open>auto intro: shrinks_same\<close>)

lemma shrinks_change: "shrinks (fst w) (fst (record_attached_subscription_change change grant w))"
  by (auto simp: record_attached_subscription_change_def record_attach_def record_detach_def Let_def shrinks_def
      stream_identity_def map_le_def split: option.splits attached_subscription_change.splits prod.splits)

lemma ar_exec_cases:
  assumes "ar_exec e w = Some w'"
  obtains owner k where "e = ArStart owner k" "fst w' = snd (start_attach owner k (fst w))"
  | "shrinks (fst w) (fst w')"
proof (cases "\<exists>owner k. e = ArStart owner k")
  case True
  with assms that(1) show ?thesis by (auto simp: ar_exec_def)
next
  case False
  with assms shrinks_step [of e "fst w"] shrinks_change [of w] have "shrinks (fst w) (fst w')"
    by (cases e) (auto simp: ar_exec_def)
  with that(2) show ?thesis .
qed

text \<open>
  While the counter has room, an event keeps the epochs unique and the gone ones gone, and
  leaves no old epoch on a stream that did not have it.
\<close>

definition epochs_after :: "attach_stream_registry \<Rightarrow> nat \<Rightarrow> attach_stream_registry \<Rightarrow> bool" where
  "epochs_after r n r' \<longleftrightarrow>
     epochs_ok r' \<and> ar_next_epoch r \<le> ar_next_epoch r' \<and> ar_next_epoch r' \<le> ar_next_epoch r + n \<and>
     (\<forall>c. gone c r \<longrightarrow> gone c r') \<and>
     (\<forall>k i. stream_identity r' k = Some i \<longrightarrow> ai_epoch i \<le> ar_next_epoch r \<longrightarrow> stream_identity r k = Some i)"

lemma epochs_start:
  assumes "ar_next_epoch r < u64_max" and "epochs_ok r"
  shows "epochs_after r 1 (snd (start_attach owner k r))"
proof -
  let ?r = "snd (start_attach owner k r)"
  have e: "wrapping_add (ar_next_epoch r) (Suc 0) = Suc (ar_next_epoch r)"
    using assms(1) by (simp add: wrapping_add_exact)
  have le: "stream_identity r l = Some i \<Longrightarrow> ai_epoch i \<le> ar_next_epoch r" for l i
    using assms(2) by (auto simp: epochs_ok_def)
  have at: "l = k \<and> ai_epoch i = Suc (ar_next_epoch r) \<or>
      l \<noteq> k \<and> stream_identity r l = Some i \<and> ai_epoch i \<le> ar_next_epoch r"
    if "stream_identity ?r l = Some i" for l i
    using that le [of l i] by (auto simp: stream_identity_start next_identity_def e split: if_splits)
  have nx: "ar_next_epoch ?r = ar_next_epoch r + 1" by (simp add: stream_identity_start e)
  have "ai_epoch i \<le> ar_next_epoch ?r" if "stream_identity ?r l = Some i" for l i
    using at [OF that] by (auto simp: nx)
  moreover have "l = m" if "stream_identity ?r l = Some i" "stream_identity ?r m = Some j" "ai_epoch i = ai_epoch j" for l m i j
  proof (cases "l = k \<or> m = k")
    case True
    with at [OF that(1)] at [OF that(2)] that(3) show ?thesis by auto
  next
    case False
    with at [OF that(1)] at [OF that(2)] that(3) assms(2) show ?thesis by (simp add: epochs_ok_def)
  qed
  ultimately have "epochs_ok ?r" unfolding epochs_ok_def by blast
  moreover have "gone c ?r" if "gone c r" for c
    using that by (auto simp: gone_def stream_identity_start next_identity_def e)
  moreover have "stream_identity r l = Some i" if "stream_identity ?r l = Some i" "ai_epoch i \<le> ar_next_epoch r" for l i
    using at [OF that(1)] that(2) by auto
  ultimately show ?thesis by (simp add: epochs_after_def nx)
qed

lemma epochs_shrink:
  assumes "shrinks r r'" and "epochs_ok r"
  shows "epochs_after r 1 r'"
proof -
  have sub: "stream_identity r' k = Some i \<Longrightarrow> stream_identity r k = Some i" for k i
    using assms(1) by (force simp: shrinks_def map_le_def)
  moreover have "ar_next_epoch r' = ar_next_epoch r" using assms(1) by (simp add: shrinks_def)
  moreover have "epochs_ok r'" using assms(2) sub calculation(2) unfolding epochs_ok_def by metis
  moreover have "gone c r'" if "gone c r" for c
    using that sub calculation(2) unfolding gone_def by metis
  ultimately show ?thesis by (simp add: epochs_after_def)
qed

lemma epochs_step:
  assumes "ar_exec e w = Some w'" and "ar_next_epoch (fst w) < u64_max" and "epochs_ok (fst w)"
  shows "epochs_after (fst w) 1 (fst w')"
  using assms(1) by (cases rule: ar_exec_cases) (use assms(2,3) epochs_start epochs_shrink in metis)+

lemma epochs_after_trans:
  assumes "epochs_after r m s" and "epochs_after s n t"
  shows "epochs_after r (m + n) t"
proof -
  have "stream_identity r k = Some i" if "stream_identity t k = Some i" "ai_epoch i \<le> ar_next_epoch r" for k i
    using that assms unfolding epochs_after_def by (meson order_trans)
  with assms show ?thesis unfolding epochs_after_def by auto
qed

lemma epochs_run:
  "run_events ar_exec es w = Some w' \<Longrightarrow> ar_next_epoch (fst w) + length es \<le> u64_max \<Longrightarrow> epochs_ok (fst w) \<Longrightarrow>
   epochs_after (fst w) (length es) (fst w')"
proof (induction es arbitrary: w)
  case (Cons e es)
  then obtain v where v: "ar_exec e w = Some v" "run_events ar_exec es v = Some w'"
    by (auto split: option.splits)
  have step: "epochs_after (fst w) 1 (fst v)" using epochs_step [OF v(1)] Cons.prems by simp
  then have "ar_next_epoch (fst v) + length es \<le> u64_max" "epochs_ok (fst v)"
    using Cons.prems(2) by (simp_all add: epochs_after_def)
  from epochs_after_trans [OF step Cons.IH [OF v(2) this]] show ?case by simp
qed (simp add: epochs_after_def)

lemma epochs_new: "epochs_ok (fst ar_world_new)" "ar_next_epoch (fst ar_world_new) = 0"
  by (simp_all add: epochs_ok_def stream_identity_def ar_world_new_def attach_registry_default_def)

section \<open>Properties of identities and indexes\<close>

text \<open>C18. A late continuation cannot touch a replacement.  Let \<open>i\<close> be the identity that a start
  returned.  Once the stream of its route is no longer \<open>i\<close> (it was cancelled, replaced or
  reconciled away) no stream of any route is \<open>i\<close> again, whatever runs afterwards, and every
  operation fenced by \<open>i\<close> reports that it did nothing and does nothing.\<close>

theorem attach_identity_never_returns:
  assumes "run_events ar_exec es ar_world_new = Some (r, x)" and "start_attach owner k r = (i, r1)"
    and "run_events ar_exec fs (r1, x) = Some (r2, y)" and "\<not> stream_matches k i r2"
    and "run_events ar_exec gs (r2, y) = Some (r3, z)"
    and "length es + length fs + length gs < u64_max"
  shows "\<not> stream_matches j i r3 \<and> cancel_stream_if j i r3 = (False, r3) \<and> close_adapter_if j i r3 = (False, r3) \<and>
    record_generation_if j g i r3 = (False, r3) \<and> mark_adapter_bound_if j g a i r3 = (False, r3)"
proof -
  have r: "epochs_after (fst ar_world_new) (length es) r" using epochs_run [OF assms(1)] epochs_new assms(6) by simp
  have r1: "epochs_after r 1 r1" "stream_identity r1 k = Some i" "ar_next_epoch r1 = ai_epoch i"
    using epochs_start [of r owner k] r stream_identity_start [of owner k r] assms(2,6) epochs_new(2)
    by (auto simp: epochs_after_def next_identity_def)
  have len: "ar_next_epoch r1 + length fs + length gs \<le> u64_max"
    using r r1(1) assms(6) epochs_new(2) by (simp add: epochs_after_def)
  have r2: "epochs_after r1 (length fs) r2"
    using epochs_run [OF assms(3)] r1(1) len by (simp add: epochs_after_def)
  have "ai_epoch j \<noteq> ai_epoch i" if j: "stream_identity r2 l = Some j" for l j
  proof
    assume e: "ai_epoch j = ai_epoch i"
    with r2 j r1(3) have "stream_identity r1 l = Some j" by (auto simp: epochs_after_def)
    with e r1(1,2) have "l = k" "j = i" unfolding epochs_after_def epochs_ok_def by (metis option.inject)+
    with j assms(4) show False by (simp add: stream_matches_def)
  qed
  with r2 r1(3) have "gone (ai_epoch i) r2" by (auto simp: gone_def epochs_after_def)
  moreover have "epochs_after r2 (length gs) r3"
    using epochs_run [OF assms(5)] r2 len by (simp add: epochs_after_def)
  ultimately have "gone (ai_epoch i) r3" by (simp add: epochs_after_def)
  then have "\<not> stream_matches l i r3" for l by (auto simp: gone_def stream_matches_def)
  then show ?thesis
    by (simp add: cancel_stream_if_def close_adapter_if_def record_generation_if_def mark_adapter_bound_if_def)
qed


abbreviation unix_owner :: "string \<Rightarrow> attach_stream_owner" where
  "unix_owner c \<equiv> \<lparr>ow_client_id = c, ow_grant_id = None\<rparr>"

theorem attach_identity_never_returns_witness:
  "\<exists>i r1 r2 r3.
     start_attach (unix_owner ''a'') (''s'', ''t'') (fst ar_world_new) = (i, r1) \<and>
     run_events ar_exec [ArStart (unix_owner ''b'') (''s'', ''t'')] (r1, snd ar_world_new) = Some (r2, snd ar_world_new) \<and>
     run_events ar_exec [ArBind (''s'', ''t'') 5 7] (r2, snd ar_world_new) = Some (r3, snd ar_world_new) \<and>
     is_adapter_bound (''s'', ''t'') r3 \<and> cancel_stream_if (''s'', ''t'') i r3 = (False, r3)"
proof -
  let ?k = "(''s'', ''t'')" and ?x = "snd ar_world_new"
  obtain i r1 where s: "start_attach (unix_owner ''a'') ?k (fst ar_world_new) = (i, r1)"
    by (cases "start_attach (unix_owner ''a'') ?k (fst ar_world_new)")
  define r2 where "r2 = ar_registry_step (ArStart (unix_owner ''b'') ?k) r1"
  define r3 where "r3 = ar_registry_step (ArBind ?k 5 7) r2"
  have run: "run_events ar_exec [] ar_world_new = Some (fst ar_world_new, ?x)"
    "run_events ar_exec [ArStart (unix_owner ''b'') ?k] (r1, ?x) = Some (r2, ?x)"
    "run_events ar_exec [ArBind ?k 5 7] (r2, ?x) = Some (r3, ?x)"
    by (simp_all add: ar_exec_def r2_def r3_def)
  have "ai_client_id i = ''a''"
    using s stream_identity_start(3) [of "unix_owner ''a''" ?k "fst ar_world_new"] by (auto simp: next_identity_def)
  then have other: "\<not> stream_matches ?k i r2"
    by (auto simp: r2_def stream_matches_def stream_identity_start next_identity_def)
  have "is_adapter_bound ?k r3"
    by (simp add: is_adapter_bound_def r3_def r2_def start_attach_def Let_def)
  with s run other attach_identity_never_returns [OF run(1) s run(2) other run(3), of ?k] show ?thesis
    by (auto simp: u64_max_def)
qed

text \<open>C19. The registry's indexes agree in every reachable state: \<open>active_subscriptions\<close> lists
  exactly the routes that have a stream, a stream is bound exactly when it holds an adapter,
  no two streams share an epoch, and no index keeps an empty set.\<close>

theorem attach_indexes_agree:
  assumes "run_events ar_exec es ar_world_new = Some (r, x)" and "length es \<le> u64_max"
  shows "(\<forall>se su. su \<in> set (mm_get (ar_active_subscriptions r) se) \<longleftrightarrow> stream_identity r (se, su) \<noteq> None) \<and>
    (\<forall>k. is_adapter_bound k r \<longleftrightarrow> (\<exists>s a. om_get (ar_streams r) k = Some s \<and> as_adapter s = Some a)) \<and>
    (\<forall>k l i j. stream_identity r k = Some i \<longrightarrow> stream_identity r l = Some j \<longrightarrow> k \<noteq> l \<longrightarrow> ai_epoch i \<noteq> ai_epoch j) \<and>
    (\<forall>b. om_get (ar_active_subscriptions r) b \<noteq> Some [] \<and> om_get (ar_owner_routes r) b \<noteq> Some [] \<and>
       om_get (ar_connection_bound_routes r) b \<noteq> Some [])"
proof -
  have ok: "reg_ok r" using attach_registry.inv_run [OF assms(1) ar_world_new_ok] by simp
  have "epochs_ok r" using epochs_run [OF assms(1)] epochs_new assms(2) by (simp add: epochs_after_def)
  then have "\<forall>k l i j. stream_identity r k = Some i \<longrightarrow> stream_identity r l = Some j \<longrightarrow> k \<noteq> l \<longrightarrow> ai_epoch i \<noteq> ai_epoch j"
    unfolding epochs_ok_def by blast
  moreover have "su \<in> set (mm_get (ar_active_subscriptions r) se) \<longleftrightarrow> stream_identity r (se, su) \<noteq> None" for se su
    using ok unfolding reg_ok_def stream_identity_def by (metis fst_conv snd_conv option.map_disc_iff)
  moreover have "is_adapter_bound k r \<longleftrightarrow> (\<exists>s a. om_get (ar_streams r) k = Some s \<and> as_adapter s = Some a)" for k
    using ok by (auto simp: reg_ok_def is_adapter_bound_def split: option.splits)
  moreover have "om_get (ar_active_subscriptions r) b \<noteq> Some [] \<and> om_get (ar_owner_routes r) b \<noteq> Some [] \<and>
      om_get (ar_connection_bound_routes r) b \<noteq> Some []" for b
    using ok unfolding reg_ok_def mm_ok_def by blast
  ultimately show ?thesis by blast
qed

theorem attach_indexes_agree_witness:
  "\<exists>r x. run_events ar_exec
       [ArStart (unix_owner ''a'') (''s'', ''t''), ArStart (unix_owner ''a'') (''s'', ''u''), ArCancel (''s'', ''t'')]
       ar_world_new = Some (r, x) \<and>
     mm_get (ar_active_subscriptions r) ''s'' = [''u''] \<and> stream_identity r (''s'', ''t'') = None"
proof -
  let ?es = "[ArStart (unix_owner ''a'') (''s'', ''t''), ArStart (unix_owner ''a'') (''s'', ''u''), ArCancel (''s'', ''t'')]"
  obtain r x where run: "run_events ar_exec ?es ar_world_new = Some (r, x)"
    by (cases "the (run_events ar_exec ?es ar_world_new)") (auto simp: ar_exec_def)
  have "mm_get (ar_active_subscriptions (fst (the (run_events ar_exec ?es ar_world_new)))) ''s'' = [''u'']"
    by code_simp
  then have "mm_get (ar_active_subscriptions r) ''s'' = [''u'']" using run by simp
  moreover from this have "''t'' \<notin> set (mm_get (ar_active_subscriptions r) ''s'')" by simp
  with attach_indexes_agree [OF run] have "stream_identity r (''s'', ''t'') = None" by (auto simp: u64_max_def)
  ultimately show ?thesis using run by blast
qed

section \<open>Route limits of an owner\<close>

lemma owner_routes_primitives [simp]:
  "ar_owner_routes (record_generation k g r) = ar_owner_routes r"
  "ar_owner_routes (snd (take_connection_bound_routes c r)) = ar_owner_routes r"
  by (simp_all add: record_generation_def take_connection_bound_routes_def)

lemma mm_get_reserve:
  "mm_get (ar_owner_routes (snd (reserve_route b k n r))) c =
     (if c = b \<and> fst (reserve_route b k n r) = Inserted then os_insert k (mm_get (ar_owner_routes r) b)
      else mm_get (ar_owner_routes r) c)"
  by (auto simp: reserve_route_def Let_def mm_get_def split: option.splits)

definition routes_within :: "usize \<Rightarrow> attach_stream_registry \<Rightarrow> bool" where
  "routes_within n r \<longleftrightarrow> (\<forall>b. length (mm_get (ar_owner_routes r) b) \<le> n)"

lemma routes_within_step:
  assumes "routes_within L r" and "\<And>b k n. e = ArReserve b k n \<Longrightarrow> n \<le> L"
  shows "routes_within L (ar_registry_step e r)"
proof (cases "\<exists>owner k. e = ArStart owner k")
  case False
  show ?thesis
  proof (rule ar_step_keeps [of "routes_within L"])
    fix b k n and r :: attach_stream_registry
    assume e: "e = ArReserve b k n" and r: "routes_within L r"
    have "length (mm_get (ar_owner_routes (snd (reserve_route b k n r))) c) \<le> L" for c
    proof (cases "c = b \<and> fst (reserve_route b k n r) = Inserted")
      case True
      then have "length (mm_get (ar_owner_routes r) b) < n"
        by (auto simp: reserve_route_def Let_def split: if_splits)
      with True assms(2) [OF e] show ?thesis
        using os_length_insert_le [of k "mm_get (ar_owner_routes r) b"] by (simp add: mm_get_reserve)
    qed (use r in \<open>auto simp: routes_within_def mm_get_reserve\<close>)
    then show "routes_within L (snd (reserve_route b k n r))" by (simp add: routes_within_def)
  next
    show "routes_within L (release_route b k r)" if "routes_within L r" for b k r
    proof -
      have "length (os_remove k (mm_get (ar_owner_routes r) b)) \<le> L"
        using that unfolding routes_within_def os_remove_def by (meson length_filter_le order_trans)
      with that show ?thesis by (auto simp: routes_within_def release_route_def mm_get_remove)
    qed
  qed (use False assms(1) in \<open>auto simp: routes_within_def take_owner_routes_def mm_get_drop\<close>)
qed (use assms(1) in \<open>auto simp: routes_within_def start_attach_def Let_def\<close>)

lemma routes_within_exec:
  assumes "ar_exec e w = Some w'" and "\<And>b k n. e = ArReserve b k n \<Longrightarrow> n \<le> L" and "routes_within L (fst w)"
  shows "routes_within L (fst w')"
proof -
  have "routes_within L (fst (record_attached_subscription_change change grant w))" for change grant
    using assms(3) by (auto simp: record_attached_subscription_change_def record_attach_def record_detach_def Let_def
        routes_within_def split: option.splits attached_subscription_change.splits prod.splits)
  with assms(1) routes_within_step [OF assms(3), of e] assms(2) show ?thesis
    by (cases e) (auto simp: ar_exec_def)
qed

text \<open>Attach admission bounds the routes of every owner.  When no reservation uses a limit
  above \<open>L\<close>, no owner holds more than \<open>L\<close> routes, however many attaches are in flight; a
  reservation at \<open>L\<close> is refused exactly when the route is new and \<open>L\<close> are held, a granted route
  is held afterwards, and no other owner's routes change.\<close>

theorem owner_routes_bounded:
  assumes "run_events ar_exec es ar_world_new = Some (r, x)"
    and "\<forall>b k n. ArReserve b k n \<in> set es \<longrightarrow> n \<le> L"
  shows "length (mm_get (ar_owner_routes r) b) \<le> L \<and>
    (fst (reserve_route b k L r) = Full \<longleftrightarrow>
       k \<notin> set (mm_get (ar_owner_routes r) b) \<and> length (mm_get (ar_owner_routes r) b) = L) \<and>
    (fst (reserve_route b k L r) \<noteq> Full \<longrightarrow> k \<in> set (mm_get (ar_owner_routes (snd (reserve_route b k L r))) b)) \<and>
    (\<forall>c. c \<noteq> b \<longrightarrow> mm_get (ar_owner_routes (snd (reserve_route b k L r))) c = mm_get (ar_owner_routes r) c)"
proof -
  have "routes_within L (fst ar_world_new)"
    by (simp add: routes_within_def ar_world_new_def attach_registry_default_def mm_get_def)
  with assms(1) have "routes_within L (fst (r, x))"
  proof (rule run_events_guarded [where P = "\<lambda>w. routes_within L (fst w)"])
    fix e w w'
    assume "e \<in> set es" "ar_exec e w = Some w'" "routes_within L (fst w)"
    with assms(2) show "routes_within L (fst w')" using routes_within_exec [of e w w' L] by blast
  qed
  then have "length (mm_get (ar_owner_routes r) b) \<le> L" by (simp add: routes_within_def)
  then show ?thesis
    by (auto simp: mm_get_reserve) (auto simp: reserve_route_def Let_def split: if_splits)
qed

theorem owner_routes_bounded_witness:
  "\<exists>r x. run_events ar_exec [ArReserve ''g'' (''s'', ''t'') 2, ArReserve ''g'' (''s'', ''u'') 2, ArReserve ''h'' (''s'', ''t'') 2]
       ar_world_new = Some (r, x) \<and>
     fst (reserve_route ''g'' (''s'', ''v'') 2 r) = Full \<and> length (mm_get (ar_owner_routes r) ''g'') = 2"
proof -
  let ?es = "[ArReserve ''g'' (''s'', ''t'') 2, ArReserve ''g'' (''s'', ''u'') 2, ArReserve ''h'' (''s'', ''t'') 2]"
  obtain r x where run: "run_events ar_exec ?es ar_world_new = Some (r, x)"
    by (cases "the (run_events ar_exec ?es ar_world_new)") (auto simp: ar_exec_def)
  have "mm_get (ar_owner_routes (fst (the (run_events ar_exec ?es ar_world_new)))) ''g'' = [(''s'', ''t''), (''s'', ''u'')]"
    by code_simp
  then have "mm_get (ar_owner_routes r) ''g'' = [(''s'', ''t''), (''s'', ''u'')]" using run by simp
  with run owner_routes_bounded [OF run, of 2 "''g''" "(''s'', ''v'')"] show ?thesis by auto
qed

section \<open>Departing grants\<close>

lemma get_fold_insert_const:
  "om_get (fold (\<lambda>k. om_insert k c) ks m) j = (if j \<in> set ks then Some c else om_get m j)"
  by (induction ks arbitrary: m) auto

lemma om_ok_fold: "om_ok m \<Longrightarrow> (\<And>x m. om_ok m \<Longrightarrow> om_ok (f x m)) \<Longrightarrow> om_ok (fold f xs m)"
  by (induction xs arbitrary: m) auto

text \<open>After the second source, a key that some removed grant holds is attributed to such a grant.\<close>

lemma get_fold_grants:
  "om_get (fold (\<lambda>g m. fold (\<lambda>k. om_insert k (Some g)) (f g) m) gs m) j =
     (if \<exists>g \<in> set gs. j \<in> set (f g) then Some (Some (last (filter (\<lambda>g. j \<in> set (f g)) gs))) else om_get m j)"
proof (induction gs arbitrary: m)
  case (Cons g gs)
  show ?case
  proof (cases "\<exists>g \<in> set gs. j \<in> set (f g)")
    case True
    then have "filter (\<lambda>g. j \<in> set (f g)) gs \<noteq> []" by (auto simp: filter_empty_conv)
    with True show ?thesis by (simp add: Cons.IH)
  next
    case False
    then have "filter (\<lambda>g. j \<in> set (f g)) gs = []" by (auto simp: filter_empty_conv)
    with False show ?thesis by (simp add: Cons.IH get_fold_insert_const)
  qed
qed simp

text \<open>The third source overrides the others where a removed grant's stream is.\<close>

lemma get_fold_streams:
  assumes "distinct (om_keys xs)"
  shows "om_get (fold (\<lambda>(k, s) m. case f s of Some g \<Rightarrow> if g \<in> G then om_insert k (Some g) m else m | None \<Rightarrow> m) xs m) j =
    (case om_get xs j of
       None \<Rightarrow> om_get m j
     | Some s \<Rightarrow> (case f s of Some g \<Rightarrow> if g \<in> G then Some (Some g) else om_get m j | None \<Rightarrow> om_get m j))"
  using assms
proof (induction xs arbitrary: m)
  case (Cons e xs)
  obtain k s where e: "e = (k, s)" by (cases e)
  with Cons.prems have "om_get xs k = None" by (simp add: map_of_eq_None_iff)
  with Cons e show ?case by (auto split: option.splits)
qed simp

lemma set_fold_mm_insert:
  "k \<in> set (mm_get (fold (\<lambda>(k, known) m. case f k known of None \<Rightarrow> m | Some g \<Rightarrow> mm_insert g k m) xs m) g) \<longleftrightarrow>
     k \<in> set (mm_get m g) \<or> (\<exists>known. (k, known) \<in> set xs \<and> f k known = Some g)"
proof (induction xs arbitrary: m)
  case (Cons e xs)
  show ?case
    by (cases e; cases "f (fst e) (snd e)") (auto simp: Cons.IH set_mm_insert)
qed simp

lemma departing_keys_ok: "om_ok (departing_keys removed snapshot r)"
  unfolding departing_keys_def Let_def
  by (intro om_ok_fold) (auto intro!: om_ok_fold split: option.splits)

lemma departing_iff:
  assumes "removed \<noteq> []"
  shows "k \<in> set (mm_get (departing_routes_for_grants removed primary snapshot r) g) \<longleftrightarrow>
    (\<exists>known. om_get (departing_keys removed snapshot r) k = Some known \<and> departing_grant removed primary r k known = Some g)"
  using assms by (simp add: departing_routes_for_grants_def set_fold_mm_insert om_in_set_iff departing_keys_ok)
    (simp add: mm_get_def)

lemma departing_keys_get:
  assumes "om_ok (ar_streams r)"
  shows "om_get (departing_keys removed snapshot r) k =
    (case om_get (ar_streams r) k of
       Some s \<Rightarrow> (case ow_grant_id (as_owner s) of Some g \<Rightarrow> if g \<in> set removed then Some (Some g)
           else om_get (departing_keys removed snapshot (r\<lparr>ar_streams := []\<rparr>)) k
         | None \<Rightarrow> om_get (departing_keys removed snapshot (r\<lparr>ar_streams := []\<rparr>)) k)
     | None \<Rightarrow>
         (if \<exists>g \<in> set removed. k \<in> set (mm_get (ar_owner_routes r) g)
          then Some (Some (last (filter (\<lambda>g. k \<in> set (mm_get (ar_owner_routes r) g)) removed)))
          else if k \<in> set snapshot then Some None else None))"
  using om_ok_distinct [OF assms]
  by (simp add: departing_keys_def Let_def get_fold_streams get_fold_grants get_fold_insert_const split: option.splits)

definition departs :: "string oset \<Rightarrow> string \<Rightarrow> route oset \<Rightarrow> attach_stream_registry \<Rightarrow> string \<Rightarrow> route \<Rightarrow> bool" where
  "departs removed primary snapshot r g k \<longleftrightarrow> k \<in> set (mm_get (departing_routes_for_grants removed primary snapshot r) g)"

text \<open>The cleanup of departing grants takes exactly their routes.  Every departing route is
  attributed to one removed grant; a route with a stream departs exactly when the stream's own
  grant is removed, and under that grant, so the stream of a Unix client or of a live grant is
  never touched; a route without a stream departs exactly when a removed grant reserved it, or
  it is in the close snapshot and the index or the primary names a removed grant.\<close>

theorem departing_routes_exact:
  assumes "run_events ar_exec es ar_world_new = Some (r, x)"
  shows "(\<forall>g k. departs removed primary snapshot r g k \<longrightarrow> g \<in> set removed) \<and>
    (\<forall>g h k. departs removed primary snapshot r g k \<longrightarrow> departs removed primary snapshot r h k \<longrightarrow> g = h) \<and>
    (\<forall>k s g. om_get (ar_streams r) k = Some s \<longrightarrow>
       (departs removed primary snapshot r g k \<longleftrightarrow> ow_grant_id (as_owner s) = Some g \<and> g \<in> set removed)) \<and>
    (\<forall>k. om_get (ar_streams r) k = None \<longrightarrow>
       ((\<exists>g. departs removed primary snapshot r g k) \<longleftrightarrow>
        (\<exists>g \<in> set removed. k \<in> set (mm_get (ar_owner_routes r) g)) \<or>
        k \<in> set snapshot \<and> (primary \<in> set removed \<or> (\<exists>g \<in> set removed. om_get (ar_attach_owner_grant_ids r) k = Some g))))"
proof (cases "removed = []")
  case True
  then show ?thesis by (auto simp: departs_def departing_routes_for_grants_def mm_get_def split: option.splits)
next
  case False
  have ok: "om_ok (ar_streams r)"
    using attach_registry.inv_run [OF assms(1) ar_world_new_ok] by (simp add: reg_ok_def)
  note iff = departs_def departing_iff [OF False] departing_keys_get [OF ok]
  have last: "last (filter (\<lambda>g. k \<in> set (mm_get (ar_owner_routes r) g)) removed) \<in> set removed"
    if "\<exists>g \<in> set removed. k \<in> set (mm_get (ar_owner_routes r) g)" for k
  proof -
    from that have "filter (\<lambda>g. k \<in> set (mm_get (ar_owner_routes r) g)) removed \<noteq> []" by (auto simp: filter_empty_conv)
    from last_in_set [OF this] show ?thesis by simp
  qed
  have streamed: "departs removed primary snapshot r g k \<longleftrightarrow> ow_grant_id (as_owner s) = Some g \<and> g \<in> set removed"
    if "om_get (ar_streams r) k = Some s" for k s g
    using that by (auto simp: iff departing_grant_def split: option.splits if_splits)
  have streamless: "(\<exists>g. departs removed primary snapshot r g k) \<longleftrightarrow>
        (\<exists>g \<in> set removed. k \<in> set (mm_get (ar_owner_routes r) g)) \<or>
        k \<in> set snapshot \<and> (primary \<in> set removed \<or> (\<exists>g \<in> set removed. om_get (ar_attach_owner_grant_ids r) k = Some g))"
    if "om_get (ar_streams r) k = None" for k
    using that by (auto simp: iff departing_grant_def split: option.splits if_splits)
  have removed: "g \<in> set removed" if "departs removed primary snapshot r g k" for k g
    using that last [of k] by (auto simp: iff departing_grant_def split: option.splits if_splits)
  have unique: "g = h" if "departs removed primary snapshot r g k" "departs removed primary snapshot r h k" for k g h
    using that by (auto simp: iff)
  show ?thesis using removed unique streamed streamless by blast
qed

theorem departing_routes_exact_witness:
  "\<exists>r x. run_events ar_exec
       [ArStart \<lparr>ow_client_id = ''c'', ow_grant_id = Some ''g''\<rparr> (''s'', ''t''), ArStart (unix_owner ''u'') (''s'', ''u''),
        ArReserve ''g'' (''s'', ''v'') 5] ar_world_new = Some (r, x) \<and>
     departs [''g''] ''g'' [(''s'', ''u'')] r ''g'' (''s'', ''t'') \<and>
     \<not> departs [''g''] ''g'' [(''s'', ''u'')] r ''g'' (''s'', ''u'') \<and>
     (\<exists>g. departs [''g''] ''g'' [(''s'', ''u'')] r g (''s'', ''v''))"
proof -
  let ?es = "[ArStart \<lparr>ow_client_id = ''c'', ow_grant_id = Some ''g''\<rparr> (''s'', ''t''), ArStart (unix_owner ''u'') (''s'', ''u''),
        ArReserve ''g'' (''s'', ''v'') 5]"
  obtain r x where run: "run_events ar_exec ?es ar_world_new = Some (r, x)"
    by (cases "the (run_events ar_exec ?es ar_world_new)") (auto simp: ar_exec_def)
  have r: "r = fst (the (run_events ar_exec ?es ar_world_new))" using run by simp
  have "map_option (ow_grant_id \<circ> as_owner) (om_get (ar_streams r) (''s'', ''t'')) = Some (Some ''g'')"
    "map_option (ow_grant_id \<circ> as_owner) (om_get (ar_streams r) (''s'', ''u'')) = Some None"
    "om_get (ar_streams r) (''s'', ''v'') = None" "mm_get (ar_owner_routes r) ''g'' = [(''s'', ''v'')]"
    unfolding r by code_simp+
  with run departing_routes_exact [OF run, of "[''g'']" "''g''" "[(''s'', ''u'')]"] show ?thesis by (auto simp: comp_def)
qed

end
