(* ===== verification/Attach_Reconcile.thy ===== *)
theory Attach_Reconcile
  imports Attach_Routes
begin

text \<open>
  Reconciling the attach registry with Core: the pump of \<open>daemon/owner_loop.rs\<close> that applies
  one bounded inventory slice after another, that a slice retires exactly the stale routes it
  visits, that a pass of slices does what one unbounded pass would do, and that the occupancy
  the status reports follows the registry.
\<close>

section \<open>The pump\<close>

definition detach_of :: "route \<Rightarrow> attached_subscription_change" where
  "detach_of k = Detach \<lparr>sub_session_id = fst k, sub_subscription_id = snd k\<rparr>"

text \<open>
  What the reconcile phase does with a ready inventory: one slice of at most \<open>n\<close> rows, a
  recorded detach for every retired route, and the cursor for the next slice.
\<close>

definition apply_inventory ::
  "usize \<Rightarrow> inventory_lookup \<Rightarrow> u64 \<Rightarrow> route option \<Rightarrow> attach_world \<Rightarrow> bool \<times> route option \<times> attach_world"
where
  "apply_inventory n lookup read_epoch after w =
     (let (progress, r) = reconcile_inventory_slice lookup read_epoch after n (fst w);
          w = fold (\<lambda>k. record_attached_subscription_change (Some (detach_of k)) None) (rp_retired progress) (r, snd w)
      in if rp_more progress then (True, rp_after progress, w) else (False, None, w))"

definition PUMP_MAX_ROUTES_VALIDATED :: usize where
  "PUMP_MAX_ROUTES_VALIDATED = 8"

text \<open>A pass: slices until one reports no more rows.\<close>

fun reconcile_pass ::
  "nat \<Rightarrow> usize \<Rightarrow> inventory_lookup \<Rightarrow> u64 \<Rightarrow> route option \<Rightarrow> attach_world \<Rightarrow> attach_world option"
where
  "reconcile_pass 0 n lookup e after w = None"
| "reconcile_pass (Suc fuel) n lookup e after w =
     (case apply_inventory n lookup e after w of
        (again, after', w') \<Rightarrow> if again then reconcile_pass fuel n lookup e after' w' else Some w')"

section \<open>One slice\<close>

text \<open>Whether the read asked about a row, and whether the answer makes it stale.\<close>

definition row_asked :: "inventory_lookup \<Rightarrow> u64 \<Rightarrow> route \<times> attach_stream \<Rightarrow> bool" where
  "row_asked lookup e row \<longleftrightarrow>
     as_adapter_bound (snd row) \<and> as_epoch (snd row) \<le> e \<and>
     lookup (ow_client_id (as_owner (snd row))) (fst (fst row)) (snd (fst row)) \<noteq> None"

definition row_stale :: "inventory_lookup \<Rightarrow> u64 \<Rightarrow> route \<times> attach_stream \<Rightarrow> bool" where
  "row_stale lookup e row \<longleftrightarrow>
     row_asked lookup e row \<and>
     (case the (lookup (ow_client_id (as_owner (snd row))) (fst (fst row)) (snd (fst row))) of
        None \<Rightarrow> True
      | Some g \<Rightarrow> as_generation (snd row) \<noteq> None \<and> as_generation (snd row) \<noteq> Some g)"

lemma reconcile_row_effect:
  assumes "om_get (ar_streams r) k = Some s"
  shows "reconcile_row lookup e (k, as_adapter_bound s, stream_ident s) (n, ks, r) =
    (if row_asked lookup e (k, s) then n + 1 else n,
     if row_stale lookup e (k, s) then ks @ [k] else ks,
     if row_stale lookup e (k, s) then cancel_stream k r else r)"
  using assms
  by (auto simp: reconcile_row_def row_asked_def row_stale_def recorded_generation_def cancel_stream_if_def
      stream_matches_def stream_identity_def stream_ident_def route_is_stale_against_live_generation_def
      split: option.splits if_splits)

lemma reconcile_rows_effect:
  assumes "distinct (om_keys xs)" and "\<And>k s. (k, s) \<in> set xs \<Longrightarrow> om_get (ar_streams r) k = Some s"
  shows "fold (reconcile_row lookup e) (map (\<lambda>(k, s). (k, as_adapter_bound s, stream_ident s)) xs) (n, ks, r) =
    (n + length (filter (row_asked lookup e) xs), ks @ map fst (filter (row_stale lookup e) xs),
     fold cancel_stream (map fst (filter (row_stale lookup e) xs)) r)"
  using assms
proof (induction xs arbitrary: n ks r)
  case (Cons x xs)
  obtain k s where x: "x = (k, s)" by (cases x)
  have k: "om_get (ar_streams r) k = Some s" using Cons.prems(2) x by simp
  have rest: "om_get (ar_streams (cancel_stream k r)) j = Some t" if "(j, t) \<in> set xs" for j t
  proof -
    have "j \<in> set (om_keys xs)" using that by (metis fst_conv image_eqI list.set_map)
    with Cons.prems(1) x have "j \<noteq> k" by auto
    with Cons.prems(2) [of j t] that show ?thesis by simp
  qed
  show ?case
    using Cons.IH [of "cancel_stream k r"] Cons.IH [of r] Cons.prems rest
    by (simp add: x reconcile_row_effect [OF k])
qed simp

lemma get_cancel_fold:
  "om_get (ar_streams (fold cancel_stream ks r)) j = (if j \<in> set ks then None else om_get (ar_streams r) j)"
  by (induction ks arbitrary: r) auto

lemma cancel_fold_ok: "reg_ok r \<Longrightarrow> reg_ok (fold cancel_stream ks r)"
  by (rule fold_keeps [of reg_ok]) (auto simp: reg_ok_cancel)

lemma om_after_sub: "(k, v) \<in> set (om_after c m) \<Longrightarrow> (k, v) \<in> set m"
  by (auto simp: om_after_def split: option.splits)

abbreviation slice_rows :: "route option \<Rightarrow> usize \<Rightarrow> attach_stream_registry \<Rightarrow> (route \<times> attach_stream) list" where
  "slice_rows after n r \<equiv> take n (om_after after (ar_streams r))"

lemma slice_effect:
  assumes "reg_ok r"
  shows "reconcile_inventory_slice lookup e after n r =
    (\<lparr>rp_validated = length (filter (row_asked lookup e) (slice_rows after n r)),
      rp_more = n < length (om_after after (ar_streams r)),
      rp_after = (if slice_rows after n r = [] then after else Some (fst (last (slice_rows after n r)))),
      rp_retired = map fst (filter (row_stale lookup e) (slice_rows after n r))\<rparr>,
     fold cancel_stream (map fst (filter (row_stale lookup e) (slice_rows after n r))) r)"
proof -
  have ok: "om_ok (ar_streams r)" using assms by (simp add: reg_ok_def)
  have rows: "distinct (om_keys (slice_rows after n r))"
    using om_ok_distinct [OF om_ok_after [OF ok]] by (simp add: take_map [symmetric])
  have get: "om_get (ar_streams r) k = Some s" if "(k, s) \<in> set (slice_rows after n r)" for k s
    using om_after_sub [OF in_set_takeD [OF that]] ok by (simp add: om_in_set_iff)
  note effect = reconcile_rows_effect [of "slice_rows after n r" r lookup e 0 "[]", OF rows]
  show ?thesis
    unfolding reconcile_inventory_slice_def Let_def by (subst effect) (use get in \<open>auto simp: last_map case_prod_beta\<close>)
qed

text \<open>Streams after cancelling the stale rows of a slice.\<close>

lemma streams_after_cancel:
  assumes "reg_ok r"
  shows "ar_streams (fold cancel_stream ks r) = filter (\<lambda>(k, s). k \<notin> set ks) (ar_streams r)"
proof (rule om_eqI)
  have ok: "om_ok (ar_streams r)" using assms by (simp add: reg_ok_def)
  show "om_ok (ar_streams (fold cancel_stream ks r))" using cancel_fold_ok [OF assms] by (simp add: reg_ok_def)
  have ret: "filter (\<lambda>(k, s). k \<notin> set ks) (ar_streams r) = om_retain (\<lambda>k s. k \<notin> set ks) (ar_streams r)"
    by (simp add: om_retain_def split_def)
  then show "om_ok (filter (\<lambda>(k, s). k \<notin> set ks) (ar_streams r))" using ok by simp
  show "om_get (ar_streams (fold cancel_stream ks r)) k = om_get (filter (\<lambda>(k, s). k \<notin> set ks) (ar_streams r)) k" for k
    unfolding ret using om_get_retain [OF ok, of "\<lambda>k s. k \<notin> set ks"]
    by (simp add: get_cancel_fold split: option.splits)
qed

section \<open>A pass of slices\<close>

text \<open>The cursor at the last visited row leaves exactly the rows that were not visited.\<close>

lemma filter_beyond_taken:
  assumes "om_ok rows" and "take n rows \<noteq> []"
  shows "filter (\<lambda>row. fst (last (take n rows)) < fst row) rows = drop n rows"
proof -
  let ?t = "take n rows" and ?d = "drop n rows"
  have split: "om_ok (?t @ ?d)" using assms(1) by simp
  have "\<not> fst (last ?t) < fst x" if "x \<in> set ?t" for x
  proof -
    obtain t' where t': "?t = t' @ [last ?t]" using assms(2) by (metis append_butlast_last_id)
    have "sorted_wrt (<) (om_keys (t' @ [last ?t]))"
      using split unfolding t' [symmetric] om_ok_def map_append sorted_wrt_append by blast
    moreover have "x \<in> set (t' @ [last ?t])" using that t' by metis
    ultimately show ?thesis by (auto simp: sorted_wrt_append)
  qed
  moreover have "fst (last ?t) < fst x" if "x \<in> set ?d" for x
    using that split last_in_set [OF assms(2)] unfolding om_ok_def map_append sorted_wrt_append by auto
  ultimately have "filter (\<lambda>row. fst (last ?t) < fst row) (?t @ ?d) = ?d"
    by (simp add: filter_empty_conv filter_id_conv del: append_take_drop_id)
  then show ?thesis by simp
qed

lemma om_after_cursor:
  assumes "om_ok m" and "take n (om_after c m) \<noteq> []"
  shows "om_after (Some (fst (last (take n (om_after c m))))) m = drop n (om_after c m)"
proof -
  let ?l = "last (take n (om_after c m))"
  have "?l \<in> set (om_after c m)" using assms(2) by (meson in_set_takeD last_in_set)
  then have "filter (\<lambda>row. fst ?l < fst row) m = filter (\<lambda>row. fst ?l < fst row) (om_after c m)"
    by (auto simp: om_after_def split: option.splits intro!: filter_cong)
  then show ?thesis
    using filter_beyond_taken [OF om_ok_after [OF assms(1)] assms(2)] by (simp add: om_after_def)
qed

lemma om_after_filter: "om_after c (filter P m) = filter P (om_after c m)"
  by (auto simp: om_after_def conj_commute split: option.splits)

lemma detach_effect:
  "ar_streams (fst (record_attached_subscription_change (Some (detach_of k)) None w)) = ar_streams (fst w)"
  "ar_live_attach_routes (fst (record_attached_subscription_change (Some (detach_of k)) None w)) =
     os_remove k (ar_live_attach_routes (fst w))"
  by (auto simp: record_attached_subscription_change_def detach_of_def record_detach_def Let_def os_remove_def
      split: prod.splits intro!: filter_True [symmetric])

lemma detach_fold_effect:
  "ar_streams (fst (fold (\<lambda>k. record_attached_subscription_change (Some (detach_of k)) None) ks w)) = ar_streams (fst w)"
  "ar_live_attach_routes (fst (fold (\<lambda>k. record_attached_subscription_change (Some (detach_of k)) None) ks w)) =
     filter (\<lambda>k. k \<notin> set ks) (ar_live_attach_routes (fst w))"
  "reg_ok (fst w) \<Longrightarrow> reg_ok (fst (fold (\<lambda>k. record_attached_subscription_change (Some (detach_of k)) None) ks w))"
proof (induction ks arbitrary: w)
  case (Cons k ks)
  { case 1 then show ?case by (simp add: Cons.IH detach_effect) }
  { case 2 then show ?case by (simp add: Cons.IH detach_effect os_remove_def conj_commute) }
  { case 3 then show ?case by (simp add: Cons.IH reg_ok_change) }
qed simp_all

lemma cancel_fold_live [simp]: "ar_live_attach_routes (fold cancel_stream ks r) = ar_live_attach_routes r"
  by (induction ks arbitrary: r) auto

text \<open>What one step of the pump leaves: the stale rows of the slice are gone, and the cursor is at the others.\<close>

lemma apply_inventory_effect:
  fixes w lookup e after n
  defines "rows \<equiv> om_after after (ar_streams (fst w))"
  defines "stale \<equiv> om_keys (filter (row_stale lookup e) (take n rows))"
  assumes ok: "reg_ok (fst w)" and n: "0 < n"
  obtains w' where
    "apply_inventory n lookup e after w =
       (n < length rows, if n < length rows then Some (fst (last (take n rows))) else None, w')"
    "reg_ok (fst w')" "ar_streams (fst w') = filter (\<lambda>(k, s). k \<notin> set stale) (ar_streams (fst w))"
    "ar_live_attach_routes (fst w') = filter (\<lambda>k. k \<notin> set stale) (ar_live_attach_routes (fst w))"
proof -
  define w' where "w' = fold (\<lambda>k. record_attached_subscription_change (Some (detach_of k)) None) stale
    (fold cancel_stream stale (fst w), snd w)"
  have "take n rows = [] \<Longrightarrow> \<not> n < length rows" using n by auto
  then have "apply_inventory n lookup e after w =
       (n < length rows, if n < length rows then Some (fst (last (take n rows))) else None, w')"
    by (auto simp: apply_inventory_def slice_effect [OF ok] w'_def stale_def rows_def)
  moreover have "reg_ok (fst w')" using detach_fold_effect(3) cancel_fold_ok [OF ok] by (simp add: w'_def)
  moreover have "ar_streams (fst w') = filter (\<lambda>(k, s). k \<notin> set stale) (ar_streams (fst w))"
    using streams_after_cancel [OF ok] by (simp add: w'_def detach_fold_effect)
  moreover have "ar_live_attach_routes (fst w') = filter (\<lambda>k. k \<notin> set stale) (ar_live_attach_routes (fst w))"
    by (simp add: w'_def detach_fold_effect)
  ultimately show ?thesis by (rule that)
qed

abbreviation stale_keys :: "inventory_lookup \<Rightarrow> u64 \<Rightarrow> (route \<times> attach_stream) list \<Rightarrow> route set" where
  "stale_keys lookup e rows \<equiv> set (om_keys (filter (row_stale lookup e) rows))"

lemma reconcile_pass_effect:
  assumes "reg_ok (fst w)" and "0 < n" and "length (om_after after (ar_streams (fst w))) < fuel"
  shows "\<exists>w'. reconcile_pass fuel n lookup e after w = Some w' \<and>
    ar_streams (fst w') = filter (\<lambda>(k, s). k \<notin> stale_keys lookup e (om_after after (ar_streams (fst w)))) (ar_streams (fst w)) \<and>
    ar_live_attach_routes (fst w') = filter (\<lambda>k. k \<notin> stale_keys lookup e (om_after after (ar_streams (fst w)))) (ar_live_attach_routes (fst w))"
  using assms(1,3)
proof (induction fuel arbitrary: after w)
  case (Suc fuel)
  let ?rows = "om_after after (ar_streams (fst w))"
  obtain w' where w': "apply_inventory n lookup e after w =
       (n < length ?rows, if n < length ?rows then Some (fst (last (take n ?rows))) else None, w')"
    "reg_ok (fst w')" "ar_streams (fst w') = filter (\<lambda>(k, s). k \<notin> stale_keys lookup e (take n ?rows)) (ar_streams (fst w))"
    "ar_live_attach_routes (fst w') = filter (\<lambda>k. k \<notin> stale_keys lookup e (take n ?rows)) (ar_live_attach_routes (fst w))"
    using apply_inventory_effect [OF Suc.prems(1) assms(2)] by metis
  show ?case
  proof (cases "n < length ?rows")
    case False
    with w' show ?thesis by simp
  next
    case True
    let ?c = "Some (fst (last (take n ?rows)))"
    have ok: "om_ok (ar_streams (fst w))" using Suc.prems(1) by (simp add: reg_ok_def)
    have "take n ?rows \<noteq> []" using True assms(2) by auto
    then have "om_after ?c (ar_streams (fst w)) = drop n ?rows" using om_after_cursor [OF ok] by blast
    moreover have "k \<notin> stale_keys lookup e (take n ?rows)" if "(k, s) \<in> set (drop n ?rows)" for k s
    proof -
      have "distinct (om_keys (take n ?rows @ drop n ?rows))" using om_ok_distinct [OF om_ok_after [OF ok]] by simp
      with that show ?thesis by (auto simp del: append_take_drop_id) (metis IntI empty_iff fst_conv image_eqI)
    qed
    ultimately have rest: "om_after ?c (ar_streams (fst w')) = drop n ?rows"
      unfolding w'(3) om_after_filter by (auto simp: filter_id_conv)
    then have "length (om_after ?c (ar_streams (fst w'))) < fuel" using Suc.prems(2) assms(2) True by simp
    from Suc.IH [OF w'(2) this] obtain w'' where "reconcile_pass fuel n lookup e ?c w' = Some w''"
      "ar_streams (fst w'') = filter (\<lambda>(k, s). k \<notin> stale_keys lookup e (drop n ?rows)) (ar_streams (fst w'))"
      "ar_live_attach_routes (fst w'') = filter (\<lambda>k. k \<notin> stale_keys lookup e (drop n ?rows)) (ar_live_attach_routes (fst w'))"
      unfolding rest by blast
    moreover have "stale_keys lookup e ?rows = stale_keys lookup e (take n ?rows) \<union> stale_keys lookup e (drop n ?rows)"
      by (metis append_take_drop_id filter_append map_append set_append)
    ultimately show ?thesis using w' True by (auto simp: split_def conj_commute)
  qed
qed simp

section \<open>Properties\<close>

text \<open>One slice retires exactly the stale routes it visits.  Of the rows after the cursor it
  visits the first \<open>n\<close>; it cancels the bound streams among them that attached before the read,
  that the read asked about and that Core no longer has at that generation, reports them in
  order, and touches no other stream; the cursor and \<open>more\<close> say where the next slice
  starts and whether there is one.\<close>

theorem reconcile_slice_exact:
  assumes "run_events ar_exec es ar_world_new = Some (r, x)"
    and "reconcile_inventory_slice lookup e after n r = (p, r')"
  shows "rp_retired p = om_keys (filter (row_stale lookup e) (take n (om_after after (ar_streams r)))) \<and>
    rp_validated p = length (filter (row_asked lookup e) (take n (om_after after (ar_streams r)))) \<and>
    (rp_more p \<longleftrightarrow> drop n (om_after after (ar_streams r)) \<noteq> []) \<and>
    (0 < n \<and> rp_more p \<longrightarrow> om_after (rp_after p) (ar_streams r) = drop n (om_after after (ar_streams r))) \<and>
    ar_streams r' = filter (\<lambda>(k, s). k \<notin> set (rp_retired p)) (ar_streams r)"
proof -
  have ok: "reg_ok r" using attach_registry.inv_run [OF assms(1) ar_world_new_ok] by simp
  then have om: "om_ok (ar_streams r)" by (simp add: reg_ok_def)
  have p: "rp_retired p = om_keys (filter (row_stale lookup e) (take n (om_after after (ar_streams r))))"
    "rp_validated p = length (filter (row_asked lookup e) (take n (om_after after (ar_streams r))))"
    "rp_more p \<longleftrightarrow> n < length (om_after after (ar_streams r))"
    "take n (om_after after (ar_streams r)) \<noteq> [] \<Longrightarrow> rp_after p = Some (fst (last (take n (om_after after (ar_streams r)))))"
    "r' = fold cancel_stream (rp_retired p) r"
    using assms(2) unfolding slice_effect [OF ok] by (auto split: if_splits)
  have "om_after (rp_after p) (ar_streams r) = drop n (om_after after (ar_streams r))" if "0 < n" "rp_more p"
  proof -
    have "take n (om_after after (ar_streams r)) \<noteq> []" using that p(3) by auto
    with p(4) om_after_cursor [OF om this] show ?thesis by simp
  qed
  with p streams_after_cancel [OF ok] show ?thesis by auto
qed

text \<open>C23. Slicing does not change the result.  Whatever the slice width, a pass of the pump over
  an unchanging inventory ends after at most one slice per stream and one more, and leaves
  exactly the streams and the live routes that a single pass over all streams would leave.\<close>

theorem reconcile_pass_equals_full:
  assumes "run_events ar_exec es ar_world_new = Some w" and "0 < n" and "length (ar_streams (fst w)) < fuel"
  shows "\<exists>w'. reconcile_pass fuel n lookup e None w = Some w' \<and>
    ar_streams (fst w') = filter (\<lambda>row. \<not> row_stale lookup e row) (ar_streams (fst w)) \<and>
    ar_live_attach_routes (fst w') =
      filter (\<lambda>k. \<forall>s. om_get (ar_streams (fst w)) k = Some s \<longrightarrow> \<not> row_stale lookup e (k, s)) (ar_live_attach_routes (fst w))"
proof -
  have ok: "reg_ok (fst w)" using attach_registry.inv_run [OF assms(1) ar_world_new_ok] .
  then have om: "om_ok (ar_streams (fst w))" by (simp add: reg_ok_def)
  let ?gone = "\<lambda>k. k \<in> set (om_keys (filter (row_stale lookup e) (ar_streams (fst w))))"
  have gone: "?gone k \<longleftrightarrow> (\<exists>s. om_get (ar_streams (fst w)) k = Some s \<and> row_stale lookup e (k, s))" for k
    unfolding om_in_set_iff [OF om, symmetric] by (cases k) (auto simp: image_iff)
  have "filter (\<lambda>(k, s). \<not> ?gone k) (ar_streams (fst w)) = filter (\<lambda>row. \<not> row_stale lookup e row) (ar_streams (fst w))"
  proof (rule filter_cong [OF refl])
    fix row
    assume "row \<in> set (ar_streams (fst w))"
    then have "om_get (ar_streams (fst w)) (fst row) = Some (snd row)" using om by (simp add: om_in_set_iff [symmetric])
    then show "(case row of (k, s) \<Rightarrow> \<not> ?gone k) \<longleftrightarrow> \<not> row_stale lookup e row"
      unfolding gone by (cases row) auto
  qed
  moreover have "\<not> ?gone k \<longleftrightarrow> (\<forall>s. om_get (ar_streams (fst w)) k = Some s \<longrightarrow> \<not> row_stale lookup e (k, s))" for k
    unfolding gone by blast
  ultimately show ?thesis
    using reconcile_pass_effect [OF ok assms(2), of None fuel lookup e] assms(3) by (simp add: om_after_def)
qed


definition gone_route :: inventory_lookup where
  "gone_route c se su = Some (if su = ''u'' then None else Some 5)"

abbreviation two_bound :: "ar_event list" where
  "two_bound \<equiv>
     [ArStart \<lparr>ow_client_id = ''a'', ow_grant_id = None\<rparr> (''s'', ''t''), ArBind (''s'', ''t'') 5 1,
      ArStart \<lparr>ow_client_id = ''a'', ow_grant_id = None\<rparr> (''s'', ''u''), ArBind (''s'', ''u'') 6 2,
      ArChange (Some (Attach \<lparr>sub_session_id = ''s'', sub_subscription_id = ''u''\<rparr>)) None]"

lemma ar_run_total: "\<exists>w. run_events ar_exec es v = Some w"
  by (induction es arbitrary: v) (simp_all add: ar_exec_def del: split_paired_Ex)

theorem reconcile_slice_exact_witness:
  "\<exists>r x p r'. run_events ar_exec two_bound ar_world_new = Some (r, x) \<and>
     reconcile_inventory_slice gone_route 2 None 8 r = (p, r') \<and>
     rp_retired p = [(''s'', ''u'')] \<and> om_keys (ar_streams r') = [(''s'', ''t'')] \<and> \<not> rp_more p"
proof -
  obtain r x where run: "run_events ar_exec two_bound ar_world_new = Some (r, x)" using ar_run_total by (metis prod.exhaust)
  obtain p r' where s: "reconcile_inventory_slice gone_route 2 None 8 r = (p, r')"
    by (cases "reconcile_inventory_slice gone_route 2 None 8 r")
  have r: "r = fst (the (run_events ar_exec two_bound ar_world_new))" using run by simp
  have "om_keys (filter (row_stale gone_route 2) (take 8 (om_after None (ar_streams r)))) = [(''s'', ''u'')]"
    "om_keys (ar_streams r) = [(''s'', ''t''), (''s'', ''u'')]" "length (om_after None (ar_streams r)) = 2"
    unfolding r by code_simp+
  moreover from this have "om_keys (filter (\<lambda>(k, s). k \<notin> {(''s'', ''u'')}) (ar_streams r)) = [(''s'', ''t'')]"
    by (cases "ar_streams r"; cases "tl (ar_streams r)") auto
  ultimately show ?thesis using run s reconcile_slice_exact [OF run s] by auto
qed

theorem reconcile_pass_equals_full_witness:
  "\<exists>w w'. run_events ar_exec two_bound ar_world_new = Some w \<and>
     reconcile_pass 3 1 gone_route 2 None w = Some w' \<and>
     om_keys (ar_streams (fst w')) = [(''s'', ''t'')] \<and> ar_live_attach_routes (fst w) = [(''s'', ''u'')] \<and>
     ar_live_attach_routes (fst w') = []"
proof -
  obtain w where run: "run_events ar_exec two_bound ar_world_new = Some w" using ar_run_total by blast
  have w: "w = the (run_events ar_exec two_bound ar_world_new)" using run by simp
  have "length (ar_streams (fst w)) < 3"
    "om_keys (filter (\<lambda>row. \<not> row_stale gone_route 2 row) (ar_streams (fst w))) = [(''s'', ''t'')]"
    "ar_live_attach_routes (fst w) = [(''s'', ''u'')]"
    "map_option (\<lambda>s. row_stale gone_route 2 ((''s'', ''u''), s)) (om_get (ar_streams (fst w)) (''s'', ''u'')) = Some True"
    unfolding w by code_simp+
  with run reconcile_pass_equals_full [OF run, of 1 3 gone_route 2] show ?thesis by auto
qed

section \<open>Occupancy\<close>

lemma live_routes_step: "ar_live_attach_routes (ar_registry_step e r) = ar_live_attach_routes r"
proof (cases "\<exists>owner k. e = ArStart owner k")
  case False
  show ?thesis
    by (rule ar_step_keeps [of "\<lambda>r'. ar_live_attach_routes r' = ar_live_attach_routes r"])
      (simp, use False in blast, simp_all add: record_generation_def release_route_def take_owner_routes_def
        take_connection_bound_routes_def)
qed (auto simp: start_attach_def Let_def)

text \<open>The counters after \<open>n\<close> events.\<close>

definition counters_ok :: "nat \<Rightarrow> attach_world \<Rightarrow> bool" where
  "counters_ok n w \<longleftrightarrow>
     (case w of (r, close, lc) \<Rightarrow>
        os_ok (ar_live_attach_routes r) \<and>
        lc_live_attach_subscriptions lc = length (ar_live_attach_routes r) \<and>
        lc_live_attach_subscriptions lc \<le> lc_high_water_attach_subscriptions lc \<and>
        lc_high_water_attach_subscriptions lc \<le> n \<and>
        lc_live_attach_subscriptions lc + released_attach_generations close + lc_reconnect_registrations lc \<le> n)"

lemma counters_attach:
  assumes "counters_ok n w" and "n < u64_max"
  shows "counters_ok (Suc n) (record_attach s grant w)"
proof -
  obtain r close lc where w: "w = (r, close, lc)" by (cases w)
  note ok = assms(1) [unfolded counters_ok_def w prod.case]
  show ?thesis
  proof (cases "sub_route s \<in> set (ar_live_attach_routes r)")
    case True
    then have "0 < lc_live_attach_subscriptions lc" using ok by auto
    with True ok show ?thesis
      by (simp add: record_attach_def w Let_def counters_ok_def os_insert_present)
  next
    case False
    with ok assms(2) show ?thesis
      by (auto simp: record_attach_def w Let_def counters_ok_def os_length_insert_absent saturating_add_exact
          split: option.splits)
  qed
qed

lemma counters_detach:
  assumes "counters_ok n w" and "n < u64_max"
  shows "counters_ok (Suc n) (record_detach s w)"
proof -
  obtain r close lc where w: "w = (r, close, lc)" by (cases w)
  note ok = assms(1) [unfolded counters_ok_def w prod.case]
  show ?thesis
  proof (cases "sub_route s \<in> set (ar_live_attach_routes r)")
    case True
    then have "Suc (length (os_remove (sub_route s) (ar_live_attach_routes r))) = length (ar_live_attach_routes r)"
      using ok os_length_remove_present by blast
    with True ok assms(2) show ?thesis
      by (auto simp: record_detach_def w Let_def counters_ok_def saturating_add_exact saturating_sub_def)
  qed (use ok in \<open>simp add: record_detach_def w Let_def counters_ok_def\<close>)
qed

lemma counters_weaken: "counters_ok n w \<Longrightarrow> counters_ok (Suc n) w"
  by (auto simp: counters_ok_def)

lemma counters_exec:
  assumes "ar_exec e w = Some w'" and "counters_ok n w" and "n < u64_max"
  shows "counters_ok (Suc n) w'"
proof (cases "\<exists>change grant. e = ArChange change grant")
  case True
  with assms(1) counters_attach [OF assms(2,3)] counters_detach [OF assms(2,3)] counters_weaken [OF assms(2)]
  show ?thesis
    by (auto simp: ar_exec_def record_attached_subscription_change_def
        split: option.splits attached_subscription_change.splits)
next
  case False
  then have "w' = apfst (ar_registry_step e) w" using assms(1) by (cases e) (auto simp: ar_exec_def)
  with assms(2) show ?thesis by (auto simp: counters_ok_def live_routes_step)
qed

lemma counters_run:
  "run_events ar_exec es w = Some w' \<Longrightarrow> counters_ok n w \<Longrightarrow> n + length es \<le> u64_max \<Longrightarrow> counters_ok (n + length es) w'"
proof (induction es arbitrary: n w)
  case (Cons e es)
  then obtain v where v: "ar_exec e w = Some v" "run_events ar_exec es v = Some w'"
    by (auto split: option.splits)
  with Cons.IH [OF v(2), of "Suc n"] counters_exec [OF v(1), of n] Cons.prems show ?case by simp
qed simp

text \<open>The reported occupancy is exact: after any schedule the live attach counter is the number
  of live routes, each counted once however often it was attached, the high water mark is at
  least the live count and at most the number of operations, and a reconnect is only counted
  against a released generation.\<close>

theorem live_attach_counter_exact:
  assumes "run_events ar_exec es ar_world_new = Some (r, close, lc)" and "length es \<le> u64_max"
  shows "lc_live_attach_subscriptions lc = card (set (ar_live_attach_routes r)) \<and>
    lc_live_attach_subscriptions lc \<le> lc_high_water_attach_subscriptions lc \<and>
    lc_high_water_attach_subscriptions lc \<le> length es \<and>
    lc_live_attach_subscriptions lc + released_attach_generations close + lc_reconnect_registrations lc \<le> length es"
proof -
  have "counters_ok 0 ar_world_new"
    by (simp add: counters_ok_def ar_world_new_def attach_registry_default_def)
  from counters_run [OF assms(1) this] assms(2) show ?thesis
    by (simp add: counters_ok_def os_ok_distinct distinct_card)
qed

theorem live_attach_counter_exact_witness:
  "\<exists>r close lc. run_events ar_exec
       [ArChange (Some (Attach \<lparr>sub_session_id = ''s'', sub_subscription_id = ''t''\<rparr>)) None,
        ArChange (Some (Attach \<lparr>sub_session_id = ''s'', sub_subscription_id = ''t''\<rparr>)) None,
        ArChange (Some (Detach \<lparr>sub_session_id = ''s'', sub_subscription_id = ''t''\<rparr>)) None,
        ArChange (Some (Attach \<lparr>sub_session_id = ''s'', sub_subscription_id = ''u''\<rparr>)) None] ar_world_new = Some (r, close, lc) \<and>
     lc_live_attach_subscriptions lc = 1 \<and> lc_reconnect_registrations lc = 1"
proof -
  let ?es = "[ArChange (Some (Attach \<lparr>sub_session_id = ''s'', sub_subscription_id = ''t''\<rparr>)) None,
        ArChange (Some (Attach \<lparr>sub_session_id = ''s'', sub_subscription_id = ''t''\<rparr>)) None,
        ArChange (Some (Detach \<lparr>sub_session_id = ''s'', sub_subscription_id = ''t''\<rparr>)) None,
        ArChange (Some (Attach \<lparr>sub_session_id = ''s'', sub_subscription_id = ''u''\<rparr>)) None]"
  obtain r close lc where run: "run_events ar_exec ?es ar_world_new = Some (r, close, lc)"
    using ar_run_total by (metis prod_cases3)
  then have w: "(r, close, lc) = the (run_events ar_exec ?es ar_world_new)" by simp
  have "ar_live_attach_routes (fst (the (run_events ar_exec ?es ar_world_new))) = [(''s'', ''u'')]"
    "lc_reconnect_registrations (snd (snd (the (run_events ar_exec ?es ar_world_new)))) = 1" by code_simp+
  then have "ar_live_attach_routes r = [(''s'', ''u'')]" "lc_reconnect_registrations lc = 1"
    unfolding w [symmetric] by simp_all
  with run live_attach_counter_exact [OF run] show ?thesis by (auto simp: u64_max_def)
qed


abbreviation inventory_route :: "inventory_row \<Rightarrow> route" where
  "inventory_route row \<equiv> (iv_session_id row, iv_subscription_id row)"

abbreviation occupancy_route :: "attach_occupancy \<Rightarrow> route" where
  "occupancy_route row \<equiv> (oc_session_id row, oc_subscription_id row)"

lemma get_fold_inventory:
  "om_get (fold (\<lambda>row. om_insert (inventory_route row) (iv_generation row)) rows m) k =
     (case filter (\<lambda>row. inventory_route row = k) rows of
        [] \<Rightarrow> om_get m k | hits \<Rightarrow> Some (iv_generation (last hits)))"
  by (induction rows arbitrary: m) (auto split: list.splits)

lemma get_fold_hub:
  "om_get (fold (\<lambda>k m. if om_contains m k then m else om_insert k (f k) m) ks m) j =
     (case om_get m j of Some g \<Rightarrow> Some g | None \<Rightarrow> if j \<in> set ks then Some (f j) else None)"
  by (induction ks arbitrary: m) (auto simp: om_contains_def split: option.splits)

lemma om_ok_occupancy: "om_ok (occupancy_map hub_routes inventory r)"
proof -
  have "om_ok (fold (\<lambda>row. om_insert (inventory_route row) (iv_generation row)) inventory [])"
    by (rule fold_keeps [of om_ok]) simp_all
  then show ?thesis
    unfolding occupancy_map_def Let_def by (rule fold_keeps [of om_ok]) simp
qed

lemma occupancy_get:
  "om_get (occupancy_map hub_routes inventory r) k =
     (case filter (\<lambda>row. inventory_route row = k) inventory of
        [] \<Rightarrow> if k \<in> set hub_routes then Some (case recorded_generation k r of Some g \<Rightarrow> g | None \<Rightarrow> 0) else None
      | hits \<Rightarrow> Some (iv_generation (last hits)))"
  by (simp add: occupancy_map_def Let_def get_fold_hub get_fold_inventory split: list.splits)

text \<open>The logical bytes of one row and of a list of rows.\<close>

abbreviation row_bytes :: "occupancy_sizes \<Rightarrow> route \<Rightarrow> nat" where
  "row_bytes sz k \<equiv> sz_entry sz + sz_dto sz + 2 * (length (fst k) + length (snd k))"

lemma prepared_bytes_exact:
  "prepared_bytes_loop sz limit ks b = Some bytes \<Longrightarrow> b \<le> limit \<Longrightarrow>
   bytes = b + sum_list (map (row_bytes sz) ks) \<and> bytes \<le> limit"
proof (induction ks arbitrary: b)
  case (Cons k ks)
  then obtain row where row: "occupancy_row_prepared_bytes sz (length (fst k)) (length (snd k)) = Some row"
    "b + row \<le> limit" "prepared_bytes_loop sz limit ks (b + row) = Some bytes"
    by (auto split: option.splits if_splits)
  have "row = row_bytes sz k"
    using row(1) by (auto simp: occupancy_row_prepared_bytes_def checked_mul_def split: option.splits if_splits)
  with Cons.IH [OF row(3) row(2)] show ?case by simp
qed simp

lemma sum_list_subset:
  fixes f :: "'a \<Rightarrow> nat"
  assumes "distinct xs" and "set xs \<subseteq> set ys"
  shows "sum_list (map f xs) \<le> sum_list (map f ys)"
proof -
  have "sum f (set ys) \<le> sum_list (map f ys)"
    by (induction ys) (auto simp: sum.insert_if intro: le_trans)
  moreover have "sum f (set xs) \<le> sum f (set ys)" using assms(2) by (intro sum_mono2) auto
  ultimately show ?thesis using assms(1) by (simp add: sum_list_distinct_conv_sum_set)
qed

text \<open>The occupancy capture is complete and its charge covers it.  A capture that fits its
  limit has one row per route of the union of Core's inventory and the hub's live routes, in
  order; a row reports Core's last generation where Core has the route and the recorded one
  (or 0) otherwise; and the admitted byte count is within the limit and at least the logical
  size of the rows it returns.\<close>

theorem occupancy_capture_exact:
  assumes "try_live_attach_occupancy_rows sz hub_routes inventory r limit = Some (rows, bytes)"
  shows "sorted_wrt (<) (map occupancy_route rows) \<and>
    set (map occupancy_route rows) = set hub_routes \<union> set (map inventory_route inventory) \<and>
    (\<forall>row \<in> set rows. oc_generation row =
       (case filter (\<lambda>i. inventory_route i = occupancy_route row) inventory of
          [] \<Rightarrow> (case recorded_generation (occupancy_route row) r of Some g \<Rightarrow> g | None \<Rightarrow> 0)
        | hits \<Rightarrow> iv_generation (last hits))) \<and>
    sz_map sz + sz_result sz + sum_list (map (row_bytes sz \<circ> occupancy_route) rows) \<le> bytes \<and> bytes \<le> limit"
proof -
  let ?m = "occupancy_map hub_routes inventory r"
  let ?ks = "map inventory_route inventory @ hub_routes"
  obtain b where b: "b = sz_map sz + sz_result sz" "b \<le> limit" "prepared_bytes_loop sz limit ?ks b = Some bytes"
    using assms by (auto simp: try_live_attach_occupancy_rows_def live_attach_occupancy_prepared_bytes_def
        split: option.splits if_splits)
  have rows: "rows = map (\<lambda>((se, su), g). \<lparr>oc_session_id = se, oc_subscription_id = su, oc_generation = g\<rparr>) ?m"
    using assms by (auto simp: try_live_attach_occupancy_rows_def live_attach_occupancy_rows_def split: option.splits)
  then have keys: "map occupancy_route rows = om_keys ?m" by (simp add: comp_def split_def)
  have set: "set (om_keys ?m) = set ?ks"
  proof -
    have "om_get ?m k \<noteq> None \<longleftrightarrow> k \<in> set ?ks" for k
    proof -
      have "filter (\<lambda>row. inventory_route row = k) inventory = [] \<longleftrightarrow> k \<notin> set (map inventory_route inventory)"
        by (auto simp: filter_empty_conv)
      then show ?thesis unfolding occupancy_get by (cases "filter (\<lambda>row. inventory_route row = k) inventory") simp_all
    qed
    then show ?thesis by (metis (no_types) om_contains_def om_contains_iff subsetI subset_antisym)
  qed
  have gen: "oc_generation row = (case filter (\<lambda>i. inventory_route i = occupancy_route row) inventory of
          [] \<Rightarrow> (case recorded_generation (occupancy_route row) r of Some g \<Rightarrow> g | None \<Rightarrow> 0)
        | hits \<Rightarrow> iv_generation (last hits))" if row: "row \<in> set rows" for row
  proof -
    obtain se su g where "((se, su), g) \<in> set ?m" "row = \<lparr>oc_session_id = se, oc_subscription_id = su, oc_generation = g\<rparr>"
      using row rows by auto
    then have "om_get ?m (occupancy_route row) = Some (oc_generation row)" by (simp add: om_in_set_iff om_ok_occupancy)
    then show ?thesis unfolding occupancy_get by (auto split: list.splits if_splits)
  qed
  have "distinct (om_keys ?m)" by (rule om_ok_distinct [OF om_ok_occupancy])
  from sum_list_subset [OF this, of ?ks "row_bytes sz"] set
  have "sum_list (map (row_bytes sz) (map occupancy_route rows)) \<le> sum_list (map (row_bytes sz) ?ks)" unfolding keys by simp
  with prepared_bytes_exact [OF b(3,2)] b(1)
  have "sz_map sz + sz_result sz + sum_list (map (row_bytes sz \<circ> occupancy_route) rows) \<le> bytes \<and> bytes \<le> limit"
    by (simp add: comp_def)
  moreover have "sorted_wrt (<) (map occupancy_route rows)" unfolding keys using om_ok_occupancy by (simp add: om_ok_def)
  ultimately show ?thesis using gen keys set by auto
qed

theorem occupancy_capture_exact_witness:
  "\<exists>rows bytes.
     try_live_attach_occupancy_rows \<lparr>sz_map = 3, sz_result = 4, sz_entry = 5, sz_dto = 6\<rparr> [(''s'', ''t''), (''s'', ''u'')]
       [\<lparr>iv_session_id = ''s'', iv_subscription_id = ''u'', iv_generation = 9\<rparr>] attach_registry_default 100 = Some (rows, bytes) \<and>
     map occupancy_route rows = [(''s'', ''t''), (''s'', ''u'')] \<and> map oc_generation rows = [0, 9] \<and> bytes \<le> 100"
proof -
  let ?t = "try_live_attach_occupancy_rows \<lparr>sz_map = 3, sz_result = 4, sz_entry = 5, sz_dto = 6\<rparr> [(''s'', ''t''), (''s'', ''u'')]
       [\<lparr>iv_session_id = ''s'', iv_subscription_id = ''u'', iv_generation = 9\<rparr>] attach_registry_default 100"
  have "map_option (map occupancy_route \<circ> fst) ?t = Some [(''s'', ''t''), (''s'', ''u'')]"
    "map_option (map oc_generation \<circ> fst) ?t = Some [0, 9]" by code_simp+
  then obtain rows bytes where t: "?t = Some (rows, bytes)" "map occupancy_route rows = [(''s'', ''t''), (''s'', ''u'')]"
      "map oc_generation rows = [0, 9]" by (cases ?t) auto
  have "bytes \<le> 100" using occupancy_capture_exact [OF t(1)] by blast
  with t show ?thesis by (intro exI [of _ rows] exI [of _ bytes] conjI)
qed

end
