(* ===== verification/Grants.thy ===== *)
theory Grants
  imports Ordered_Map
begin

unbundle bit_operations_syntax

text \<open>
  \<open>admission/grants.rs\<close>: local WebRTC bootstrap grants.  The registry issues a grant with a
  random identity and secret, redeems it once for the origin it was issued to, and derives the
  stream key from the secret's hexadecimal digits.

  A Rust string is its bytes, and a \<open>char\<close> of the model is one byte.  Three things come from
  outside: the clock (\<open>now\<close>), the random source (each \<open>fill\<close> answers the bytes it filled or its
  error), and \<open>AesGcmKey::from_slice\<close> of the Core crate (\<open>from_slice\<close>).  The
  offer of a signal request is not read here and is left out.
\<close>

section \<open>Hexadecimal digits\<close>

definition HEX :: string where
  "HEX = ''0123456789abcdef''"

fun hex :: "8 word list \<Rightarrow> string" where
  "hex [] = []"
| "hex (b # bs) = (HEX ! unat (drop_bit 4 b)) # (HEX ! unat (b AND 15)) # hex bs"

definition hex_value :: "char \<Rightarrow> 8 word option" where
  "hex_value c =
     (if CHR ''0'' \<le> c \<and> c \<le> CHR ''9'' then Some (of_char c - of_char CHR ''0'')
      else if CHR ''a'' \<le> c \<and> c \<le> CHR ''f'' then Some (of_char c - of_char CHR ''a'' + 10)
      else if CHR ''A'' \<le> c \<and> c \<le> CHR ''F'' then Some (of_char c - of_char CHR ''A'' + 10)
      else None)"

fun decode_pairs :: "string \<Rightarrow> 8 word list option" where
  "decode_pairs (h # l # cs) =
     (case hex_value h of None \<Rightarrow> None | Some high \<Rightarrow>
      case hex_value l of None \<Rightarrow> None | Some low \<Rightarrow>
      case decode_pairs cs of None \<Rightarrow> None | Some bs \<Rightarrow> Some ((push_bit 4 high OR low) # bs))"
| "decode_pairs _ = Some []"

definition decode_hex :: "string \<Rightarrow> 8 word list option" where
  "decode_hex encoded = (if odd (length encoded) then None else decode_pairs encoded)"

section \<open>Grants\<close>

definition GRANT_TTL_SECONDS :: u64 where
  "GRANT_TTL_SECONDS = 120"

record local_webrtc_signal_request =
  rq_grant_id :: string
  rq_grant_secret :: string
  rq_origin :: string

datatype grant_admission_error =
    MissingGrant | ExpiredGrant | RedeemedGrant | SecretMismatch | OriginMismatch | Random string | InvalidSecret string

record local_webrtc_grant =
  gr_grant_id :: string
  gr_grant_secret :: string
  gr_expected_origin :: string
  gr_expires_at :: u64
  gr_redeemed :: bool

record local_webrtc_bootstrap =
  bs_grant_id :: string
  bs_grant_secret :: string
  bs_package_name :: string
  bs_entrypoint_id :: string
  bs_expected_origin :: string
  bs_expires_at :: u64
  bs_signaling_transport :: string
  bs_data_plane :: string
  bs_ordered :: bool
  bs_max_retransmits :: "u64 option"
  bs_max_packet_lifetime_ms :: "u64 option"

record 'key accepted_peer =
  ap_grant_id :: string
  ap_stream_key :: 'key

type_synonym grant_registry = "(string, local_webrtc_grant) omap"

definition validate ::
  "u64 \<Rightarrow> local_webrtc_signal_request \<Rightarrow> local_webrtc_grant \<Rightarrow> grant_admission_error + unit"
where
  "validate now request g =
     (if gr_redeemed g then Inl RedeemedGrant
      else if gr_expires_at g \<le> now then Inl ExpiredGrant
      else if gr_grant_secret g \<noteq> rq_grant_secret request then Inl SecretMismatch
      else if gr_expected_origin g \<noteq> rq_origin request then Inl OriginMismatch
      else Inr ())"

definition prune_expired_grants :: "u64 \<Rightarrow> grant_registry \<Rightarrow> grant_registry" where
  "prune_expired_grants now m = om_retain (\<lambda>_ g. now < gr_expires_at g) m"

definition random_token :: "string \<Rightarrow> string + 8 word list \<Rightarrow> grant_admission_error + string" where
  "random_token prefix fill =
     (case fill of Inl err \<Rightarrow> Inl (Random err) | Inr bytes \<Rightarrow> Inr (prefix @ ''-'' @ hex bytes))"

definition random_secret_token :: "string + 8 word list \<Rightarrow> grant_admission_error + string" where
  "random_secret_token fill =
     (case fill of Inl err \<Rightarrow> Inl (Random err) | Inr bytes \<Rightarrow> Inr (''secret-'' @ hex bytes))"

text \<open>\<open>fill_id\<close> answers the first use of the random source and \<open>fill_secret\<close> the second.\<close>

definition issue_bootstrap ::
  "u64 \<Rightarrow> string + 8 word list \<Rightarrow> string + 8 word list \<Rightarrow> string \<Rightarrow> string \<Rightarrow> string \<Rightarrow> grant_registry \<Rightarrow>
   (grant_admission_error + local_webrtc_bootstrap) \<times> grant_registry"
where
  "issue_bootstrap now fill_id fill_secret package entrypoint origin m =
     (let m = prune_expired_grants now m
      in case random_token ''grant'' fill_id of
           Inl e \<Rightarrow> (Inl e, m)
         | Inr gid \<Rightarrow>
             (case random_secret_token fill_secret of
                Inl e \<Rightarrow> (Inl e, m)
              | Inr secret \<Rightarrow>
                  (Inr \<lparr>bs_grant_id = gid, bs_grant_secret = secret, bs_package_name = package,
                        bs_entrypoint_id = entrypoint, bs_expected_origin = origin,
                        bs_expires_at = now + GRANT_TTL_SECONDS,
                        bs_signaling_transport = ''daemon_request'', bs_data_plane = ''webrtc_data_channel'',
                        bs_ordered = True, bs_max_retransmits = None, bs_max_packet_lifetime_ms = None\<rparr>,
                   om_insert gid \<lparr>gr_grant_id = gid, gr_grant_secret = secret, gr_expected_origin = origin,
                     gr_expires_at = now + GRANT_TTL_SECONDS, gr_redeemed = False\<rparr> m)))"

text \<open>\<open>strip_prefix\<close> of the standard library.\<close>

definition strip_prefix :: "string \<Rightarrow> string \<Rightarrow> string option" where
  "strip_prefix p s = (if take (length p) s = p then Some (drop (length p) s) else None)"

definition secret_stream_key ::
  "(8 word list \<Rightarrow> string + 'key) \<Rightarrow> string \<Rightarrow> grant_admission_error + 'key"
where
  "secret_stream_key from_slice secret =
     (case strip_prefix ''secret-'' secret of
        None \<Rightarrow> Inl (InvalidSecret ''invalid bootstrap secret'')
      | Some encoded \<Rightarrow>
          (case decode_hex encoded of
             None \<Rightarrow> Inl (InvalidSecret ''invalid bootstrap secret'')
           | Some bytes \<Rightarrow>
               (case from_slice bytes of Inl err \<Rightarrow> Inl (InvalidSecret err) | Inr key \<Rightarrow> Inr key)))"

definition redeem ::
  "(8 word list \<Rightarrow> string + 'key) \<Rightarrow> u64 \<Rightarrow> local_webrtc_signal_request \<Rightarrow> grant_registry \<Rightarrow>
   (grant_admission_error + 'key accepted_peer) \<times> grant_registry"
where
  "redeem from_slice now request m =
     (case om_get m (rq_grant_id request) of
        None \<Rightarrow> (Inl MissingGrant, m)
      | Some g \<Rightarrow>
          (case validate now request g of
             Inl e \<Rightarrow> (Inl e, m)
           | Inr _ \<Rightarrow>
               (let m = om_modify (rq_grant_id request) (gr_redeemed_update (\<lambda>_. True)) m
                in case secret_stream_key from_slice (rq_grant_secret request) of
                     Inl e \<Rightarrow> (Inl e, m)
                   | Inr key \<Rightarrow> (Inr \<lparr>ap_grant_id = gr_grant_id g, ap_stream_key = key\<rparr>, m))))"

definition grants_clear :: "grant_registry \<Rightarrow> grant_registry" where
  "grants_clear m = []"

section \<open>Origins\<close>

text \<open>\<open>str::find\<close> with a substring, and with a set of characters.\<close>

fun find_sub :: "string \<Rightarrow> string \<Rightarrow> nat option" where
  "find_sub p [] = (if p = [] then Some 0 else None)"
| "find_sub p (c # s) =
     (if take (length p) (c # s) = p then Some 0 else map_option Suc (find_sub p s))"

fun find_any :: "char list \<Rightarrow> string \<Rightarrow> nat option" where
  "find_any cs [] = None"
| "find_any cs (c # s) = (if c \<in> set cs then Some 0 else map_option Suc (find_any cs s))"

definition origin_from_local_url :: "string \<Rightarrow> string option" where
  "origin_from_local_url url =
     (case find_sub ''://'' url of
        None \<Rightarrow> None
      | Some scheme_end \<Rightarrow>
          let after_scheme = scheme_end + 3;
              authority_end = (case find_any ''/?#'' (drop after_scheme url) of
                                 Some i \<Rightarrow> after_scheme + i | None \<Rightarrow> length url)
          in if authority_end = after_scheme then None else Some (take authority_end url))"

section \<open>Digits round trip\<close>

lemma hex_value_digit: "n < 16 \<Longrightarrow> hex_value (HEX ! n) = Some (word_of_nat n)"
proof -
  have "\<forall>n \<in> set [0..<16]. hex_value (HEX ! n) = Some (word_of_nat n)" by code_simp
  then show "n < 16 \<Longrightarrow> ?thesis" by simp
qed

lemma low_nibble: "b AND 15 = take_bit 4 (b :: 8 word)"
  by (simp add: take_bit_eq_mask mask_eq_exp_minus_1)

lemma decode_hex_byte: "push_bit 4 (drop_bit 4 b) OR (b AND 15) = (b :: 8 word)"
  unfolding low_nibble by (rule bit_word_eqI) (auto simp: bit_simps)

lemma nibbles: "unat (drop_bit 4 (b :: 8 word)) < 16" "unat (b AND 15) < 16"
proof -
  have "unat b < 256" using unsigned_less [of b, where ?'a = nat] by simp
  then show "unat (drop_bit 4 b) < 16" by (simp only: unat_drop_bit_eq) (simp add: drop_bit_eq_div)
  show "unat (b AND 15) < 16"
    using take_bit_nat_less_exp [of 4 "unat b"] by (simp add: low_nibble unsigned_take_bit_eq)
qed

lemma decode_pairs_hex: "decode_pairs (hex bs) = Some bs"
  by (induction bs) (simp_all add: hex_value_digit nibbles decode_hex_byte)

lemma length_hex [simp]: "length (hex bs) = 2 * length bs"
  by (induction bs) simp_all

lemma decode_hex_hex: "decode_hex (hex bs) = Some bs"
  by (simp add: decode_hex_def decode_pairs_hex)

lemma hex_inject: "hex xs = hex ys \<longleftrightarrow> xs = ys"
  by (metis decode_hex_hex option.inject)

lemma secret_stream_key_issued: "secret_stream_key from_slice (''secret-'' @ hex bs) = map_sum InvalidSecret id (from_slice bs)"
  by (simp add: secret_stream_key_def strip_prefix_def decode_hex_hex split: sum.splits)

section \<open>Schedules\<close>

text \<open>
  A schedule issues, redeems, prunes and clears at any times.  \<open>gw_issued\<close> lists the bootstraps
  handed out, and \<open>gw_accepted\<close> the accepted redemptions with their time and request.
\<close>

record grant_world =
  gw_grants :: grant_registry
  gw_issued :: "local_webrtc_bootstrap list"
  gw_accepted :: "(string \<times> u64 \<times> local_webrtc_signal_request) list"

datatype grant_event =
    GIssue u64 "string + 8 word list" "string + 8 word list" string string string
  | GRedeem u64 local_webrtc_signal_request
  | GPrune u64
  | GClear

fun grant_exec :: "(8 word list \<Rightarrow> string + 'key) \<Rightarrow> grant_event \<Rightarrow> grant_world \<Rightarrow> grant_world option" where
  "grant_exec from_slice (GIssue now fi fs p e o') w =
     Some (case issue_bootstrap now fi fs p e o' (gw_grants w) of
             (Inl _, m) \<Rightarrow> w\<lparr>gw_grants := m\<rparr>
           | (Inr b, m) \<Rightarrow> w\<lparr>gw_grants := m, gw_issued := gw_issued w @ [b]\<rparr>)"
| "grant_exec from_slice (GRedeem now request) w =
     Some (case redeem from_slice now request (gw_grants w) of
             (Inl _, m) \<Rightarrow> w\<lparr>gw_grants := m\<rparr>
           | (Inr p, m) \<Rightarrow> w\<lparr>gw_grants := m, gw_accepted := gw_accepted w @ [(ap_grant_id p, now, request)]\<rparr>)"
| "grant_exec from_slice (GPrune now) w = Some (w\<lparr>gw_grants := prune_expired_grants now (gw_grants w)\<rparr>)"
| "grant_exec from_slice GClear w = Some (w\<lparr>gw_grants := grants_clear (gw_grants w)\<rparr>)"

definition grant_world_new :: grant_world where
  "grant_world_new = \<lparr>gw_grants = [], gw_issued = [], gw_accepted = []\<rparr>"

text \<open>
  While the random identities do not repeat: every grant is the issued one, and an accepted
  one is redeemed for as long as it is kept.
\<close>

definition of_issued :: "local_webrtc_bootstrap list \<Rightarrow> local_webrtc_grant \<Rightarrow> bool" where
  "of_issued bs g \<longleftrightarrow>
     (\<exists>b \<in> set bs. bs_grant_id b = gr_grant_id g \<and> bs_grant_secret b = gr_grant_secret g \<and>
        bs_expected_origin b = gr_expected_origin g \<and> bs_expires_at b = gr_expires_at g)"

definition acceptance_ok :: "local_webrtc_bootstrap list \<Rightarrow> string \<times> u64 \<times> local_webrtc_signal_request \<Rightarrow> bool" where
  "acceptance_ok bs a \<longleftrightarrow>
     (case a of (gid, now, request) \<Rightarrow>
        \<exists>b \<in> set bs. bs_grant_id b = gid \<and> rq_grant_id request = gid \<and> rq_grant_secret request = bs_grant_secret b \<and>
          rq_origin request = bs_expected_origin b \<and> now < bs_expires_at b)"

definition grants_ok :: "grant_world \<Rightarrow> bool" where
  "grants_ok w \<longleftrightarrow>
     om_ok (gw_grants w) \<and>
     (\<forall>gid g. om_get (gw_grants w) gid = Some g \<longrightarrow>
        gr_grant_id g = gid \<and> of_issued (gw_issued w) g \<and> (gid \<in> set (map fst (gw_accepted w)) \<longrightarrow> gr_redeemed g)) \<and>
     (\<forall>a \<in> set (gw_accepted w). acceptance_ok (gw_issued w) a) \<and>
     distinct (map fst (gw_accepted w))"

lemma of_issued_redeemed [simp]: "of_issued bs (gr_redeemed_update f g) = of_issued bs g"
  by (simp add: of_issued_def)

lemma of_issued_append: "of_issued bs g \<Longrightarrow> of_issued (bs @ cs) g"
  by (auto simp: of_issued_def)

lemma acceptance_ok_append: "acceptance_ok bs a \<Longrightarrow> acceptance_ok (bs @ cs) a"
  by (auto simp: acceptance_ok_def split: prod.splits)

lemma grants_ok_retain:
  assumes "grants_ok w"
  shows "grants_ok (w\<lparr>gw_grants := om_retain P (gw_grants w)\<rparr>)"
  using assms om_get_retain [of "gw_grants w" P]
  by (auto simp: grants_ok_def split: option.splits if_splits)

lemma grants_ok_issue:
  assumes ok: "grants_ok w" and b: "gr_grant_id g = bs_grant_id b" "gr_grant_secret g = bs_grant_secret b"
      "gr_expected_origin g = bs_expected_origin b" "gr_expires_at g = bs_expires_at b"
    and fresh: "bs_grant_id b \<notin> set (map bs_grant_id (gw_issued w))"
  shows "grants_ok (w\<lparr>gw_grants := om_insert (bs_grant_id b) g (gw_grants w), gw_issued := gw_issued w @ [b]\<rparr>)"
proof -
  have "bs_grant_id b \<notin> set (map fst (gw_accepted w))"
    using ok fresh by (auto simp: grants_ok_def acceptance_ok_def)
  moreover have "of_issued (gw_issued w @ [b]) g" using b by (auto simp: of_issued_def)
  ultimately show ?thesis
    using ok b by (auto simp: grants_ok_def of_issued_append acceptance_ok_append)
qed

lemma grants_ok_redeem:
  assumes ok: "grants_ok w" and g: "om_get (gw_grants w) (rq_grant_id request) = Some g" "validate now request g = Inr ()"
  shows "grants_ok (w\<lparr>gw_grants := om_modify (rq_grant_id request) (gr_redeemed_update (\<lambda>_. True)) (gw_grants w),
    gw_accepted := gw_accepted w @ [(gr_grant_id g, now, request)]\<rparr>)"
    "grants_ok (w\<lparr>gw_grants := om_modify (rq_grant_id request) (gr_redeemed_update (\<lambda>_. True)) (gw_grants w)\<rparr>)"
proof -
  have v: "\<not> gr_redeemed g" "now < gr_expires_at g" "gr_grant_secret g = rq_grant_secret request"
      "gr_expected_origin g = rq_origin request"
    using g(2) by (auto simp: validate_def split: if_splits)
  have i: "gr_grant_id g = rq_grant_id request" "of_issued (gw_issued w) g"
      "rq_grant_id request \<notin> set (map fst (gw_accepted w))"
    using ok g(1) v(1) by (auto simp: grants_ok_def)
  have "acceptance_ok (gw_issued w) (gr_grant_id g, now, request)"
    using i v by (auto simp: acceptance_ok_def of_issued_def)
  with ok g(1) i show "grants_ok (w\<lparr>gw_grants := om_modify (rq_grant_id request) (gr_redeemed_update (\<lambda>_. True)) (gw_grants w),
      gw_accepted := gw_accepted w @ [(gr_grant_id g, now, request)]\<rparr>)"
    by (auto simp: grants_ok_def)
  from ok g(1) show "grants_ok (w\<lparr>gw_grants := om_modify (rq_grant_id request) (gr_redeemed_update (\<lambda>_. True)) (gw_grants w)\<rparr>)"
    by (auto simp: grants_ok_def)
qed

text \<open>The two outcomes of an issue.\<close>

lemma issue_cases:
  assumes "issue_bootstrap now fi fs p en origin m = (res, m')"
  obtains err where "res = Inl err" "m' = prune_expired_grants now m"
  | ids secret b g where "fi = Inr ids" "fs = Inr secret" "res = Inr b"
      "m' = om_insert (bs_grant_id b) g (prune_expired_grants now m)" "gr_grant_id g = bs_grant_id b"
      "gr_grant_secret g = bs_grant_secret b" "gr_expected_origin g = bs_expected_origin b"
      "gr_expires_at g = bs_expires_at b" "\<not> gr_redeemed g" "bs_grant_secret b = ''secret-'' @ hex secret"
      "bs_expected_origin b = origin" "bs_expires_at b = now + GRANT_TTL_SECONDS"
proof (cases res)
  case (Inl err)
  with assms that(1) show ?thesis by (auto simp: issue_bootstrap_def Let_def split: sum.splits)
next
  case (Inr b)
  with assms obtain ids secret where f: "fi = Inr ids" "fs = Inr secret"
    by (auto simp: issue_bootstrap_def Let_def random_token_def random_secret_token_def split: sum.splits)
  show ?thesis
    by (rule that(2) [OF f Inr, of "the (om_get m' (bs_grant_id b))"])
      (use assms f Inr in \<open>auto simp: issue_bootstrap_def Let_def random_token_def random_secret_token_def\<close>)
qed

text \<open>The invariant under the condition that the identities issued so far are distinct.\<close>

definition unrepeated :: "grant_world \<Rightarrow> bool" where
  "unrepeated w \<longleftrightarrow> distinct (map bs_grant_id (gw_issued w))"

lemma grant_exec_keeps:
  assumes "grant_exec from_slice e w = Some w'" and "unrepeated w \<longrightarrow> grants_ok w" and "unrepeated w'"
  shows "grants_ok w'"
proof (cases e)
  case (GIssue now fi fs p en o')
  have ok: "unrepeated w" using assms(1,3) GIssue by (auto simp: unrepeated_def split: prod.splits sum.splits)
  then have "grants_ok (w\<lparr>gw_grants := prune_expired_grants now (gw_grants w)\<rparr>)"
    using assms(2) by (simp add: prune_expired_grants_def grants_ok_retain)
  note pruned = this
  obtain res m' where i: "issue_bootstrap now fi fs p en o' (gw_grants w) = (res, m')"
    by (cases "issue_bootstrap now fi fs p en o' (gw_grants w)")
  then show ?thesis
  proof (cases rule: issue_cases)
    case (1 err)
    with assms(1) GIssue i pruned show ?thesis by auto
  next
    case (2 ids secret b g)
    with assms(1) GIssue i have w': "w' = w\<lparr>gw_grants := m', gw_issued := gw_issued w @ [b]\<rparr>" by auto
    with assms(3) have "bs_grant_id b \<notin> set (map bs_grant_id (gw_issued w))" by (simp add: unrepeated_def)
    with grants_ok_issue [OF pruned 2(5-8)] w' 2(4) show ?thesis by simp
  qed
next
  case (GRedeem now request)
  then have ok: "grants_ok w"
    using assms by (auto simp: unrepeated_def split: prod.splits sum.splits)
  show ?thesis
    using assms(1) GRedeem ok grants_ok_redeem [OF ok]
    by (auto simp: redeem_def Let_def split: option.splits sum.splits)
next
  case (GPrune now)
  with assms show ?thesis by (auto simp: unrepeated_def prune_expired_grants_def grants_ok_retain)
next
  case GClear
  with assms show ?thesis by (auto simp: unrepeated_def grants_clear_def grants_ok_def)
qed

interpretation grants: event_invariant "grant_exec from_slice" "\<lambda>w. unrepeated w \<longrightarrow> grants_ok w" for from_slice
  using grant_exec_keeps by unfold_locales blast

section \<open>Properties\<close>

text \<open>C26. A grant admits one peer.  Whatever is issued, redeemed, pruned and cleared at whatever
  times, as long as the random identities do not repeat no grant is accepted twice, and every
  accepted request carried the identity, the secret and the origin of an issued bootstrap and
  came before it expired.\<close>

theorem grants_redeemed_once:
  assumes "run_events (grant_exec from_slice) es grant_world_new = Some w"
    and "distinct (map bs_grant_id (gw_issued w))"
  shows "distinct (map fst (gw_accepted w)) \<and>
    (\<forall>gid now request. (gid, now, request) \<in> set (gw_accepted w) \<longrightarrow>
       (\<exists>b \<in> set (gw_issued w). bs_grant_id b = gid \<and> rq_grant_id request = gid \<and>
          rq_grant_secret request = bs_grant_secret b \<and> rq_origin request = bs_expected_origin b \<and>
          now < bs_expires_at b))"
proof -
  have "grants_ok grant_world_new" by (simp add: grants_ok_def grant_world_new_def)
  with grants.inv_run [OF assms(1)] assms(2) have "grants_ok w" by (simp add: unrepeated_def)
  then show ?thesis by (fastforce simp: grants_ok_def acceptance_ok_def)
qed

abbreviation some_request :: local_webrtc_signal_request where
  "some_request \<equiv> \<lparr>rq_grant_id = ''grant-01'', rq_grant_secret = ''secret-ff'', rq_origin = ''http://h''\<rparr>"

theorem grants_redeemed_once_witness:
  "\<exists>w. run_events (grant_exec Inr)
       [GIssue 10 (Inr [1]) (Inr [255]) ''p'' ''e'' ''http://h'', GRedeem 20 some_request, GRedeem 21 some_request]
       grant_world_new = Some w \<and> map fst (gw_accepted w) = [''grant-01''] \<and> distinct (map fst (gw_accepted w))"
proof -
  let ?es = "[GIssue 10 (Inr [1]) (Inr [255]) ''p'' ''e'' ''http://h'', GRedeem 20 some_request, GRedeem 21 some_request]"
  define w where "w = the (run_events (grant_exec Inr) ?es grant_world_new)"
  have run: "run_events (grant_exec Inr) ?es grant_world_new = Some w" unfolding w_def by simp
  have facts: "map fst (gw_accepted w) = [''grant-01'']" "map bs_grant_id (gw_issued w) = [''grant-01'']"
    unfolding w_def by code_simp+
  from grants_redeemed_once [OF run] facts(2) have "distinct (map fst (gw_accepted w))" by simp
  with run facts(1) show ?thesis by (intro exI [of _ w] conjI)
qed

text \<open>C27. The secret round trip.  The hexadecimal digits of any bytes decode to the bytes, and a
  freshly issued bootstrap is redeemable until it expires: the request with its secret and
  origin is accepted with the key of exactly the random bytes behind the secret, and a second
  redemption is refused as redeemed.\<close>

theorem grant_secret_roundtrip:
  assumes "issue_bootstrap now (Inr ids) (Inr secret) package entrypoint origin m = (Inr b, m')"
    and "from_slice secret = Inr key" and "later < bs_expires_at b"
    and "rq_grant_id request = bs_grant_id b" and "rq_grant_secret request = bs_grant_secret b"
    and "rq_origin request = origin"
  shows "decode_hex (hex secret) = Some secret \<and> bs_expires_at b = now + 120 \<and>
    fst (redeem from_slice later request m') = Inr \<lparr>ap_grant_id = bs_grant_id b, ap_stream_key = key\<rparr> \<and>
    fst (redeem from_slice again request (snd (redeem from_slice later request m'))) = Inl RedeemedGrant"
proof -
  obtain g where g: "om_get m' (bs_grant_id b) = Some g" "gr_grant_id g = bs_grant_id b" "\<not> gr_redeemed g"
    "gr_grant_secret g = bs_grant_secret b" "gr_expected_origin g = origin" "gr_expires_at g = bs_expires_at b"
    and b: "bs_grant_secret b = ''secret-'' @ hex secret" "bs_expires_at b = now + 120"
    using assms(1) by (cases rule: issue_cases) (simp_all add: GRANT_TTL_SECONDS_def)
  have key: "secret_stream_key from_slice (rq_grant_secret request) = Inr key"
    using assms(2,5) b(1) by (simp add: secret_stream_key_issued del: append.simps)
  have v: "validate later request g = Inr ()" using g assms(3-6) by (simp add: validate_def)
  show ?thesis
    using g b v key assms(4) decode_hex_hex [of secret] by (simp add: redeem_def Let_def validate_def)
qed

theorem grant_secret_roundtrip_witness:
  "\<exists>b m'. issue_bootstrap 10 (Inr [1]) (Inr [255]) ''p'' ''e'' ''http://h'' [] = (Inr b, m') \<and>
     fst (redeem Inr 100 some_request m') = Inr \<lparr>ap_grant_id = ''grant-01'', ap_stream_key = [255]\<rparr> \<and>
     fst (redeem Inr 101 some_request (snd (redeem Inr 100 some_request m'))) = Inl RedeemedGrant"
proof -
  obtain b m' where i: "issue_bootstrap 10 (Inr [1]) (Inr [255]) ''p'' ''e'' ''http://h'' [] = (Inr b, m')"
    by (auto simp: issue_bootstrap_def random_token_def random_secret_token_def Let_def)
  have "case fst (issue_bootstrap 10 (Inr [1]) (Inr [255]) ''p'' ''e'' ''http://h'' []) of
      Inr b \<Rightarrow> bs_grant_id b = ''grant-01'' \<and> bs_grant_secret b = ''secret-ff'' \<and> bs_expires_at b = 130 | Inl _ \<Rightarrow> False"
    by code_simp
  with i have b: "bs_grant_id b = ''grant-01''" "bs_grant_secret b = ''secret-ff''" "bs_expires_at b = 130" by simp_all
  from grant_secret_roundtrip [OF i, of Inr "[255]" 100 some_request 101] b i show ?thesis by auto
qed

lemma find_sub_scheme: "CHR '':'' \<notin> set scheme \<Longrightarrow> find_sub ''://'' (scheme @ ''://'' @ rest) = Some (length scheme)"
  by (induction scheme) auto

lemma find_any_append: "set authority \<inter> set cs = {} \<Longrightarrow>
   find_any cs (authority @ rest) = (case find_any cs rest of None \<Rightarrow> None | Some i \<Rightarrow> Some (length authority + i))"
  by (induction authority) (auto split: option.splits)

lemma find_any_hd: "rest = [] \<or> hd rest \<in> set cs \<Longrightarrow> find_any cs rest = (if rest = [] then None else Some 0)"
  by (cases rest) auto

lemma find_sub_none: "CHR '':'' \<notin> set s \<Longrightarrow> find_sub ''://'' s = None"
  by (induction s) auto

text \<open>The origin of a local URL is its scheme and authority: everything up to the first slash,
  question mark or hash after the scheme separator, whatever follows, and there is none
  without a separator or with an empty authority.\<close>

theorem origin_of_local_url:
  assumes "CHR '':'' \<notin> set scheme" and "set authority \<inter> {CHR ''/'', CHR ''?'', CHR ''#''} = {}"
    and "rest = [] \<or> hd rest \<in> {CHR ''/'', CHR ''?'', CHR ''#''}"
  shows "origin_from_local_url (scheme @ ''://'' @ authority @ rest) =
      (if authority = [] then None else Some (scheme @ ''://'' @ authority)) \<and>
    origin_from_local_url scheme = None"
proof -
  have sep: "find_sub ''://'' (scheme @ ''://'' @ authority @ rest) = Some (length scheme)"
    by (rule find_sub_scheme [OF assms(1)])
  have any: "find_any ''/?#'' (authority @ rest) = (if rest = [] then None else Some (length authority))"
    using find_any_append [of authority "''/?#''" rest] find_any_hd [of rest "''/?#''"] assms(2,3) by auto
  have drop: "drop (length scheme + 3) (scheme @ ''://'' @ authority @ rest) = authority @ rest" by simp
  have take: "take (length scheme + 3 + length authority) (scheme @ ''://'' @ authority @ rest) = scheme @ ''://'' @ authority"
    by (simp add: numeral_3_eq_3)
  have "origin_from_local_url (scheme @ ''://'' @ authority @ rest) =
      (if authority = [] then None else Some (scheme @ ''://'' @ authority))"
    unfolding origin_from_local_url_def sep option.case Let_def drop any using take by (cases "rest = []") auto
  with find_sub_none [OF assms(1)] show ?thesis by (simp add: origin_from_local_url_def)
qed

theorem origin_of_local_url_witness:
  "origin_from_local_url ''http://127.0.0.1:80/x?y'' = Some ''http://127.0.0.1:80'' \<and>
   origin_from_local_url ''http'' = None"
  using origin_of_local_url [of "''http''" "''127.0.0.1:80''" "''/x?y''"] by simp

end
