(* ===== verification/Reservations.thy ===== *)
theory Reservations
  imports Attach_Routes Connection_Budget Grants
begin

text \<open>
  \<open>admission/reservations.rs\<close>: the registry of labels that a WebRTC peer must use for its
  subscription channels.  A reservation is keyed by its class, session, subscription,
  generation and peer generation, and found by its label.

  The clock is the argument \<open>now\<close>.  \<open>unique_label\<close> loops until the random source gives an
  unused label: \<open>fills\<close> lists the source's answers (\<open>None\<close> for an error), and the result is \<open>None\<close>
  when the list ends before the loop does.  The receiver of an entity binding and the mailbox
  of an event binding are handles, represented by numbers.
\<close>

instantiation channel_class :: linorder
begin

fun channel_class_index :: "channel_class \<Rightarrow> nat" where
  "channel_class_index Control = 0"
| "channel_class_index Terminal = 1"
| "channel_class_index Entity = 2"
| "channel_class_index Event = 3"

definition less_eq_channel_class :: "channel_class \<Rightarrow> channel_class \<Rightarrow> bool" where
  "less_eq_channel_class a b \<longleftrightarrow> channel_class_index a \<le> channel_class_index b"

definition less_channel_class :: "channel_class \<Rightarrow> channel_class \<Rightarrow> bool" where
  "less_channel_class a b \<longleftrightarrow> channel_class_index a < channel_class_index b"

instance
proof
  fix a b :: channel_class
  show "a \<le> b \<Longrightarrow> b \<le> a \<Longrightarrow> a = b"
    by (cases a; cases b) (auto simp: less_eq_channel_class_def)
qed (auto simp: less_eq_channel_class_def less_channel_class_def)

end

section \<open>State\<close>

definition TERMINAL_RESERVATION_EXPIRES_IN_SECONDS :: nat where
  "TERMINAL_RESERVATION_EXPIRES_IN_SECONDS = 30"

datatype reservation_state = Live | Expired | Bound

datatype reservation_binding =
    BindTerminal attach_stream_owner attachment_identity route_reservation
  | BindEntity nat
  | BindEvent nat

record terminal_reservation =
  tr_class :: channel_class
  tr_session_id :: string
  tr_subscription_id :: string
  tr_generation :: u64
  tr_peer_generation :: u64
  tr_label :: string
  tr_expires_at_seconds :: u64
  tr_expires_in_seconds :: nat
  tr_state :: reservation_state
  tr_binding :: reservation_binding

datatype reserve_error = LabelConflict

record prepared_subscription_identity =
  pi_key :: string
  pi_label_key :: string
  pi_record :: string
  pi_response :: string

definition prepared_identity_new :: "string \<Rightarrow> prepared_subscription_identity" where
  "prepared_identity_new s = \<lparr>pi_key = s, pi_label_key = s, pi_record = s, pi_response = s\<rparr>"

datatype reservation_lookup = LookUnknown | LookExpired | LookBound | LookLive

type_synonym reservation_key = "channel_class \<times> string \<times> string \<times> u64 \<times> u64"

record terminal_reservation_registry =
  by_key :: "(reservation_key, terminal_reservation) omap"
  by_label :: "(string, reservation_key) omap"

definition reservation_registry_default :: terminal_reservation_registry where
  "reservation_registry_default = \<lparr>by_key = [], by_label = []\<rparr>"

record terminal_reservation_request =
  trq_session_id :: string
  trq_subscription_id :: string
  trq_peer_generation :: u64
  trq_now_seconds :: u64
  trq_owner :: attach_stream_owner
  trq_identity :: attachment_identity
  trq_route :: route_reservation

record daemon_terminal_reservation =
  dtr_session_id :: string
  dtr_subscription_id :: string
  dtr_peer_generation :: u64
  dtr_label :: string
  dtr_expires_in_seconds :: nat

datatype subscription_reservation_kind = KindEntity | KindPackageEvent

record daemon_subscription_reservation =
  dsr_kind :: subscription_reservation_kind
  dsr_subscription_id :: string
  dsr_generation :: u64
  dsr_peer_generation :: u64
  dsr_label :: string
  dsr_expires_in_seconds :: nat

section \<open>Reserving\<close>

fun unique_label :: "8 word list option list \<Rightarrow> (string, 'k) omap \<Rightarrow> string option" where
  "unique_label [] m = None"
| "unique_label (None # fills) m = unique_label fills m"
| "unique_label (Some bytes # fills) m =
     (let label = ''r-'' @ hex bytes in if om_contains m label then unique_label fills m else Some label)"

definition has_live_for_route ::
  "string \<Rightarrow> string \<Rightarrow> u64 \<Rightarrow> u64 \<Rightarrow> terminal_reservation_registry \<Rightarrow> bool"
where
  "has_live_for_route se su peer now reg =
     list_ex (\<lambda>r. tr_session_id r = se \<and> tr_subscription_id r = su \<and> tr_peer_generation r = peer \<and>
        tr_state r = Live \<and> now < tr_expires_at_seconds r) (om_values (by_key reg))"

text \<open>The record both kinds of reservation insert.\<close>

definition live_reservation ::
  "reservation_key \<Rightarrow> string \<Rightarrow> u64 \<Rightarrow> reservation_binding \<Rightarrow> terminal_reservation"
where
  "live_reservation key label now binding =
     (case key of (cls, se, su, generation, peer) \<Rightarrow>
        \<lparr>tr_class = cls, tr_session_id = se, tr_subscription_id = su, tr_generation = generation,
         tr_peer_generation = peer, tr_label = label,
         tr_expires_at_seconds = saturating_add now TERMINAL_RESERVATION_EXPIRES_IN_SECONDS,
         tr_expires_in_seconds = TERMINAL_RESERVATION_EXPIRES_IN_SECONDS, tr_state = Live,
         tr_binding = binding\<rparr>)"

definition reservation_reserve ::
  "8 word list option list \<Rightarrow> terminal_reservation_request \<Rightarrow> terminal_reservation_registry \<Rightarrow>
   ((reserve_error + daemon_terminal_reservation) \<times> terminal_reservation_registry) option"
where
  "reservation_reserve fills q reg =
     (let se = trq_session_id q; su = trq_subscription_id q; peer = trq_peer_generation q; now = trq_now_seconds q;
          generation = ai_epoch (trq_identity q);
          key = (Terminal, se, su, generation, peer)
      in if (case om_get (by_key reg) key of
               Some existing \<Rightarrow> tr_state existing = Live \<and> now < tr_expires_at_seconds existing
             | None \<Rightarrow> False) then Some (Inl LabelConflict, reg)
         else if has_live_for_route se su peer now reg then Some (Inl LabelConflict, reg)
         else case unique_label fills (by_label reg) of
           None \<Rightarrow> None
         | Some label \<Rightarrow>
             Some (Inr \<lparr>dtr_session_id = se, dtr_subscription_id = su, dtr_peer_generation = peer, dtr_label = label,
                        dtr_expires_in_seconds = TERMINAL_RESERVATION_EXPIRES_IN_SECONDS\<rparr>,
               reg\<lparr>by_label := om_insert label key (by_label reg),
                   by_key := om_insert key
                     (live_reservation key label now (BindTerminal (trq_owner q) (trq_identity q) (trq_route q)))
                     (by_key reg)\<rparr>))"

text \<open>A class other than entity and event panics (\<open>debug_assert!\<close>, and \<open>unreachable!\<close> without it).\<close>

definition reserve_subscription_prepared ::
  "8 word list option list \<Rightarrow> channel_class \<Rightarrow> prepared_subscription_identity \<Rightarrow> u64 \<Rightarrow> u64 \<Rightarrow> u64 \<Rightarrow>
   reservation_binding \<Rightarrow> terminal_reservation_registry \<Rightarrow>
   ((reserve_error + daemon_subscription_reservation) \<times> terminal_reservation_registry) option"
where
  "reserve_subscription_prepared fills cls ident generation peer now binding reg =
     (case (case cls of Entity \<Rightarrow> Some KindEntity | Event \<Rightarrow> Some KindPackageEvent | _ \<Rightarrow> None) of
        None \<Rightarrow> None
      | Some kind \<Rightarrow>
          if list_ex (\<lambda>r. tr_class r = cls \<and> tr_subscription_id r = pi_record ident \<and> tr_peer_generation r = peer \<and>
               tr_state r = Live \<and> now < tr_expires_at_seconds r) (om_values (by_key reg))
          then Some (Inl LabelConflict, reg)
          else case unique_label fills (by_label reg) of
            None \<Rightarrow> None
          | Some label \<Rightarrow>
              Some (Inr \<lparr>dsr_kind = kind, dsr_subscription_id = pi_response ident, dsr_generation = generation,
                         dsr_peer_generation = peer, dsr_label = label,
                         dsr_expires_in_seconds = TERMINAL_RESERVATION_EXPIRES_IN_SECONDS\<rparr>,
                reg\<lparr>by_label := om_insert label (cls, '''', pi_label_key ident, generation, peer) (by_label reg),
                    by_key := om_insert (cls, '''', pi_key ident, generation, peer)
                      (live_reservation (cls, '''', pi_record ident, generation, peer) label now binding) (by_key reg)\<rparr>))"

definition reserve_subscription ::
  "8 word list option list \<Rightarrow> channel_class \<Rightarrow> string \<Rightarrow> u64 \<Rightarrow> u64 \<Rightarrow> u64 \<Rightarrow>
   reservation_binding \<Rightarrow> terminal_reservation_registry \<Rightarrow>
   ((reserve_error + daemon_subscription_reservation) \<times> terminal_reservation_registry) option"
where
  "reserve_subscription fills cls su = reserve_subscription_prepared fills cls (prepared_identity_new su)"

section \<open>Looking up, expiring and binding a label\<close>

definition reservation_for_label :: "string \<Rightarrow> u64 \<Rightarrow> terminal_reservation_registry \<Rightarrow> terminal_reservation option" where
  "reservation_for_label label peer reg =
     (case om_get (by_label reg) label of None \<Rightarrow> None | Some key \<Rightarrow>
      case om_get (by_key reg) key of None \<Rightarrow> None | Some r \<Rightarrow>
      if tr_peer_generation r = peer then Some r else None)"

definition lookup_label :: "string \<Rightarrow> u64 \<Rightarrow> u64 \<Rightarrow> terminal_reservation_registry \<Rightarrow> reservation_lookup" where
  "lookup_label label peer now reg =
     (case om_get (by_label reg) label of None \<Rightarrow> LookUnknown | Some key \<Rightarrow>
      case om_get (by_key reg) key of None \<Rightarrow> LookUnknown | Some r \<Rightarrow>
      if tr_peer_generation r \<noteq> peer then LookUnknown
      else case tr_state r of
        Bound \<Rightarrow> LookBound
      | Expired \<Rightarrow> LookExpired
      | Live \<Rightarrow> if tr_expires_at_seconds r \<le> now then LookExpired else LookLive)"

definition label_peer_generation :: "string \<Rightarrow> terminal_reservation_registry \<Rightarrow> u64 option" where
  "label_peer_generation label reg =
     (case om_get (by_label reg) label of None \<Rightarrow> None | Some key \<Rightarrow>
      map_option tr_peer_generation (om_get (by_key reg) key))"

abbreviation put_state :: "reservation_key \<Rightarrow> reservation_state \<Rightarrow> terminal_reservation_registry \<Rightarrow> terminal_reservation_registry" where
  "put_state key st reg \<equiv> reg\<lparr>by_key := om_modify key (tr_state_update (\<lambda>_. st)) (by_key reg)\<rparr>"

definition expire_label ::
  "string \<Rightarrow> u64 \<Rightarrow> u64 \<Rightarrow> terminal_reservation_registry \<Rightarrow> terminal_reservation option \<times> terminal_reservation_registry"
where
  "expire_label label peer now reg =
     (case om_get (by_label reg) label of None \<Rightarrow> (None, reg) | Some key \<Rightarrow>
      case om_get (by_key reg) key of None \<Rightarrow> (None, reg) | Some r \<Rightarrow>
      if tr_peer_generation r \<noteq> peer then (None, reg)
      else if tr_state r \<noteq> Live \<or> now < tr_expires_at_seconds r then (None, reg)
      else (Some (r\<lparr>tr_state := Expired\<rparr>), put_state key Expired reg))"

definition mark_bound ::
  "string \<Rightarrow> u64 \<Rightarrow> terminal_reservation_registry \<Rightarrow> terminal_reservation option \<times> terminal_reservation_registry"
where
  "mark_bound label peer reg =
     (case om_get (by_label reg) label of None \<Rightarrow> (None, reg) | Some key \<Rightarrow>
      case om_get (by_key reg) key of None \<Rightarrow> (None, reg) | Some r \<Rightarrow>
      if tr_peer_generation r \<noteq> peer \<or> tr_state r \<noteq> Live then (None, reg)
      else (Some (r\<lparr>tr_state := Bound\<rparr>), put_state key Bound reg))"

section \<open>Forgetting\<close>

definition forget_label :: "string \<Rightarrow> u64 \<Rightarrow> terminal_reservation_registry \<Rightarrow> bool \<times> terminal_reservation_registry" where
  "forget_label label peer reg =
     (case om_get (by_label reg) label of None \<Rightarrow> (False, reg) | Some key \<Rightarrow>
      case om_get (by_key reg) key of None \<Rightarrow> (False, reg) | Some r \<Rightarrow>
      if tr_peer_generation r \<noteq> peer then (False, reg)
      else (True, reg\<lparr>by_label := om_remove label (by_label reg), by_key := om_remove key (by_key reg)\<rparr>))"

definition forget_labels :: "string list \<Rightarrow> u64 \<Rightarrow> terminal_reservation_registry \<Rightarrow> terminal_reservation_registry" where
  "forget_labels labels peer reg = fold (\<lambda>l reg. snd (forget_label l peer reg)) labels reg"

definition forget_subscription ::
  "channel_class \<Rightarrow> string \<Rightarrow> u64 \<Rightarrow> terminal_reservation_registry \<Rightarrow> string list \<times> terminal_reservation_registry"
where
  "forget_subscription cls su peer reg =
     (let labels = [tr_label r. r \<leftarrow> om_values (by_key reg),
            tr_class r = cls \<and> tr_subscription_id r = su \<and> tr_peer_generation r = peer]
      in (labels, forget_labels labels peer reg))"

definition forget_unbound_subscription ::
  "channel_class \<Rightarrow> string \<Rightarrow> u64 \<Rightarrow> terminal_reservation_registry \<Rightarrow> string list \<times> terminal_reservation_registry"
where
  "forget_unbound_subscription cls su peer reg =
     (let labels = [tr_label r. r \<leftarrow> om_values (by_key reg),
            tr_class r = cls \<and> tr_subscription_id r = su \<and> tr_peer_generation r = peer \<and> tr_state r \<noteq> Bound]
      in (labels, forget_labels labels peer reg))"

fun forget_keys ::
  "reservation_key list \<Rightarrow> terminal_reservation_registry \<Rightarrow> string list \<times> terminal_reservation_registry"
where
  "forget_keys [] reg = ([], reg)"
| "forget_keys (key # keys) reg =
     (case om_get (by_key reg) key of
        None \<Rightarrow> forget_keys keys reg
      | Some r \<Rightarrow>
          (case forget_keys keys (reg\<lparr>by_key := om_remove key (by_key reg),
                  by_label := om_remove (tr_label r) (by_label reg)\<rparr>) of
             (labels, reg') \<Rightarrow> (tr_label r # labels, reg')))"

definition forget_route ::
  "string \<Rightarrow> string \<Rightarrow> terminal_reservation_registry \<Rightarrow> string list \<times> terminal_reservation_registry"
where
  "forget_route se su reg =
     forget_keys (filter (\<lambda>(_, s, u, _, _). s = se \<and> u = su) (om_keys (by_key reg))) reg"

definition forget_peer :: "u64 \<Rightarrow> terminal_reservation_registry \<Rightarrow> string list \<times> terminal_reservation_registry" where
  "forget_peer peer reg =
     forget_keys (filter (\<lambda>(_, _, _, _, p). p = peer) (om_keys (by_key reg))) reg"

section \<open>Schedules\<close>

text \<open>
  The owner reserves, expires, binds and forgets in any order.  Three histories are kept: the
  keys and the labels that were reserved, and the labels whose expiry or bind reported
  success.  A reservation whose label loop does not end has no next state.
\<close>

record rv_world =
  rw_registry :: terminal_reservation_registry
  rw_keys :: "reservation_key list"
  rw_labels :: "string list"
  rw_reports :: "string list"

datatype rv_event =
    RvReserve "8 word list option list" terminal_reservation_request
  | RvSubscribe "8 word list option list" channel_class string u64 u64 u64 reservation_binding
  | RvExpire string u64 u64
  | RvBind string u64
  | RvForgetLabel string u64
  | RvForgetSubscription channel_class string u64
  | RvForgetUnbound channel_class string u64
  | RvForgetRoute string string
  | RvForgetPeer u64

definition rw_reserved :: "reservation_key \<Rightarrow> string \<Rightarrow> terminal_reservation_registry \<Rightarrow> rv_world \<Rightarrow> rv_world" where
  "rw_reserved key label reg w =
     w\<lparr>rw_registry := reg, rw_keys := rw_keys w @ [key], rw_labels := rw_labels w @ [label]\<rparr>"

definition rw_reported :: "terminal_reservation option \<times> terminal_reservation_registry \<Rightarrow> rv_world \<Rightarrow> rv_world" where
  "rw_reported res w =
     w\<lparr>rw_registry := snd res,
       rw_reports := (case fst res of None \<Rightarrow> rw_reports w | Some r \<Rightarrow> rw_reports w @ [tr_label r])\<rparr>"

fun rv_exec :: "rv_event \<Rightarrow> rv_world \<Rightarrow> rv_world option" where
  "rv_exec (RvReserve fills q) w =
     map_option (\<lambda>(res, reg). case res of
         Inl _ \<Rightarrow> w\<lparr>rw_registry := reg\<rparr>
       | Inr d \<Rightarrow> rw_reserved (Terminal, trq_session_id q, trq_subscription_id q, ai_epoch (trq_identity q), trq_peer_generation q)
                    (dtr_label d) reg w)
       (reservation_reserve fills q (rw_registry w))"
| "rv_exec (RvSubscribe fills cls su generation peer now binding) w =
     map_option (\<lambda>(res, reg). case res of
         Inl _ \<Rightarrow> w\<lparr>rw_registry := reg\<rparr>
       | Inr d \<Rightarrow> rw_reserved (cls, '''', su, generation, peer) (dsr_label d) reg w)
       (reserve_subscription fills cls su generation peer now binding (rw_registry w))"
| "rv_exec (RvExpire label peer now) w = Some (rw_reported (expire_label label peer now (rw_registry w)) w)"
| "rv_exec (RvBind label peer) w = Some (rw_reported (mark_bound label peer (rw_registry w)) w)"
| "rv_exec (RvForgetLabel label peer) w = Some (w\<lparr>rw_registry := snd (forget_label label peer (rw_registry w))\<rparr>)"
| "rv_exec (RvForgetSubscription cls su peer) w =
     Some (w\<lparr>rw_registry := snd (forget_subscription cls su peer (rw_registry w))\<rparr>)"
| "rv_exec (RvForgetUnbound cls su peer) w =
     Some (w\<lparr>rw_registry := snd (forget_unbound_subscription cls su peer (rw_registry w))\<rparr>)"
| "rv_exec (RvForgetRoute se su) w = Some (w\<lparr>rw_registry := snd (forget_route se su (rw_registry w))\<rparr>)"
| "rv_exec (RvForgetPeer peer) w = Some (w\<lparr>rw_registry := snd (forget_peer peer (rw_registry w))\<rparr>)"

definition rv_world_new :: rv_world where
  "rv_world_new = \<lparr>rw_registry = reservation_registry_default, rw_keys = [], rw_labels = [], rw_reports = []\<rparr>"

fun rv_now :: "rv_event \<Rightarrow> u64" where
  "rv_now (RvReserve _ q) = trq_now_seconds q"
| "rv_now (RvSubscribe _ _ _ _ _ now _) = now"
| "rv_now _ = 0"

section \<open>The registry invariant\<close>

definition key_of :: "terminal_reservation \<Rightarrow> reservation_key" where
  "key_of r = (tr_class r, tr_session_id r, tr_subscription_id r, tr_generation r, tr_peer_generation r)"

definition same_route :: "terminal_reservation \<Rightarrow> terminal_reservation \<Rightarrow> bool" where
  "same_route r t \<longleftrightarrow>
     tr_class r = tr_class t \<and> tr_session_id r = tr_session_id t \<and> tr_subscription_id r = tr_subscription_id t \<and>
     tr_peer_generation r = tr_peer_generation t"

text \<open>Labels and keys correspond one to one.\<close>

definition paired :: "rv_world \<Rightarrow> bool" where
  "paired w \<longleftrightarrow>
     om_ok (by_key (rw_registry w)) \<and> om_ok (by_label (rw_registry w)) \<and>
     (\<forall>key r. om_get (by_key (rw_registry w)) key = Some r \<longrightarrow>
        key_of r = key \<and> om_get (by_label (rw_registry w)) (tr_label r) = Some key \<and>
        key \<in> set (rw_keys w) \<and> tr_label r \<in> set (rw_labels w)) \<and>
     (\<forall>label key. om_get (by_label (rw_registry w)) label = Some key \<longrightarrow>
        (\<exists>r. om_get (by_key (rw_registry w)) key = Some r \<and> tr_label r = label))"

text \<open>The reported labels are exactly those of the reservations that are no longer live.\<close>

definition reported :: "rv_world \<Rightarrow> bool" where
  "reported w \<longleftrightarrow>
     distinct (rw_reports w) \<and> set (rw_reports w) \<subseteq> set (rw_labels w) \<and>
     (\<forall>key r. om_get (by_key (rw_registry w)) key = Some r \<longrightarrow> (tr_label r \<in> set (rw_reports w) \<longleftrightarrow> tr_state r \<noteq> Live))"

text \<open>The windows in which two reservations of one route are live do not overlap.\<close>

definition windows :: "rv_world \<Rightarrow> bool" where
  "windows w \<longleftrightarrow>
     (\<forall>k l r t. om_get (by_key (rw_registry w)) k = Some r \<longrightarrow> om_get (by_key (rw_registry w)) l = Some t \<longrightarrow>
        k \<noteq> l \<longrightarrow> tr_state r = Live \<longrightarrow> tr_state t = Live \<longrightarrow> same_route r t \<longrightarrow>
        tr_expires_at_seconds r + TERMINAL_RESERVATION_EXPIRES_IN_SECONDS \<le> tr_expires_at_seconds t \<or>
        tr_expires_at_seconds t + TERMINAL_RESERVATION_EXPIRES_IN_SECONDS \<le> tr_expires_at_seconds r)"

definition rv_ok :: "rv_world \<Rightarrow> bool" where
  "rv_ok w \<longleftrightarrow> paired w \<and> reported w \<and> windows w"

declare split_paired_All [simp del] split_paired_Ex [simp del]

text \<open>A removal drops one reservation and its label.\<close>

definition drop_key :: "reservation_key \<Rightarrow> terminal_reservation \<Rightarrow> terminal_reservation_registry \<Rightarrow> terminal_reservation_registry" where
  "drop_key key r reg = reg\<lparr>by_key := om_remove key (by_key reg), by_label := om_remove (tr_label r) (by_label reg)\<rparr>"

lemma rv_ok_drop:
  assumes "rv_ok w" and "om_get (by_key (rw_registry w)) key = Some r"
  shows "rv_ok (w\<lparr>rw_registry := drop_key key r (rw_registry w)\<rparr>)"
proof -
  let ?m = "by_key (rw_registry w)" and ?l = "by_label (rw_registry w)"
  have p: "paired w" and key: "om_get ?l (tr_label r) = Some key"
    using assms by (auto simp: rv_ok_def paired_def)
  have other: "tr_label t \<noteq> tr_label r" if "om_get ?m l = Some t" "l \<noteq> key" for l t
    using p that key unfolding paired_def by (metis option.inject)
  have "\<exists>t. l \<noteq> key \<and> om_get ?m l = Some t \<and> tr_label t = label" if "om_get ?l label = Some l" "label \<noteq> tr_label r" for label l
    using p that assms(2) unfolding paired_def by (metis option.inject)
  with p other have "paired (w\<lparr>rw_registry := drop_key key r (rw_registry w)\<rparr>)"
    unfolding paired_def drop_key_def by auto
  moreover have "reported (w\<lparr>rw_registry := drop_key key r (rw_registry w)\<rparr>)"
    using assms(1) by (simp add: rv_ok_def reported_def drop_key_def)
  moreover have "windows (w\<lparr>rw_registry := drop_key key r (rw_registry w)\<rparr>)"
    using assms(1) by (simp add: rv_ok_def windows_def drop_key_def)
  ultimately show ?thesis by (simp add: rv_ok_def)
qed

lemma rv_ok_forget_label:
  assumes "rv_ok w"
  shows "rv_ok (w\<lparr>rw_registry := snd (forget_label label peer (rw_registry w))\<rparr>)"
proof (cases "fst (forget_label label peer (rw_registry w))")
  case True
  then obtain key r where r: "om_get (by_label (rw_registry w)) label = Some key"
      "om_get (by_key (rw_registry w)) key = Some r"
    and eff: "snd (forget_label label peer (rw_registry w)) =
      (rw_registry w)\<lparr>by_label := om_remove label (by_label (rw_registry w)), by_key := om_remove key (by_key (rw_registry w))\<rparr>"
    by (auto simp: forget_label_def split: option.splits if_splits)
  have "tr_label r = label" using assms r unfolding rv_ok_def paired_def by (metis option.inject)
  with eff have "snd (forget_label label peer (rw_registry w)) = drop_key key r (rw_registry w)" by (simp add: drop_key_def)
  with rv_ok_drop [OF assms r(2)] show ?thesis by simp
next
  case False
  then have "snd (forget_label label peer (rw_registry w)) = rw_registry w"
    by (auto simp: forget_label_def split: option.splits if_splits)
  with assms show ?thesis by simp
qed

lemma rv_ok_forget_labels:
  "rv_ok w \<Longrightarrow> rv_ok (w\<lparr>rw_registry := forget_labels labels peer (rw_registry w)\<rparr>)"
proof (induction labels arbitrary: w)
  case (Cons l ls)
  from Cons.IH [OF rv_ok_forget_label [OF Cons.prems, of l peer]] show ?case by (simp add: forget_labels_def)
qed (simp add: forget_labels_def)

lemma rv_ok_forget_keys:
  "rv_ok w \<Longrightarrow> rv_ok (w\<lparr>rw_registry := snd (forget_keys keys (rw_registry w))\<rparr>)"
proof (induction keys arbitrary: w)
  case (Cons key keys)
  show ?case
  proof (cases "om_get (by_key (rw_registry w)) key")
    case None
    with Cons show ?thesis by simp
  next
    case (Some r)
    from Cons.IH [OF rv_ok_drop [OF Cons.prems Some]] Some show ?thesis
      by (simp add: drop_key_def split_def)
  qed
qed simp

lemma rv_ok_report:
  assumes "rv_ok w" and "om_get (by_key (rw_registry w)) key = Some r" and "tr_state r = Live" and "st \<noteq> Live"
  shows "rv_ok (rw_reported (Some (r\<lparr>tr_state := st\<rparr>), put_state key st (rw_registry w)) w)"
proof -
  let ?m = "by_key (rw_registry w)"
  have p: "paired w" and rep: "reported w" using assms(1) by (simp_all add: rv_ok_def)
  have key: "om_get (by_label (rw_registry w)) (tr_label r) = Some key" "key_of r = key" "tr_label r \<in> set (rw_labels w)"
    using p assms(2) by (auto simp: paired_def)
  have other: "tr_label t \<noteq> tr_label r" if "om_get ?m l = Some t" "l \<noteq> key" for l t
    using p that key(1) unfolding paired_def by (metis option.inject)
  have new: "tr_label r \<notin> set (rw_reports w)" using rep assms(2,3) by (auto simp: reported_def)
  have "paired (rw_reported (Some (r\<lparr>tr_state := st\<rparr>), put_state key st (rw_registry w)) w)"
    using p assms(2) unfolding paired_def rw_reported_def
    by (auto simp: key_of_def) (metis option.inject)
  moreover have "reported (rw_reported (Some (r\<lparr>tr_state := st\<rparr>), put_state key st (rw_registry w)) w)"
    using rep assms(2,4) key(3) new other unfolding reported_def rw_reported_def by auto
  moreover have "windows (rw_reported (Some (r\<lparr>tr_state := st\<rparr>), put_state key st (rw_registry w)) w)"
    using assms(1,2,4) by (simp add: rv_ok_def windows_def rw_reported_def)
  ultimately show ?thesis by (simp add: rv_ok_def)
qed

text \<open>A new reservation under a fresh key and a fresh label, past every live one of its route.\<close>

lemma rv_ok_reserve:
  assumes ok: "rv_ok w" and r: "key_of r = key" "tr_state r = Live"
    and fresh: "key \<notin> set (rw_keys w)" "tr_label r \<notin> set (rw_labels w)" "om_get (by_label (rw_registry w)) (tr_label r) = None"
    and past: "\<And>k t. om_get (by_key (rw_registry w)) k = Some t \<Longrightarrow> tr_state t = Live \<Longrightarrow> same_route t r \<Longrightarrow>
      tr_expires_at_seconds t + TERMINAL_RESERVATION_EXPIRES_IN_SECONDS \<le> tr_expires_at_seconds r"
  shows "rv_ok (rw_reserved key (tr_label r)
    ((rw_registry w)\<lparr>by_label := om_insert (tr_label r) key (by_label (rw_registry w)),
       by_key := om_insert key r (by_key (rw_registry w))\<rparr>) w)" (is "rv_ok ?w")
proof -
  have p: "paired w" and rep: "reported w" and win: "windows w" using ok by (simp_all add: rv_ok_def)
  have none: "om_get (by_key (rw_registry w)) key = None"
    using p fresh(1) unfolding paired_def by (metis not_None_eq)
  have "tr_label t \<noteq> tr_label r" if "om_get (by_key (rw_registry w)) l = Some t" for l t
    using p that fresh(2) unfolding paired_def by metis
  moreover have "om_get (by_label (rw_registry w)) label \<noteq> Some key" for label
    using p none unfolding paired_def by (metis option.distinct(1))
  ultimately have "paired ?w" using p r unfolding paired_def rw_reserved_def by auto
  moreover have "reported ?w" using rep r fresh(2) unfolding reported_def rw_reserved_def by auto
  moreover have "same_route a b \<longleftrightarrow> same_route b a" for a b by (auto simp: same_route_def)
  with win past have "windows ?w" unfolding windows_def rw_reserved_def by auto
  ultimately show ?thesis by (simp add: rv_ok_def)
qed

lemma unique_label_fresh: "unique_label fills m = Some label \<Longrightarrow> om_get m label = None"
  by (induction fills m rule: unique_label.induct) (auto simp: om_contains_def Let_def split: if_splits)

text \<open>The invariant under the condition that no key and no label was reserved twice.\<close>

definition rv_unrepeated :: "rv_world \<Rightarrow> bool" where
  "rv_unrepeated w \<longleftrightarrow> distinct (rw_keys w) \<and> distinct (rw_labels w)"

lemma live_reservation_fields [simp]:
  "key_of (live_reservation key label now binding) = key"
  "tr_label (live_reservation key label now binding) = label"
  "tr_state (live_reservation key label now binding) = Live"
  "tr_expires_at_seconds (live_reservation key label now binding) = saturating_add now TERMINAL_RESERVATION_EXPIRES_IN_SECONDS"
  by (auto simp: live_reservation_def key_of_def split: prod.splits)

lemma rv_ok_live_reservation:
  assumes w': "w' = rw_reserved key label ((rw_registry w)\<lparr>by_label := om_insert label key (by_label (rw_registry w)),
        by_key := om_insert key (live_reservation key label now binding) (by_key (rw_registry w))\<rparr>) w"
    and ok: "rv_unrepeated w \<longrightarrow> rv_ok w" and u: "rv_unrepeated w'" and now: "now + 30 \<le> u64_max"
    and label: "unique_label fills (by_label (rw_registry w)) = Some label"
    and free: "\<And>t. t \<in> set (om_values (by_key (rw_registry w))) \<Longrightarrow> tr_state t = Live \<Longrightarrow>
      same_route t (live_reservation key label now binding) \<Longrightarrow> tr_expires_at_seconds t \<le> now"
  shows "rv_ok w'"
proof -
  let ?r = "live_reservation key label now binding"
  have uw: "rv_unrepeated w" "key \<notin> set (rw_keys w)" "label \<notin> set (rw_labels w)"
    using u by (auto simp: w' rw_reserved_def rv_unrepeated_def)
  have "tr_expires_at_seconds t + TERMINAL_RESERVATION_EXPIRES_IN_SECONDS \<le> tr_expires_at_seconds ?r"
    if t: "om_get (by_key (rw_registry w)) k = Some t" "tr_state t = Live" "same_route t ?r" for k t
  proof -
    have "t \<in> set (om_values (by_key (rw_registry w)))" using t(1) by (force dest: map_of_SomeD)
    from free [OF this t(2,3)] now show ?thesis
      by (simp add: TERMINAL_RESERVATION_EXPIRES_IN_SECONDS_def saturating_add_exact)
  qed
  with rv_ok_reserve [of w ?r key] ok uw unique_label_fresh [OF label] show ?thesis by (simp add: w')
qed

text \<open>The outcomes of the two reserving operations.\<close>

lemma reserve_refused:
  "reservation_reserve fills q reg = Some (Inl err, reg') \<Longrightarrow> reg' = reg"
  "reserve_subscription fills cls su generation peer now binding reg = Some (Inl err, reg') \<Longrightarrow> reg' = reg"
  by (auto simp: reservation_reserve_def reserve_subscription_def reserve_subscription_prepared_def Let_def
      split: if_splits option.splits channel_class.splits)

abbreviation registry_with ::
  "reservation_key \<Rightarrow> string \<Rightarrow> u64 \<Rightarrow> reservation_binding \<Rightarrow> terminal_reservation_registry \<Rightarrow> terminal_reservation_registry"
where
  "registry_with key label now binding reg \<equiv>
     reg\<lparr>by_label := om_insert label key (by_label reg), by_key := om_insert key (live_reservation key label now binding) (by_key reg)\<rparr>"

lemma reserve_granted:
  assumes "reservation_reserve fills q reg = Some (Inr d, reg')"
  shows "\<not> has_live_for_route (trq_session_id q) (trq_subscription_id q) (trq_peer_generation q) (trq_now_seconds q) reg"
    "unique_label fills (by_label reg) = Some (dtr_label d)"
    "reg' = registry_with (Terminal, trq_session_id q, trq_subscription_id q, ai_epoch (trq_identity q), trq_peer_generation q)
       (dtr_label d) (trq_now_seconds q) (BindTerminal (trq_owner q) (trq_identity q) (trq_route q)) reg"
  using assms unfolding reservation_reserve_def Let_def by (simp_all split: if_splits option.splits) auto

lemma subscribe_granted:
  assumes "reserve_subscription fills cls su generation peer now binding reg = Some (Inr d, reg')"
  shows "\<not> list_ex (\<lambda>r. tr_class r = cls \<and> tr_subscription_id r = su \<and> tr_peer_generation r = peer \<and>
       tr_state r = Live \<and> now < tr_expires_at_seconds r) (om_values (by_key reg))"
    "unique_label fills (by_label reg) = Some (dsr_label d)"
    "reg' = registry_with (cls, '''', su, generation, peer) (dsr_label d) now binding reg"
  using assms unfolding reserve_subscription_def reserve_subscription_prepared_def prepared_identity_new_def
  by (simp_all split: if_splits option.splits) auto

lemma rv_exec_terminal:
  assumes e: "rv_exec (RvReserve fills q) w = Some w'" and now: "trq_now_seconds q + 30 \<le> u64_max"
    and ok: "rv_unrepeated w \<longrightarrow> rv_ok w" and u: "rv_unrepeated w'"
  shows "rv_ok w'"
proof -
  obtain res reg where rr: "reservation_reserve fills q (rw_registry w) = Some (res, reg)"
    using e by (auto split: prod.splits)
  show ?thesis
  proof (cases res)
    case (Inl err)
    with e rr reserve_refused(1) [of fills q "rw_registry w" err reg] have "w' = w" by simp
    with ok u show ?thesis by simp
  next
    case (Inr d)
    note granted = reserve_granted [OF rr [unfolded Inr]]
    let ?key = "(Terminal, trq_session_id q, trq_subscription_id q, ai_epoch (trq_identity q), trq_peer_generation q)"
    have w': "w' = rw_reserved ?key (dtr_label d) reg w" using e rr Inr by simp
    show ?thesis
    proof (rule rv_ok_live_reservation [OF w' [unfolded granted(3)] ok u now granted(2)])
      fix t
      assume "t \<in> set (om_values (by_key (rw_registry w)))" "tr_state t = Live"
        "same_route t (live_reservation ?key (dtr_label d) (trq_now_seconds q) (BindTerminal (trq_owner q) (trq_identity q) (trq_route q)))"
      with granted(1) show "tr_expires_at_seconds t \<le> trq_now_seconds q"
        by (auto simp: has_live_for_route_def list_ex_iff same_route_def live_reservation_def not_less)
    qed
  qed
qed

lemma rv_exec_subscription:
  assumes e: "rv_exec (RvSubscribe fills cls su generation peer now binding) w = Some w'" and now: "now + 30 \<le> u64_max"
    and ok: "rv_unrepeated w \<longrightarrow> rv_ok w" and u: "rv_unrepeated w'"
  shows "rv_ok w'"
proof -
  obtain res reg where rr: "reserve_subscription fills cls su generation peer now binding (rw_registry w) = Some (res, reg)"
    using e by (auto split: prod.splits)
  show ?thesis
  proof (cases res)
    case (Inl err)
    with e rr reserve_refused(2) [of fills cls su generation peer now binding "rw_registry w" err reg] have "w' = w" by simp
    with ok u show ?thesis by simp
  next
    case (Inr d)
    note granted = subscribe_granted [OF rr [unfolded Inr]]
    have w': "w' = rw_reserved (cls, '''', su, generation, peer) (dsr_label d) reg w" using e rr Inr by simp
    show ?thesis
    proof (rule rv_ok_live_reservation [OF w' [unfolded granted(3)] ok u now granted(2)])
      fix t
      assume "t \<in> set (om_values (by_key (rw_registry w)))" "tr_state t = Live"
        "same_route t (live_reservation (cls, '''', su, generation, peer) (dsr_label d) now binding)"
      with granted(1) show "tr_expires_at_seconds t \<le> now"
        by (auto simp: list_ex_iff same_route_def live_reservation_def not_less)
    qed
  qed
qed

lemma rv_ok_expire: "rv_ok w \<Longrightarrow> rv_ok (rw_reported (expire_label label peer now (rw_registry w)) w)"
proof (cases "fst (expire_label label peer now (rw_registry w))")
  case None
  assume "rv_ok w"
  moreover have "rw_reported (expire_label label peer now (rw_registry w)) w = w"
    using None by (auto simp: expire_label_def rw_reported_def split: option.splits if_splits)
  ultimately show ?thesis by simp
next
  case (Some t)
  assume "rv_ok w"
  with Some rv_ok_report [of w _ _ Expired] show ?thesis
    by (auto simp: expire_label_def split: option.splits if_splits)
qed

lemma rv_ok_bind: "rv_ok w \<Longrightarrow> rv_ok (rw_reported (mark_bound label peer (rw_registry w)) w)"
proof (cases "fst (mark_bound label peer (rw_registry w))")
  case None
  assume "rv_ok w"
  moreover have "rw_reported (mark_bound label peer (rw_registry w)) w = w"
    using None by (auto simp: mark_bound_def rw_reported_def split: option.splits if_splits)
  ultimately show ?thesis by simp
next
  case (Some t)
  assume "rv_ok w"
  with Some rv_ok_report [of w _ _ Bound] show ?thesis
    by (auto simp: mark_bound_def split: option.splits if_splits)
qed

lemma rv_exec_keeps:
  assumes "rv_exec e w = Some w'" and "rv_now e + 30 \<le> u64_max" and "rv_unrepeated w \<longrightarrow> rv_ok w"
  shows "rv_unrepeated w' \<longrightarrow> rv_ok w'"
proof (cases e)
  case (RvReserve fills q)
  with assms rv_exec_terminal show ?thesis by auto
next
  case (RvSubscribe fills cls su generation peer now binding)
  with assms rv_exec_subscription show ?thesis by auto
qed (use assms in \<open>auto simp: rv_unrepeated_def rw_reported_def forget_subscription_def forget_unbound_subscription_def
    forget_route_def forget_peer_def Let_def intro: rv_ok_forget_label rv_ok_forget_labels rv_ok_forget_keys
    dest: rv_ok_expire [unfolded rw_reported_def] rv_ok_bind [unfolded rw_reported_def]\<close>)

lemma rv_ok_run:
  assumes "run_events rv_exec es rv_world_new = Some w" and "\<forall>e \<in> set es. rv_now e + 30 \<le> u64_max"
    and "distinct (rw_keys w)" and "distinct (rw_labels w)"
  shows "rv_ok w"
proof -
  have "rv_unrepeated rv_world_new \<longrightarrow> rv_ok rv_world_new"
    by (simp add: rv_ok_def paired_def reported_def windows_def rv_world_new_def reservation_registry_default_def)
  with assms(1) have "rv_unrepeated w \<longrightarrow> rv_ok w"
  proof (rule run_events_guarded [where P = "\<lambda>w. rv_unrepeated w \<longrightarrow> rv_ok w"])
    fix e v v'
    assume "e \<in> set es" "rv_exec e v = Some v'" "rv_unrepeated v \<longrightarrow> rv_ok v"
    with assms(2) rv_exec_keeps show "rv_unrepeated v' \<longrightarrow> rv_ok v'" by blast
  qed
  with assms(3,4) show ?thesis by (simp add: rv_unrepeated_def)
qed

lemma forget_keys_Some:
  "om_get (by_key reg) key = Some r \<Longrightarrow>
     fst (forget_keys (key # keys) reg) = tr_label r # fst (forget_keys keys (drop_key key r reg)) \<and>
     snd (forget_keys (key # keys) reg) = snd (forget_keys keys (drop_key key r reg))"
  by (simp add: drop_key_def split_def)

lemma forget_keys_key:
  "om_get (by_key (snd (forget_keys keys reg))) k = (if k \<in> set keys then None else om_get (by_key reg) k)"
proof (induction keys arbitrary: reg)
  case (Cons key keys)
  show ?case
  proof (cases "om_get (by_key reg) key")
    case (Some r)
    then show ?thesis by (simp add: forget_keys_Some Cons.IH drop_key_def del: forget_keys.simps)
  qed (simp add: Cons.IH)
qed simp

text \<open>The labels that a removal of some keys reports and drops.\<close>

definition labels_of :: "reservation_key list \<Rightarrow> terminal_reservation_registry \<Rightarrow> string set" where
  "labels_of keys reg = {tr_label r |k r. k \<in> set keys \<and> om_get (by_key reg) k = Some r}"

lemma labels_of_Cons:
  "om_get (by_key reg) key = Some r \<Longrightarrow> labels_of (key # keys) reg = insert (tr_label r) (labels_of keys (drop_key key r reg))"
  "om_get (by_key reg) key = None \<Longrightarrow> labels_of (key # keys) reg = labels_of keys reg"
  unfolding labels_of_def drop_key_def by (auto, metis option.inject)

lemma forget_keys_labels:
  "set (fst (forget_keys keys reg)) = labels_of keys reg \<and>
   (\<forall>l. om_get (by_label (snd (forget_keys keys reg))) l = (if l \<in> labels_of keys reg then None else om_get (by_label reg) l))"
proof (induction keys arbitrary: reg)
  case (Cons key keys)
  show ?case
  proof (cases "om_get (by_key reg) key")
    case (Some r)
    have "by_label (drop_key key r reg) = om_remove (tr_label r) (by_label reg)" by (simp add: drop_key_def)
    with Some Cons.IH [of "drop_key key r reg"] show ?thesis
      by (auto simp: forget_keys_Some labels_of_Cons simp del: forget_keys.simps)
  qed (simp add: Cons.IH labels_of_Cons)
qed (simp add: labels_of_def)

section \<open>Properties\<close>

abbreviation some_terminal :: "u64 \<Rightarrow> u64 \<Rightarrow> terminal_reservation_request" where
  "some_terminal epoch now \<equiv>
     \<lparr>trq_session_id = ''s'', trq_subscription_id = ''t'', trq_peer_generation = 9, trq_now_seconds = now,
      trq_owner = \<lparr>ow_client_id = ''c'', ow_grant_id = Some ''g''\<rparr>, trq_identity = \<lparr>ai_client_id = ''c'', ai_epoch = epoch\<rparr>,
      trq_route = Inserted\<rparr>"

abbreviation some_schedule :: "rv_event list" where
  "some_schedule \<equiv>
     [RvReserve [Some [1]] (some_terminal 1 10), RvExpire ''r-01'' 9 40, RvExpire ''r-01'' 9 41,
      RvReserve [None, Some [1], Some [2]] (some_terminal 2 40), RvSubscribe [Some [3]] Entity ''e'' 5 8 40 (BindEntity 0),
      RvBind ''r-03'' 8, RvBind ''r-03'' 8]"

lemma some_schedule_facts:
  "\<exists>w. run_events rv_exec some_schedule rv_world_new = Some w"
  "map snd (by_label (rw_registry (the (run_events rv_exec some_schedule rv_world_new)))) =
     [(Terminal, ''s'', ''t'', 1, 9), (Terminal, ''s'', ''t'', 2, 9), (Entity, '''', ''e'', 5, 8)]"
  "distinct (rw_keys (the (run_events rv_exec some_schedule rv_world_new)))"
  "distinct (rw_labels (the (run_events rv_exec some_schedule rv_world_new)))"
  "rw_reports (the (run_events rv_exec some_schedule rv_world_new)) = [''r-01'', ''r-03'']"
  "lookup_label ''r-03'' 8 50 (rw_registry (the (run_events rv_exec some_schedule rv_world_new))) = LookBound"
  "map_option tr_label (om_get (by_key (rw_registry (the (run_events rv_exec some_schedule rv_world_new)))) (Terminal, ''s'', ''t'', 2, 9))
     = Some ''r-02''"
proof -
  have "run_events rv_exec some_schedule rv_world_new \<noteq> None" by code_simp
  then show "\<exists>w. run_events rv_exec some_schedule rv_world_new = Some w" by blast
qed code_simp+


text \<open>C29. Labels and reservations correspond one to one, and live windows do not overlap.  In every
  schedule that reserves no key and no label twice, each reservation is found by its own label
  and peer and by no other peer, every known label leads to the reservation that carries it,
  and of two live reservations of one route one expires at least thirty seconds before the
  other, that is, before the other was made.\<close>

theorem reservation_labels_resolve:
  assumes "run_events rv_exec es rv_world_new = Some w" and "\<forall>e \<in> set es. rv_now e + 30 \<le> u64_max"
    and "distinct (rw_keys w)" and "distinct (rw_labels w)"
  shows "(\<forall>key r. om_get (by_key (rw_registry w)) key = Some r \<longrightarrow>
      (\<forall>peer. reservation_for_label (tr_label r) peer (rw_registry w) = (if peer = tr_peer_generation r then Some r else None))) \<and>
    (\<forall>label key. om_get (by_label (rw_registry w)) label = Some key \<longrightarrow>
      (\<exists>r. om_get (by_key (rw_registry w)) key = Some r \<and> tr_label r = label)) \<and>
    (\<forall>k l r t. om_get (by_key (rw_registry w)) k = Some r \<longrightarrow> om_get (by_key (rw_registry w)) l = Some t \<longrightarrow>
      k \<noteq> l \<longrightarrow> tr_state r = Live \<longrightarrow> tr_state t = Live \<longrightarrow> same_route r t \<longrightarrow>
      tr_expires_at_seconds r + 30 \<le> tr_expires_at_seconds t \<or> tr_expires_at_seconds t + 30 \<le> tr_expires_at_seconds r)"
proof -
  have ok: "paired w" "windows w" using rv_ok_run [OF assms] by (simp_all add: rv_ok_def)
  have "reservation_for_label (tr_label r) peer (rw_registry w) = (if peer = tr_peer_generation r then Some r else None)"
    if "om_get (by_key (rw_registry w)) key = Some r" for key r peer
  proof -
    have "om_get (by_label (rw_registry w)) (tr_label r) = Some key" using ok(1) that by (simp add: paired_def)
    with that show ?thesis by (simp add: reservation_for_label_def)
  qed
  with ok show ?thesis unfolding paired_def windows_def TERMINAL_RESERVATION_EXPIRES_IN_SECONDS_def by blast
qed

theorem reservation_labels_resolve_witness:
  "\<exists>w r. run_events rv_exec some_schedule rv_world_new = Some w \<and>
     om_get (by_key (rw_registry w)) (Terminal, ''s'', ''t'', 2, 9) = Some r \<and>
     reservation_for_label ''r-02'' 9 (rw_registry w) = Some r"
proof -
  obtain w where run: "run_events rv_exec some_schedule rv_world_new = Some w" using some_schedule_facts(1) by blast
  have w: "w = the (run_events rv_exec some_schedule rv_world_new)" using run by simp
  obtain r where r: "om_get (by_key (rw_registry w)) (Terminal, ''s'', ''t'', 2, 9) = Some r" "tr_label r = ''r-02''"
    using some_schedule_facts(7) unfolding w by auto
  have now: "\<forall>e \<in> set some_schedule. rv_now e + 30 \<le> u64_max" by (simp add: u64_max_def)
  from reservation_labels_resolve [OF run now] some_schedule_facts(3,4) r
  have "reservation_for_label ''r-02'' (tr_peer_generation r) (rw_registry w) = Some r" unfolding w by metis
  moreover have "tr_peer_generation r = 9"
  proof -
    have "map_option tr_peer_generation (om_get (by_key (rw_registry (the (run_events rv_exec some_schedule rv_world_new))))
        (Terminal, ''s'', ''t'', 2, 9)) = Some 9" by code_simp
    with r(1) show ?thesis unfolding w by simp
  qed
  ultimately show ?thesis using run r(1) by metis
qed

text \<open>C30. Each reservation leaves the live state once.  Over a whole schedule every label is reported
  at most once, by the expiry or by the bind and never by both, however many late attempts
  follow, and a kept reservation is live exactly as long as nothing was reported for it.\<close>

theorem reservation_reported_once:
  assumes "run_events rv_exec es rv_world_new = Some w" and "\<forall>e \<in> set es. rv_now e + 30 \<le> u64_max"
    and "distinct (rw_keys w)" and "distinct (rw_labels w)"
  shows "distinct (rw_reports w) \<and> set (rw_reports w) \<subseteq> set (rw_labels w) \<and>
    (\<forall>key r. om_get (by_key (rw_registry w)) key = Some r \<longrightarrow>
       (tr_state r = Live \<longleftrightarrow> tr_label r \<notin> set (rw_reports w)) \<and>
       (tr_state r \<noteq> Live \<longrightarrow> (\<forall>peer now. fst (expire_label (tr_label r) peer now (rw_registry w)) = None \<and>
          fst (mark_bound (tr_label r) peer (rw_registry w)) = None)))"
proof -
  have ok: "paired w" "reported w" using rv_ok_run [OF assms] by (simp_all add: rv_ok_def)
  have "fst (expire_label (tr_label r) peer now (rw_registry w)) = None \<and> fst (mark_bound (tr_label r) peer (rw_registry w)) = None"
    if "om_get (by_key (rw_registry w)) key = Some r" "tr_state r \<noteq> Live" for key r peer now
  proof -
    have "om_get (by_label (rw_registry w)) (tr_label r) = Some key" using ok(1) that by (simp add: paired_def)
    with that show ?thesis by (simp add: expire_label_def mark_bound_def)
  qed
  with ok(2) show ?thesis unfolding reported_def by blast
qed

theorem reservation_reported_once_witness:
  "\<exists>w. run_events rv_exec some_schedule rv_world_new = Some w \<and> rw_reports w = [''r-01'', ''r-03''] \<and>
     set (rw_reports w) \<subseteq> set (rw_labels w)"
proof -
  obtain w where run: "run_events rv_exec some_schedule rv_world_new = Some w" using some_schedule_facts(1) by blast
  have w: "w = the (run_events rv_exec some_schedule rv_world_new)" using run by simp
  have now: "\<forall>e \<in> set some_schedule. rv_now e + 30 \<le> u64_max" by (simp add: u64_max_def)
  from reservation_reported_once [OF run now] some_schedule_facts(3,4)
  have "set (rw_reports w) \<subseteq> set (rw_labels w)" unfolding w by blast
  with run some_schedule_facts(5) show ?thesis unfolding w by metis
qed

text \<open>Forgetting a peer is complete and touches nobody else: it reports exactly the labels of the
  peer's reservations, afterwards no label resolves for that peer, and every lookup of every
  other peer answers as before.\<close>

theorem forget_peer_complete:
  assumes "run_events rv_exec es rv_world_new = Some w" and "\<forall>e \<in> set es. rv_now e + 30 \<le> u64_max"
    and "distinct (rw_keys w)" and "distinct (rw_labels w)"
    and "forget_peer p (rw_registry w) = (labels, reg)"
  shows "set labels = {l. label_peer_generation l (rw_registry w) = Some p} \<and>
    (\<forall>label now. lookup_label label p now reg = LookUnknown) \<and>
    (\<forall>label peer now. peer \<noteq> p \<longrightarrow> lookup_label label peer now reg = lookup_label label peer now (rw_registry w))"
proof -
  let ?r = "rw_registry w"
  let ?keys = "filter (\<lambda>(_, _, _, _, q). q = p) (om_keys (by_key ?r))"
  have ok: "paired w" using rv_ok_run [OF assms(1-4)] by (simp add: rv_ok_def)
  have peer: "k \<in> set ?keys \<longleftrightarrow> tr_peer_generation r = p" if "om_get (by_key ?r) k = Some r" for k r
    using ok that by (auto simp: paired_def key_of_def dest: om_get_Some_key)
  have reg: "reg = snd (forget_keys ?keys ?r)" "labels = fst (forget_keys ?keys ?r)"
    using assms(5) by (simp_all add: forget_peer_def)
  have lab: "l \<in> labels_of ?keys ?r \<longleftrightarrow> (\<exists>k r. om_get (by_label ?r) l = Some k \<and> om_get (by_key ?r) k = Some r \<and> tr_peer_generation r = p)" for l
    using ok peer unfolding labels_of_def paired_def by blast
  have "set labels = {l. label_peer_generation l ?r = Some p}"
    using forget_keys_labels [of ?keys ?r] lab by (auto simp: reg label_peer_generation_def split: option.splits)
  moreover have "lookup_label label q now reg = (if q = p then LookUnknown else lookup_label label q now ?r)" for label q now
  proof (cases "om_get (by_label ?r) label")
    case None
    with forget_keys_labels [of ?keys ?r] show ?thesis by (auto simp: reg lookup_label_def)
  next
    case (Some k)
    then obtain r where r: "om_get (by_key ?r) k = Some r" using ok unfolding paired_def by blast
    show ?thesis
    proof (cases "tr_peer_generation r = p")
      case True
      with Some r lab have "label \<in> labels_of ?keys ?r" by blast
      with True Some r forget_keys_labels [of ?keys ?r] show ?thesis by (auto simp: reg lookup_label_def)
    next
      case False
      with Some r lab have "label \<notin> labels_of ?keys ?r" by auto
      with Some forget_keys_labels [of ?keys ?r] have l: "om_get (by_label reg) label = Some k" unfolding reg(1) by metis
      have "k \<notin> set ?keys" using peer [OF r] False by blast
      with r forget_keys_key [of ?keys ?r k] have "om_get (by_key reg) k = Some r" unfolding reg(1) by metis
      with False Some r l show ?thesis by (simp add: lookup_label_def)
    qed
  qed
  ultimately show ?thesis by simp
qed

theorem forget_peer_complete_witness:
  "\<exists>w labels reg. run_events rv_exec some_schedule rv_world_new = Some w \<and>
     forget_peer 9 (rw_registry w) = (labels, reg) \<and> lookup_label ''r-02'' 9 50 reg = LookUnknown \<and>
     lookup_label ''r-03'' 8 50 reg = LookBound"
proof -
  obtain w where run: "run_events rv_exec some_schedule rv_world_new = Some w" using some_schedule_facts(1) by blast
  have w: "w = the (run_events rv_exec some_schedule rv_world_new)" using run by simp
  have now: "\<forall>e \<in> set some_schedule. rv_now e + 30 \<le> u64_max" by (simp add: u64_max_def)
  obtain labels reg where f: "forget_peer 9 (rw_registry w) = (labels, reg)" by (cases "forget_peer 9 (rw_registry w)")
  have d: "distinct (rw_keys w)" "distinct (rw_labels w)" using some_schedule_facts(3,4) unfolding w by blast+
  have "lookup_label ''r-03'' 8 50 reg = lookup_label ''r-03'' 8 50 (rw_registry w)" "lookup_label ''r-02'' 9 50 reg = LookUnknown"
    using forget_peer_complete [OF run now d f] by auto
  with run f some_schedule_facts(6) show ?thesis unfolding w by metis
qed

end
