(* ===== verification/Close_Cause.thy ===== *)
theory Close_Cause
  imports Hub_Prelude
begin

text \<open>
  \<open>transport/shared/close_reason.rs\<close>: the cause of an adapter's close, one byte that the first
  close sets.  Core's close (with or without a reason) and the host's close race through
  handles that share the byte; each loads it, and commits by a compare-exchange from open.
\<close>

section \<open>The byte\<close>

definition OPEN :: "8 word" where "OPEN = 0"
definition HOST :: "8 word" where "HOST = 1"
definition CORE_UNSPECIFIED :: "8 word" where "CORE_UNSPECIFIED = 2"
definition CORE_REASON_BASE :: "8 word" where "CORE_REASON_BASE = 3"

lemmas close_bytes = OPEN_def HOST_def CORE_UNSPECIFIED_def CORE_REASON_BASE_def

datatype route_close_reason =
    Replaced | Detached | SessionEnded | WorkerLinkFailed | AdapterClosed | TerminalDelivered
  | Stalled | Overflowed | InputFailed | Failed | Shutdown | BindRejected

record close_report =
  cr_host_closed :: bool
  cr_worker_lost :: bool

fun encode_core_reason :: "route_close_reason \<Rightarrow> 8 word" where
  "encode_core_reason Replaced = CORE_REASON_BASE + 0"
| "encode_core_reason Detached = CORE_REASON_BASE + 1"
| "encode_core_reason SessionEnded = CORE_REASON_BASE + 2"
| "encode_core_reason WorkerLinkFailed = CORE_REASON_BASE + 3"
| "encode_core_reason AdapterClosed = CORE_REASON_BASE + 4"
| "encode_core_reason TerminalDelivered = CORE_REASON_BASE + 5"
| "encode_core_reason Stalled = CORE_REASON_BASE + 6"
| "encode_core_reason Overflowed = CORE_REASON_BASE + 7"
| "encode_core_reason InputFailed = CORE_REASON_BASE + 8"
| "encode_core_reason Failed = CORE_REASON_BASE + 9"
| "encode_core_reason Shutdown = CORE_REASON_BASE + 10"
| "encode_core_reason BindRejected = CORE_REASON_BASE + 11"

text \<open>\<open>checked_sub\<close> refuses a state below the base; the match ends at eleven.\<close>

definition decode_core_reason :: "8 word \<Rightarrow> route_close_reason option" where
  "decode_core_reason state =
     (if state < CORE_REASON_BASE then None
      else let n = state - CORE_REASON_BASE
        in if n = 0 then Some Replaced
           else if n = 1 then Some Detached
           else if n = 2 then Some SessionEnded
           else if n = 3 then Some WorkerLinkFailed
           else if n = 4 then Some AdapterClosed
           else if n = 5 then Some TerminalDelivered
           else if n = 6 then Some Stalled
           else if n = 7 then Some Overflowed
           else if n = 8 then Some InputFailed
           else if n = 9 then Some Failed
           else if n = 10 then Some Shutdown
           else if n = 11 then Some BindRejected
           else None)"

section \<open>Operations on the loaded byte\<close>

definition close_cause_new :: "8 word" where
  "close_cause_new = OPEN"

definition cc_is_closed :: "8 word \<Rightarrow> bool" where
  "cc_is_closed state \<longleftrightarrow> state \<noteq> OPEN"

definition cc_host_closed :: "8 word \<Rightarrow> bool" where
  "cc_host_closed state \<longleftrightarrow> state = HOST"

definition cc_core_reason :: "8 word \<Rightarrow> route_close_reason option" where
  "cc_core_reason state = decode_core_reason state"

definition cc_report :: "8 word \<Rightarrow> close_report" where
  "cc_report state =
     \<lparr>cr_host_closed = (state = HOST), cr_worker_lost = (decode_core_reason state = Some WorkerLinkFailed)\<rparr>"

text \<open>The three kinds of close and the byte each commits.\<close>

datatype close_call = CloseUnspecified | CloseFromHost | CloseFromCore route_close_reason

fun close_byte :: "close_call \<Rightarrow> 8 word" where
  "close_byte CloseUnspecified = CORE_UNSPECIFIED"
| "close_byte CloseFromHost = HOST"
| "close_byte (CloseFromCore r) = encode_core_reason r"

text \<open>\<open>commit_first\<close> alone: the load and the compare-exchange with nothing in between.\<close>

definition commit_first :: "8 word \<Rightarrow> 8 word \<Rightarrow> 8 word" where
  "commit_first cause state = (if state \<noteq> OPEN then state else cause)"

section \<open>Racing closes\<close>

text \<open>
  A closer \<open>i\<close> starts with a call, loads the byte, and if it read open tries the exchange.
  \<open>cl_first\<close> is the call whose exchange succeeded.
\<close>

datatype closer_pc = ClIdle | ClLoad close_call | ClCommit close_call

record close_race =
  cl_state :: "8 word"
  cl_pc :: "nat \<Rightarrow> closer_pc"
  cl_first :: "close_call option"

definition close_race_new :: close_race where
  "close_race_new = \<lparr>cl_state = close_cause_new, cl_pc = (\<lambda>_. ClIdle), cl_first = None\<rparr>"

inductive close_step :: "close_race \<Rightarrow> close_race \<Rightarrow> bool" where
  call: "cl_pc c i = ClIdle \<Longrightarrow> close_step c (c\<lparr>cl_pc := (cl_pc c)(i := ClLoad call)\<rparr>)"
| load_closed: "cl_pc c i = ClLoad call \<Longrightarrow> cl_state c \<noteq> OPEN \<Longrightarrow> close_step c (c\<lparr>cl_pc := (cl_pc c)(i := ClIdle)\<rparr>)"
| load_open: "cl_pc c i = ClLoad call \<Longrightarrow> cl_state c = OPEN \<Longrightarrow> close_step c (c\<lparr>cl_pc := (cl_pc c)(i := ClCommit call)\<rparr>)"
| exchange_lost: "cl_pc c i = ClCommit call \<Longrightarrow> cl_state c \<noteq> OPEN \<Longrightarrow> close_step c (c\<lparr>cl_pc := (cl_pc c)(i := ClIdle)\<rparr>)"
| exchange_won: "cl_pc c i = ClCommit call \<Longrightarrow> cl_state c = OPEN \<Longrightarrow>
    close_step c (c\<lparr>cl_state := close_byte call, cl_pc := (cl_pc c)(i := ClIdle), cl_first := Some call\<rparr>)"

inductive_cases close_stepE: "close_step c d"

section \<open>The first close decides\<close>

lemma decode_encode: "decode_core_reason (encode_core_reason r) = Some r"
  by (cases r) (simp_all add: decode_core_reason_def close_bytes)

lemma decode_inverse: "decode_core_reason b = Some r \<Longrightarrow> b = encode_core_reason r"
  by (cases r) (auto simp: decode_core_reason_def close_bytes Let_def diff_eq_eq split: if_splits)

lemma close_byte_not_open: "close_byte call \<noteq> OPEN"
proof (cases call)
  case (CloseFromCore r)
  then show ?thesis by (cases r) (simp_all add: close_bytes)
qed (simp_all add: close_bytes)

lemma encode_above: "encode_core_reason r \<noteq> HOST" "encode_core_reason r \<noteq> CORE_UNSPECIFIED" "encode_core_reason r \<noteq> OPEN"
  by (cases r; simp add: close_bytes)+

lemma decode_low: "decode_core_reason OPEN = None" "decode_core_reason HOST = None" "decode_core_reason CORE_UNSPECIFIED = None"
  by (simp_all add: decode_core_reason_def close_bytes)

text \<open>What the readers say of the byte of a close.\<close>

lemma close_byte_reads:
  "cc_is_closed (close_byte call)" "cc_host_closed (close_byte call) \<longleftrightarrow> call = CloseFromHost"
  "cc_core_reason (close_byte call) = Some r \<longleftrightarrow> call = CloseFromCore r"
proof -
  show "cc_is_closed (close_byte call)" by (simp add: cc_is_closed_def close_byte_not_open)
  show "cc_host_closed (close_byte call) \<longleftrightarrow> call = CloseFromHost"
    unfolding cc_host_closed_def by (cases call) (simp_all add: encode_above, simp add: close_bytes)
  show "cc_core_reason (close_byte call) = Some r \<longleftrightarrow> call = CloseFromCore r"
    by (cases call) (auto simp: cc_core_reason_def decode_encode decode_low)
qed

lemma cc_report_reads:
  "cc_report (close_byte call) =
     \<lparr>cr_host_closed = (call = CloseFromHost), cr_worker_lost = (call = CloseFromCore WorkerLinkFailed)\<rparr>"
  using close_byte_reads(2) [of call] close_byte_reads(3) [of call WorkerLinkFailed]
  by (simp add: cc_report_def cc_host_closed_def cc_core_reason_def)

definition first_decides :: "close_race \<Rightarrow> bool" where
  "first_decides c \<longleftrightarrow> cl_state c = (case cl_first c of None \<Rightarrow> OPEN | Some call \<Rightarrow> close_byte call)"

interpretation close_race: transition_invariant "\<lambda>c. c = close_race_new" close_step first_decides
proof
  show "c = close_race_new \<Longrightarrow> first_decides c" for c
    by (simp add: first_decides_def close_race_new_def close_cause_new_def)
  show "first_decides c \<Longrightarrow> close_step c d \<Longrightarrow> first_decides d" for c d
    by (erule close_stepE) (auto simp: first_decides_def)
qed

text \<open>Once a close committed, no later step changes the byte or the first close.\<close>

lemma close_step_stable: "close_step c d \<Longrightarrow> cl_state c \<noteq> OPEN \<Longrightarrow> cl_state d = cl_state c \<and> cl_first d = cl_first c"
  by (erule close_stepE) auto

lemma close_steps_stable:
  "close_step\<^sup>*\<^sup>* c d \<Longrightarrow> cl_state c \<noteq> OPEN \<Longrightarrow> cl_state d = cl_state c \<and> cl_first d = cl_first c"
  by (induction rule: rtranclp_induct) (auto dest: close_step_stable)

section \<open>Properties\<close>

text \<open>C32. The first close wins whole.  However closes race, once one has committed the byte never
  changes again, and the closed flag, the host flag, Core's reason and the report all describe
  that first close: the host flag is set exactly for a host close, and the reason read back
  is exactly the reason Core gave.\<close>

theorem first_close_wins:
  assumes "close_step\<^sup>*\<^sup>* close_race_new c" and "cl_first c = Some call" and "close_step\<^sup>*\<^sup>* c d"
  shows "cl_first d = Some call \<and> cc_is_closed (cl_state d) \<and>
    (cc_host_closed (cl_state d) \<longleftrightarrow> call = CloseFromHost) \<and>
    (\<forall>r. cc_core_reason (cl_state d) = Some r \<longleftrightarrow> call = CloseFromCore r) \<and>
    cr_host_closed (cc_report (cl_state d)) = (call = CloseFromHost) \<and>
    cr_worker_lost (cc_report (cl_state d)) = (call = CloseFromCore WorkerLinkFailed)"
proof -
  have "first_decides c" using close_race.inv_reachable [OF refl assms(1)] .
  then have c: "cl_state c = close_byte call" using assms(2) by (simp add: first_decides_def)
  then have d: "cl_state d = close_byte call" "cl_first d = Some call"
    using close_steps_stable [OF assms(3)] close_byte_not_open assms(2) by auto
  then show ?thesis by (simp add: close_byte_reads cc_report_reads)
qed

theorem first_close_wins_witness:
  "\<exists>c d. close_step\<^sup>*\<^sup>* close_race_new c \<and> cl_first c = Some CloseFromHost \<and> cl_pc c 0 = ClCommit (CloseFromCore WorkerLinkFailed) \<and>
     close_step\<^sup>*\<^sup>* c d \<and> cl_pc d 0 = ClIdle \<and> cc_host_closed (cl_state d) \<and> cc_core_reason (cl_state d) = None"
proof -
  let ?core = "CloseFromCore WorkerLinkFailed"
  define c0 where "c0 = close_race_new"
  define c1 where "c1 = c0\<lparr>cl_pc := (cl_pc c0)(0 := ClLoad ?core)\<rparr>"
  define c2 where "c2 = c1\<lparr>cl_pc := (cl_pc c1)(1 := ClLoad CloseFromHost)\<rparr>"
  define c3 where "c3 = c2\<lparr>cl_pc := (cl_pc c2)(0 := ClCommit ?core)\<rparr>"
  define c4 where "c4 = c3\<lparr>cl_pc := (cl_pc c3)(1 := ClCommit CloseFromHost)\<rparr>"
  define c where "c = c4\<lparr>cl_state := close_byte CloseFromHost, cl_pc := (cl_pc c4)(1 := ClIdle), cl_first := Some CloseFromHost\<rparr>"
  define d where "d = c\<lparr>cl_pc := (cl_pc c)(0 := ClIdle)\<rparr>"
  note defs = c0_def c1_def c2_def c3_def c4_def c_def d_def close_race_new_def close_cause_new_def
  have "close_step c0 c1" unfolding c1_def by (rule call) (simp add: defs)
  moreover have "close_step c1 c2" unfolding c2_def by (rule call) (simp add: defs)
  moreover have "close_step c2 c3" unfolding c3_def by (rule load_open) (simp_all add: defs)
  moreover have "close_step c3 c4" unfolding c4_def by (rule load_open) (simp_all add: defs)
  moreover have "close_step c4 c" unfolding c_def by (rule exchange_won) (simp_all add: defs)
  ultimately have run: "close_step\<^sup>*\<^sup>* close_race_new c" unfolding c0_def by (meson converse_rtranclp_into_rtranclp rtranclp.rtrancl_refl)
  have rest: "close_step\<^sup>*\<^sup>* c d"
    unfolding d_def by (rule r_into_rtranclp, rule exchange_lost [of _ _ ?core]) (simp_all add: defs close_bytes)
  have "cl_first c = Some CloseFromHost" "cl_pc c 0 = ClCommit ?core" "cl_pc d 0 = ClIdle" by (simp_all add: defs)
  with run rest first_close_wins [OF run _ rest] show ?thesis by (metis close_call.distinct(5) not_Some_eq)
qed

end
