(* ===== verification/Ingress_Buffer.thy ===== *)
theory Ingress_Buffer
  imports Hub_Prelude
begin

text \<open>
  \<open>transport/shared/ingress.rs\<close>: the bounded buffer of complete input frames between a
  transport and Core, with one slot for a partial frame, a loss latch and a permit that tells
  a parked transport about room.

  Three things come from outside.  \<open>cap\<close> is \<open>MIN_ADAPTER_INGRESS_BUFFER_FRAMES\<close>, the bound of the
  channel; \<open>valid\<close> is the header check \<open>TerminalInputFrame::from_bytes\<close>; and the callback
  \<open>is_closed\<close> can answer differently each time it runs, so it is a function from the number of
  the call.  \<open>clear\<close> only tries its two locks, and \<open>frames_held\<close>, \<open>partial_held\<close> say which of them
  another thread holds then.  The locks are not poisoned.
\<close>

section \<open>State\<close>

type_synonym frame = "8 word list"

record ingress_buffer =
  ib_frames :: "frame list"
  ib_partial :: "frame option"
  ib_lost :: bool
  ib_lost_reported :: bool
  ib_room :: bool

datatype ingress_store = StoreStored | StoreFull frame | StoreClosed | StoreMalformed

datatype ingress_admission = AdmStored | AdmLost

datatype terminal_ingress = IngressFrame frame | IngressLost | IngressEmpty | IngressClosed

definition ingress_buffer_new :: ingress_buffer where
  "ingress_buffer_new =
     \<lparr>ib_frames = [], ib_partial = None, ib_lost = False, ib_lost_reported = False, ib_room = False\<rparr>"

section \<open>Operations\<close>

text \<open>\<open>SyncSender::try_send\<close> on a channel of \<open>cap\<close> frames whose receiver is alive.\<close>

definition try_send :: "usize \<Rightarrow> frame \<Rightarrow> ingress_buffer \<Rightarrow> bool \<times> ingress_buffer" where
  "try_send cap bytes b =
     (if length (ib_frames b) < cap then (True, b\<lparr>ib_frames := ib_frames b @ [bytes]\<rparr>) else (False, b))"

definition ib_clear :: "bool \<Rightarrow> bool \<Rightarrow> ingress_buffer \<Rightarrow> ingress_buffer" where
  "ib_clear frames_held partial_held b =
     b\<lparr>ib_frames := (if frames_held then ib_frames b else []),
       ib_partial := (if partial_held then ib_partial b else None),
       ib_lost := False, ib_lost_reported := False, ib_room := True\<rparr>"

definition try_store ::
  "usize \<Rightarrow> (frame \<Rightarrow> bool) \<Rightarrow> (nat \<Rightarrow> bool) \<Rightarrow> bool \<Rightarrow> bool \<Rightarrow> frame \<Rightarrow> ingress_buffer \<Rightarrow> ingress_store \<times> ingress_buffer"
where
  "try_store cap valid is_closed fh ph bytes b =
     (if \<not> valid bytes then (StoreMalformed, b)
      else if is_closed 0 then (StoreClosed, b)
      else case try_send cap bytes b of
        (True, b') \<Rightarrow> if is_closed 1 then (StoreClosed, ib_clear fh ph b') else (StoreStored, b')
      | (False, b') \<Rightarrow> (StoreFull bytes, b'))"

text \<open>\<open>room().await\<close> goes through when the permit is stored, and takes it.\<close>

definition ib_await_room :: "ingress_buffer \<Rightarrow> ingress_buffer option" where
  "ib_await_room b = (if ib_room b then Some (b\<lparr>ib_room := False\<rparr>) else None)"

definition store_complete_with_hooks ::
  "usize \<Rightarrow> (nat \<Rightarrow> bool) \<Rightarrow> bool \<Rightarrow> bool \<Rightarrow> frame \<Rightarrow> ingress_buffer \<Rightarrow> bool \<times> ingress_admission option \<times> ingress_buffer"
where
  "store_complete_with_hooks cap is_closed fh ph bytes b =
     (if is_closed 0 then (False, None, b)
      else if is_closed 1 then (False, None, b)
      else
        let (stored, b) = try_send cap bytes b;
            b = (if stored then b else b\<lparr>ib_lost := True\<rparr>);
            observation = Some (if stored then AdmStored else AdmLost)
        in if is_closed 2 then (False, observation, ib_clear fh ph b)
           else (stored \<or> ib_lost b, observation, b))"

definition store_complete ::
  "usize \<Rightarrow> (nat \<Rightarrow> bool) \<Rightarrow> bool \<Rightarrow> bool \<Rightarrow> frame \<Rightarrow> ingress_buffer \<Rightarrow> bool \<times> ingress_buffer"
where
  "store_complete cap is_closed fh ph bytes b =
     (case store_complete_with_hooks cap is_closed fh ph bytes b of (wake, _, b') \<Rightarrow> (wake, b'))"

definition push_complete_observed ::
  "usize \<Rightarrow> (frame \<Rightarrow> bool) \<Rightarrow> (nat \<Rightarrow> bool) \<Rightarrow> bool \<Rightarrow> bool \<Rightarrow> frame \<Rightarrow> ingress_buffer \<Rightarrow>
   (unit + bool) \<times> ingress_admission option \<times> ingress_buffer"
where
  "push_complete_observed cap valid is_closed fh ph bytes b =
     (if \<not> valid bytes then (Inl (), None, b)
      else case store_complete_with_hooks cap is_closed fh ph bytes b of (wake, obs, b') \<Rightarrow> (Inr wake, obs, b'))"

definition store_partial :: "frame \<Rightarrow> ingress_buffer \<Rightarrow> ingress_buffer" where
  "store_partial bytes b = b\<lparr>ib_partial := Some bytes\<rparr>"

definition complete_partial ::
  "usize \<Rightarrow> (nat \<Rightarrow> bool) \<Rightarrow> bool \<Rightarrow> bool \<Rightarrow> ingress_buffer \<Rightarrow> bool \<times> ingress_buffer"
where
  "complete_partial cap is_closed fh ph b =
     (case ib_partial b of
        None \<Rightarrow> (False, b)
      | Some bytes \<Rightarrow> store_complete cap is_closed fh ph bytes (b\<lparr>ib_partial := None\<rparr>))"

text \<open>The frames are taken out, the last one is dropped, and the others go back in order.\<close>

definition drop_one_complete :: "usize \<Rightarrow> ingress_buffer \<Rightarrow> bool \<times> ingress_buffer" where
  "drop_one_complete cap b =
     (if ib_frames b = [] then (False, b)
      else (True, (fold (\<lambda>f b. snd (try_send cap f b)) (butlast (ib_frames b)) (b\<lparr>ib_frames := []\<rparr>))\<lparr>ib_lost := True\<rparr>))"

definition ib_try_read :: "bool \<Rightarrow> ingress_buffer \<Rightarrow> terminal_ingress \<times> ingress_buffer" where
  "ib_try_read closed b =
     (if closed then (IngressClosed, b)
      else if ib_lost b \<and> \<not> ib_lost_reported b then (IngressLost, b\<lparr>ib_lost_reported := True\<rparr>)
      else case ib_frames b of
        f # fs \<Rightarrow> (IngressFrame f, b\<lparr>ib_frames := fs, ib_room := True\<rparr>)
      | [] \<Rightarrow> (IngressEmpty, b))"

section \<open>Schedules\<close>

text \<open>
  The transport stores, Core reads, and a close clears, each call whole.  The history: the
  frames accepted and the frames read since the buffer was last drained, the refusals that
  latched a loss and the losses reported since the latch was last reset, and whether the
  transport holds a frame that came back \<open>Full\<close> and waits for room.
\<close>

record ingress_world =
  iw_buffer :: ingress_buffer
  iw_accepted :: "frame list"
  iw_read :: "frame list"
  iw_refusals :: nat
  iw_losses :: nat
  iw_parked :: bool

datatype ingress_event =
    IvStore frame bool bool bool bool
  | IvPush frame bool bool bool bool bool
  | IvPartial frame
  | IvCompletePartial bool bool bool bool bool
  | IvRead
  | IvClear bool bool
  | IvRoom

definition answers :: "bool list \<Rightarrow> nat \<Rightarrow> bool" where
  "answers as n = (if n < length as then as ! n else True)"

definition iw_observe :: "ingress_admission option \<Rightarrow> frame \<Rightarrow> ingress_world \<Rightarrow> ingress_world" where
  "iw_observe obs bytes w =
     (case obs of
        Some AdmStored \<Rightarrow> w\<lparr>iw_accepted := iw_accepted w @ [bytes]\<rparr>
      | Some AdmLost \<Rightarrow> w\<lparr>iw_refusals := iw_refusals w + 1\<rparr>
      | None \<Rightarrow> w)"

definition iw_settle :: "bool \<Rightarrow> bool \<Rightarrow> ingress_buffer \<Rightarrow> ingress_world \<Rightarrow> ingress_world" where
  "iw_settle cleared fh b w =
     (if \<not> cleared then w\<lparr>iw_buffer := b\<rparr>
      else w\<lparr>iw_buffer := b, iw_accepted := (if fh then iw_accepted w else []),
             iw_read := (if fh then iw_read w else []), iw_refusals := 0, iw_losses := 0\<rparr>)"

fun ingress_exec :: "usize \<Rightarrow> (frame \<Rightarrow> bool) \<Rightarrow> ingress_event \<Rightarrow> ingress_world \<Rightarrow> ingress_world option" where
  "ingress_exec cap valid (IvStore bytes c0 c1 fh ph) w =
     (if iw_parked w then None
      else Some (case try_store cap valid (answers [c0, c1]) fh ph bytes (iw_buffer w) of
          (StoreStored, b) \<Rightarrow> iw_settle False fh b (iw_observe (Some AdmStored) bytes w)
        | (StoreFull _, b) \<Rightarrow> w\<lparr>iw_buffer := b, iw_parked := True\<rparr>
        | (StoreMalformed, b) \<Rightarrow> w\<lparr>iw_buffer := b\<rparr>
        | (StoreClosed, b) \<Rightarrow> iw_settle (\<not> c0) fh b (if c0 then w else iw_observe (Some AdmStored) bytes w)))"
| "ingress_exec cap valid (IvPush bytes c0 c1 c2 fh ph) w =
     Some (case push_complete_observed cap valid (answers [c0, c1, c2]) fh ph bytes (iw_buffer w) of
          (res, obs, b) \<Rightarrow> iw_settle (obs \<noteq> None \<and> c2) fh b (iw_observe obs bytes w))"
| "ingress_exec cap valid (IvPartial bytes) w = Some (w\<lparr>iw_buffer := store_partial bytes (iw_buffer w)\<rparr>)"
| "ingress_exec cap valid (IvCompletePartial c0 c1 c2 fh ph) w =
     Some (case ib_partial (iw_buffer w) of
             None \<Rightarrow> w\<lparr>iw_buffer := snd (complete_partial cap (answers [c0, c1, c2]) fh ph (iw_buffer w))\<rparr>
           | Some bytes \<Rightarrow>
               (let b = snd (complete_partial cap (answers [c0, c1, c2]) fh ph (iw_buffer w));
                    obs = fst (snd (store_complete_with_hooks cap (answers [c0, c1, c2]) fh ph bytes (iw_buffer w\<lparr>ib_partial := None\<rparr>)))
                in iw_settle (obs \<noteq> None \<and> c2) fh b (iw_observe obs bytes w)))"
| "ingress_exec cap valid IvRead w =
     Some (case ib_try_read False (iw_buffer w) of
             (IngressFrame f, b) \<Rightarrow> w\<lparr>iw_buffer := b, iw_read := iw_read w @ [f]\<rparr>
           | (IngressLost, b) \<Rightarrow> w\<lparr>iw_buffer := b, iw_losses := iw_losses w + 1\<rparr>
           | (_, b) \<Rightarrow> w\<lparr>iw_buffer := b\<rparr>)"
| "ingress_exec cap valid (IvClear fh ph) w = Some (iw_settle True fh (ib_clear fh ph (iw_buffer w)) w)"
| "ingress_exec cap valid IvRoom w =
     (if iw_parked w then map_option (\<lambda>b. w\<lparr>iw_buffer := b, iw_parked := False\<rparr>) (ib_await_room (iw_buffer w)) else None)"

definition ingress_world_new :: ingress_world where
  "ingress_world_new =
     \<lparr>iw_buffer = ingress_buffer_new, iw_accepted = [], iw_read = [], iw_refusals = 0, iw_losses = 0, iw_parked = False\<rparr>"

section \<open>Frames are read once and in order\<close>

definition ingress_ok :: "usize \<Rightarrow> ingress_world \<Rightarrow> bool" where
  "ingress_ok cap w \<longleftrightarrow>
     iw_accepted w = iw_read w @ ib_frames (iw_buffer w) \<and>
     length (ib_frames (iw_buffer w)) \<le> cap \<and>
     (0 < iw_refusals w) = ib_lost (iw_buffer w) \<and>
     (ib_lost_reported (iw_buffer w) \<longrightarrow> ib_lost (iw_buffer w)) \<and>
     iw_losses w = (if ib_lost_reported (iw_buffer w) then 1 else 0) \<and>
     (iw_parked w \<and> length (ib_frames (iw_buffer w)) < cap \<longrightarrow> ib_room (iw_buffer w))"

lemmas ingress_defs = try_send_def iw_observe_def iw_settle_def ib_clear_def answers_def Let_def

lemma cleared_ok:
  "iw_accepted w = iw_read w @ ib_frames b \<Longrightarrow> length (ib_frames b) \<le> cap \<Longrightarrow>
   ingress_ok cap (iw_settle True fh (ib_clear fh ph b) w)"
  by (cases fh) (simp_all add: ingress_ok_def iw_settle_def ib_clear_def)

lemma stored_ok:
  "ingress_ok cap w \<Longrightarrow> length (ib_frames (iw_buffer w)) < cap \<Longrightarrow>
   ingress_ok cap (iw_settle False fh (iw_buffer w\<lparr>ib_partial := p, ib_frames := ib_frames (iw_buffer w) @ [bytes]\<rparr>)
     (iw_observe (Some AdmStored) bytes w))"
  by (simp add: ingress_ok_def iw_settle_def iw_observe_def)

lemma refused_ok:
  "ingress_ok cap w \<Longrightarrow> \<not> length (ib_frames (iw_buffer w)) < cap \<Longrightarrow>
   ingress_ok cap (iw_settle False fh (iw_buffer w\<lparr>ib_partial := p, ib_lost := True\<rparr>) (iw_observe (Some AdmLost) bytes w))"
  by (simp add: ingress_ok_def iw_settle_def iw_observe_def)

lemma untouched_ok: "ingress_ok cap w \<Longrightarrow> ingress_ok cap (iw_settle False fh (iw_buffer w\<lparr>ib_partial := p\<rparr>) w)"
  by (simp add: ingress_ok_def iw_settle_def)

text \<open>The three outcomes of a complete store, by the answers of \<open>is_closed\<close> and by room.\<close>

lemma store_complete_with_hooks_cases:
  "store_complete_with_hooks cap (answers [c0, c1, c2]) fh ph bytes b =
     (if c0 \<or> c1 then (False, None, b)
      else if length (ib_frames b) < cap
      then (let b' = b\<lparr>ib_frames := ib_frames b @ [bytes]\<rparr> in (\<not> c2, Some AdmStored, if c2 then ib_clear fh ph b' else b'))
      else (let b' = b\<lparr>ib_lost := True\<rparr> in (\<not> c2, Some AdmLost, if c2 then ib_clear fh ph b' else b')))"
  by (simp add: store_complete_with_hooks_def try_send_def answers_def Let_def)

lemma store_complete_with_hooks_keeps:
  assumes ok: "ingress_ok cap w" and b0: "b0 = iw_buffer w\<lparr>ib_partial := p\<rparr>"
    and run: "store_complete_with_hooks cap (answers [c0, c1, c2]) fh ph bytes b0 = (wake, obs, b)"
  shows "ingress_ok cap (iw_settle (obs \<noteq> None \<and> c2) fh b (iw_observe obs bytes w))"
proof -
  have acc: "iw_accepted w = iw_read w @ ib_frames (iw_buffer w)" "length (ib_frames (iw_buffer w)) \<le> cap"
    using ok by (simp_all add: ingress_ok_def)
  consider "c0 \<or> c1" | "\<not> (c0 \<or> c1)" "length (ib_frames (iw_buffer w)) < cap"
    | "\<not> (c0 \<or> c1)" "\<not> length (ib_frames (iw_buffer w)) < cap" by blast
  then show ?thesis
  proof cases
    case 1
    then have "obs = None" "b = b0" using run by (simp_all add: store_complete_with_hooks_cases)
    then show ?thesis using untouched_ok [OF ok] b0 by (simp add: iw_observe_def)
  next
    case 2
    then have "obs = Some AdmStored"
      "b = (if c2 then ib_clear fh ph (b0\<lparr>ib_frames := ib_frames b0 @ [bytes]\<rparr>) else b0\<lparr>ib_frames := ib_frames b0 @ [bytes]\<rparr>)"
      using run b0 by (auto simp: store_complete_with_hooks_cases Let_def)
    moreover have "ingress_ok cap (iw_settle True fh (ib_clear fh ph (b0\<lparr>ib_frames := ib_frames b0 @ [bytes]\<rparr>))
        (iw_observe (Some AdmStored) bytes w))"
      by (rule cleared_ok) (use 2 acc b0 in \<open>simp_all add: iw_observe_def\<close>)
    ultimately show ?thesis using stored_ok [OF ok 2(2)] b0 by (cases c2) simp_all
  next
    case 3
    then have "obs = Some AdmLost" "b = (if c2 then ib_clear fh ph (b0\<lparr>ib_lost := True\<rparr>) else b0\<lparr>ib_lost := True\<rparr>)"
      using run b0 by (auto simp: store_complete_with_hooks_cases Let_def)
    moreover have "ingress_ok cap (iw_settle True fh (ib_clear fh ph (b0\<lparr>ib_lost := True\<rparr>)) (iw_observe (Some AdmLost) bytes w))"
      by (rule cleared_ok) (use acc b0 in \<open>simp_all add: iw_observe_def\<close>)
    ultimately show ?thesis using refused_ok [OF ok 3(2)] b0 by (cases c2) simp_all
  qed
qed

lemma try_store_keeps:
  assumes ok: "ingress_ok cap w" and run: "ingress_exec cap valid (IvStore bytes c0 c1 fh ph) w = Some w'"
  shows "ingress_ok cap w'"
proof -
  let ?b = "iw_buffer w\<lparr>ib_frames := ib_frames (iw_buffer w) @ [bytes]\<rparr>"
  have acc: "iw_accepted w = iw_read w @ ib_frames (iw_buffer w)" "length (ib_frames (iw_buffer w)) \<le> cap"
    using ok by (simp_all add: ingress_ok_def)
  have stored: "ingress_ok cap (iw_settle False fh ?b (iw_observe (Some AdmStored) bytes w))"
    if room: "length (ib_frames (iw_buffer w)) < cap"
    using stored_ok [OF ok room, where p = "ib_partial (iw_buffer w)"] by simp
  have cleared: "ingress_ok cap (iw_settle True fh (ib_clear fh ph ?b) (iw_observe (Some AdmStored) bytes w))"
    if room: "length (ib_frames (iw_buffer w)) < cap"
    by (rule cleared_ok) (use room acc in \<open>simp_all add: iw_observe_def\<close>)
  have full: "ingress_ok cap (w\<lparr>iw_parked := True\<rparr>)" if "\<not> length (ib_frames (iw_buffer w)) < cap"
    using ok that by (simp add: ingress_ok_def)
  show ?thesis
    using run ok stored cleared full
    by (auto simp: try_store_def answers_def try_send_def iw_settle_def [of False] split: if_splits)
qed

lemma complete_partial_keeps:
  assumes "ingress_ok cap w" and "ib_partial (iw_buffer w) = Some bytes"
    and "obs = fst (snd (store_complete_with_hooks cap (answers [c0, c1, c2]) fh ph bytes (iw_buffer w\<lparr>ib_partial := None\<rparr>)))"
  shows "ingress_ok cap (iw_settle (obs \<noteq> None \<and> c2) fh
           (snd (complete_partial cap (answers [c0, c1, c2]) fh ph (iw_buffer w))) (iw_observe obs bytes w))"
proof -
  let ?b = "iw_buffer w\<lparr>ib_partial := None\<rparr>"
  obtain wake obs' b where run: "store_complete_with_hooks cap (answers [c0, c1, c2]) fh ph bytes ?b = (wake, obs', b)"
    by (cases "store_complete_with_hooks cap (answers [c0, c1, c2]) fh ph bytes ?b") auto
  moreover have "snd (complete_partial cap (answers [c0, c1, c2]) fh ph (iw_buffer w)) = b"
    using run assms(2) by (simp add: complete_partial_def store_complete_def)
  ultimately show ?thesis using store_complete_with_hooks_keeps [OF assms(1) refl run] assms(3) by simp
qed

lemma ingress_exec_keeps:
  assumes "ingress_exec cap valid e w = Some w'" and "ingress_ok cap w"
  shows "ingress_ok cap w'"
proof (cases e)
  case (IvStore bytes c0 c1 fh ph)
  with assms try_store_keeps show ?thesis by blast
next
  case (IvPush bytes c0 c1 c2 fh ph)
  have same: "iw_buffer w = iw_buffer w\<lparr>ib_partial := ib_partial (iw_buffer w)\<rparr>" by simp
  obtain wake obs b where run: "store_complete_with_hooks cap (answers [c0, c1, c2]) fh ph bytes (iw_buffer w) = (wake, obs, b)"
    by (cases "store_complete_with_hooks cap (answers [c0, c1, c2]) fh ph bytes (iw_buffer w)") auto
  show ?thesis
    using IvPush assms store_complete_with_hooks_keeps [OF assms(2) same run]
    by (auto simp: push_complete_observed_def run iw_settle_def iw_observe_def split: if_splits)
next
  case (IvCompletePartial c0 c1 c2 fh ph)
  show ?thesis
  proof (cases "ib_partial (iw_buffer w)")
    case None
    with IvCompletePartial assms show ?thesis by (auto simp: complete_partial_def)
  next
    case (Some bytes)
    with IvCompletePartial assms(1) complete_partial_keeps [OF assms(2) Some refl, of c0 c1 c2 fh ph] show ?thesis
      by (simp add: Let_def del: not_None_eq)
  qed
next
  case IvRead
  with assms show ?thesis
    by (auto simp: ib_try_read_def ingress_ok_def split: list.splits if_splits)
next
  case (IvClear fh ph)
  have "ingress_ok cap (iw_settle True fh (ib_clear fh ph (iw_buffer w)) w)"
    by (rule cleared_ok) (use assms(2) in \<open>simp_all add: ingress_ok_def\<close>)
  with IvClear assms(1) show ?thesis by simp
qed (use assms in \<open>auto simp: ingress_ok_def store_partial_def ib_await_room_def split: if_splits\<close>)

interpretation ingress: event_invariant "ingress_exec cap valid" "ingress_ok cap" for cap valid
  using ingress_exec_keeps by unfold_locales

lemma ingress_reachable:
  assumes "run_events (ingress_exec cap valid) es ingress_world_new = Some w"
  shows "ingress_ok cap w"
  by (rule ingress.inv_run [OF assms]) (simp add: ingress_ok_def ingress_world_new_def ingress_buffer_new_def)

text \<open>\<open>drop_one_complete\<close> keeps every other frame in order, because the refill never meets a full channel.\<close>

lemma refill: "length (ib_frames b) + length fs \<le> cap \<Longrightarrow>
   fold (\<lambda>f b. snd (try_send cap f b)) fs b = b\<lparr>ib_frames := ib_frames b @ fs\<rparr>"
  by (induction fs arbitrary: b) (auto simp: try_send_def)

lemma drop_one_complete_effect:
  "length (ib_frames b) \<le> cap \<Longrightarrow> ib_frames b \<noteq> [] \<Longrightarrow>
   drop_one_complete cap b = (True, b\<lparr>ib_frames := butlast (ib_frames b), ib_lost := True\<rparr>)"
  by (subst drop_one_complete_def) (simp add: refill)

section \<open>Properties\<close>

text \<open>C33. Input is neither lost silently nor reordered.  After any schedule of stores, pushes, partial
  frames, reads and clears, the frames the buffer accepted since it was last drained are
  exactly the frames Core has read followed by the frames still buffered, in order, and at
  most \<open>cap\<close> are buffered.  However many frames were refused since the loss latch was last
  reset, they are reported by one \<open>Lost\<close>: it is reported only if there was a refusal, and
  while it is outstanding the next read reports it before any frame.\<close>

theorem ingress_exactly_once:
  assumes "run_events (ingress_exec cap valid) es ingress_world_new = Some w"
  shows "iw_accepted w = iw_read w @ ib_frames (iw_buffer w) \<and> length (ib_frames (iw_buffer w)) \<le> cap \<and>
    iw_losses w \<le> 1 \<and> (iw_losses w = 1 \<longrightarrow> 0 < iw_refusals w) \<and>
    (0 < iw_refusals w \<and> iw_losses w = 0 \<longrightarrow> fst (ib_try_read False (iw_buffer w)) = IngressLost)"
  using ingress_reachable [OF assms] by (auto simp: ingress_ok_def ib_try_read_def)

definition lossy_schedule :: "ingress_event list" where
  "lossy_schedule =
     [IvStore [1] False False False False, IvPush [2] False False False False False,
      IvPush [3] False False False False False, IvRead, IvRead]"

theorem ingress_exactly_once_witness:
  "\<exists>w. run_events (ingress_exec 1 (\<lambda>_. True)) lossy_schedule ingress_world_new = Some w \<and>
     iw_accepted w = [[1]] \<and> iw_read w = [[1]] \<and> iw_losses w = 1 \<and> iw_refusals w = 2 \<and>
     length (ib_frames (iw_buffer w)) \<le> 1"
proof -
  obtain w where run: "run_events (ingress_exec 1 (\<lambda>_. True)) lossy_schedule ingress_world_new = Some w"
    and facts: "iw_accepted w = [[1]]" "iw_read w = [[1]]" "iw_losses w = 1" "iw_refusals w = 2"
    by (simp add: lossy_schedule_def ingress_world_new_def ingress_buffer_new_def try_store_def
        push_complete_observed_def store_complete_with_hooks_def ib_try_read_def ingress_defs)
  from ingress_exactly_once [OF run] facts run show ?thesis by blast
qed

text \<open>C34. A transport that was handed its frame back is never left waiting beside free room.  Whenever it
  is parked and a frame would fit, the permit of a removal or of a clear is stored, so its wait
  goes through, and the store it then retries on an open route succeeds.\<close>

theorem ingress_room_never_missed:
  assumes "run_events (ingress_exec cap valid) es ingress_world_new = Some w"
    and "iw_parked w" and "length (ib_frames (iw_buffer w)) < cap" and "valid bytes"
  shows "\<exists>w'. ingress_exec cap valid IvRoom w = Some w' \<and>
    fst (try_store cap valid (\<lambda>_. False) fh ph bytes (iw_buffer w')) = StoreStored"
  using ingress_reachable [OF assms(1)] assms(2-)
  by (auto simp: ingress_ok_def ib_await_room_def try_store_def try_send_def)

theorem ingress_room_never_missed_witness:
  "\<exists>w w'. run_events (ingress_exec 1 (\<lambda>_. True))
       [IvStore [1] False False False False, IvStore [2] False False False False, IvRead] ingress_world_new = Some w \<and>
     iw_parked w \<and> ingress_exec 1 (\<lambda>_. True) IvRoom w = Some w' \<and>
     fst (try_store 1 (\<lambda>_. True) (\<lambda>_. False) False False [2] (iw_buffer w')) = StoreStored"
proof -
  obtain w where run: "run_events (ingress_exec 1 (\<lambda>_. True))
       [IvStore [1] False False False False, IvStore [2] False False False False, IvRead] ingress_world_new = Some w"
    and facts: "iw_parked w" "length (ib_frames (iw_buffer w)) < 1"
    by (simp add: ingress_world_new_def ingress_buffer_new_def try_store_def ib_try_read_def ingress_defs)
  from ingress_room_never_missed [OF run facts, where bytes = "[2]" and fh = False and ph = False] run facts show ?thesis by auto
qed

end
