(* ===== verification/Adapter_Slot.thy ===== *)
theory Adapter_Slot
  imports Close_Cause Ingress_Buffer
begin

text \<open>
  \<open>transport/shared/adapter_slot.rs\<close>: the one in-flight write slot of a terminal adapter, with
  its close cause, its ingress buffer and the wakes it sends.  The routed frame is opaque, a
  type parameter.  Core's calls only try the slot mutex, and the flags \<open>held\<close>, \<open>held_again\<close> are
  the answers of \<open>try_lock\<close>; transport drivers wait for it.  No holder can panic (each clones,
  stores or takes an \<open>Option\<close>), so the mutex is never poisoned.

  The calls here run whole; \<open>Slot_Race\<close> interleaves them.  What an adapter sends out is kept as
  logs: the wakes given to Core's sink, the wakes of the transport writer, and the reports given
  to the close hook.
\<close>

section \<open>State\<close>

datatype terminal_wake_kind = Writable | ClosedWake

datatype adapter_pressure = PressureClosed | PressureFull | PressureWouldBlock | PressureReady

datatype adapter_write_error = WriteClosed | WriteWouldBlock | WriteFull

record 'f adapter_slot =
  as_cause :: "8 word"
  as_would_block :: bool
  as_slot :: "'f option"
  as_occupied :: bool
  as_writer_waiting :: bool
  as_close_work :: bool
  as_close_hook :: bool
  as_core_sink :: bool
  as_closed_woke :: bool
  as_ingress :: ingress_buffer
  as_core_wakes :: "terminal_wake_kind list"
  as_transport_wakes :: nat
  as_reports :: "close_report list"

definition with_wake_and_close_work :: "bool \<Rightarrow> 'f adapter_slot" where
  "with_wake_and_close_work close_work =
     \<lparr>as_cause = close_cause_new, as_would_block = False, as_slot = None, as_occupied = False,
      as_writer_waiting = False, as_close_work = close_work, as_close_hook = False, as_core_sink = False,
      as_closed_woke = False, as_ingress = ingress_buffer_new,
      as_core_wakes = [], as_transport_wakes = 0, as_reports = []\<rparr>"

section \<open>Wakes and close\<close>

definition as_is_closed :: "'f adapter_slot \<Rightarrow> bool" where
  "as_is_closed a = cc_is_closed (as_cause a)"

definition as_host_closed :: "'f adapter_slot \<Rightarrow> bool" where
  "as_host_closed a = cc_host_closed (as_cause a)"

definition core_close_reason :: "'f adapter_slot \<Rightarrow> route_close_reason option" where
  "core_close_reason a = cc_core_reason (as_cause a)"

definition transport_wake :: "'f adapter_slot \<Rightarrow> 'f adapter_slot" where
  "transport_wake a = a\<lparr>as_transport_wakes := as_transport_wakes a + 1\<rparr>"

definition emit_writable :: "'f adapter_slot \<Rightarrow> 'f adapter_slot" where
  "emit_writable a =
     (if as_is_closed a then a
      else if as_core_sink a then a\<lparr>as_core_wakes := as_core_wakes a @ [Writable]\<rparr> else a)"

definition notify_writable :: "'f adapter_slot \<Rightarrow> 'f adapter_slot" where
  "notify_writable a = transport_wake (emit_writable a)"

definition emit_closed :: "'f adapter_slot \<Rightarrow> 'f adapter_slot" where
  "emit_closed a =
     (if as_closed_woke a then a
      else let a = a\<lparr>as_closed_woke := True\<rparr>
        in if as_core_sink a then a\<lparr>as_core_wakes := as_core_wakes a @ [ClosedWake]\<rparr> else a)"

definition set_wake_sink :: "'f adapter_slot \<Rightarrow> 'f adapter_slot" where
  "set_wake_sink a = emit_writable (a\<lparr>as_core_sink := True\<rparr>)"

definition attach_close_hook :: "'f adapter_slot \<Rightarrow> 'f adapter_slot" where
  "attach_close_hook a = a\<lparr>as_close_hook := True\<rparr>"

definition run_close_hook :: "'f adapter_slot \<Rightarrow> 'f adapter_slot" where
  "run_close_hook a = (if as_close_hook a then a\<lparr>as_reports := as_reports a @ [cc_report (as_cause a)]\<rparr> else a)"

definition empty_slot :: "'f adapter_slot \<Rightarrow> 'f adapter_slot" where
  "empty_slot a = a\<lparr>as_slot := None, as_occupied := False\<rparr>"

definition as_close :: "bool \<Rightarrow> bool \<Rightarrow> bool \<Rightarrow> 'f adapter_slot \<Rightarrow> 'f adapter_slot" where
  "as_close held fh ph a =
     (let a = a\<lparr>as_cause := commit_first (close_byte CloseUnspecified) (as_cause a)\<rparr>;
          a = a\<lparr>as_close_work := True, as_ingress := ib_clear fh ph (as_ingress a)\<rparr>;
          a = (if held then a else empty_slot a)
      in transport_wake (run_close_hook (emit_closed a)))"

definition close_from_host :: "bool \<Rightarrow> bool \<Rightarrow> bool \<Rightarrow> 'f adapter_slot \<Rightarrow> 'f adapter_slot" where
  "close_from_host held fh ph a =
     as_close held fh ph (a\<lparr>as_cause := commit_first (close_byte CloseFromHost) (as_cause a)\<rparr>)"

definition close_from_core :: "route_close_reason \<Rightarrow> bool \<Rightarrow> bool \<Rightarrow> bool \<Rightarrow> 'f adapter_slot \<Rightarrow> 'f adapter_slot" where
  "close_from_core reason held fh ph a =
     as_close held fh ph (a\<lparr>as_cause := commit_first (close_byte (CloseFromCore reason)) (as_cause a)\<rparr>)"

definition set_would_block :: "bool \<Rightarrow> 'f adapter_slot \<Rightarrow> 'f adapter_slot" where
  "set_would_block pressured a =
     (let a = a\<lparr>as_would_block := pressured\<rparr> in if pressured then a else transport_wake (emit_writable a))"

section \<open>Core's calls\<close>

definition pressure :: "'f adapter_slot \<Rightarrow> adapter_pressure" where
  "pressure a =
     (if as_is_closed a then PressureClosed
      else if as_occupied a then PressureFull
      else if as_would_block a then PressureWouldBlock
      else PressureReady)"

text \<open>The part of \<open>try_write\<close> that runs with the slot mutex.\<close>

definition write_locked :: "'f \<Rightarrow> 'f adapter_slot \<Rightarrow> (adapter_write_error + unit) \<times> 'f adapter_slot" where
  "write_locked frame a =
     (if as_is_closed a then (Inl WriteClosed, empty_slot a)
      else if as_slot a \<noteq> None then (Inl WriteFull, a)
      else (Inr (), transport_wake (a\<lparr>as_slot := Some frame, as_occupied := True\<rparr>)))"

definition as_try_write :: "bool \<Rightarrow> bool \<Rightarrow> 'f \<Rightarrow> 'f adapter_slot \<Rightarrow> (adapter_write_error + unit) \<times> 'f adapter_slot" where
  "as_try_write held held_again frame a =
     (if as_is_closed a then (Inl WriteClosed, a)
      else if as_would_block a then (Inl WriteWouldBlock, a)
      else if \<not> held then write_locked frame a
      else let a = a\<lparr>as_writer_waiting := True\<rparr>
        in if held_again then (Inl WriteFull, a)
           else write_locked frame (a\<lparr>as_writer_waiting := False\<rparr>))"

definition as_try_read :: "'f adapter_slot \<Rightarrow> terminal_ingress \<times> 'f adapter_slot" where
  "as_try_read a = (case ib_try_read (as_is_closed a) (as_ingress a) of (r, b) \<Rightarrow> (r, a\<lparr>as_ingress := b\<rparr>))"

section \<open>Ingress of the transport\<close>

definition try_push_ingress ::
  "usize \<Rightarrow> (frame \<Rightarrow> bool) \<Rightarrow> bool \<Rightarrow> bool \<Rightarrow> bool \<Rightarrow> frame \<Rightarrow> 'f adapter_slot \<Rightarrow> ingress_store \<times> 'f adapter_slot"
where
  "try_push_ingress cap valid held fh ph bytes a =
     (if as_is_closed a then (StoreClosed, a)
      else case try_store cap valid (\<lambda>_. as_is_closed a) fh ph bytes (as_ingress a) of
        (stored, b) \<Rightarrow>
          let a = a\<lparr>as_ingress := b\<rparr>
          in (stored, case stored of
                StoreStored \<Rightarrow> emit_writable a
              | StoreMalformed \<Rightarrow> as_close held fh ph a
              | StoreFull _ \<Rightarrow> a
              | StoreClosed \<Rightarrow> a))"

definition inject_ingress_frame :: "usize \<Rightarrow> bool \<Rightarrow> bool \<Rightarrow> frame \<Rightarrow> 'f adapter_slot \<Rightarrow> 'f adapter_slot" where
  "inject_ingress_frame cap fh ph bytes a =
     (if as_is_closed a then a
      else case store_complete cap (\<lambda>_. as_is_closed a) fh ph bytes (as_ingress a) of
        (wake, b) \<Rightarrow> let a = a\<lparr>as_ingress := b\<rparr> in if wake then emit_writable a else a)"

definition inject_ingress_partial :: "frame \<Rightarrow> 'f adapter_slot \<Rightarrow> 'f adapter_slot" where
  "inject_ingress_partial bytes a =
     (if as_is_closed a then a else a\<lparr>as_ingress := store_partial bytes (as_ingress a)\<rparr>)"

definition complete_ingress_partial :: "usize \<Rightarrow> bool \<Rightarrow> bool \<Rightarrow> 'f adapter_slot \<Rightarrow> 'f adapter_slot" where
  "complete_ingress_partial cap fh ph a =
     (if as_is_closed a then a
      else case complete_partial cap (\<lambda>_. as_is_closed a) fh ph (as_ingress a) of
        (wake, b) \<Rightarrow> let a = a\<lparr>as_ingress := b\<rparr> in if wake then emit_writable a else a)"

definition drop_buffered_ingress_frame :: "usize \<Rightarrow> 'f adapter_slot \<Rightarrow> 'f adapter_slot" where
  "drop_buffered_ingress_frame cap a =
     (if as_is_closed a then a
      else case drop_one_complete cap (as_ingress a) of
        (dropped, b) \<Rightarrow> let a = a\<lparr>as_ingress := b\<rparr> in if dropped then emit_writable a else a)"

section \<open>Transport drivers\<close>

definition guard_set :: "'f option \<Rightarrow> 'f adapter_slot \<Rightarrow> 'f adapter_slot" where
  "guard_set frame a = a\<lparr>as_occupied := (frame \<noteq> None), as_slot := frame\<rparr>"

definition guard_take :: "'f adapter_slot \<Rightarrow> 'f option \<times> 'f adapter_slot" where
  "guard_take a = (as_slot a, a\<lparr>as_slot := None, as_occupied := False\<rparr>)"

definition guard_drop :: "'f adapter_slot \<Rightarrow> 'f adapter_slot" where
  "guard_drop a =
     (let a' = a\<lparr>as_writer_waiting := False\<rparr> in if as_writer_waiting a then notify_writable a' else a')"

definition snapshot_active :: "'f adapter_slot \<Rightarrow> 'f option \<times> 'f adapter_slot" where
  "snapshot_active a =
     (if as_is_closed a then (None, guard_drop (guard_set None a)) else (as_slot a, guard_drop a))"

definition complete_active :: "'f adapter_slot \<Rightarrow> 'f option \<times> 'f adapter_slot" where
  "complete_active a =
     (if as_is_closed a then (None, a)
      else let (taken, a) = (if as_is_closed a then (None, guard_set None a) else guard_take a);
               a = guard_drop a;
               a = (if taken \<noteq> None then emit_writable a else a)
           in (taken, transport_wake a))"

section \<open>Schedules\<close>

record 'f slot_world =
  sw_slot :: "'f adapter_slot"
  sw_accepted :: "'f list"
  sw_completed :: "'f list"
  sw_first :: "close_call option"

datatype 'f slot_event =
    SvWrite 'f bool bool
  | SvSnapshot
  | SvComplete
  | SvBlock bool
  | SvClose close_call bool bool bool
  | SvSink
  | SvHook
  | SvRead
  | SvPush frame bool bool bool
  | SvInject frame bool bool
  | SvPartial frame
  | SvCompletePartial bool bool
  | SvDrop

fun slot_close :: "close_call \<Rightarrow> bool \<Rightarrow> bool \<Rightarrow> bool \<Rightarrow> 'f adapter_slot \<Rightarrow> 'f adapter_slot" where
  "slot_close CloseUnspecified held fh ph a = as_close held fh ph a"
| "slot_close CloseFromHost held fh ph a = close_from_host held fh ph a"
| "slot_close (CloseFromCore r) held fh ph a = close_from_core r held fh ph a"

definition sw_put :: "'f adapter_slot \<Rightarrow> close_call \<Rightarrow> 'f slot_world \<Rightarrow> 'f slot_world" where
  "sw_put a call w =
     w\<lparr>sw_slot := a, sw_first := (if sw_first w = None \<and> as_is_closed a then Some call else sw_first w)\<rparr>"

fun slot_exec :: "usize \<Rightarrow> (frame \<Rightarrow> bool) \<Rightarrow> 'f slot_event \<Rightarrow> 'f slot_world \<Rightarrow> 'f slot_world option" where
  "slot_exec cap valid (SvWrite f h1 h2) w =
     Some (case as_try_write h1 h2 f (sw_slot w) of
             (Inr _, a) \<Rightarrow> w\<lparr>sw_slot := a, sw_accepted := sw_accepted w @ [f]\<rparr>
           | (Inl _, a) \<Rightarrow> w\<lparr>sw_slot := a\<rparr>)"
| "slot_exec cap valid SvSnapshot w = Some (w\<lparr>sw_slot := snd (snapshot_active (sw_slot w))\<rparr>)"
| "slot_exec cap valid SvComplete w =
     Some (case complete_active (sw_slot w) of
             (Some f, a) \<Rightarrow> w\<lparr>sw_slot := a, sw_completed := sw_completed w @ [f]\<rparr>
           | (None, a) \<Rightarrow> w\<lparr>sw_slot := a\<rparr>)"
| "slot_exec cap valid (SvBlock p) w = Some (w\<lparr>sw_slot := set_would_block p (sw_slot w)\<rparr>)"
| "slot_exec cap valid (SvClose call held fh ph) w = Some (sw_put (slot_close call held fh ph (sw_slot w)) call w)"
| "slot_exec cap valid SvSink w = Some (w\<lparr>sw_slot := set_wake_sink (sw_slot w)\<rparr>)"
| "slot_exec cap valid SvHook w = Some (w\<lparr>sw_slot := attach_close_hook (sw_slot w)\<rparr>)"
| "slot_exec cap valid SvRead w = Some (w\<lparr>sw_slot := snd (as_try_read (sw_slot w))\<rparr>)"
| "slot_exec cap valid (SvPush bytes held fh ph) w =
     Some (sw_put (snd (try_push_ingress cap valid held fh ph bytes (sw_slot w))) CloseUnspecified w)"
| "slot_exec cap valid (SvInject bytes fh ph) w = Some (w\<lparr>sw_slot := inject_ingress_frame cap fh ph bytes (sw_slot w)\<rparr>)"
| "slot_exec cap valid (SvPartial bytes) w = Some (w\<lparr>sw_slot := inject_ingress_partial bytes (sw_slot w)\<rparr>)"
| "slot_exec cap valid (SvCompletePartial fh ph) w = Some (w\<lparr>sw_slot := complete_ingress_partial cap fh ph (sw_slot w)\<rparr>)"
| "slot_exec cap valid SvDrop w = Some (w\<lparr>sw_slot := drop_buffered_ingress_frame cap (sw_slot w)\<rparr>)"

definition slot_world_new :: "'f slot_world" where
  "slot_world_new =
     \<lparr>sw_slot = with_wake_and_close_work False, sw_accepted = [], sw_completed = [], sw_first = None\<rparr>"

section \<open>What each call leaves of the slot\<close>

lemma transport_wake_fields [simp]:
  "as_cause (transport_wake a) = as_cause a" "as_slot (transport_wake a) = as_slot a"
  "as_occupied (transport_wake a) = as_occupied a" "as_closed_woke (transport_wake a) = as_closed_woke a"
  "as_core_wakes (transport_wake a) = as_core_wakes a" "as_reports (transport_wake a) = as_reports a"
  "as_close_work (transport_wake a) = as_close_work a" "as_core_sink (transport_wake a) = as_core_sink a"
  by (simp_all add: transport_wake_def)

lemma emit_writable_fields [simp]:
  "as_cause (emit_writable a) = as_cause a" "as_slot (emit_writable a) = as_slot a"
  "as_occupied (emit_writable a) = as_occupied a" "as_closed_woke (emit_writable a) = as_closed_woke a"
  "as_reports (emit_writable a) = as_reports a" "as_close_work (emit_writable a) = as_close_work a"
  "as_core_sink (emit_writable a) = as_core_sink a"
  by (simp_all add: emit_writable_def)

lemma guard_drop_fields [simp]:
  "as_cause (guard_drop a) = as_cause a" "as_slot (guard_drop a) = as_slot a"
  "as_occupied (guard_drop a) = as_occupied a" "as_closed_woke (guard_drop a) = as_closed_woke a"
  "as_reports (guard_drop a) = as_reports a" "as_close_work (guard_drop a) = as_close_work a"
  "as_core_sink (guard_drop a) = as_core_sink a"
  by (simp_all add: guard_drop_def notify_writable_def Let_def)

lemma emit_closed_fields [simp]:
  "as_cause (emit_closed a) = as_cause a" "as_slot (emit_closed a) = as_slot a"
  "as_occupied (emit_closed a) = as_occupied a" "as_closed_woke (emit_closed a)"
  "as_reports (emit_closed a) = as_reports a" "as_close_work (emit_closed a) = as_close_work a"
  by (simp_all add: emit_closed_def Let_def)

lemma run_close_hook_fields [simp]:
  "as_cause (run_close_hook a) = as_cause a" "as_slot (run_close_hook a) = as_slot a"
  "as_occupied (run_close_hook a) = as_occupied a" "as_closed_woke (run_close_hook a) = as_closed_woke a"
  "as_core_wakes (run_close_hook a) = as_core_wakes a" "as_close_work (run_close_hook a) = as_close_work a"
  by (simp_all add: run_close_hook_def)

text \<open>Every close commits its own byte if none is committed yet, and then empties the slot unless it is held.\<close>

lemma commit_first_close_byte [simp]: "commit_first (close_byte call) s \<noteq> OPEN"
  by (simp add: commit_first_def close_byte_not_open)

lemma commit_first_twice [simp]: "commit_first c (commit_first (close_byte call) s) = commit_first (close_byte call) s"
  by (subst commit_first_def) simp

lemma slot_close_as_close:
  "slot_close call held fh ph a = as_close held fh ph (a\<lparr>as_cause := commit_first (close_byte call) (as_cause a)\<rparr>)"
proof (cases call)
  case CloseUnspecified
  then show ?thesis by (simp add: as_close_def Let_def commit_first_def close_bytes)
qed (simp_all add: close_from_host_def close_from_core_def)

lemma slot_close_fields:
  "as_cause (slot_close call held fh ph a) = commit_first (close_byte call) (as_cause a)"
  "as_slot (slot_close call held fh ph a) = (if held then as_slot a else None)"
  "as_occupied (slot_close call held fh ph a) = (held \<and> as_occupied a)"
  "as_closed_woke (slot_close call held fh ph a)" "as_close_work (slot_close call held fh ph a)"
  by (simp_all add: slot_close_as_close as_close_def empty_slot_def Let_def del: commit_first_close_byte)

lemma slot_close_closed: "as_is_closed (slot_close call held fh ph a)"
  by (simp add: as_is_closed_def cc_is_closed_def slot_close_fields)

text \<open>The calls on the ingress side leave the slot alone; only a malformed frame closes.\<close>

definition same_slot :: "'f adapter_slot \<Rightarrow> 'f adapter_slot \<Rightarrow> bool" where
  "same_slot a b \<longleftrightarrow> as_cause b = as_cause a \<and> as_slot b = as_slot a \<and> as_occupied b = as_occupied a"

lemma same_slot_calls:
  "same_slot a (set_would_block p a)" "same_slot a (set_wake_sink a)" "same_slot a (attach_close_hook a)"
  "same_slot a (snd (as_try_read a))" "same_slot a (inject_ingress_frame cap fh ph bytes a)"
  "same_slot a (inject_ingress_partial bytes a)" "same_slot a (complete_ingress_partial cap fh ph a)"
  "same_slot a (drop_buffered_ingress_frame cap a)"
  by (simp_all add: same_slot_def set_would_block_def set_wake_sink_def attach_close_hook_def as_try_read_def
      inject_ingress_frame_def inject_ingress_partial_def complete_ingress_partial_def
      drop_buffered_ingress_frame_def Let_def split: prod.splits)

lemma try_push_ingress_cases:
  obtains (same) "same_slot a (snd (try_push_ingress cap valid held fh ph bytes a))"
      and "as_core_wakes (snd (try_push_ingress cap valid held fh ph bytes a)) \<in> {as_core_wakes a, as_core_wakes (emit_writable a)}"
      and "as_closed_woke (snd (try_push_ingress cap valid held fh ph bytes a)) = as_closed_woke a"
      and "as_reports (snd (try_push_ingress cap valid held fh ph bytes a)) = as_reports a"
      and "as_close_work (snd (try_push_ingress cap valid held fh ph bytes a)) = as_close_work a"
  | (malformed) "\<not> as_is_closed a"
      and "snd (try_push_ingress cap valid held fh ph bytes a) = slot_close CloseUnspecified held fh ph a"
proof (cases "as_is_closed a \<or> valid bytes")
  case True
  then show thesis
    by (intro same) (auto simp: try_push_ingress_def try_store_def try_send_def same_slot_def emit_writable_def
        as_is_closed_def Let_def)
next
  case False
  then show thesis by (intro malformed) (auto simp: try_push_ingress_def try_store_def Let_def)
qed

section \<open>A write is carried once\<close>

definition slot_ok :: "'f slot_world \<Rightarrow> bool" where
  "slot_ok w \<longleftrightarrow>
     as_occupied (sw_slot w) = (as_slot (sw_slot w) \<noteq> None) \<and>
     (\<exists>rest. sw_accepted w = sw_completed w @ rest \<and> length rest \<le> 1 \<and>
        (\<forall>f. as_slot (sw_slot w) = Some f \<longrightarrow> rest = [f]) \<and>
        (\<not> as_is_closed (sw_slot w) \<and> as_slot (sw_slot w) = None \<longrightarrow> rest = []))"

lemma slot_ok_same: "slot_ok w \<Longrightarrow> same_slot (sw_slot w) a \<Longrightarrow> slot_ok (w\<lparr>sw_slot := a\<rparr>)"
  by (simp add: slot_ok_def same_slot_def as_is_closed_def)

lemma slot_ok_put: "slot_ok (w\<lparr>sw_slot := a\<rparr>) \<Longrightarrow> slot_ok (sw_put a call w)"
  by (simp add: slot_ok_def sw_put_def)

text \<open>A closed adapter may drop the frame it holds.\<close>

lemma slot_ok_emptied:
  "slot_ok w \<Longrightarrow> as_is_closed a \<Longrightarrow> as_slot a = None \<Longrightarrow> \<not> as_occupied a \<Longrightarrow> slot_ok (w\<lparr>sw_slot := a\<rparr>)"
  by (auto simp: slot_ok_def)

lemma slot_ok_close: "slot_ok w \<Longrightarrow> slot_ok (w\<lparr>sw_slot := slot_close call held fh ph (sw_slot w)\<rparr>)"
  using slot_close_closed [of call held fh ph "sw_slot w"]
  by (auto simp: slot_ok_def slot_close_fields)

lemma try_write_keeps: "slot_ok w \<Longrightarrow> slot_exec cap valid (SvWrite f h1 h2) w = Some w' \<Longrightarrow> slot_ok w'"
  by (auto simp: slot_ok_def as_try_write_def write_locked_def empty_slot_def as_is_closed_def Let_def split: if_splits)

lemma complete_active_keeps: "slot_ok w \<Longrightarrow> slot_exec cap valid SvComplete w = Some w' \<Longrightarrow> slot_ok w'"
  by (cases "as_slot (sw_slot w)")
    (auto simp: slot_ok_def complete_active_def guard_take_def as_is_closed_def Let_def split: if_splits)

lemma slot_exec_keeps:
  assumes run: "slot_exec cap valid e w = Some w'" and ok: "slot_ok w"
  shows "slot_ok w'"
proof (cases e)
  case SvSnapshot
  show ?thesis
  proof (cases "as_is_closed (sw_slot w)")
    case True
    have "slot_ok (w\<lparr>sw_slot := guard_drop (guard_set None (sw_slot w))\<rparr>)"
      by (rule slot_ok_emptied [OF ok]) (use True in \<open>simp_all add: as_is_closed_def guard_set_def\<close>)
    with True SvSnapshot run show ?thesis by (auto simp: snapshot_active_def)
  next
    case False
    with SvSnapshot run slot_ok_same [OF ok] show ?thesis by (auto simp: snapshot_active_def same_slot_def)
  qed
next
  case (SvClose call held fh ph)
  with run slot_ok_put [OF slot_ok_close [OF ok]] show ?thesis by auto
next
  case (SvPush bytes held fh ph)
  show ?thesis
  proof (cases rule: try_push_ingress_cases [of "sw_slot w" cap valid held fh ph bytes])
    case same
    with SvPush run slot_ok_put [OF slot_ok_same [OF ok same(1)]] show ?thesis by auto
  next
    case malformed
    with SvPush run slot_ok_put [OF slot_ok_close [OF ok]] show ?thesis by (auto simp del: slot_close.simps)
  qed
next
  case (SvWrite f h1 h2)
  with run try_write_keeps [OF ok] show ?thesis by blast
next
  case SvComplete
  with run complete_active_keeps [OF ok] show ?thesis by blast
next
  case (SvBlock p)
  with run slot_ok_same [OF ok same_slot_calls(1)] show ?thesis by auto
next
  case SvSink
  with run slot_ok_same [OF ok same_slot_calls(2)] show ?thesis by auto
next
  case SvHook
  with run slot_ok_same [OF ok same_slot_calls(3)] show ?thesis by auto
next
  case SvRead
  with run slot_ok_same [OF ok same_slot_calls(4)] show ?thesis by auto
next
  case (SvInject bytes fh ph)
  with run slot_ok_same [OF ok same_slot_calls(5)] show ?thesis by auto
next
  case (SvPartial bytes)
  with run slot_ok_same [OF ok same_slot_calls(6)] show ?thesis by auto
next
  case (SvCompletePartial fh ph)
  with run slot_ok_same [OF ok same_slot_calls(7)] show ?thesis by auto
next
  case SvDrop
  with run slot_ok_same [OF ok same_slot_calls(8)] show ?thesis by auto
qed

interpretation slot: event_invariant "slot_exec cap valid" slot_ok for cap valid
  using slot_exec_keeps by unfold_locales

section \<open>A close is reported once, and as itself\<close>

definition close_log_ok :: "close_call option \<Rightarrow> 'f adapter_slot \<Rightarrow> bool" where
  "close_log_ok first a \<longleftrightarrow>
     as_cause a = (case first of None \<Rightarrow> OPEN | Some call \<Rightarrow> close_byte call) \<and>
     as_closed_woke a = as_is_closed a \<and>
     (as_is_closed a \<longrightarrow> as_close_work a) \<and>
     ClosedWake \<notin> set (butlast (as_core_wakes a)) \<and>
     (ClosedWake \<in> set (as_core_wakes a) \<longrightarrow> as_closed_woke a) \<and>
     (\<forall>r \<in> set (as_reports a). as_is_closed a \<and> r = cc_report (as_cause a))"

lemma as_is_closed_first: "close_log_ok first a \<Longrightarrow> as_is_closed a \<longleftrightarrow> first \<noteq> None"
  by (auto simp: close_log_ok_def as_is_closed_def cc_is_closed_def close_byte_not_open split: option.splits)

text \<open>The fields a close does not read.\<close>

lemma close_log_ok_fields [simp]:
  "close_log_ok first (a\<lparr>as_slot := slot\<rparr>) = close_log_ok first a"
  "close_log_ok first (a\<lparr>as_occupied := b\<rparr>) = close_log_ok first a"
  "close_log_ok first (a\<lparr>as_writer_waiting := b\<rparr>) = close_log_ok first a"
  "close_log_ok first (a\<lparr>as_would_block := b\<rparr>) = close_log_ok first a"
  "close_log_ok first (a\<lparr>as_ingress := i\<rparr>) = close_log_ok first a"
  "close_log_ok first (a\<lparr>as_core_sink := b\<rparr>) = close_log_ok first a"
  "close_log_ok first (a\<lparr>as_close_hook := b\<rparr>) = close_log_ok first a"
  "close_log_ok first (transport_wake a) = close_log_ok first a"
  by (simp_all add: close_log_ok_def as_is_closed_def)

lemma close_log_ok_writable [intro!]: "close_log_ok first a \<Longrightarrow> close_log_ok first (emit_writable a)"
  by (auto simp: close_log_ok_def emit_writable_def as_is_closed_def butlast_append dest: in_set_butlastD)

lemma close_log_ok_guards [intro!]:
  "close_log_ok first a \<Longrightarrow> close_log_ok first (guard_drop a)"
  "close_log_ok first a \<Longrightarrow> close_log_ok first (guard_set x a)"
  by (auto simp: guard_drop_def guard_set_def notify_writable_def Let_def)

lemma quiet_calls:
  assumes "close_log_ok first a"
  shows "close_log_ok first (set_would_block p a)" "close_log_ok first (set_wake_sink a)"
    and "close_log_ok first (attach_close_hook a)" "close_log_ok first (snd (as_try_read a))"
    and "close_log_ok first (inject_ingress_frame cap fh ph bytes a)" "close_log_ok first (inject_ingress_partial bytes a)"
    and "close_log_ok first (complete_ingress_partial cap fh ph a)" "close_log_ok first (drop_buffered_ingress_frame cap a)"
    and "close_log_ok first (snd (as_try_write h1 h2 f a))" "close_log_ok first (snd (snapshot_active a))"
    and "close_log_ok first (snd (complete_active a))"
  using assms
  by (auto simp: set_would_block_def set_wake_sink_def attach_close_hook_def as_try_read_def
      inject_ingress_frame_def inject_ingress_partial_def complete_ingress_partial_def
      drop_buffered_ingress_frame_def as_try_write_def write_locked_def empty_slot_def snapshot_active_def
      complete_active_def guard_take_def Let_def split: prod.splits)

lemma close_log_ok_close:
  assumes ok: "close_log_ok first a"
  shows "close_log_ok (if first = None then Some call else first) (slot_close call held fh ph a)"
proof -
  let ?b = "slot_close call held fh ph a"
  have closed: "as_is_closed a = (first \<noteq> None)" using as_is_closed_first [OF ok] .
  have cause: "commit_first (close_byte call) (as_cause a) = close_byte (if first = None then call else the first)"
    using ok by (auto simp: close_log_ok_def commit_first_def close_byte_not_open split: option.splits)
  have wakes: "as_core_wakes ?b = as_core_wakes a \<or> as_core_wakes ?b = as_core_wakes a @ [ClosedWake] \<and> \<not> as_closed_woke a"
    by (simp add: slot_close_as_close as_close_def emit_closed_def empty_slot_def Let_def)
  have reports: "set (as_reports ?b) \<subseteq> insert (cc_report (as_cause ?b)) (set (as_reports a))"
    by (auto simp: slot_close_as_close as_close_def run_close_hook_def empty_slot_def Let_def emit_closed_def)
  have old: "\<forall>r \<in> set (as_reports a). r = cc_report (as_cause ?b)"
    using ok by (auto simp: close_log_ok_def slot_close_fields commit_first_def as_is_closed_def cc_is_closed_def)
  show ?thesis
    using ok wakes reports old slot_close_closed [of call held fh ph a] slot_close_fields [of call held fh ph a] cause
    by (auto simp: close_log_ok_def butlast_append dest: in_set_butlastD)
qed

definition close_log_world :: "'f slot_world \<Rightarrow> bool" where
  "close_log_world w \<longleftrightarrow> close_log_ok (sw_first w) (sw_slot w)"

lemma close_log_put_close:
  "close_log_world w \<Longrightarrow> close_log_world (sw_put (slot_close call held fh ph (sw_slot w)) call w)"
  using close_log_ok_close [of "sw_first w" "sw_slot w" call held fh ph] slot_close_closed [of call held fh ph "sw_slot w"]
  by (auto simp: close_log_world_def sw_put_def split: if_splits)

lemma close_log_put_open:
  "close_log_world w \<Longrightarrow> close_log_ok (sw_first w) a \<Longrightarrow> close_log_world (sw_put a call w)"
  using as_is_closed_first [of "sw_first w" a] by (auto simp: close_log_world_def sw_put_def)

lemma close_log_exec_keeps:
  assumes run: "slot_exec cap valid e w = Some w'" and ok: "close_log_world w"
  shows "close_log_world w'"
proof -
  have log: "close_log_ok (sw_first w) (sw_slot w)" using ok by (simp add: close_log_world_def)
  show ?thesis
  proof (cases e)
  case (SvClose call held fh ph)
  with run close_log_put_close [OF ok] show ?thesis by auto
next
  case (SvPush bytes held fh ph)
  show ?thesis
  proof (cases rule: try_push_ingress_cases [of "sw_slot w" cap valid held fh ph bytes])
    case same
    then have "close_log_ok (sw_first w) (snd (try_push_ingress cap valid held fh ph bytes (sw_slot w)))"
      using ok close_log_ok_writable [of "sw_first w" "sw_slot w"]
      by (auto simp: close_log_world_def close_log_ok_def same_slot_def as_is_closed_def)
    with SvPush run close_log_put_open [OF ok] show ?thesis by auto
  next
    case malformed
    with SvPush run close_log_put_close [OF ok] show ?thesis by (auto simp del: slot_close.simps)
  qed
next
  case (SvWrite f h1 h2)
  with run quiet_calls(9) [of "sw_first w" "sw_slot w" h1 h2 f] ok show ?thesis
    by (auto simp: close_log_world_def split: prod.splits sum.splits)
next
  case SvComplete
  with run quiet_calls(11) [of "sw_first w" "sw_slot w"] ok show ?thesis
    by (auto simp: close_log_world_def split: prod.splits option.splits)
next
  case (SvBlock p)
  with run quiet_calls(1) [OF log] show ?thesis by (auto simp: close_log_world_def)
next
  case SvSink
  with run quiet_calls(2) [OF log] show ?thesis by (auto simp: close_log_world_def)
next
  case SvHook
  with run quiet_calls(3) [OF log] show ?thesis by (auto simp: close_log_world_def)
next
  case SvRead
  with run quiet_calls(4) [OF log] show ?thesis by (auto simp: close_log_world_def)
next
  case (SvInject bytes fh ph)
  with run quiet_calls(5) [OF log] show ?thesis by (auto simp: close_log_world_def)
next
  case (SvPartial bytes)
  with run quiet_calls(6) [OF log] show ?thesis by (auto simp: close_log_world_def)
next
  case (SvCompletePartial fh ph)
  with run quiet_calls(7) [OF log] show ?thesis by (auto simp: close_log_world_def)
next
  case SvDrop
  with run quiet_calls(8) [OF log] show ?thesis by (auto simp: close_log_world_def)
next
  case SvSnapshot
  with run quiet_calls(10) [OF log] show ?thesis by (auto simp: close_log_world_def)
qed
qed

interpretation slot_close_log: event_invariant "slot_exec cap valid" close_log_world for cap valid
  using close_log_exec_keeps by unfold_locales

section \<open>Properties\<close>

lemma slot_reachable:
  assumes "run_events (slot_exec cap valid) es slot_world_new = Some w"
  shows "slot_ok w" "close_log_world w"
proof -
  show "slot_ok w" by (rule slot.inv_run [OF assms])
      (simp add: slot_ok_def slot_world_new_def with_wake_and_close_work_def)
  show "close_log_world w" by (rule slot_close_log.inv_run [OF assms])
      (simp add: close_log_world_def close_log_ok_def slot_world_new_def with_wake_and_close_work_def
        as_is_closed_def cc_is_closed_def close_cause_new_def)
qed

text \<open>C35. A write that the slot accepts is carried exactly once and in order.  After any schedule of calls by
  Core, the transport and closers, with any answers of the slot lock, the occupancy that
  \<open>pressure\<close> reads is that of the slot; while the adapter is open the accepted frames are exactly
  the completed ones followed by the one in the slot; a close drops at most that one frame; and
  when the adapter is \<open>Ready\<close> a write that gets the lock, at once or on its retry, is accepted.\<close>

theorem slot_exactly_once:
  assumes "run_events (slot_exec cap valid) es slot_world_new = Some w"
  shows "as_occupied (sw_slot w) = (as_slot (sw_slot w) \<noteq> None) \<and>
    (\<not> as_is_closed (sw_slot w) \<longrightarrow>
       sw_accepted w = sw_completed w @ (case as_slot (sw_slot w) of None \<Rightarrow> [] | Some f \<Rightarrow> [f])) \<and>
    (\<exists>rest. sw_accepted w = sw_completed w @ rest \<and> length rest \<le> 1) \<and>
    (pressure (sw_slot w) = PressureReady \<longrightarrow> fst (as_try_write held False frame (sw_slot w)) = Inr ())"
  using slot_reachable(1) [OF assms]
  by (auto simp: slot_ok_def pressure_def as_try_write_def write_locked_def as_is_closed_def Let_def
      split: option.splits if_splits)

definition slot_schedule :: "nat slot_event list" where
  "slot_schedule = [SvSink, SvHook, SvWrite 1 False False, SvWrite 2 False False, SvComplete, SvWrite 3 True False,
     SvWrite 4 True True, SvSnapshot, SvComplete, SvWrite 5 False False, SvClose CloseFromHost False False False,
     SvClose CloseUnspecified False False False, SvWrite 6 False False]"

lemma slot_schedule_runs:
  obtains w where "run_events (slot_exec 1 (\<lambda>_. True)) slot_schedule slot_world_new = Some w"
    and "sw_accepted w = [1, 3, 5]" "sw_completed w = [1, 3]" "sw_first w = Some CloseFromHost"
    and "length (as_reports (sw_slot w)) = 2" "last (as_core_wakes (sw_slot w)) = ClosedWake"
  by (simp add: slot_schedule_def slot_world_new_def with_wake_and_close_work_def set_wake_sink_def
      emit_writable_def as_is_closed_def cc_is_closed_def close_cause_new_def close_bytes attach_close_hook_def
      as_try_write_def write_locked_def transport_wake_def complete_active_def guard_take_def guard_drop_def
      notify_writable_def snapshot_active_def close_from_host_def as_close_def commit_first_def run_close_hook_def
      emit_closed_def empty_slot_def sw_put_def Let_def)

theorem slot_exactly_once_witness:
  "\<exists>w. run_events (slot_exec 1 (\<lambda>_. True)) slot_schedule slot_world_new = Some w \<and>
     sw_accepted w = [1, 3, 5] \<and> sw_completed w = [1, 3] \<and>
     as_occupied (sw_slot w) = (as_slot (sw_slot w) \<noteq> None)"
proof -
  obtain w where run: "run_events (slot_exec 1 (\<lambda>_. True)) slot_schedule slot_world_new = Some w"
    and facts: "sw_accepted w = [1, 3, 5]" "sw_completed w = [1, 3]" using slot_schedule_runs by blast
  from slot_exactly_once [OF run] have "as_occupied (sw_slot w) = (as_slot (sw_slot w) \<noteq> None)" by blast
  with run facts show ?thesis by blast
qed

text \<open>A close is announced once and described truly.  After any schedule, Core's sink has been given the
  \<open>Closed\<close> wake at most once and nothing after it, and only if the adapter closed; the close
  work flag is raised once it closed; and the host flag, Core's reason and every report the hook
  was ever given describe the call that closed it first.\<close>

theorem slot_close_once:
  assumes "run_events (slot_exec cap valid) es slot_world_new = Some w"
  shows "as_is_closed (sw_slot w) = (sw_first w \<noteq> None) \<and>
    ClosedWake \<notin> set (butlast (as_core_wakes (sw_slot w))) \<and>
    (sw_first w = None \<longrightarrow> ClosedWake \<notin> set (as_core_wakes (sw_slot w)) \<and> as_reports (sw_slot w) = []) \<and>
    (\<forall>call. sw_first w = Some call \<longrightarrow>
       as_close_work (sw_slot w) \<and> as_host_closed (sw_slot w) = (call = CloseFromHost) \<and>
       (\<forall>r. core_close_reason (sw_slot w) = Some r \<longleftrightarrow> call = CloseFromCore r) \<and>
       (\<forall>r \<in> set (as_reports (sw_slot w)).
          r = \<lparr>cr_host_closed = (call = CloseFromHost), cr_worker_lost = (call = CloseFromCore WorkerLinkFailed)\<rparr>))"
proof -
  have log: "close_log_ok (sw_first w) (sw_slot w)"
    using slot_reachable(2) [OF assms] by (simp add: close_log_world_def)
  have closed: "as_is_closed (sw_slot w) = (sw_first w \<noteq> None)" using as_is_closed_first [OF log] .
  have reports: "as_reports (sw_slot w) = []" if h: "sw_first w = None"
    using log closed h by (cases "as_reports (sw_slot w)") (auto simp: close_log_ok_def)
  show ?thesis
    using log closed reports
    by (auto simp: close_log_ok_def as_host_closed_def core_close_reason_def close_byte_reads cc_report_reads)
qed

theorem slot_close_once_witness:
  "\<exists>w. run_events (slot_exec 1 (\<lambda>_. True)) slot_schedule slot_world_new = Some w \<and>
     sw_first w = Some CloseFromHost \<and> length (as_reports (sw_slot w)) = 2 \<and>
     (\<forall>r \<in> set (as_reports (sw_slot w)). r = \<lparr>cr_host_closed = True, cr_worker_lost = False\<rparr>) \<and>
     last (as_core_wakes (sw_slot w)) = ClosedWake \<and> ClosedWake \<notin> set (butlast (as_core_wakes (sw_slot w)))"
proof -
  obtain w where run: "run_events (slot_exec 1 (\<lambda>_. True)) slot_schedule slot_world_new = Some w"
    and facts: "sw_first w = Some CloseFromHost" "length (as_reports (sw_slot w)) = 2"
      "last (as_core_wakes (sw_slot w)) = ClosedWake" using slot_schedule_runs by blast
  from slot_close_once [OF run] facts run show ?thesis by auto
qed

end
