(* ===== verification/Slot_Race.thy ===== *)
theory Slot_Race
  imports Adapter_Slot
begin

text \<open>
  The calls of \<open>adapter_slot.rs\<close> interleaved at their atomic operations and lock transitions: Core's
  \<open>try_write\<close>, any number of transport drivers (\<open>snapshot_active\<close>, \<open>complete_active\<close>,
  \<open>set_would_block\<close>, and the ingress calls, which end in \<open>emit_writable\<close>) and any number of closers
  (\<open>close\<close> and the two that end in it).  Core never blocks, so what must hold is that a refused write is always
  followed by a wake of Core's sink once the reason of the refusal is gone.

  A step is one load, store, swap, lock or unlock; the stores to the slot and to \<open>occupied\<close> under the
  mutex are one step with the unlock or load beside them, since only the holder touches the slot.
  The sink has been set.  \<open>sr_woken\<close> records whether the sink was woken since Core's last
  \<open>try_write\<close> began.
\<close>

section \<open>Threads\<close>

datatype refusal = Contended | OccupiedFull | Blocked

datatype core_pc =
    CIdle | CClosed | CBlocked | CTry | CMark | CRetry | CUnmark | CLocked | CStore | CParked refusal

datatype driver_pc =
    DIdle
  | DSnapLock | DSnap
  | DCompleteCheck | DCompleteLock | DComplete | DTake
  | DUnlock bool | DSwap bool | DNotify bool | DNotifyWake bool
  | DBlock bool
  | DEmit | DEmitWake

datatype slot_closer_pc = KIdle | KTry | KHold | KEmit | KWake

datatype slot_holder = HCore | HDriver nat | HCloser nat

record slot_race =
  sr_closed :: bool
  sr_would_block :: bool
  sr_full :: bool
  sr_waiting :: bool
  sr_closed_woke :: bool
  sr_owner :: "slot_holder option"
  sr_core :: core_pc
  sr_driver :: "nat \<Rightarrow> driver_pc"
  sr_closer :: "nat \<Rightarrow> slot_closer_pc"
  sr_woken :: bool

definition slot_race_new :: slot_race where
  "slot_race_new =
     \<lparr>sr_closed = False, sr_would_block = False, sr_full = False, sr_waiting = False, sr_closed_woke = False,
      sr_owner = None, sr_core = CIdle, sr_driver = (\<lambda>_. DIdle), sr_closer = (\<lambda>_. KIdle), sr_woken = False\<rparr>"

definition set_driver :: "nat \<Rightarrow> driver_pc \<Rightarrow> slot_race \<Rightarrow> slot_race" where
  "set_driver i pc s = s\<lparr>sr_driver := (sr_driver s)(i := pc)\<rparr>"

definition set_closer :: "nat \<Rightarrow> slot_closer_pc \<Rightarrow> slot_race \<Rightarrow> slot_race" where
  "set_closer j pc s = s\<lparr>sr_closer := (sr_closer s)(j := pc)\<rparr>"

text \<open>After the guard is dropped, \<open>complete_active\<close> emits once more when it took a frame.\<close>

definition after_drop :: "bool \<Rightarrow> driver_pc" where
  "after_drop taken = (if taken then DEmit else DIdle)"

section \<open>Steps\<close>

text \<open>\<open>try_write\<close>: begin, the two checks, the lock, the mark, the one retry, and the locked part.\<close>

fun core_step :: "slot_race \<Rightarrow> slot_race option" where
  "core_step s =
     (case sr_core s of
        CIdle \<Rightarrow> Some (s\<lparr>sr_core := CClosed, sr_woken := False\<rparr>)
      | CParked _ \<Rightarrow> Some (s\<lparr>sr_core := CClosed, sr_woken := False\<rparr>)
      | CClosed \<Rightarrow> Some (s\<lparr>sr_core := (if sr_closed s then CIdle else CBlocked)\<rparr>)
      | CBlocked \<Rightarrow> Some (s\<lparr>sr_core := (if sr_would_block s then CParked Blocked else CTry)\<rparr>)
      | CTry \<Rightarrow> Some (if sr_owner s = None then s\<lparr>sr_owner := Some HCore, sr_core := CLocked\<rparr> else s\<lparr>sr_core := CMark\<rparr>)
      | CMark \<Rightarrow> Some (s\<lparr>sr_waiting := True, sr_core := CRetry\<rparr>)
      | CRetry \<Rightarrow> Some (if sr_owner s = None then s\<lparr>sr_owner := Some HCore, sr_core := CUnmark\<rparr>
                       else s\<lparr>sr_core := CParked Contended\<rparr>)
      | CUnmark \<Rightarrow> Some (s\<lparr>sr_waiting := False, sr_core := CLocked\<rparr>)
      | CLocked \<Rightarrow> Some (if sr_closed s then s\<lparr>sr_full := False, sr_owner := None, sr_core := CIdle\<rparr>
                        else s\<lparr>sr_core := CStore\<rparr>)
      | CStore \<Rightarrow> Some (if sr_full s then s\<lparr>sr_owner := None, sr_core := CParked OccupiedFull\<rparr>
                       else s\<lparr>sr_full := True, sr_owner := None, sr_core := CIdle\<rparr>))"

text \<open>A driver inside a call: the lock is waited for, so a \<open>None\<close> there is a driver that blocks.\<close>

fun driver_step :: "nat \<Rightarrow> slot_race \<Rightarrow> slot_race option" where
  "driver_step i s =
     (case sr_driver s i of
        DIdle \<Rightarrow> None
      | DSnapLock \<Rightarrow> if sr_owner s = None then Some (set_driver i DSnap (s\<lparr>sr_owner := Some (HDriver i)\<rparr>)) else None
      | DSnap \<Rightarrow> Some (set_driver i (DUnlock False) (if sr_closed s then s\<lparr>sr_full := False\<rparr> else s))
      | DCompleteCheck \<Rightarrow> Some (set_driver i (if sr_closed s then DIdle else DCompleteLock) s)
      | DCompleteLock \<Rightarrow> if sr_owner s = None then Some (set_driver i DComplete (s\<lparr>sr_owner := Some (HDriver i)\<rparr>)) else None
      | DComplete \<Rightarrow> Some (if sr_closed s then set_driver i (DUnlock False) (s\<lparr>sr_full := False\<rparr>) else set_driver i DTake s)
      | DTake \<Rightarrow> Some (set_driver i (DUnlock (sr_full s)) (s\<lparr>sr_full := False\<rparr>))
      | DUnlock taken \<Rightarrow> Some (set_driver i (DSwap taken) (s\<lparr>sr_owner := None\<rparr>))
      | DSwap taken \<Rightarrow> Some (set_driver i (if sr_waiting s then DNotify taken else after_drop taken) (s\<lparr>sr_waiting := False\<rparr>))
      | DNotify taken \<Rightarrow> Some (set_driver i (if sr_closed s then after_drop taken else DNotifyWake taken) s)
      | DNotifyWake taken \<Rightarrow> Some (set_driver i (after_drop taken) (s\<lparr>sr_woken := True\<rparr>))
      | DBlock pressured \<Rightarrow> Some (set_driver i (if pressured then DIdle else DEmit) (s\<lparr>sr_would_block := pressured\<rparr>))
      | DEmit \<Rightarrow> Some (set_driver i (if sr_closed s then DIdle else DEmitWake) s)
      | DEmitWake \<Rightarrow> Some (set_driver i DIdle (s\<lparr>sr_woken := True\<rparr>)))"

text \<open>\<open>close\<close> after its commit: try the slot, empty it, and wake the sink if no close did.\<close>

fun closer_step :: "nat \<Rightarrow> slot_race \<Rightarrow> slot_race option" where
  "closer_step j s =
     (case sr_closer s j of
        KIdle \<Rightarrow> None
      | KTry \<Rightarrow> Some (if sr_owner s = None then set_closer j KHold (s\<lparr>sr_owner := Some (HCloser j)\<rparr>) else set_closer j KEmit s)
      | KHold \<Rightarrow> Some (set_closer j KEmit (s\<lparr>sr_full := False, sr_owner := None\<rparr>))
      | KEmit \<Rightarrow> Some (set_closer j (if sr_closed_woke s then KIdle else KWake) (s\<lparr>sr_closed_woke := True\<rparr>))
      | KWake \<Rightarrow> Some (set_closer j KIdle (s\<lparr>sr_woken := True\<rparr>)))"

inductive slot_race_step :: "slot_race \<Rightarrow> slot_race \<Rightarrow> bool" where
  core: "core_step s = Some t \<Longrightarrow> slot_race_step s t"
| driver: "driver_step i s = Some t \<Longrightarrow> slot_race_step s t"
| closer: "closer_step j s = Some t \<Longrightarrow> slot_race_step s t"
| call: "sr_driver s i = DIdle \<Longrightarrow> pc \<in> {DSnapLock, DCompleteCheck, DBlock b, DEmit} \<Longrightarrow>
    slot_race_step s (set_driver i pc s)"
| close: "sr_closer s j = KIdle \<Longrightarrow> slot_race_step s (set_closer j KTry (s\<lparr>sr_closed := True\<rparr>))"

inductive_cases slot_race_stepE: "slot_race_step s t"

section \<open>Who holds the mutex\<close>

definition driver_holds :: "driver_pc \<Rightarrow> bool" where
  "driver_holds pc \<longleftrightarrow> pc = DSnap \<or> pc = DComplete \<or> pc = DTake \<or> (\<exists>t. pc = DUnlock t)"

definition core_holds :: "core_pc \<Rightarrow> bool" where
  "core_holds pc \<longleftrightarrow> pc = CUnmark \<or> pc = CLocked \<or> pc = CStore"

definition holder_ok :: "slot_race \<Rightarrow> bool" where
  "holder_ok s \<longleftrightarrow>
     (core_holds (sr_core s) \<longleftrightarrow> sr_owner s = Some HCore) \<and>
     (\<forall>i. driver_holds (sr_driver s i) \<longleftrightarrow> sr_owner s = Some (HDriver i)) \<and>
     (\<forall>j. sr_closer s j = KHold \<longleftrightarrow> sr_owner s = Some (HCloser j)) \<and>
     (\<forall>j. sr_closer s j \<noteq> KIdle \<longrightarrow> sr_closed s)"

lemmas race_defs = driver_holds_def core_holds_def set_driver_def set_closer_def after_drop_def

lemma holder_ok_fields [simp]:
  "holder_ok (s\<lparr>sr_full := b\<rparr>) = holder_ok s" "holder_ok (s\<lparr>sr_waiting := b\<rparr>) = holder_ok s"
  "holder_ok (s\<lparr>sr_would_block := b\<rparr>) = holder_ok s" "holder_ok (s\<lparr>sr_closed_woke := b\<rparr>) = holder_ok s"
  "holder_ok (s\<lparr>sr_woken := b\<rparr>) = holder_ok s"
  by (simp_all add: holder_ok_def)

lemma driver_holds_simps [simp]:
  "driver_holds DSnap" "driver_holds DComplete" "driver_holds DTake" "driver_holds (DUnlock t)"
  "\<not> driver_holds DIdle" "\<not> driver_holds DSnapLock" "\<not> driver_holds DCompleteCheck" "\<not> driver_holds DCompleteLock"
  "\<not> driver_holds (DSwap t)" "\<not> driver_holds (DNotify t)" "\<not> driver_holds (DNotifyWake t)" "\<not> driver_holds (DBlock t)"
  "\<not> driver_holds DEmit" "\<not> driver_holds DEmitWake" "\<not> driver_holds (after_drop t)"
  by (simp_all add: driver_holds_def after_drop_def)

lemma set_fields [simp]:
  "sr_driver (set_driver i pc s) = (sr_driver s)(i := pc)" "sr_closer (set_driver i pc s) = sr_closer s"
  "sr_driver (set_closer j pk s) = sr_driver s" "sr_closer (set_closer j pk s) = (sr_closer s)(j := pk)"
  "sr_closed (set_driver i pc s) = sr_closed s" "sr_closed (set_closer j pk s) = sr_closed s"
  "sr_full (set_driver i pc s) = sr_full s" "sr_full (set_closer j pk s) = sr_full s"
  "sr_waiting (set_driver i pc s) = sr_waiting s" "sr_waiting (set_closer j pk s) = sr_waiting s"
  "sr_would_block (set_driver i pc s) = sr_would_block s" "sr_would_block (set_closer j pk s) = sr_would_block s"
  "sr_closed_woke (set_driver i pc s) = sr_closed_woke s" "sr_closed_woke (set_closer j pk s) = sr_closed_woke s"
  "sr_owner (set_driver i pc s) = sr_owner s" "sr_owner (set_closer j pk s) = sr_owner s"
  "sr_core (set_driver i pc s) = sr_core s" "sr_core (set_closer j pk s) = sr_core s"
  "sr_woken (set_driver i pc s) = sr_woken s" "sr_woken (set_closer j pk s) = sr_woken s"
  by (simp_all add: set_driver_def set_closer_def)

text \<open>A driver or closer moves without the mutex, takes it, or gives it back.\<close>

lemma holder_ok_driver_moves:
  "holder_ok s \<Longrightarrow> driver_holds pc = driver_holds (sr_driver s i) \<Longrightarrow> holder_ok (set_driver i pc s)"
  "holder_ok s \<Longrightarrow> sr_owner s = None \<Longrightarrow> driver_holds pc \<Longrightarrow> holder_ok (set_driver i pc (s\<lparr>sr_owner := Some (HDriver i)\<rparr>))"
  "holder_ok s \<Longrightarrow> driver_holds (sr_driver s i) \<Longrightarrow> \<not> driver_holds pc \<Longrightarrow> holder_ok (set_driver i pc (s\<lparr>sr_owner := None\<rparr>))"
  by (auto simp: holder_ok_def)

lemma holder_ok_closer_moves:
  "holder_ok s \<Longrightarrow> sr_closed s \<Longrightarrow> (pk = KHold) = (sr_closer s j = KHold) \<Longrightarrow> holder_ok (set_closer j pk s)"
  "holder_ok s \<Longrightarrow> sr_closed s \<Longrightarrow> sr_owner s = None \<Longrightarrow> holder_ok (set_closer j KHold (s\<lparr>sr_owner := Some (HCloser j)\<rparr>))"
  "holder_ok s \<Longrightarrow> sr_closer s j = KHold \<Longrightarrow> holder_ok (set_closer j KEmit (s\<lparr>sr_owner := None\<rparr>))"
  "holder_ok s \<Longrightarrow> holder_ok (s\<lparr>sr_closed := True\<rparr>)"
  by (auto simp: holder_ok_def)

lemma holder_ok_closed: "holder_ok s \<Longrightarrow> sr_closer s j \<noteq> KIdle \<Longrightarrow> sr_closed s"
  by (auto simp: holder_ok_def)

lemma holder_ok_core: "holder_ok s \<Longrightarrow> core_step s = Some t \<Longrightarrow> holder_ok t"
  by (auto simp: holder_ok_def core_holds_def split: core_pc.splits if_splits)

lemma holder_ok_driver: "holder_ok s \<Longrightarrow> driver_step i s = Some t \<Longrightarrow> holder_ok t"
  by (cases "sr_driver s i") (auto intro: holder_ok_driver_moves split: if_splits)

lemma holder_ok_closer: "holder_ok s \<Longrightarrow> closer_step j s = Some t \<Longrightarrow> holder_ok t"
  using holder_ok_closed [of s j]
  by (cases "sr_closer s j")
    (auto intro: holder_ok_closer_moves holder_ok_closer_moves(3) [of "s\<lparr>sr_full := False\<rparr>", simplified] split: if_splits)

lemma holder_ok_step: 
  assumes "holder_ok s" and "slot_race_step s t"
  shows "holder_ok t"
  using assms(2)
proof cases
  case (call i pc b)
  with assms(1) show ?thesis by (auto intro!: holder_ok_driver_moves)
next
  case (close j)
  with assms(1) show ?thesis by (auto intro!: holder_ok_closer_moves)
qed (use assms(1) holder_ok_core holder_ok_driver holder_ok_closer in blast)+

section \<open>Who still has to wake Core\<close>

definition some_driver :: "(driver_pc \<Rightarrow> bool) \<Rightarrow> slot_race \<Rightarrow> bool" where
  "some_driver P s \<longleftrightarrow> (\<exists>i. P (sr_driver s i))"

lemma some_driver_fields [simp]:
  "some_driver P (s\<lparr>sr_full := b\<rparr>) = some_driver P s" "some_driver P (s\<lparr>sr_waiting := b\<rparr>) = some_driver P s"
  "some_driver P (s\<lparr>sr_would_block := b\<rparr>) = some_driver P s" "some_driver P (s\<lparr>sr_closed_woke := b\<rparr>) = some_driver P s"
  "some_driver P (s\<lparr>sr_woken := b\<rparr>) = some_driver P s" "some_driver P (s\<lparr>sr_owner := ow\<rparr>) = some_driver P s"
  "some_driver P (s\<lparr>sr_closed := b\<rparr>) = some_driver P s" "some_driver P (s\<lparr>sr_core := c\<rparr>) = some_driver P s"
  "some_driver P (set_closer j pk s) = some_driver P s"
  by (simp_all add: some_driver_def)

text \<open>A move of driver \<open>i\<close> keeps that some driver is at \<open>P\<close>, if it enters \<open>P\<close> or was not the one there.\<close>

lemma some_driver_moves:
  "some_driver P (set_driver i pc s) \<longleftrightarrow> P pc \<or> (\<exists>k. k \<noteq> i \<and> P (sr_driver s k))"
  "some_driver P s \<longleftrightarrow> P (sr_driver s i) \<or> (\<exists>k. k \<noteq> i \<and> P (sr_driver s k))"
  by (auto simp: some_driver_def)

fun notifying :: "driver_pc \<Rightarrow> bool" where
  "notifying (DNotify _) = True"
| "notifying (DNotifyWake _) = True"
| "notifying _ = False"

fun emitting :: "driver_pc \<Rightarrow> bool" where
  "emitting DEmit = True"
| "emitting DEmitWake = True"
| "emitting _ = False"

text \<open>A driver that took a frame wakes Core before its call ends.\<close>

fun carrying :: "driver_pc \<Rightarrow> bool" where
  "carrying (DUnlock taken) = taken"
| "carrying (DSwap taken) = taken"
| "carrying (DNotify taken) = taken"
| "carrying (DNotifyWake taken) = taken"
| "carrying pc = emitting pc"

text \<open>A driver that has yet to swap the mark of a waiting writer.\<close>

fun will_swap :: "driver_pc \<Rightarrow> bool" where
  "will_swap (DSwap _) = True"
| "will_swap pc = driver_holds pc"

text \<open>Core found the adapter open at the start of the running or last refused attempt.\<close>

fun past_check :: "core_pc \<Rightarrow> bool" where
  "past_check CIdle = False"
| "past_check CClosed = False"
| "past_check _ = True"

definition some_closer :: "slot_closer_pc set \<Rightarrow> slot_race \<Rightarrow> bool" where
  "some_closer K s \<longleftrightarrow> (\<exists>j. sr_closer s j \<in> K)"

lemma some_closer_moves:
  "some_closer K (set_closer j pk s) \<longleftrightarrow> pk \<in> K \<or> (\<exists>k. k \<noteq> j \<and> sr_closer s k \<in> K)"
  "some_closer K s \<longleftrightarrow> sr_closer s j \<in> K \<or> (\<exists>k. k \<noteq> j \<and> sr_closer s k \<in> K)"
  by (auto simp: some_closer_def)

definition close_pending :: "slot_race \<Rightarrow> bool" where
  "close_pending s \<longleftrightarrow> some_closer {KWake} s \<or> \<not> sr_closed_woke s \<and> some_closer {KTry, KHold, KEmit} s"

definition close_wakes :: "slot_race \<Rightarrow> bool" where
  "close_wakes s \<longleftrightarrow>
     (sr_closed_woke s \<longrightarrow> sr_closed s) \<and>
     (past_check (sr_core s) \<and> sr_closed s \<longrightarrow> sr_woken s \<or> close_pending s)"

fun refusal_pending :: "core_pc \<Rightarrow> slot_race \<Rightarrow> bool" where
  "refusal_pending CRetry s = (some_driver notifying s \<or> sr_waiting s)"
| "refusal_pending (CParked Contended) s = (some_driver notifying s \<or> sr_waiting s \<and> some_driver will_swap s)"
| "refusal_pending (CParked OccupiedFull) s = (sr_full s \<or> some_driver carrying s)"
| "refusal_pending (CParked Blocked) s = (sr_would_block s \<or> some_driver emitting s)"
| "refusal_pending _ s = True"

definition refusal_wakes :: "slot_race \<Rightarrow> bool" where
  "refusal_wakes s \<longleftrightarrow> sr_woken s \<or> sr_closed s \<or> refusal_pending (sr_core s) s"

subsection \<open>Closes\<close>

lemma close_wakes_core: "close_wakes s \<Longrightarrow> core_step s = Some t \<Longrightarrow> close_wakes t"
  by (auto simp: close_wakes_def close_pending_def some_closer_def split: core_pc.splits if_splits)

lemma driver_step_leaves:
  assumes "driver_step i s = Some t"
  shows "sr_closed t = sr_closed s" "sr_closed_woke t = sr_closed_woke s" "sr_closer t = sr_closer s"
    "sr_core t = sr_core s" "sr_woken s \<longrightarrow> sr_woken t"
  using assms by (cases "sr_driver s i"; auto split: if_splits)+

lemma close_wakes_driver: "close_wakes s \<Longrightarrow> driver_step i s = Some t \<Longrightarrow> close_wakes t"
  using driver_step_leaves [of i s t] by (auto simp: close_wakes_def close_pending_def some_closer_def simp del: driver_step.simps)

lemma close_wakes_closer:
  "close_wakes s \<Longrightarrow> sr_closed s \<or> sr_closer s j = KIdle \<Longrightarrow> closer_step j s = Some t \<Longrightarrow> close_wakes t"
  by (cases "sr_closer s j")
    (auto simp: close_wakes_def close_pending_def some_closer_moves(1) some_closer_moves(2) [of _ s j] split: if_splits)

lemma close_wakes_step:
  assumes ok: "holder_ok s" "close_wakes s" and step: "slot_race_step s t"
  shows "close_wakes t"
  using step
proof cases
  case core
  then show ?thesis by (rule close_wakes_core [OF ok(2)])
next
  case (driver i)
  then show ?thesis by (rule close_wakes_driver [OF ok(2)])
next
  case (closer j)
  then show ?thesis using close_wakes_closer [OF ok(2)] holder_ok_closed [OF ok(1)] by blast
next
  case (call i pc b)
  with ok(2) show ?thesis by (simp add: close_wakes_def close_pending_def some_closer_def)
next
  case (close j)
  with ok(2) show ?thesis
    by (auto simp: close_wakes_def close_pending_def some_closer_moves(1) some_closer_moves(2) [of _ s j])
qed

subsection \<open>Refusals\<close>

lemma driver_holds_will_swap: "driver_holds pc \<Longrightarrow> will_swap pc"
  by (cases pc) simp_all

lemma refusal_wakes_core:
  assumes "holder_ok s" and "refusal_wakes s" and "core_step s = Some t"
  shows "refusal_wakes t"
proof (cases "sr_core s")
  case CRetry
  have "sr_closed s \<or> some_driver will_swap s" if held: "sr_owner s \<noteq> None"
  proof -
    from held obtain h where h: "sr_owner s = Some h" by auto
    show ?thesis
    proof (cases h)
      case HCore
      with h CRetry assms(1) show ?thesis by (simp add: holder_ok_def core_holds_def)
    next
      case (HDriver i)
      with h assms(1) have "driver_holds (sr_driver s i)" by (simp add: holder_ok_def)
      then show ?thesis unfolding some_driver_def using driver_holds_will_swap by blast
    next
      case (HCloser j)
      with h assms(1) have "sr_closer s j = KHold" by (simp add: holder_ok_def)
      then show ?thesis using holder_ok_closed [OF assms(1), of j] by simp
    qed
  qed
  with CRetry assms show ?thesis by (auto simp: refusal_wakes_def split: if_splits)
qed (use assms in \<open>auto simp: refusal_wakes_def split: if_splits\<close>)

text \<open>What one driver step does to each pending wake.\<close>

lemma driver_notifying: "driver_step i s = Some t \<Longrightarrow> some_driver notifying s \<Longrightarrow> sr_woken t \<or> sr_closed t \<or> some_driver notifying t"
  by (cases "sr_driver s i") (auto simp: some_driver_moves(1) some_driver_moves(2) [of _ s i] split: if_splits)

lemma driver_emitting: "driver_step i s = Some t \<Longrightarrow> some_driver emitting s \<Longrightarrow> sr_woken t \<or> sr_closed t \<or> some_driver emitting t"
  by (cases "sr_driver s i") (auto simp: some_driver_moves(1) some_driver_moves(2) [of _ s i] split: if_splits)

lemma driver_carrying: "driver_step i s = Some t \<Longrightarrow> some_driver carrying s \<Longrightarrow> sr_woken t \<or> sr_closed t \<or> some_driver carrying t"
  by (cases "sr_driver s i")
    (auto simp: some_driver_moves(1) some_driver_moves(2) [of _ s i] after_drop_def split: if_splits)

lemma driver_waiting: "driver_step i s = Some t \<Longrightarrow> sr_waiting s \<Longrightarrow> sr_waiting t \<or> some_driver notifying t"
  by (cases "sr_driver s i") (auto simp: some_driver_moves(1) split: if_splits)

lemma driver_will_swap:
  "driver_step i s = Some t \<Longrightarrow> sr_waiting s \<Longrightarrow> some_driver will_swap s \<Longrightarrow>
   some_driver notifying t \<or> sr_waiting t \<and> some_driver will_swap t"
  by (cases "sr_driver s i") (auto simp: some_driver_moves(1) some_driver_moves(2) [of _ s i] split: if_splits)

lemma driver_full: "driver_step i s = Some t \<Longrightarrow> sr_full s \<Longrightarrow> sr_closed t \<or> sr_full t \<or> some_driver carrying t"
  by (cases "sr_driver s i") (auto simp: some_driver_moves(1) split: if_splits)

lemma driver_would_block:
  "driver_step i s = Some t \<Longrightarrow> sr_would_block s \<Longrightarrow> sr_would_block t \<or> some_driver emitting t"
  by (cases "sr_driver s i") (auto simp: some_driver_moves(1) split: if_splits)

lemmas driver_pending = driver_notifying driver_emitting driver_carrying driver_waiting driver_will_swap
  driver_full driver_would_block

lemma refusal_wakes_driver:
  assumes ok: "refusal_wakes s" and step: "driver_step i s = Some t"
  shows "refusal_wakes t"
proof -
  note same = driver_step_leaves [OF step]
  have "sr_woken t \<or> sr_closed t \<or> refusal_pending (sr_core s) t" if pending: "refusal_pending (sr_core s) s"
    using pending
  proof (cases "(sr_core s, s)" rule: refusal_pending.cases)
    case 1
    then show ?thesis using pending driver_notifying [OF step] driver_waiting [OF step] by auto
  next
    case 2
    then show ?thesis using pending driver_notifying [OF step] driver_will_swap [OF step] by auto
  next
    case 3
    then show ?thesis using pending driver_carrying [OF step] driver_full [OF step] by auto
  next
    case 4
    then show ?thesis using pending driver_emitting [OF step] driver_would_block [OF step] by auto
  qed auto
  then show ?thesis using ok same by (auto simp: refusal_wakes_def)
qed

lemma refusal_wakes_closer:
  "refusal_wakes s \<Longrightarrow> sr_closed s \<or> sr_closer s j = KIdle \<Longrightarrow> closer_step j s = Some t \<Longrightarrow> refusal_wakes t"
  by (cases "sr_closer s j") (auto simp: refusal_wakes_def split: if_splits)

lemma refusal_pending_call:
  assumes "sr_driver s i = DIdle"
  shows "refusal_pending pc s \<Longrightarrow> refusal_pending pc (set_driver i d s)"
proof -
  have "some_driver P s \<Longrightarrow> some_driver P (set_driver i d s)" if "\<not> P DIdle" for P
    using assms that by (auto simp: some_driver_moves(1) some_driver_moves(2) [of _ s i])
  from this [of notifying] this [of will_swap] this [of carrying] this [of emitting]
  show "refusal_pending pc s \<Longrightarrow> refusal_pending pc (set_driver i d s)"
    by (cases "(pc, s)" rule: refusal_pending.cases) auto
qed

lemma refusal_wakes_step:
  assumes ok: "holder_ok s" "refusal_wakes s" and step: "slot_race_step s t"
  shows "refusal_wakes t"
  using step
proof cases
  case core
  then show ?thesis by (rule refusal_wakes_core [OF ok])
next
  case (driver i)
  then show ?thesis by (rule refusal_wakes_driver [OF ok(2)])
next
  case (closer j)
  then show ?thesis using refusal_wakes_closer [OF ok(2)] holder_ok_closed [OF ok(1)] by blast
next
  case (call i pc b)
  with ok(2) refusal_pending_call show ?thesis by (auto simp: refusal_wakes_def)
next
  case (close j)
  then show ?thesis by (simp add: refusal_wakes_def)
qed

definition race_ok :: "slot_race \<Rightarrow> bool" where
  "race_ok s \<longleftrightarrow> holder_ok s \<and> close_wakes s \<and> refusal_wakes s"

interpretation slot_race: transition_invariant "\<lambda>s. s = slot_race_new" slot_race_step race_ok
proof
  show "s = slot_race_new \<Longrightarrow> race_ok s" for s
    by (simp add: race_ok_def holder_ok_def close_wakes_def refusal_wakes_def slot_race_new_def core_holds_def)
  show "race_ok s \<Longrightarrow> slot_race_step s t \<Longrightarrow> race_ok t" for s t
    unfolding race_ok_def using holder_ok_step close_wakes_step refusal_wakes_step by blast
qed

section \<open>Properties\<close>

text \<open>No call of a driver or closer is under way.\<close>

definition quiescent :: "slot_race \<Rightarrow> bool" where
  "quiescent s \<longleftrightarrow> (\<forall>i. sr_driver s i = DIdle) \<and> (\<forall>j. sr_closer s j = KIdle)"

text \<open>C37. Core never sleeps through the end of a refusal.  However Core's writes, the transport's drivers
  and the closers interleave, whenever Core holds a refused write and every other call has
  ended, its sink has been woken since that write began, unless the reason still stands: the
  slot still holds a frame, or the transport is still blocked.  A refusal that only met a held
  mutex, and every refusal on an adapter that has closed since, has always been woken.\<close>

theorem refused_write_is_woken:
  assumes "slot_race_step\<^sup>*\<^sup>* slot_race_new s" and "sr_core s = CParked why" and "quiescent s"
  shows "sr_woken s \<or> \<not> sr_closed s \<and> (why = OccupiedFull \<and> sr_full s \<or> why = Blocked \<and> sr_would_block s)"
proof -
  have "race_ok s" using slot_race.inv_reachable [OF refl assms(1)] .
  moreover have "\<not> close_pending s" using assms(3) by (simp add: close_pending_def some_closer_def quiescent_def)
  moreover have "\<not> some_driver P s" if "\<not> P DIdle" for P using assms(3) that by (simp add: some_driver_def quiescent_def)
  ultimately show ?thesis
    using assms(2) by (cases why) (auto simp: race_ok_def close_wakes_def refusal_wakes_def)
qed

text \<open>Threads that move in a given order.\<close>

datatype race_move = MCore | MDriver nat | MCloser nat

fun race_exec :: "race_move \<Rightarrow> slot_race \<Rightarrow> slot_race option" where
  "race_exec MCore s = core_step s"
| "race_exec (MDriver i) s = driver_step i s"
| "race_exec (MCloser j) s = closer_step j s"

lemma race_exec_step: "race_exec m s = Some t \<Longrightarrow> slot_race_step s t"
  by (cases m) (auto intro: slot_race_step.intros simp del: core_step.simps driver_step.simps closer_step.simps)

lemma race_exec_steps: "run_events race_exec ms s = Some t \<Longrightarrow> slot_race_step\<^sup>*\<^sup>* s t"
proof (induction ms arbitrary: s)
  case (Cons m ms)
  then obtain u where "race_exec m s = Some u" "run_events race_exec ms u = Some t"
    by (auto split: option.splits simp del: race_exec.simps)
  then show ?case using Cons.IH race_exec_step converse_rtranclp_into_rtranclp by meson
qed simp

theorem refused_write_is_woken_witness:
  "\<exists>s. slot_race_step\<^sup>*\<^sup>* slot_race_new s \<and> sr_core s = CParked Contended \<and> quiescent s \<and> sr_woken s"
proof -
  define s0 where "s0 = set_driver 0 DSnapLock slot_race_new"
  define s where "s = slot_race_new\<lparr>sr_core := CParked Contended, sr_woken := True\<rparr>"
  have "slot_race_step slot_race_new s0"
    unfolding s0_def by (rule slot_race_step.call) (simp_all add: slot_race_new_def)
  moreover have "slot_race_step\<^sup>*\<^sup>* s0 s"
    by (rule race_exec_steps [of "[MCore, MCore, MCore, MDriver 0, MCore, MCore, MCore,
        MDriver 0, MDriver 0, MDriver 0, MDriver 0, MDriver 0]"])
      (simp add: s0_def s_def slot_race_new_def set_driver_def after_drop_def fun_eq_iff)
  ultimately have run: "slot_race_step\<^sup>*\<^sup>* slot_race_new s" by (rule converse_rtranclp_into_rtranclp)
  have facts: "sr_core s = CParked Contended" "quiescent s" by (simp_all add: s_def slot_race_new_def quiescent_def)
  from refused_write_is_woken [OF run facts] run facts show ?thesis by blast
qed

end
