(* ===== verification/Event_Schema.thy ===== *)
theory Event_Schema
  imports Ordered_Map
begin

text \<open>
  \<open>package_event_schema.rs\<close>: the closed JSON Schema subset of package event payloads, its admission
  when a package is loaded, and the validation of each payload.

  A JSON value is that of the JSON crate: a number is an unsigned or a negative 64-bit integer
  or a finite float, and an object is an ordered map.  Floats are a linear order \<open>'f\<close> (the finite
  doubles, with the two zeros identified), and \<open>f64_of\<close> is the cast of an integer to a double.
  A string is its UTF-8 bytes.  The length of the encoding of a schema comes from the JSON crate
  and is the parameter \<open>encoded_len\<close>.  Error texts are the constructors of \<open>schema_error\<close>.
\<close>

section \<open>JSON values\<close>

datatype 'f json_number = PosInt "64 word" | NegInt "64 word" | Float 'f

datatype 'f json =
    JNull
  | JBool bool
  | JNumber "'f json_number"
  | JString string
  | JArray "'f json list"
  | JObject "(string \<times> 'f json) list"

type_synonym 'f json_object = "(string, 'f json) omap"

fun as_str :: "'f json \<Rightarrow> string option" where
  "as_str (JString s) = Some s"
| "as_str _ = None"

fun as_array :: "'f json \<Rightarrow> 'f json list option" where
  "as_array (JArray vs) = Some vs"
| "as_array _ = None"

fun as_object :: "'f json \<Rightarrow> 'f json_object option" where
  "as_object (JObject m) = Some m"
| "as_object _ = None"

fun as_u64 :: "'f json \<Rightarrow> nat option" where
  "as_u64 (JNumber (PosInt w)) = Some (unat w)"
| "as_u64 _ = None"

text \<open>An unsigned integer above the signed range has no \<open>as_i64\<close>.\<close>

fun as_i64 :: "'f json \<Rightarrow> int option" where
  "as_i64 (JNumber (PosInt w)) = (if uint w < 2 ^ 63 then Some (uint w) else None)"
| "as_i64 (JNumber (NegInt w)) = Some (sint w)"
| "as_i64 _ = None"

fun number_as_f64 :: "(int \<Rightarrow> 'f) \<Rightarrow> 'f json_number \<Rightarrow> 'f option" where
  "number_as_f64 f64_of (PosInt w) = Some (f64_of (uint w))"
| "number_as_f64 f64_of (NegInt w) = Some (f64_of (sint w))"
| "number_as_f64 f64_of (Float x) = Some x"

fun as_f64 :: "(int \<Rightarrow> 'f) \<Rightarrow> 'f json \<Rightarrow> 'f option" where
  "as_f64 f64_of (JNumber n) = number_as_f64 f64_of n"
| "as_f64 f64_of _ = None"

text \<open>\<open>chars().count()\<close>: the bytes that do not continue a character.\<close>

definition chars_count :: "string \<Rightarrow> nat" where
  "chars_count s = length (filter (\<lambda>c. \<not> (128 \<le> (of_char c :: nat) \<and> (of_char c :: nat) < 192)) s)"

definition get_u64 :: "string \<Rightarrow> 'f json_object \<Rightarrow> nat option" where
  "get_u64 key m = Option.bind (om_get m key) as_u64"

definition get_f64 :: "(int \<Rightarrow> 'f) \<Rightarrow> string \<Rightarrow> 'f json_object \<Rightarrow> 'f option" where
  "get_f64 f64_of key m = Option.bind (om_get m key) (as_f64 f64_of)"

section \<open>Limits and keywords\<close>

definition SCHEMA_MAX_BYTES :: usize where "SCHEMA_MAX_BYTES = 8 * 1024"
definition SCHEMA_MAX_DEPTH :: usize where "SCHEMA_MAX_DEPTH = 8"
definition SCHEMA_MAX_PROPERTIES :: usize where "SCHEMA_MAX_PROPERTIES = 32"
definition SCHEMA_MAX_ENUM :: usize where "SCHEMA_MAX_ENUM = 32"
definition SCHEMA_MAX_REQUIRED :: usize where "SCHEMA_MAX_REQUIRED = 32"

definition ALLOWED_KEYWORDS :: "string list" where
  "ALLOWED_KEYWORDS =
     [''type'', ''properties'', ''required'', ''additionalProperties'', ''enum'', ''const'', ''minLength'',
      ''maxLength'', ''minimum'', ''maximum'', ''exclusiveMinimum'', ''exclusiveMaximum'', ''minItems'',
      ''maxItems'', ''items'', ''description'', ''title'']"

definition REJECTED_KEYWORDS :: "string list" where
  "REJECTED_KEYWORDS =
     [''$ref'', ''$dynamicRef'', ''$recursiveRef'', ''$anchor'', ''$id'', ''$schema'', ''pattern'',
      ''patternProperties'', ''unevaluatedProperties'', ''unevaluatedItems'', ''allOf'', ''anyOf'', ''oneOf'',
      ''not'', ''if'', ''then'', ''else'', ''dependentSchemas'', ''prefixItems'', ''contains'', ''propertyNames'']"

datatype schema_error =
    SchemaTooLarge | SchemaTooDeep | SchemaNotObject | SchemaKeyword string
  | PropertiesNotObject | TooManyProperties | ItemsNotSingle | RequiredNotArray | TooManyRequired
  | RequiredNotStrings | EnumNotArray | TooManyEnum | TypeNotString
  | CompiledNotObject | NotConst | NotEnum | UnsupportedType string | WrongType string
  | MissingField string | UndeclaredField string | ArrayTooShort | ArrayTooLong
  | StringTooShort | StringTooLong | NotFinite | BelowMinimum | AboveMaximum
  | NotAboveExclusive | NotBelowExclusive

text \<open>The \<open>?\<close> operator on checks that return nothing.\<close>

fun and_then :: "'e + unit \<Rightarrow> 'e + unit \<Rightarrow> 'e + unit" where
  "and_then (Inl e) b = Inl e"
| "and_then (Inr _) b = b"

lemma and_then_ok [simp]: "and_then a b = Inr u \<longleftrightarrow> a = Inr () \<and> b = Inr ()"
  by (cases a) auto

section \<open>Admission of a schema\<close>

fun check_keywords :: "string list \<Rightarrow> schema_error + unit" where
  "check_keywords [] = Inr ()"
| "check_keywords (key # keys) =
     (if key \<in> set REJECTED_KEYWORDS then Inl (SchemaKeyword key)
      else if key \<notin> set ALLOWED_KEYWORDS then Inl (SchemaKeyword key)
      else check_keywords keys)"

definition check_required :: "'f json_object \<Rightarrow> schema_error + unit" where
  "check_required m =
     (case om_get m ''required'' of
        None \<Rightarrow> Inr ()
      | Some (JArray names) \<Rightarrow>
          if SCHEMA_MAX_REQUIRED < length names then Inl TooManyRequired
          else if \<not> list_all (\<lambda>v. as_str v \<noteq> None) names then Inl RequiredNotStrings
          else Inr ()
      | Some _ \<Rightarrow> Inl RequiredNotArray)"

definition check_enum :: "'f json_object \<Rightarrow> schema_error + unit" where
  "check_enum m =
     (case om_get m ''enum'' of
        None \<Rightarrow> Inr ()
      | Some (JArray vs) \<Rightarrow> if SCHEMA_MAX_ENUM < length vs then Inl TooManyEnum else Inr ()
      | Some _ \<Rightarrow> Inl EnumNotArray)"

definition check_type :: "'f json_object \<Rightarrow> schema_error + unit" where
  "check_type m =
     (case om_get m ''type'' of
        None \<Rightarrow> Inr ()
      | Some v \<Rightarrow> if as_str v = None then Inl TypeNotString else Inr ())"

lemma json_lookup_smaller: "om_get m k = Some v \<Longrightarrow> size v < size (JObject m)"
  by (induction m) (auto split: if_splits)

lemma json_values_smaller: "size_list size (om_values m) \<le> size_list (size_prod (\<lambda>_. 0) size) m"
  by (induction m) auto

lemma json_properties_smaller:
  assumes "om_get m k = Some (JObject properties)"
  shows "size_list size (om_values properties) < size (JObject m)"
  using json_lookup_smaller [OF assms] json_values_smaller [of properties] by simp

function (sequential) validate_schema_node :: "'f json \<Rightarrow> nat \<Rightarrow> schema_error + unit"
  and validate_schema_nodes :: "'f json list \<Rightarrow> nat \<Rightarrow> schema_error + unit"
where
  "validate_schema_node schema depth =
     (if SCHEMA_MAX_DEPTH < depth then Inl SchemaTooDeep
      else case schema of
        JObject m \<Rightarrow>
          and_then (check_keywords (om_keys m))
          (and_then
            (case om_get m ''properties'' of
               None \<Rightarrow> Inr ()
             | Some (JObject properties) \<Rightarrow>
                 if SCHEMA_MAX_PROPERTIES < length properties then Inl TooManyProperties
                 else validate_schema_nodes (om_values properties) (depth + 1)
             | Some _ \<Rightarrow> Inl PropertiesNotObject)
          (and_then
            (case om_get m ''additionalProperties'' of
               None \<Rightarrow> Inr ()
             | Some (JBool _) \<Rightarrow> Inr ()
             | Some other \<Rightarrow> validate_schema_node other (depth + 1))
          (and_then
            (case om_get m ''items'' of
               None \<Rightarrow> Inr ()
             | Some (JArray _) \<Rightarrow> Inl ItemsNotSingle
             | Some items \<Rightarrow> validate_schema_node items (depth + 1))
          (and_then (check_required m) (and_then (check_enum m) (check_type m))))))
      | _ \<Rightarrow> Inl SchemaNotObject)"
| "validate_schema_nodes [] depth = Inr ()"
| "validate_schema_nodes (child # children) depth =
     and_then (validate_schema_node child depth) (validate_schema_nodes children depth)"
  by pat_completeness auto

termination
  by (relation "measure (case_sum (\<lambda>(schema, _). size schema) (\<lambda>(schemas, _). size_list size schemas))")
    (auto dest: json_lookup_smaller json_properties_smaller)

declare validate_schema_node.simps [simp del]

record 'f compiled_event_schema =
  spec :: "'f json"

definition schema_compile :: "('f json \<Rightarrow> nat) \<Rightarrow> 'f json \<Rightarrow> schema_error + 'f compiled_event_schema" where
  "schema_compile encoded_len schema =
     (if SCHEMA_MAX_BYTES < encoded_len schema then Inl SchemaTooLarge
      else case validate_schema_node schema 0 of Inl e \<Rightarrow> Inl e | Inr _ \<Rightarrow> Inr \<lparr>spec = schema\<rparr>)"

section \<open>Validation of a payload\<close>

definition type_matches :: "string \<Rightarrow> 'f json \<Rightarrow> bool option" where
  "type_matches expected instance' =
     (if expected = ''object'' then Some (as_object instance' \<noteq> None)
      else if expected = ''array'' then Some (as_array instance' \<noteq> None)
      else if expected = ''string'' then Some (as_str instance' \<noteq> None)
      else if expected = ''number'' then Some (case instance' of JNumber _ \<Rightarrow> True | _ \<Rightarrow> False)
      else if expected = ''integer'' then Some (as_i64 instance' \<noteq> None \<or> as_u64 instance' \<noteq> None)
      else if expected = ''boolean'' then Some (case instance' of JBool _ \<Rightarrow> True | _ \<Rightarrow> False)
      else if expected = ''null'' then Some (case instance' of JNull \<Rightarrow> True | _ \<Rightarrow> False)
      else None)"

definition match_type :: "'f json \<Rightarrow> 'f json \<Rightarrow> schema_error + unit" where
  "match_type type_value instance' =
     (case as_str type_value of
        None \<Rightarrow> Inl TypeNotString
      | Some expected \<Rightarrow>
          (case type_matches expected instance' of
             None \<Rightarrow> Inl (UnsupportedType expected)
           | Some m \<Rightarrow> if m then Inr () else Inl (WrongType expected)))"

fun required_present :: "'f json list \<Rightarrow> 'f json_object \<Rightarrow> schema_error + unit" where
  "required_present [] m = Inr ()"
| "required_present (name # names) m =
     (case as_str name of
        None \<Rightarrow> required_present names m
      | Some n \<Rightarrow> if om_contains m n then required_present names m else Inl (MissingField n))"

definition array_bounds :: "'f json_object \<Rightarrow> nat \<Rightarrow> schema_error + unit" where
  "array_bounds schema n =
     (if (case get_u64 ''minItems'' schema of None \<Rightarrow> False | Some lo \<Rightarrow> n < lo) then Inl ArrayTooShort
      else if (case get_u64 ''maxItems'' schema of None \<Rightarrow> False | Some hi \<Rightarrow> hi < n) then Inl ArrayTooLong
      else Inr ())"

definition validate_string :: "'f json_object \<Rightarrow> string \<Rightarrow> schema_error + unit" where
  "validate_string schema text =
     (if (case get_u64 ''minLength'' schema of None \<Rightarrow> False | Some lo \<Rightarrow> chars_count text < lo) then Inl StringTooShort
      else if (case get_u64 ''maxLength'' schema of None \<Rightarrow> False | Some hi \<Rightarrow> hi < chars_count text) then Inl StringTooLong
      else Inr ())"

definition validate_number ::
  "(int \<Rightarrow> 'f :: linorder) \<Rightarrow> 'f json_object \<Rightarrow> 'f json_number \<Rightarrow> schema_error + unit"
where
  "validate_number f64_of schema number =
     (case number_as_f64 f64_of number of
        None \<Rightarrow> Inl NotFinite
      | Some v \<Rightarrow>
          if (case get_f64 f64_of ''minimum'' schema of None \<Rightarrow> False | Some lo \<Rightarrow> v < lo) then Inl BelowMinimum
          else if (case get_f64 f64_of ''maximum'' schema of None \<Rightarrow> False | Some hi \<Rightarrow> v > hi) then Inl AboveMaximum
          else if (case get_f64 f64_of ''exclusiveMinimum'' schema of None \<Rightarrow> False | Some lo \<Rightarrow> v \<le> lo) then Inl NotAboveExclusive
          else if (case get_f64 f64_of ''exclusiveMaximum'' schema of None \<Rightarrow> False | Some hi \<Rightarrow> v \<ge> hi) then Inl NotBelowExclusive
          else Inr ())"

definition required_check :: "'f json_object \<Rightarrow> 'f json_object \<Rightarrow> schema_error + unit" where
  "required_check schema m =
     (case om_get schema ''required'' of Some (JArray names) \<Rightarrow> required_present names m | _ \<Rightarrow> Inr ())"

definition const_check :: "'f json_object \<Rightarrow> 'f json \<Rightarrow> schema_error + unit" where
  "const_check schema v = (case om_get schema ''const'' of Some c \<Rightarrow> if v \<noteq> c then Inl NotConst else Inr () | None \<Rightarrow> Inr ())"

definition enum_check :: "'f json_object \<Rightarrow> 'f json \<Rightarrow> schema_error + unit" where
  "enum_check schema v =
     (case om_get schema ''enum'' of Some (JArray vs) \<Rightarrow> if v \<notin> set vs then Inl NotEnum else Inr () | _ \<Rightarrow> Inr ())"

definition type_check :: "'f json_object \<Rightarrow> 'f json \<Rightarrow> schema_error + unit" where
  "type_check schema v = (case om_get schema ''type'' of Some t \<Rightarrow> match_type t v | None \<Rightarrow> Inr ())"

text \<open>The schema of a declared property, and what applies to an undeclared one.\<close>

definition property_schema :: "'f json_object \<Rightarrow> string \<Rightarrow> 'f json option" where
  "property_schema schema key =
     Option.bind (Option.bind (om_get schema ''properties'') as_object) (\<lambda>properties. om_get properties key)"

fun validate_instance :: "(int \<Rightarrow> 'f :: linorder) \<Rightarrow> 'f json \<Rightarrow> 'f json \<Rightarrow> schema_error + unit"
  and validate_fields :: "(int \<Rightarrow> 'f) \<Rightarrow> 'f json_object \<Rightarrow> (string \<times> 'f json) list \<Rightarrow> schema_error + unit"
  and validate_items :: "(int \<Rightarrow> 'f) \<Rightarrow> 'f json \<Rightarrow> 'f json list \<Rightarrow> schema_error + unit"
where
  "validate_instance f64_of schema v =
     (case schema of
        JObject s \<Rightarrow>
          and_then (const_check s v)
          (and_then (enum_check s v)
          (and_then (type_check s v)
            (case v of
               JObject fs \<Rightarrow> and_then (required_check s fs) (validate_fields f64_of s fs)
             | JArray items \<Rightarrow>
                 and_then (array_bounds s (length items))
                   (case om_get s ''items'' of None \<Rightarrow> Inr () | Some item_schema \<Rightarrow> validate_items f64_of item_schema items)
             | JString text \<Rightarrow> validate_string s text
             | JNumber number \<Rightarrow> validate_number f64_of s number
             | _ \<Rightarrow> Inr ())))
      | _ \<Rightarrow> Inl CompiledNotObject)"
| "validate_fields f64_of s [] = Inr ()"
| "validate_fields f64_of s ((key, v) # fs) =
     and_then
       (case property_schema s key of
          Some ps \<Rightarrow> validate_instance f64_of ps v
        | None \<Rightarrow>
            (case om_get s ''additionalProperties'' of
               Some (JBool b) \<Rightarrow> if b then Inr () else Inl (UndeclaredField key)
             | Some (JObject m) \<Rightarrow> validate_instance f64_of (JObject m) v
             | _ \<Rightarrow> Inr ()))
       (validate_fields f64_of s fs)"
| "validate_items f64_of item_schema [] = Inr ()"
| "validate_items f64_of item_schema (v # items) =
     and_then (validate_instance f64_of item_schema v) (validate_items f64_of item_schema items)"

declare validate_instance.simps [simp del]

definition schema_validate :: "(int \<Rightarrow> 'f :: linorder) \<Rightarrow> 'f compiled_event_schema \<Rightarrow> 'f json \<Rightarrow> schema_error + unit" where
  "schema_validate f64_of c v = validate_instance f64_of (spec c) v"

definition spec_get :: "string \<Rightarrow> 'f compiled_event_schema \<Rightarrow> 'f json option" where
  "spec_get key c = Option.bind (as_object (spec c)) (\<lambda>m. om_get m key)"

definition accepts_some_string :: "(int \<Rightarrow> 'f :: linorder) \<Rightarrow> 'f compiled_event_schema \<Rightarrow> bool" where
  "accepts_some_string f64_of c =
     (if (case spec_get ''type'' c of None \<Rightarrow> False | Some t \<Rightarrow> as_str t \<noteq> Some ''string'') then False
      else case spec_get ''const'' c of
        Some v \<Rightarrow> as_str v \<noteq> None \<and> schema_validate f64_of c v = Inr ()
      | None \<Rightarrow>
          (case Option.bind (spec_get ''enum'' c) as_array of
             Some vs \<Rightarrow> list_ex (\<lambda>v. as_str v \<noteq> None \<and> schema_validate f64_of c v = Inr ()) vs
           | None \<Rightarrow>
               (case Option.bind (spec_get ''minLength'' c) as_u64 of None \<Rightarrow> 0 | Some n \<Rightarrow> n)
               \<le> (case Option.bind (spec_get ''maxLength'' c) as_u64 of None \<Rightarrow> u64_max | Some n \<Rightarrow> n)))"

definition string_schema :: "'f json" where
  "string_schema = JObject [(''type'', JString ''string'')]"

definition worktree_spec :: "'f json" where
  "worktree_spec = JObject
     [(''additionalProperties'', JBool False),
      (''properties'', JObject
         [(''display_path'', string_schema), (''event'', string_schema), (''failure_kind'', string_schema),
          (''label'', string_schema), (''message'', string_schema), (''status'', string_schema),
          (''target_id'', string_schema), (''worktree_id'', string_schema)]),
      (''required'', JArray [JString ''event'']),
      (''type'', JString ''object'')]"

text \<open>\<open>None\<close> is the panic of the \<open>expect\<close>.\<close>

definition worktree_lifecycle_schema :: "('f json \<Rightarrow> nat) \<Rightarrow> 'f compiled_event_schema option" where
  "worktree_lifecycle_schema encoded_len =
     (case schema_compile encoded_len worktree_spec of Inl _ \<Rightarrow> None | Inr c \<Rightarrow> Some c)"

section \<open>What a schema says of a value\<close>

inductive has_type :: "string \<Rightarrow> 'f json \<Rightarrow> bool" where
  object: "has_type ''object'' (JObject m)"
| array: "has_type ''array'' (JArray vs)"
| string: "has_type ''string'' (JString s)"
| number: "has_type ''number'' (JNumber n)"
| unsigned: "has_type ''integer'' (JNumber (PosInt w))"
| negative: "has_type ''integer'' (JNumber (NegInt w))"
| boolean: "has_type ''boolean'' (JBool b)"
| null: "has_type ''null'' JNull"

text \<open>
  The reading of a schema as a set of independent conditions, with no order of checks and no
  early return: every condition it states holds of the value, and of each member the part of the
  schema that applies to it.
\<close>

inductive conforms :: "(int \<Rightarrow> 'f :: linorder) \<Rightarrow> 'f json \<Rightarrow> 'f json \<Rightarrow> bool" for f64_of where
  conforms:
  "\<lbrakk>\<And>c. om_get s ''const'' = Some c \<Longrightarrow> v = c;
    \<And>vs. om_get s ''enum'' = Some (JArray vs) \<Longrightarrow> v \<in> set vs;
    \<And>t. om_get s ''type'' = Some t \<Longrightarrow> \<exists>n. t = JString n \<and> has_type n v;
    \<And>fs names n. \<lbrakk>v = JObject fs; om_get s ''required'' = Some (JArray names); JString n \<in> set names\<rbrakk> \<Longrightarrow> n \<in> fst ` set fs;
    \<And>fs key x ps. \<lbrakk>v = JObject fs; (key, x) \<in> set fs; property_schema s key = Some ps\<rbrakk> \<Longrightarrow> conforms f64_of ps x;
    \<And>fs key x. \<lbrakk>v = JObject fs; (key, x) \<in> set fs; property_schema s key = None\<rbrakk> \<Longrightarrow>
      om_get s ''additionalProperties'' \<noteq> Some (JBool False);
    \<And>fs key x m. \<lbrakk>v = JObject fs; (key, x) \<in> set fs; property_schema s key = None;
      om_get s ''additionalProperties'' = Some (JObject m)\<rbrakk> \<Longrightarrow> conforms f64_of (JObject m) x;
    \<And>vs x i. \<lbrakk>v = JArray vs; x \<in> set vs; om_get s ''items'' = Some i\<rbrakk> \<Longrightarrow> conforms f64_of i x;
    \<And>vs n. \<lbrakk>v = JArray vs; get_u64 ''minItems'' s = Some n\<rbrakk> \<Longrightarrow> n \<le> length vs;
    \<And>vs n. \<lbrakk>v = JArray vs; get_u64 ''maxItems'' s = Some n\<rbrakk> \<Longrightarrow> length vs \<le> n;
    \<And>text n. \<lbrakk>v = JString text; get_u64 ''minLength'' s = Some n\<rbrakk> \<Longrightarrow> n \<le> chars_count text;
    \<And>text n. \<lbrakk>v = JString text; get_u64 ''maxLength'' s = Some n\<rbrakk> \<Longrightarrow> chars_count text \<le> n;
    \<And>y b. \<lbrakk>as_f64 f64_of v = Some y; get_f64 f64_of ''minimum'' s = Some b\<rbrakk> \<Longrightarrow> b \<le> y;
    \<And>y b. \<lbrakk>as_f64 f64_of v = Some y; get_f64 f64_of ''maximum'' s = Some b\<rbrakk> \<Longrightarrow> y \<le> b;
    \<And>y b. \<lbrakk>as_f64 f64_of v = Some y; get_f64 f64_of ''exclusiveMinimum'' s = Some b\<rbrakk> \<Longrightarrow> b < y;
    \<And>y b. \<lbrakk>as_f64 f64_of v = Some y; get_f64 f64_of ''exclusiveMaximum'' s = Some b\<rbrakk> \<Longrightarrow> y < b\<rbrakk>
   \<Longrightarrow> conforms f64_of (JObject s) v"

inductive_simps conforms_object: "conforms f64_of (JObject s) v"
inductive_cases conformsE: "conforms f64_of schema v"

section \<open>The validator decides it\<close>

lemma has_type_iff:
  "has_type n v \<longleftrightarrow>
     (case v of
        JObject _ \<Rightarrow> n = ''object'' | JArray _ \<Rightarrow> n = ''array'' | JString _ \<Rightarrow> n = ''string''
      | JNumber number \<Rightarrow> n = ''number'' \<or> n = ''integer'' \<and> (case number of Float _ \<Rightarrow> False | _ \<Rightarrow> True)
      | JBool _ \<Rightarrow> n = ''boolean'' | JNull \<Rightarrow> n = ''null'')"
  unfolding has_type.simps [of n v] by (auto split: json.split json_number.split)

lemma is_integer_iff: "(as_i64 v \<noteq> None \<or> as_u64 v \<noteq> None) \<longleftrightarrow> (\<exists>w. v = JNumber (PosInt w) \<or> v = JNumber (NegInt w))"
  by (cases v rule: as_i64.cases) simp_all

lemma type_matches_iff: "type_matches n v = Some True \<longleftrightarrow> has_type n v"
proof (cases v)
  case (JNumber number)
  then show ?thesis by (cases number) (simp_all add: type_matches_def has_type_iff)
qed (simp_all add: type_matches_def has_type_iff)

lemma match_type_ok: "match_type t v = Inr () \<longleftrightarrow> (\<exists>n. t = JString n \<and> has_type n v)"
  unfolding type_matches_iff [symmetric] by (cases t) (auto simp: match_type_def split: option.splits)

lemma required_present_ok: "required_present names m = Inr () \<longleftrightarrow> (\<forall>n. JString n \<in> set names \<longrightarrow> n \<in> fst ` set m)"
proof (induction names)
  case (Cons name names)
  then show ?case by (cases name) (auto simp: om_contains_iff)
qed simp

lemma validate_string_ok:
  "validate_string s text = Inr () \<longleftrightarrow>
     (\<forall>n. get_u64 ''minLength'' s = Some n \<longrightarrow> n \<le> chars_count text) \<and>
     (\<forall>n. get_u64 ''maxLength'' s = Some n \<longrightarrow> chars_count text \<le> n)"
  by (auto simp: validate_string_def split: option.splits)

lemma array_bounds_ok:
  "array_bounds s k = Inr () \<longleftrightarrow>
     (\<forall>n. get_u64 ''minItems'' s = Some n \<longrightarrow> n \<le> k) \<and> (\<forall>n. get_u64 ''maxItems'' s = Some n \<longrightarrow> k \<le> n)"
  by (auto simp: array_bounds_def split: option.splits)

lemma validate_number_ok:
  "validate_number f64_of s number = Inr () \<longleftrightarrow>
     (\<forall>y. number_as_f64 f64_of number = Some y \<longrightarrow>
        (\<forall>b. get_f64 f64_of ''minimum'' s = Some b \<longrightarrow> b \<le> y) \<and>
        (\<forall>b. get_f64 f64_of ''maximum'' s = Some b \<longrightarrow> y \<le> b) \<and>
        (\<forall>b. get_f64 f64_of ''exclusiveMinimum'' s = Some b \<longrightarrow> b < y) \<and>
        (\<forall>b. get_f64 f64_of ''exclusiveMaximum'' s = Some b \<longrightarrow> y < b))"
  by (cases number) (auto simp: validate_number_def split: option.splits)

lemma const_check_ok: "const_check s v = Inr () \<longleftrightarrow> (\<forall>c. om_get s ''const'' = Some c \<longrightarrow> v = c)"
  by (auto simp: const_check_def split: option.splits)

lemma enum_check_ok: "enum_check s v = Inr () \<longleftrightarrow> (\<forall>vs. om_get s ''enum'' = Some (JArray vs) \<longrightarrow> v \<in> set vs)"
  by (auto simp: enum_check_def split: option.splits json.splits)

lemma type_check_ok:
  "type_check s v = Inr () \<longleftrightarrow> (\<forall>t. om_get s ''type'' = Some t \<longrightarrow> (\<exists>n. t = JString n \<and> has_type n v))"
  by (auto simp: type_check_def match_type_ok split: option.splits)

lemma required_check_ok:
  "required_check s m = Inr () \<longleftrightarrow>
     (\<forall>names n. om_get s ''required'' = Some (JArray names) \<longrightarrow> JString n \<in> set names \<longrightarrow> n \<in> fst ` set m)"
  by (auto simp: required_check_def required_present_ok split: option.splits json.splits)

lemmas checks_ok = const_check_ok enum_check_ok type_check_ok required_check_ok array_bounds_ok
  validate_string_ok validate_number_ok

definition field_conforms :: "(int \<Rightarrow> 'f :: linorder) \<Rightarrow> 'f json_object \<Rightarrow> string \<Rightarrow> 'f json \<Rightarrow> bool" where
  "field_conforms f64_of s key x \<longleftrightarrow>
     (case property_schema s key of
        Some ps \<Rightarrow> conforms f64_of ps x
      | None \<Rightarrow> om_get s ''additionalProperties'' \<noteq> Some (JBool False) \<and>
          (\<forall>m. om_get s ''additionalProperties'' = Some (JObject m) \<longrightarrow> conforms f64_of (JObject m) x))"

lemma fields_conform_iff:
  "(\<forall>(key, x) \<in> set fs. field_conforms f64_of s key x) \<longleftrightarrow>
     (\<forall>key x ps. (key, x) \<in> set fs \<longrightarrow> property_schema s key = Some ps \<longrightarrow> conforms f64_of ps x) \<and>
     (\<forall>key x. (key, x) \<in> set fs \<longrightarrow> property_schema s key = None \<longrightarrow> om_get s ''additionalProperties'' \<noteq> Some (JBool False)) \<and>
     (\<forall>key x m. (key, x) \<in> set fs \<longrightarrow> property_schema s key = None \<longrightarrow>
        om_get s ''additionalProperties'' = Some (JObject m) \<longrightarrow> conforms f64_of (JObject m) x)"
  by (fastforce simp: field_conforms_def split: option.splits)

text \<open>The conditions of \<open>conforms\<close>, grouped by the kind of value.\<close>

lemma conforms_by_kind:
  "conforms f64_of (JObject s) v \<longleftrightarrow>
     const_check s v = Inr () \<and> enum_check s v = Inr () \<and> type_check s v = Inr () \<and>
     (case v of
        JObject fs \<Rightarrow> required_check s fs = Inr () \<and> (\<forall>(key, x) \<in> set fs. field_conforms f64_of s key x)
      | JArray vs \<Rightarrow> array_bounds s (length vs) = Inr () \<and> (\<forall>i. om_get s ''items'' = Some i \<longrightarrow> (\<forall>x \<in> set vs. conforms f64_of i x))
      | JString text \<Rightarrow> validate_string s text = Inr ()
      | JNumber number \<Rightarrow> validate_number f64_of s number = Inr ()
      | _ \<Rightarrow> True)"
  by (subst conforms_object, unfold checks_ok fields_conform_iff, cases v) (simp_all, blast+)

lemma validator_decides:
  "validate_instance f64_of schema v = Inr () \<longleftrightarrow> conforms f64_of schema v"
  "validate_fields f64_of s fs = Inr () \<longleftrightarrow> (\<forall>(key, x) \<in> set fs. field_conforms f64_of s key x)"
  "validate_items f64_of item_schema items = Inr () \<longleftrightarrow> (\<forall>x \<in> set items. conforms f64_of item_schema x)"
proof (induction f64_of schema v and f64_of s fs and f64_of item_schema items
    rule: validate_instance_validate_fields_validate_items.induct)
  case (1 f64_of schema v)
  show ?case
  proof (cases schema)
    case (JObject s)
    then show ?thesis using 1
      by (cases v) (auto simp: conforms_by_kind validate_instance.simps [of _ "JObject s"] split: option.splits)
  qed (auto simp: validate_instance.simps elim: conformsE)
next
  case (3 f64_of s key v fs)
  then show ?case by (auto simp: field_conforms_def split: option.splits json.splits)
qed auto

section \<open>Schemas that admit a string\<close>

lemma chars_count_ascii: "chars_count (replicate n CHR ''a'') = n"
  by (simp add: chars_count_def)

lemma as_u64_le: "as_u64 v = Some n \<Longrightarrow> n \<le> u64_max"
proof (cases v rule: as_u64.cases)
  case (1 w)
  moreover assume "as_u64 v = Some n"
  moreover have "unat w < 2 ^ 64" by (rule order_less_le_trans [OF unsigned_less]) simp
  ultimately show ?thesis by (simp add: u64_max_def)
qed simp_all

lemma get_u64_le: "get_u64 key s = Some n \<Longrightarrow> n \<le> u64_max"
  by (auto simp: get_u64_def as_u64_le split: Option.bind_splits)

lemma some_length_fits:
  "(\<exists>text. validate_string s text = Inr ()) \<longleftrightarrow>
     (case get_u64 ''minLength'' s of None \<Rightarrow> 0 | Some n \<Rightarrow> n) \<le> (case get_u64 ''maxLength'' s of None \<Rightarrow> u64_max | Some n \<Rightarrow> n)"
  (is "?lhs \<longleftrightarrow> ?min \<le> ?max")
proof
  assume ?lhs
  then show "?min \<le> ?max"
    using get_u64_le [of "''minLength''" s] by (force simp: validate_string_ok split: option.splits)
next
  assume "?min \<le> ?max"
  then have "validate_string s (replicate ?min CHR ''a'') = Inr ()"
    by (auto simp: validate_string_ok chars_count_ascii split: option.splits)
  then show ?lhs ..
qed

lemma type_check_string:
  fixes s :: "'f json_object"
  shows "type_check s (JString text) = Inr () \<longleftrightarrow> (\<forall>t. om_get s ''type'' = Some t \<longrightarrow> as_str t = Some ''string'')"
proof -
  have "(\<exists>n. t = JString n \<and> has_type n (JString text :: 'f json)) \<longleftrightarrow> as_str t = Some ''string''" for t :: "'f json"
    by (cases t) (simp_all add: has_type_iff)
  then show ?thesis by (simp add: type_check_ok)
qed

lemma validate_string_value:
  "validate_instance f64_of (JObject s) (JString text) = Inr () \<longleftrightarrow>
     const_check s (JString text) = Inr () \<and> enum_check s (JString text) = Inr () \<and>
     type_check s (JString text) = Inr () \<and> validate_string s text = Inr ()"
  by (simp add: validate_instance.simps)

lemma accepts_some_string_exact:
  fixes c :: "'f :: linorder compiled_event_schema"
  assumes "spec c = JObject s"
  shows "accepts_some_string f64_of c \<longleftrightarrow> (\<exists>text. validate_instance f64_of (JObject s) (JString text) = Inr ())"
proof -
  have get: "spec_get key c = om_get s key" for key using assms by (simp add: spec_get_def)
  have valid: "schema_validate f64_of c v = validate_instance f64_of (JObject s) v" for v
    using assms by (simp add: schema_validate_def)
  have str: "as_str v = Some x \<longleftrightarrow> v = JString x" for x and v :: "'f json"
    by (cases v) simp_all
  consider (type) t where "om_get s ''type'' = Some t" "as_str t \<noteq> Some ''string''"
    | (const) v where "\<forall>t. om_get s ''type'' = Some t \<longrightarrow> as_str t = Some ''string''" "om_get s ''const'' = Some v"
    | (enum) vs where "\<forall>t. om_get s ''type'' = Some t \<longrightarrow> as_str t = Some ''string''" "om_get s ''const'' = None"
        "Option.bind (om_get s ''enum'') as_array = Some vs"
    | (length) "\<forall>t. om_get s ''type'' = Some t \<longrightarrow> as_str t = Some ''string''" "om_get s ''const'' = None"
        "Option.bind (om_get s ''enum'') as_array = None"
    by (cases "om_get s ''const''"; cases "Option.bind (om_get s ''enum'') as_array") blast+
  then show ?thesis
  proof cases
    case type
    then show ?thesis by (auto simp: accepts_some_string_def get type_check_string validate_string_value)
  next
    case const
    then have "accepts_some_string f64_of c \<longleftrightarrow> as_str v \<noteq> None \<and> validate_instance f64_of (JObject s) v = Inr ()"
      by (auto simp: accepts_some_string_def get valid split: option.splits)
    also have "\<dots> \<longleftrightarrow> (\<exists>text. validate_instance f64_of (JObject s) (JString text) = Inr ())"
      using const by (auto simp: str validate_string_value const_check_ok)
    finally show ?thesis .
  next
    case enum
    then have "accepts_some_string f64_of c \<longleftrightarrow> (\<exists>v \<in> set vs. as_str v \<noteq> None \<and> validate_instance f64_of (JObject s) v = Inr ())"
      by (auto simp: accepts_some_string_def get valid list_ex_iff split: option.splits)
    also have "\<dots> \<longleftrightarrow> (\<exists>text. validate_instance f64_of (JObject s) (JString text) = Inr ())"
    proof -
      have "om_get s ''enum'' = Some (JArray vs)"
        using enum(3) by (auto simp: bind_eq_Some_conv elim: as_array.elims)
      then show ?thesis by (auto simp: str validate_string_value enum_check_ok)
    qed
    finally show ?thesis .
  next
    case length
    have "om_get s ''enum'' \<noteq> Some (JArray vs)" for vs using length(3) by auto
    then have "validate_instance f64_of (JObject s) (JString x) = Inr () \<longleftrightarrow> validate_string s x = Inr ()" for x
      using length by (simp add: validate_string_value const_check_ok enum_check_ok type_check_string)
    then show ?thesis
      using length some_length_fits [of s]
      by (auto simp: accepts_some_string_def get get_u64_def split: option.splits)
  qed
qed

lemma compiled_is_object: "schema_compile encoded_len schema = Inr c \<Longrightarrow> spec c = schema \<and> (\<exists>s. schema = JObject s)"
  by (cases schema) (auto simp: schema_compile_def validate_schema_node.simps split: if_splits sum.splits)

section \<open>Properties\<close>

text \<open>C39. A compiled schema means what it says.  Validation accepts exactly the payloads that satisfy every
  condition the schema states, read without an order of checks: the constant, the enumeration,
  the type, the required names, the schema of each declared field, the rule for undeclared
  ones, the items, and the bounds on lengths, sizes and numbers.  And the schema is said to
  accept some string exactly when some string satisfies it.\<close>

theorem compiled_schema_exact:
  assumes "schema_compile encoded_len schema = Inr c"
  shows "(\<forall>v. schema_validate f64_of c v = Inr () \<longleftrightarrow> conforms f64_of schema v) \<and>
    (accepts_some_string f64_of c \<longleftrightarrow> (\<exists>text. conforms f64_of schema (JString text)))"
proof -
  obtain s where s: "schema = JObject s" "spec c = JObject s" using compiled_is_object [OF assms] by auto
  have "schema_validate f64_of c v = Inr () \<longleftrightarrow> conforms f64_of schema v" for v
    unfolding schema_validate_def s by (rule validator_decides(1))
  moreover have "accepts_some_string f64_of c \<longleftrightarrow> (\<exists>text. conforms f64_of schema (JString text))"
    unfolding accepts_some_string_exact [OF s(2)] s(1) validator_decides(1) ..
  ultimately show ?thesis by blast
qed

text \<open>The built-in worktree schema compiles, so its \<open>expect\<close> holds, when its encoding is within the limit.\<close>

lemma worktree_spec_compiles:
  fixes encoded_len :: "'f json \<Rightarrow> nat"
  shows "encoded_len worktree_spec \<le> SCHEMA_MAX_BYTES \<Longrightarrow> schema_compile encoded_len worktree_spec = Inr \<lparr>spec = worktree_spec\<rparr>"
proof -
  assume "encoded_len worktree_spec \<le> SCHEMA_MAX_BYTES"
  moreover have "validate_schema_node (worktree_spec :: 'f json) 0 = Inr ()"
    by (simp add: validate_schema_node.simps worktree_spec_def string_schema_def SCHEMA_MAX_DEPTH_def SCHEMA_MAX_PROPERTIES_def
        SCHEMA_MAX_REQUIRED_def ALLOWED_KEYWORDS_def REJECTED_KEYWORDS_def check_required_def check_enum_def check_type_def)
  ultimately show ?thesis by (simp add: schema_compile_def)
qed

lemma worktree_lifecycle_schema_total:
  "encoded_len worktree_spec \<le> SCHEMA_MAX_BYTES \<Longrightarrow> worktree_lifecycle_schema encoded_len = Some \<lparr>spec = worktree_spec\<rparr>"
  by (simp add: worktree_lifecycle_schema_def worktree_spec_compiles)

theorem compiled_schema_exact_witness:
  "\<exists>c. schema_compile (\<lambda>_. 400) (worktree_spec :: int json) = Inr c \<and>
     conforms id (worktree_spec :: int json) (JObject [(''event'', JString ''created'')]) \<and>
     \<not> conforms id (worktree_spec :: int json) (JObject [(''event'', JNull)]) \<and>
     \<not> conforms id (worktree_spec :: int json) (JObject [(''label'', JString ''main'')])"
proof -
  let ?c = "\<lparr>spec = worktree_spec :: int json\<rparr>"
  have compiled: "schema_compile (\<lambda>_. 400) (worktree_spec :: int json) = Inr ?c"
    by (rule worktree_spec_compiles) (simp add: SCHEMA_MAX_BYTES_def)
  have "schema_validate id ?c (JObject [(''event'', JString ''created'')]) = Inr ()"
    "schema_validate id ?c (JObject [(''event'', JNull)]) \<noteq> Inr ()"
    "schema_validate id ?c (JObject [(''label'', JString ''main'')]) \<noteq> Inr ()"
    by code_simp+
  with compiled_schema_exact [OF compiled, of id] compiled show ?thesis by blast
qed

end
