(* ===== verification/Rust_Str.thy ===== *)
theory Rust_Str
  imports Hub_Prelude
begin

text \<open>
  The operations of \<open>str\<close> and of byte slices that the parsers use.  A string is its bytes, and a
  \<open>char\<close> of the model is one byte; a \<open>&str\<close> is a byte string that \<open>from_utf8\<close> accepts.  The
  delimiters searched for are ASCII, which never occur inside a longer character, so splitting
  works on bytes; trimming works on characters, because Unicode white space is removed.
\<close>

section \<open>Splitting\<close>

definition split_once :: "char \<Rightarrow> string \<Rightarrow> (string \<times> string) option" where
  "split_once c s =
     (case dropWhile (\<lambda>x. x \<noteq> c) s of [] \<Rightarrow> None | _ # rest \<Rightarrow> Some (takeWhile (\<lambda>x. x \<noteq> c) s, rest))"

definition rsplit_once :: "char \<Rightarrow> string \<Rightarrow> (string \<times> string) option" where
  "rsplit_once c s = map_option (\<lambda>(a, b). (rev b, rev a)) (split_once c (rev s))"

fun split_all :: "char \<Rightarrow> string \<Rightarrow> string list" where
  "split_all c [] = [[]]"
| "split_all c (x # xs) =
     (if x = c then [] # split_all c xs
      else case split_all c xs of [] \<Rightarrow> [[x]] | p # ps \<Rightarrow> (x # p) # ps)"

lemma split_once_here: "c \<notin> set a \<Longrightarrow> split_once c (a @ c # b) = Some (a, b)"
  by (induction a) (auto simp: split_once_def split: list.splits)

lemma split_once_Some: "split_once c s = Some (a, b) \<Longrightarrow> s = a @ c # b \<and> c \<notin> set a"
proof (induction s arbitrary: a)
  case (Cons x s)
  show ?case
  proof (cases "x = c")
    case True
    then show ?thesis using Cons.prems by (simp add: split_once_def)
  next
    case False
    then obtain a' where "a = x # a'" "split_once c s = Some (a', b)"
      using Cons.prems by (auto simp: split_once_def split: list.splits)
    then show ?thesis using Cons.IH False by auto
  qed
qed (simp add: split_once_def)

lemma rsplit_once_here: "c \<notin> set b \<Longrightarrow> rsplit_once c (a @ c # b) = Some (a, b)"
  using split_once_here [of c "rev b" "rev a"] by (simp add: rsplit_once_def)

lemma rsplit_once_Some:
  assumes "rsplit_once c s = Some (a, b)"
  shows "s = a @ c # b \<and> c \<notin> set b"
proof -
  have "split_once c (rev s) = Some (rev b, rev a)" using assms by (auto simp: rsplit_once_def)
  from split_once_Some [OF this] have r: "rev s = rev b @ c # rev a" "c \<notin> set b" by auto
  have "s = rev (rev b @ c # rev a)" unfolding r(1) [symmetric] by simp
  with r(2) show ?thesis by simp
qed

section \<open>ASCII\<close>

abbreviation byte :: "char \<Rightarrow> nat" where
  "byte c \<equiv> of_char c"

definition is_ascii_digit :: "char \<Rightarrow> bool" where
  "is_ascii_digit c \<longleftrightarrow> 48 \<le> byte c \<and> byte c \<le> 57"

definition is_ascii_graphic :: "char \<Rightarrow> bool" where
  "is_ascii_graphic c \<longleftrightarrow> 33 \<le> byte c \<and> byte c \<le> 126"

definition to_ascii_lowercase :: "char \<Rightarrow> char" where
  "to_ascii_lowercase c = (if 65 \<le> byte c \<and> byte c \<le> 90 then char_of (byte c + 32) else c)"

definition eq_ignore_ascii_case :: "string \<Rightarrow> string \<Rightarrow> bool" where
  "eq_ignore_ascii_case a b \<longleftrightarrow> map to_ascii_lowercase a = map to_ascii_lowercase b"

section \<open>UTF-8\<close>

definition continues :: "nat \<Rightarrow> bool" where
  "continues b \<longleftrightarrow> 128 \<le> b \<and> b < 192"

text \<open>The number of bytes of the character at the start, if it is well formed.\<close>

definition utf8_width :: "nat list \<Rightarrow> nat option" where
  "utf8_width bs =
     (case bs of
        [] \<Rightarrow> None
      | a # bs1 \<Rightarrow>
          if a < 128 then Some 1
          else case bs1 of
            [] \<Rightarrow> None
          | b # bs2 \<Rightarrow>
              if 194 \<le> a \<and> a < 224 then (if continues b then Some 2 else None)
              else case bs2 of
                [] \<Rightarrow> None
              | c # bs3 \<Rightarrow>
                  if 224 \<le> a \<and> a < 240 then
                    (if continues b \<and> continues c \<and> (a = 224 \<longrightarrow> 160 \<le> b) \<and> (a = 237 \<longrightarrow> b < 160) then Some 3 else None)
                  else case bs3 of
                    [] \<Rightarrow> None
                  | d # _ \<Rightarrow>
                      if 240 \<le> a \<and> a < 245 \<and> continues b \<and> continues c \<and> continues d \<and>
                         (a = 240 \<longrightarrow> 144 \<le> b) \<and> (a = 244 \<longrightarrow> b < 144) then Some 4 else None)"

lemma utf8_width_pos: "utf8_width bs = Some n \<Longrightarrow> 0 < n \<and> bs \<noteq> []"
  by (auto simp: utf8_width_def split: list.splits if_splits)

function utf8_chars :: "string \<Rightarrow> string list option" where
  "utf8_chars s =
     (if s = [] then Some []
      else case utf8_width (map byte s) of
        None \<Rightarrow> None
      | Some n \<Rightarrow> map_option (\<lambda>cs. take n s # cs) (utf8_chars (drop n s)))"
  by auto

termination
  by (relation "measure length") (auto dest: utf8_width_pos)

declare utf8_chars.simps [simp del]

definition from_utf8 :: "string \<Rightarrow> string option" where
  "from_utf8 s = (if utf8_chars s = None then None else Some s)"

text \<open>The characters of the Unicode property \<open>White_Space\<close>, by their bytes.\<close>

definition white_space :: "nat list list" where
  "white_space =
     [[9], [10], [11], [12], [13], [32], [194, 133], [194, 160], [225, 154, 128],
      [226, 128, 128], [226, 128, 129], [226, 128, 130], [226, 128, 131], [226, 128, 132], [226, 128, 133],
      [226, 128, 134], [226, 128, 135], [226, 128, 136], [226, 128, 137], [226, 128, 138],
      [226, 128, 168], [226, 128, 169], [226, 128, 175], [226, 129, 159], [227, 128, 128]]"

definition is_whitespace :: "string \<Rightarrow> bool" where
  "is_whitespace ch \<longleftrightarrow> map byte ch \<in> set white_space"

definition str_trim :: "string \<Rightarrow> string" where
  "str_trim s =
     (case utf8_chars s of
        None \<Rightarrow> s
      | Some cs \<Rightarrow> concat (rev (dropWhile is_whitespace (rev (dropWhile is_whitespace cs)))))"

lemma utf8_chars_ascii: "\<forall>c \<in> set s. byte c < 128 \<Longrightarrow> utf8_chars s = Some (map (\<lambda>c. [c]) s)"
  by (induction s) (simp_all add: utf8_chars.simps utf8_width_def)

lemma graphic_ascii: "\<forall>c \<in> set s. is_ascii_graphic c \<Longrightarrow> \<forall>c \<in> set s. byte c < 128"
  by (auto simp: is_ascii_graphic_def)

lemma from_utf8_ascii: "\<forall>c \<in> set s. byte c < 128 \<Longrightarrow> from_utf8 s = Some s"
  by (simp add: from_utf8_def utf8_chars_ascii)

lemma graphic_not_whitespace: "is_ascii_graphic c \<Longrightarrow> \<not> is_whitespace [c]"
  by (auto simp: is_ascii_graphic_def is_whitespace_def white_space_def)

text \<open>Trimming leaves a string alone that begins and ends with a visible ASCII character.\<close>

lemma str_trim_graphic:
  assumes "\<forall>c \<in> set s. byte c < 128" and "s \<noteq> [] \<Longrightarrow> is_ascii_graphic (hd s) \<and> is_ascii_graphic (last s)"
  shows "str_trim s = s"
proof (cases "s = []")
  case False
  let ?cs = "map (\<lambda>c. [c]) s"
  have head: "dropWhile is_whitespace ?cs = ?cs"
    using assms(2) False graphic_not_whitespace by (cases s) auto
  have "dropWhile is_whitespace (rev ?cs) = rev ?cs"
    using assms(2) False graphic_not_whitespace by (cases s rule: rev_cases) auto
  with head show ?thesis using utf8_chars_ascii [OF assms(1)] by (simp add: str_trim_def)
qed (simp add: str_trim_def utf8_chars.simps)

section \<open>Decimal integers\<close>

definition digit_value :: "char \<Rightarrow> nat" where
  "digit_value c = byte c - 48"

definition decimal_value :: "string \<Rightarrow> nat" where
  "decimal_value s = foldl (\<lambda>n c. 10 * n + digit_value c) 0 s"

text \<open>\<open>str::parse\<close> of an unsigned type whose largest value is \<open>max\<close>: one leading plus is allowed.\<close>

definition parse_unsigned :: "nat \<Rightarrow> string \<Rightarrow> nat option" where
  "parse_unsigned limit s =
     (let digits = (case s of c # rest \<Rightarrow> if c = CHR ''+'' then rest else s | [] \<Rightarrow> [])
      in if digits = [] \<or> \<not> list_all is_ascii_digit digits \<or> limit < decimal_value digits then None
         else Some (decimal_value digits))"

text \<open>The decimal digits of a number, as \<open>format!\<close> prints it.\<close>

fun decimal :: "nat \<Rightarrow> string" where
  "decimal n = (if n < 10 then [char_of (48 + n)] else decimal (n div 10) @ [char_of (48 + n mod 10)])"

declare decimal.simps [simp del]

lemma decimal_value_snoc: "decimal_value (s @ [c]) = 10 * decimal_value s + digit_value c"
  by (simp add: decimal_value_def)

lemma byte_digit: "n < 10 \<Longrightarrow> byte (char_of (48 + n)) = 48 + n"
  by simp

lemma decimal_digits: "list_all is_ascii_digit (decimal n) \<and> decimal n \<noteq> [] \<and> decimal_value (decimal n) = n"
proof (induction n rule: decimal.induct)
  case (1 n)
  show ?case
  proof (cases "n < 10")
    case True
    then show ?thesis
      by (subst decimal.simps) (simp add: decimal.simps is_ascii_digit_def decimal_value_def digit_value_def)
  next
    case False
    have m: "n mod 10 < 10" by simp
    have "decimal n = decimal (n div 10) @ [char_of (48 + n mod 10)]" using False by (subst decimal.simps) simp
    then show ?thesis using 1 [OF False] m
      by (simp add: decimal_value_snoc is_ascii_digit_def digit_value_def)
  qed
qed

text \<open>Printing and parsing a number is the identity, within the width.\<close>

lemma parse_decimal: "n \<le> limit \<Longrightarrow> parse_unsigned limit (decimal n) = Some n"
proof -
  assume n: "n \<le> limit"
  obtain c rest where d: "decimal n = c # rest" using decimal_digits [of n] by (cases "decimal n") auto
  then have "c \<noteq> CHR ''+''" using decimal_digits [of n] by (auto simp: is_ascii_digit_def)
  then show ?thesis using d n decimal_digits [of n] by (simp add: parse_unsigned_def Let_def)
qed

end
