(* ===== verification/Session_Credential.thy ===== *)
theory Session_Credential
  imports Grants Rust_Str
begin

text \<open>
  \<open>session_credential.rs\<close>: the caller token of a spawned session.  Issuing puts
  \<open><session_id>.<64 hex digits>\<close> into the environment and the SHA-256 of the secret into the session's
  metadata; a presented token is parsed to a session claim and a digest, and the claim holds if
  the digest matches the stored one.

  SHA-256 is code of another crate: it is the parameter \<open>sha\<close>, of which the code relies on the
  length of 32 bytes.  The entropy source answers the bytes it filled, or fails.
\<close>

section \<open>Issuing\<close>

definition MCP_TOKEN_ENVIRONMENT :: string where "MCP_TOKEN_ENVIRONMENT = ''BOTSTER_MCP_TOKEN''"
definition MCP_URL_ENVIRONMENT :: string where "MCP_URL_ENVIRONMENT = ''BOTSTER_MCP_URL''"
definition TOKEN_DIGEST_METADATA_KEY :: string where "TOKEN_DIGEST_METADATA_KEY = ''botster.caller_token_sha256''"

definition SECRET_BYTES :: usize where "SECRET_BYTES = 32"
definition HEX_SECRET_BYTES :: usize where "HEX_SECRET_BYTES = SECRET_BYTES * 2"
definition HEX_DIGEST_BYTES :: usize where "HEX_DIGEST_BYTES = 64"

datatype credential_unavailable = CredentialUnavailable

text \<open>The part of a spawn request and of its metadata that issuing reads and writes.\<close>

record spawn_credentials =
  sp_session_id :: string
  sp_variables :: "(string \<times> string) list"
  sp_metadata :: "(string, string) omap"

definition token_len :: "string \<Rightarrow> usize option" where
  "token_len session_id = checked_add (length session_id) (1 + HEX_SECRET_BYTES)"

definition push_hex :: "string \<Rightarrow> 8 word list \<Rightarrow> string" where
  "push_hex text' bytes = text' @ hex bytes"

definition issue ::
  "(8 word list \<Rightarrow> 8 word list) \<Rightarrow> string option \<Rightarrow> 8 word list option \<Rightarrow> spawn_credentials \<Rightarrow>
   (credential_unavailable + unit) \<times> spawn_credentials"
where
  "issue sha mcp_url entropy s =
     (case entropy of
        None \<Rightarrow> (Inl CredentialUnavailable, s)
      | Some secret \<Rightarrow>
          (case token_len (sp_session_id s) of
             None \<Rightarrow> (Inl CredentialUnavailable, s)
           | Some _ \<Rightarrow>
               let token = push_hex (sp_session_id s @ ''.'') secret;
                   digest = push_hex [] (sha secret);
                   variables = filter (\<lambda>v. fst v \<noteq> MCP_TOKEN_ENVIRONMENT \<and> fst v \<noteq> MCP_URL_ENVIRONMENT) (sp_variables s)
                     @ [(MCP_TOKEN_ENVIRONMENT, token)];
                   variables = (case mcp_url of None \<Rightarrow> variables | Some url \<Rightarrow> variables @ [(MCP_URL_ENVIRONMENT, url)])
               in (Inr (), s\<lparr>sp_variables := variables,
                             sp_metadata := om_insert TOKEN_DIGEST_METADATA_KEY digest (sp_metadata s)\<rparr>)))"

section \<open>Presenting\<close>

record caller_token =
  ct_session_id :: string
  ct_secret_digest :: "8 word list"

definition token_hex_value :: "char \<Rightarrow> 8 word option" where
  "token_hex_value c =
     (if CHR ''0'' \<le> c \<and> c \<le> CHR ''9'' then Some (of_char c - of_char CHR ''0'')
      else if CHR ''a'' \<le> c \<and> c \<le> CHR ''f'' then Some (of_char c - of_char CHR ''a'' + 10)
      else None)"

fun token_secret :: "string \<Rightarrow> 8 word list option" where
  "token_secret (h # l # cs) =
     (case token_hex_value h of None \<Rightarrow> None | Some high \<Rightarrow>
      case token_hex_value l of None \<Rightarrow> None | Some low \<Rightarrow>
      case token_secret cs of None \<Rightarrow> None | Some bs \<Rightarrow> Some ((push_bit 4 high OR low) # bs))"
| "token_secret _ = Some []"

definition caller_token_parse :: "(8 word list \<Rightarrow> 8 word list) \<Rightarrow> string \<Rightarrow> caller_token option" where
  "caller_token_parse sha text' =
     (case rsplit_once CHR ''.'' text' of
        None \<Rightarrow> None
      | Some (session_id, secret) \<Rightarrow>
          if session_id = [] \<or> \<not> list_all is_ascii_graphic session_id then None
          else if length secret \<noteq> HEX_SECRET_BYTES then None
          else map_option (\<lambda>bytes. \<lparr>ct_session_id = session_id, ct_secret_digest = sha bytes\<rparr>) (token_secret secret))"

text \<open>
  The comparison of \<open>matches\<close>: the difference starts from the lengths and collects the exclusive or
  of every expected byte with the stored byte there, or with zero past its end.
\<close>

definition byte_word :: "char \<Rightarrow> 8 word" where
  "byte_word c = of_char c"

fun token_difference :: "8 word \<Rightarrow> string \<Rightarrow> string \<Rightarrow> 8 word" where
  "token_difference d stored [] = d"
| "token_difference d stored (e # expected) =
     token_difference (d OR ((case stored of [] \<Rightarrow> 0 | c # _ \<Rightarrow> byte_word c) XOR byte_word e)) (drop 1 stored) expected"

definition token_matches :: "caller_token \<Rightarrow> string \<Rightarrow> bool" where
  "token_matches t stored =
     (let expected = hex (ct_secret_digest t)
      in token_difference (if length stored \<noteq> length expected then 1 else 0) stored expected = 0)"

section \<open>Facts\<close>

lemma word_or_eq_0: "a OR b = 0 \<longleftrightarrow> a = 0 \<and> b = (0 :: 8 word)"
  by (rule or_eq_0_iff)

lemma word_xor_eq_0: "a XOR b = 0 \<longleftrightarrow> a = (b :: 8 word)"
  by (auto simp: bit_eq_iff bit_xor_iff)

lemma unat_byte_word: "unat (byte_word c) = byte c"
proof -
  have "byte_word c = of_nat (byte c)" by (simp add: byte_word_def of_nat_of_char)
  then show ?thesis by (simp only: unsigned_of_nat) (simp add: take_bit_eq_mod)
qed

lemma byte_word_inject [simp]: "byte_word a = byte_word b \<longleftrightarrow> a = b"
  by (metis unat_byte_word of_char_eq_iff)

lemma token_difference_0:
  "token_difference d stored expected = 0 \<Longrightarrow> d = 0"
  by (induction d stored expected rule: token_difference.induct) (auto simp: word_or_eq_0)

lemma token_difference_same_length:
  "length stored = length expected \<Longrightarrow> token_difference d stored expected = 0 \<longleftrightarrow> d = 0 \<and> stored = expected"
proof (induction d stored expected rule: token_difference.induct)
  case (2 d stored e expected)
  then obtain c stored' where "stored = c # stored'" by (cases stored) auto
  with 2 show ?case by (auto simp: word_or_eq_0 word_xor_eq_0)
qed simp

lemma token_matches_iff: "token_matches t stored \<longleftrightarrow> stored = hex (ct_secret_digest t)"
proof (cases "length stored = length (hex (ct_secret_digest t))")
  case True
  then show ?thesis by (simp add: token_matches_def Let_def token_difference_same_length)
next
  case False
  then show ?thesis by (auto simp: token_matches_def Let_def dest: token_difference_0)
qed

lemma token_hex_value_digit: "n < 16 \<Longrightarrow> token_hex_value (HEX ! n) = Some (word_of_nat n)"
proof -
  have "\<forall>n \<in> set [0..<16]. token_hex_value (HEX ! n) = Some (word_of_nat n)" by code_simp
  then show "n < 16 \<Longrightarrow> ?thesis" by simp
qed

lemma token_secret_hex: "token_secret (hex bs) = Some bs"
  by (induction bs) (simp_all add: token_hex_value_digit nibbles decode_hex_byte)

lemma hex_digit_graphic: "n < 16 \<Longrightarrow> is_ascii_graphic (HEX ! n) \<and> HEX ! n \<noteq> CHR ''.''"
proof -
  have "\<forall>n \<in> set [0..<16]. is_ascii_graphic (HEX ! n) \<and> HEX ! n \<noteq> CHR ''.''" by code_simp
  then show "n < 16 \<Longrightarrow> ?thesis" by simp
qed

lemma hex_graphic: "c \<in> set (hex bs) \<Longrightarrow> is_ascii_graphic c \<and> c \<noteq> CHR ''.''"
  by (induction bs) (auto simp: hex_digit_graphic nibbles)

lemma caller_token_parse_issued:
  assumes "session_id \<noteq> []" and "list_all is_ascii_graphic session_id" and "length secret = SECRET_BYTES"
  shows "caller_token_parse sha (session_id @ ''.'' @ hex secret) =
    Some \<lparr>ct_session_id = session_id, ct_secret_digest = sha secret\<rparr>"
proof -
  have "rsplit_once CHR ''.'' (session_id @ CHR ''.'' # hex secret) = Some (session_id, hex secret)"
    by (rule rsplit_once_here) (use hex_graphic in blast)
  with assms show ?thesis
    by (simp add: caller_token_parse_def token_secret_hex HEX_SECRET_BYTES_def)
qed

end
