(* ===== verification/Unix_Frame.thy ===== *)
theory Unix_Frame
  imports Rust_Str
begin

text \<open>
  The framing of the Unix sockets.  The containers, their encoders and decoders and the client's
  resumable frame reader are in \<open>botster-hub-client/src/lib.rs\<close>; the Hub's inbound reader is in
  \<open>transport/unix/mux_write.rs\<close>.  A frame is a little-endian 32-bit length, a container byte and a
  payload: UTF-8 JSON for a control frame, or a route, a generation, an epoch and a body for a
  terminal frame.

  The JSON decoder is a parameter.  A socket that is read is the sequence of what its reads will
  meet: runs of bytes, cut anywhere, and failed or timed-out reads; at the end it is closed.
\<close>

section \<open>Constants\<close>

definition MAX_CONTROL_REQUEST_BYTES :: usize where "MAX_CONTROL_REQUEST_BYTES = 2 ^ 20"
definition MAX_CONTROL_RESPONSE_BYTES :: usize where "MAX_CONTROL_RESPONSE_BYTES = 2 ^ 20"
definition UNIX_FRAME_LENGTH_PREFIX_BYTES :: usize where "UNIX_FRAME_LENGTH_PREFIX_BYTES = 4"
definition UNIX_CONTAINER_CONTROL :: char where "UNIX_CONTAINER_CONTROL = char_of (1 :: nat)"
definition UNIX_CONTAINER_TERMINAL :: char where "UNIX_CONTAINER_TERMINAL = char_of (2 :: nat)"
definition MAX_UNIX_TERMINAL_ROUTE_BYTES :: usize where "MAX_UNIX_TERMINAL_ROUTE_BYTES = 1024"
definition UNIX_TERMINAL_CONTAINER_FIXED_BYTES :: usize where "UNIX_TERMINAL_CONTAINER_FIXED_BYTES = 2 + 8 + 4"
definition MAX_UNIX_FRAME_BYTES :: usize where
  "MAX_UNIX_FRAME_BYTES = 4 * 2 ^ 20 + 1 + UNIX_TERMINAL_CONTAINER_FIXED_BYTES + MAX_UNIX_TERMINAL_ROUTE_BYTES"

lemmas frame_consts = MAX_CONTROL_REQUEST_BYTES_def MAX_CONTROL_RESPONSE_BYTES_def UNIX_FRAME_LENGTH_PREFIX_BYTES_def
  MAX_UNIX_TERMINAL_ROUTE_BYTES_def UNIX_TERMINAL_CONTAINER_FIXED_BYTES_def MAX_UNIX_FRAME_BYTES_def

section \<open>Little-endian integers\<close>

text \<open>\<open>to_le_bytes\<close> of a \<open>k\<close>-byte integer, truncated to its width as \<open>as\<close> does, and \<open>from_le_bytes\<close>.\<close>

primrec to_le_bytes :: "nat \<Rightarrow> nat \<Rightarrow> string" where
  "to_le_bytes 0 n = []"
| "to_le_bytes (Suc k) n = char_of n # to_le_bytes k (n div 256)"

fun from_le_bytes :: "string \<Rightarrow> nat" where
  "from_le_bytes [] = 0"
| "from_le_bytes (c # cs) = byte c + 256 * from_le_bytes cs"

lemma length_to_le_bytes [simp]: "length (to_le_bytes k n) = k"
  by (induction k arbitrary: n) auto

lemma le_bytes_roundtrip: "n < 256 ^ k \<Longrightarrow> from_le_bytes (to_le_bytes k n) = n"
proof (induction k arbitrary: n)
  case (Suc k)
  then have "n div 256 < 256 ^ k" by (simp add: less_mult_imp_div_less mult.commute)
  then show ?case using Suc.IH by simp
qed simp

lemma le_bytes_eq_roundtrip: "length cs = k \<Longrightarrow> to_le_bytes k (from_le_bytes cs) = cs"
proof (induction cs arbitrary: k)
  case (Cons c cs)
  have "(byte c + 256 * from_le_bytes cs) mod 256 = byte c" by simp
  then have "char_of (byte c + 256 * from_le_bytes cs) = c"
    using char_of_mod_256 [of "byte c + 256 * from_le_bytes cs"] by simp
  then show ?case using Cons by auto
qed simp

section \<open>Containers\<close>

datatype daemon_protocol_error_code =
    MalformedFrame | FrameTooLarge | UnknownContainer | UnknownFrame | InvalidRequestId
  | NonincreasingRequestId | HandshakeOrder | InvalidRoute | InvalidInputHeader

record daemon_unix_terminal_frame =
  tf_route :: string
  tf_generation :: u64
  tf_stream_epoch :: nat
  tf_body :: string

datatype 'c daemon_unix_frame = ControlFrame 'c | TerminalFrame daemon_unix_terminal_frame

text \<open>\<open>char::is_control\<close>: the characters up to U+001F and from U+007F to U+009F.\<close>

definition is_control :: "string \<Rightarrow> bool" where
  "is_control ch =
     (case map byte ch of
        [a] \<Rightarrow> a < 32 \<or> a = 127
      | [a, b] \<Rightarrow> a = 194 \<and> 128 \<le> b \<and> b \<le> 159
      | _ \<Rightarrow> False)"

definition unix_terminal_header :: "string \<Rightarrow> u64 \<Rightarrow> nat \<Rightarrow> usize \<Rightarrow> string option" where
  "unix_terminal_header route generation stream_epoch body_len =
     (if route = [] \<or> MAX_UNIX_TERMINAL_ROUTE_BYTES < length route then None
      else
        let payload_len = UNIX_TERMINAL_CONTAINER_FIXED_BYTES + length route + body_len;
            frame_len = 1 + payload_len
        in if MAX_UNIX_FRAME_BYTES < frame_len then None
           else Some (to_le_bytes 4 frame_len @ [UNIX_CONTAINER_TERMINAL] @ to_le_bytes 2 (length route) @ route @
                      to_le_bytes 8 generation @ to_le_bytes 4 stream_epoch))"

definition encode_unix_terminal_frame :: "string \<Rightarrow> u64 \<Rightarrow> nat \<Rightarrow> string \<Rightarrow> string option" where
  "encode_unix_terminal_frame route generation stream_epoch body =
     map_option (\<lambda>header. header @ body) (unix_terminal_header route generation stream_epoch (length body))"

datatype transport_error = JsonError | ProtocolError | ClientDisconnected | IoError | ProtocolViolation daemon_protocol_error_code

definition encode_control_json :: "string \<Rightarrow> transport_error + string" where
  "encode_control_json json =
     (if max MAX_CONTROL_REQUEST_BYTES MAX_CONTROL_RESPONSE_BYTES < length json then Inl ProtocolError
      else Inr (to_le_bytes 4 (1 + length json) @ [UNIX_CONTAINER_CONTROL] @ json))"

text \<open>\<open>json\<close> is what the serializer returns for the frame.\<close>

definition encode_control_frame :: "string option \<Rightarrow> transport_error + string" where
  "encode_control_frame json = (case json of None \<Rightarrow> Inl JsonError | Some json \<Rightarrow> encode_control_json json)"

definition decode_terminal :: "string \<Rightarrow> daemon_protocol_error_code + daemon_unix_terminal_frame" where
  "decode_terminal payload =
     (if length payload < UNIX_TERMINAL_CONTAINER_FIXED_BYTES then Inl MalformedFrame
      else
        let route_len = from_le_bytes (take 2 payload)
        in if route_len = 0 \<or> MAX_UNIX_TERMINAL_ROUTE_BYTES < route_len \<or>
              length payload < UNIX_TERMINAL_CONTAINER_FIXED_BYTES + route_len then Inl InvalidRoute
           else
             let route = take route_len (drop 2 payload)
             in case utf8_chars route of
                  None \<Rightarrow> Inl InvalidRoute
                | Some chars \<Rightarrow>
                    if list_ex is_control chars then Inl InvalidRoute
                    else
                      let generation_start = 2 + route_len;
                          epoch_start = generation_start + 8
                      in Inr \<lparr>tf_route = route,
                              tf_generation = from_le_bytes (take 8 (drop generation_start payload)),
                              tf_stream_epoch = from_le_bytes (take 4 (drop epoch_start payload)),
                              tf_body = drop (epoch_start + 4) payload\<rparr>)"

definition decode_unix_frame :: "(string \<Rightarrow> 'c option) \<Rightarrow> string \<Rightarrow> daemon_protocol_error_code + 'c daemon_unix_frame" where
  "decode_unix_frame from_slice frame =
     (case frame of
        [] \<Rightarrow> Inl MalformedFrame
      | container # payload \<Rightarrow>
          if container = UNIX_CONTAINER_CONTROL then
            (case from_slice payload of None \<Rightarrow> Inl MalformedFrame | Some c \<Rightarrow> Inr (ControlFrame c))
          else if container = UNIX_CONTAINER_TERMINAL then
            (case decode_terminal payload of Inl e \<Rightarrow> Inl e | Inr f \<Rightarrow> Inr (TerminalFrame f))
          else Inl UnknownContainer)"

section \<open>Sockets and the client's reader\<close>

text \<open>The kinds of I/O error the client tells apart: a reset, a broken pipe or an early end, and the others.\<close>

datatype io_error_kind = ConnectionLost | OtherIo

definition normalize_socket_io_error :: "io_error_kind \<Rightarrow> transport_error" where
  "normalize_socket_io_error error = (case error of ConnectionLost \<Rightarrow> ClientDisconnected | OtherIo \<Rightarrow> IoError)"

datatype chunk = Bytes string | ReadFails io_error_kind

type_synonym socket = "chunk list"

text \<open>One \<open>read\<close> into a buffer of \<open>n\<close> bytes: no bytes at the end, or at an empty run, mean closed.\<close>

fun socket_read :: "nat \<Rightarrow> socket \<Rightarrow> (io_error_kind + string) \<times> socket" where
  "socket_read n [] = (Inr [], [])"
| "socket_read n (ReadFails error # s) = (Inl error, s)"
| "socket_read n (Bytes d # s) =
     (if length d \<le> n then (Inr d, s) else (Inr (take n d), Bytes (drop n d) # s))"

text \<open>The filled parts of the two buffers, and the declared length.\<close>

record frame_reader =
  fr_prefix :: string
  fr_frame_len :: usize
  fr_frame :: string

definition frame_reader_new :: frame_reader where
  "frame_reader_new = \<lparr>fr_prefix = [], fr_frame_len = 0, fr_frame = []\<rparr>"

definition has_partial_frame :: "frame_reader \<Rightarrow> bool" where
  "has_partial_frame r \<longleftrightarrow> fr_prefix r \<noteq> [] \<or> fr_frame r \<noteq> []"

text \<open>The loop that fills the length prefix; the declared length is checked when it is full.\<close>

function read_prefix :: "usize \<Rightarrow> frame_reader \<Rightarrow> socket \<Rightarrow> (transport_error + unit) \<times> frame_reader \<times> socket" where
  "read_prefix limit r s =
     (if length (fr_prefix r) < UNIX_FRAME_LENGTH_PREFIX_BYTES then
        case socket_read (UNIX_FRAME_LENGTH_PREFIX_BYTES - length (fr_prefix r)) s of
          (Inl error, s) \<Rightarrow> (Inl (normalize_socket_io_error error), r, s)
        | (Inr d, s) \<Rightarrow>
            if d = [] then (Inl (if fr_prefix r = [] then ClientDisconnected else ProtocolError), r, s)
            else
              let r = r\<lparr>fr_prefix := fr_prefix r @ d\<rparr>
              in if length (fr_prefix r) = UNIX_FRAME_LENGTH_PREFIX_BYTES then
                   let declared = from_le_bytes (fr_prefix r)
                   in if declared = 0 \<or> limit < declared then (Inl ProtocolError, r, s)
                      else read_prefix limit (r\<lparr>fr_frame_len := declared, fr_frame := []\<rparr>) s
                 else read_prefix limit r s
      else (Inr (), r, s))"
  by auto

termination
  by (relation "measure (\<lambda>(_, r, _). UNIX_FRAME_LENGTH_PREFIX_BYTES - length (fr_prefix r))")
    (auto simp: frame_consts neq_Nil_conv)

function read_body :: "frame_reader \<Rightarrow> socket \<Rightarrow> (transport_error + unit) \<times> frame_reader \<times> socket" where
  "read_body r s =
     (if length (fr_frame r) < fr_frame_len r then
        case socket_read (fr_frame_len r - length (fr_frame r)) s of
          (Inl error, s) \<Rightarrow> (Inl (normalize_socket_io_error error), r, s)
        | (Inr d, s) \<Rightarrow>
            if d = [] then (Inl ProtocolError, r, s)
            else read_body (r\<lparr>fr_frame := fr_frame r @ d\<rparr>) s
      else (Inr (), r, s))"
  by auto

termination
  by (relation "measure (\<lambda>(r, _). fr_frame_len r - length (fr_frame r))")
    (auto simp: diff_less_mono2)

declare read_prefix.simps [simp del] read_body.simps [simp del]

definition read_raw_frame :: "usize \<Rightarrow> frame_reader \<Rightarrow> socket \<Rightarrow> (transport_error + string) \<times> frame_reader \<times> socket" where
  "read_raw_frame limit r s =
     (case read_prefix limit r s of
        (Inl e, r, s) \<Rightarrow> (Inl e, r, s)
      | (Inr _, r, s) \<Rightarrow>
          (case read_body r s of
             (Inl e, r, s) \<Rightarrow> (Inl e, r, s)
           | (Inr _, r, s) \<Rightarrow> (Inr (fr_frame r), frame_reader_new, s)))"

definition client_read_frame ::
  "(string \<Rightarrow> 'c option) \<Rightarrow> frame_reader \<Rightarrow> socket \<Rightarrow> (transport_error + 'c) \<times> frame_reader \<times> socket"
where
  "client_read_frame from_slice r s =
     (case read_raw_frame MAX_UNIX_FRAME_BYTES r s of
        (Inl e, r, s) \<Rightarrow> (Inl e, r, s)
      | (Inr raw, r, s) \<Rightarrow>
          (case decode_unix_frame from_slice raw of
             Inr (ControlFrame c) \<Rightarrow> (Inr c, r, s)
           | Inr (TerminalFrame _) \<Rightarrow> (Inl ProtocolError, r, s)
           | Inl code \<Rightarrow> (Inl (ProtocolViolation code), r, s)))"

definition read_terminal_frame ::
  "(string \<Rightarrow> 'c option) \<Rightarrow> frame_reader \<Rightarrow> socket \<Rightarrow>
   (transport_error + daemon_unix_terminal_frame) \<times> frame_reader \<times> socket"
where
  "read_terminal_frame from_slice r s =
     (case read_raw_frame MAX_UNIX_FRAME_BYTES r s of
        (Inl e, r, s) \<Rightarrow> (Inl e, r, s)
      | (Inr raw, r, s) \<Rightarrow>
          (case decode_unix_frame from_slice raw of
             Inr (TerminalFrame f) \<Rightarrow> (Inr f, r, s)
           | Inr (ControlFrame _) \<Rightarrow> (Inl ProtocolError, r, s)
           | Inl code \<Rightarrow> (Inl (ProtocolViolation code), r, s)))"

section \<open>The Hub's inbound reader\<close>

datatype unix_inbound_error = InboundTransport transport_error | InboundProtocol daemon_protocol_error_code

text \<open>\<open>read_exact\<close>: reads until \<open>n\<close> bytes are there; a closed socket or a failed or late read is an I/O error.\<close>

function read_exact :: "nat \<Rightarrow> socket \<Rightarrow> string option \<times> socket" where
  "read_exact n s =
     (if n = 0 then (Some [], s)
      else case socket_read n s of
        (Inl _, s) \<Rightarrow> (None, s)
      | (Inr d, s) \<Rightarrow>
          if d = [] then (None, s)
          else case read_exact (n - length d) s of
                 (None, s) \<Rightarrow> (None, s)
               | (Some rest, s) \<Rightarrow> (Some (d @ rest), s))"
  by auto

termination
  by (relation "measure fst") (auto simp: neq_Nil_conv)

declare read_exact.simps [simp del]

definition read_async_raw_frame :: "socket \<Rightarrow> (unix_inbound_error + string) \<times> socket" where
  "read_async_raw_frame s =
     (case socket_read 1 s of
        (Inl _, s) \<Rightarrow> (Inl (InboundTransport IoError), s)
      | (Inr first, s) \<Rightarrow>
          if first = [] then (Inl (InboundTransport ClientDisconnected), s)
          else case read_exact (UNIX_FRAME_LENGTH_PREFIX_BYTES - 1) s of
            (None, s) \<Rightarrow> (Inl (InboundTransport IoError), s)
          | (Some rest, s) \<Rightarrow>
              let declared = from_le_bytes (first @ rest)
              in if declared = 0 then (Inl (InboundProtocol MalformedFrame), s)
                 else if MAX_UNIX_FRAME_BYTES < declared then (Inl (InboundProtocol FrameTooLarge), s)
                 else case read_exact declared s of
                   (None, s) \<Rightarrow> (Inl (InboundTransport IoError), s)
                 | (Some frame, s) \<Rightarrow> (Inr frame, s))"

datatype 'q client_frame = ClientHello 'q | ClientRequest string 'q

datatype 'q unix_inbound = InboundHello 'q | InboundRequest string 'q | InboundTerminal daemon_unix_terminal_frame

text \<open>The bound on a terminal input body belongs to the terminal protocol crate.\<close>

definition read_async_inbound ::
  "usize \<Rightarrow> (string \<Rightarrow> 'q client_frame option) \<Rightarrow> socket \<Rightarrow> (unix_inbound_error + 'q unix_inbound) \<times> socket"
where
  "read_async_inbound max_terminal_input_frame_bytes from_slice s =
     (case read_async_raw_frame s of
        (Inl e, s) \<Rightarrow> (Inl e, s)
      | (Inr raw, s) \<Rightarrow>
          (case decode_unix_frame from_slice raw of
             Inr (ControlFrame (ClientHello hello)) \<Rightarrow>
               (if MAX_CONTROL_REQUEST_BYTES < length raw - 1 then Inl (InboundProtocol FrameTooLarge)
                else Inr (InboundHello hello), s)
           | Inr (ControlFrame (ClientRequest request_id request)) \<Rightarrow>
               (if MAX_CONTROL_REQUEST_BYTES < length raw - 1 then Inl (InboundProtocol FrameTooLarge)
                else Inr (InboundRequest request_id request), s)
           | Inr (TerminalFrame frame) \<Rightarrow>
               (if max_terminal_input_frame_bytes < length (tf_body frame) then Inl (InboundProtocol FrameTooLarge)
                else Inr (InboundTerminal frame), s)
           | Inl code \<Rightarrow> (Inl (InboundProtocol code), s)))"

section \<open>Terminal containers decode to what was encoded\<close>

abbreviation framed :: "string \<Rightarrow> string" where
  "framed f \<equiv> to_le_bytes 4 (length f) @ f"

definition route_ok :: "string \<Rightarrow> bool" where
  "route_ok route \<longleftrightarrow> (case utf8_chars route of None \<Rightarrow> False | Some chars \<Rightarrow> \<not> list_ex is_control chars)"

definition terminal_payload :: "string \<Rightarrow> u64 \<Rightarrow> nat \<Rightarrow> string \<Rightarrow> string" where
  "terminal_payload route generation stream_epoch body =
     to_le_bytes 2 (length route) @ route @ to_le_bytes 8 generation @ to_le_bytes 4 stream_epoch @ body"

lemma encode_terminal_eq:
  "encode_unix_terminal_frame route generation stream_epoch body = Some w \<Longrightarrow>
     w = framed (UNIX_CONTAINER_TERMINAL # terminal_payload route generation stream_epoch body) \<and>
     route \<noteq> [] \<and> length route \<le> 1024 \<and>
     1 + length (terminal_payload route generation stream_epoch body) \<le> MAX_UNIX_FRAME_BYTES"
  by (auto simp: encode_unix_terminal_frame_def unix_terminal_header_def terminal_payload_def frame_consts Let_def
      split: if_splits)

lemma decode_terminal_payload:
  assumes route: "route \<noteq> []" "length route \<le> 1024" "route_ok route"
    and widths: "generation < 2 ^ 64" "stream_epoch < 2 ^ 32"
  shows "decode_terminal (terminal_payload route generation stream_epoch body) =
    Inr \<lparr>tf_route = route, tf_generation = generation, tf_stream_epoch = stream_epoch, tf_body = body\<rparr>"
proof -
  have le: "from_le_bytes (to_le_bytes 2 (length route)) = length route"
    "from_le_bytes (to_le_bytes 8 generation) = generation"
    "from_le_bytes (to_le_bytes 4 stream_epoch) = stream_epoch"
    using route(2) widths by (auto intro!: le_bytes_roundtrip)
  obtain chars where "utf8_chars route = Some chars" "\<not> list_ex is_control chars"
    using route(3) by (auto simp: route_ok_def split: option.splits)
  then show ?thesis
    using route(1,2) by (simp add: decode_terminal_def terminal_payload_def frame_consts le Let_def)
qed

section \<open>A reader loses and invents nothing\<close>

fun socket_bytes :: "socket \<Rightarrow> string" where
  "socket_bytes [] = []"
| "socket_bytes (Bytes d # s) = d @ socket_bytes s"
| "socket_bytes (ReadFails _ # s) = socket_bytes s"

fun socket_failures :: "socket \<Rightarrow> nat" where
  "socket_failures [] = 0"
| "socket_failures (Bytes d # s) = socket_failures s"
| "socket_failures (ReadFails _ # s) = Suc (socket_failures s)"

text \<open>A socket that stays open until its bytes are read: a read of no bytes is the end.\<close>

definition socket_open :: "socket \<Rightarrow> bool" where
  "socket_open s \<longleftrightarrow> Bytes [] \<notin> set s \<and> ReadFails ConnectionLost \<notin> set s"

lemma socket_read_spec:
  "socket_read n s = (d, s') \<Longrightarrow> 0 < n \<Longrightarrow> socket_open s \<Longrightarrow>
     socket_open s' \<and>
     (case d of
        Inl error \<Rightarrow> error = OtherIo \<and> socket_bytes s' = socket_bytes s \<and> socket_failures s = Suc (socket_failures s')
      | Inr d \<Rightarrow> socket_bytes s = d @ socket_bytes s' \<and> socket_failures s' = socket_failures s \<and> length d \<le> n \<and>
          (d = [] \<longrightarrow> socket_bytes s = []))"
  by (induction n s rule: socket_read.induct) (auto simp: socket_open_def split: if_splits, metis io_error_kind.exhaust)

text \<open>The bytes taken from the socket for the frame being read, then those still to come.\<close>

definition reader_stream :: "frame_reader \<Rightarrow> socket \<Rightarrow> string" where
  "reader_stream r s = fr_prefix r @ fr_frame r @ socket_bytes s"

definition declared_ok :: "usize \<Rightarrow> string \<Rightarrow> bool" where
  "declared_ok limit prefix \<longleftrightarrow> 0 < from_le_bytes prefix \<and> from_le_bytes prefix \<le> limit"

definition reader_ok :: "usize \<Rightarrow> frame_reader \<Rightarrow> bool" where
  "reader_ok limit r \<longleftrightarrow>
     length (fr_prefix r) \<le> 4 \<and> (length (fr_prefix r) < 4 \<longrightarrow> fr_frame r = [] \<and> fr_frame_len r = 0) \<and>
     (length (fr_prefix r) = 4 \<longrightarrow>
        declared_ok limit (fr_prefix r) \<and> fr_frame_len r = from_le_bytes (fr_prefix r) \<and>
        length (fr_frame r) \<le> fr_frame_len r)"

lemma reader_ok_new [simp]: "reader_ok limit frame_reader_new"
  by (simp add: reader_ok_def frame_reader_new_def)

lemma reader_stream_new [simp]: "reader_stream frame_reader_new s = socket_bytes s"
  by (simp add: reader_stream_def frame_reader_new_def)

text \<open>A stream the reader gives up on: it ends inside a frame, or a length is out of bounds.\<close>

definition broken_stream :: "usize \<Rightarrow> string \<Rightarrow> bool" where
  "broken_stream limit b \<longleftrightarrow>
     (b \<noteq> [] \<and> length b < 4) \<or> (4 \<le> length b \<and> \<not> declared_ok limit (take 4 b)) \<or>
     (4 \<le> length b \<and> length b < 4 + from_le_bytes (take 4 b))"

text \<open>What a reading loop may return, on the stream it started with.\<close>

definition read_outcome ::
  "usize \<Rightarrow> string \<Rightarrow> nat \<Rightarrow> (frame_reader \<Rightarrow> bool) \<Rightarrow> (transport_error + 'a) \<times> frame_reader \<times> socket \<Rightarrow> bool"
where
  "read_outcome limit b failures done out =
     (case out of
        (Inr _, r, s) \<Rightarrow> reader_stream r s = b \<and> socket_failures s = failures \<and> socket_open s \<and> reader_ok limit r \<and> done r
      | (Inl IoError, r, s) \<Rightarrow> reader_stream r s = b \<and> Suc (socket_failures s) = failures \<and> socket_open s \<and> reader_ok limit r
      | (Inl ClientDisconnected, _, _) \<Rightarrow> b = []
      | (Inl ProtocolError, _, _) \<Rightarrow> broken_stream limit b
      | (Inl _, _, _) \<Rightarrow> False)"

text \<open>One turn of the prefix loop: it ends, or it goes on with more of the prefix.\<close>

definition prefix_goes_on :: "usize \<Rightarrow> frame_reader \<Rightarrow> socket \<Rightarrow> frame_reader \<Rightarrow> socket \<Rightarrow> bool" where
  "prefix_goes_on limit r s r' s' \<longleftrightarrow>
     read_prefix limit r s = read_prefix limit r' s' \<and> length (fr_prefix r) < length (fr_prefix r') \<and>
     reader_ok limit r' \<and> socket_open s' \<and> reader_stream r' s' = reader_stream r s \<and>
     socket_failures s' = socket_failures s"

lemma read_prefix_step:
  assumes ok: "reader_ok limit r" "socket_open s" and short: "length (fr_prefix r) < 4"
  shows "read_outcome limit (reader_stream r s) (socket_failures s) complete (read_prefix limit r s) \<or>
    (\<exists>r' s'. prefix_goes_on limit r s r' s')"
proof -
  have empty: "fr_frame r = []" "fr_frame_len r = 0" using ok short by (auto simp: reader_ok_def)
  obtain d s' where read: "socket_read (4 - length (fr_prefix r)) s = (d, s')" by fastforce
  note spec = socket_read_spec [OF read _ ok(2)]
  show ?thesis
  proof (cases d)
    case (Inl error)
    then show ?thesis using short read spec ok
      by (subst read_prefix.simps) (simp add: read_outcome_def reader_stream_def frame_consts normalize_socket_io_error_def)
  next
    case (Inr bs)
    have bs: "socket_bytes s = bs @ socket_bytes s'" "socket_failures s' = socket_failures s" "socket_open s'"
      "length bs \<le> 4 - length (fr_prefix r)" "bs = [] \<longrightarrow> socket_bytes s = []"
      using spec Inr short by auto
    let ?p = "fr_prefix r @ bs"
    let ?r = "r\<lparr>fr_prefix := ?p\<rparr>"
    let ?next = "?r\<lparr>fr_frame_len := from_le_bytes ?p, fr_frame := []\<rparr>"
    have stream: "reader_stream r s = ?p @ socket_bytes s'" using bs(1) empty by (simp add: reader_stream_def)
    consider "bs = []" | "bs \<noteq> []" "length ?p = 4" "\<not> declared_ok limit ?p"
      | "bs \<noteq> []" "length ?p = 4" "declared_ok limit ?p" | "bs \<noteq> []" "length ?p < 4"
      using bs(4) short by fastforce
    then show ?thesis
    proof cases
      case 1
      then show ?thesis using short read Inr bs stream
        by (subst read_prefix.simps) (auto simp: read_outcome_def broken_stream_def frame_consts)
    next
      case 2
      then have "broken_stream limit (reader_stream r s)" using stream by (simp add: broken_stream_def)
      then show ?thesis using short read Inr 2
        by (subst read_prefix.simps) (auto simp: read_outcome_def declared_ok_def Let_def frame_consts)
    next
      case 3
      then have "read_prefix limit r s = read_prefix limit ?next s'"
        using short read Inr by (subst read_prefix.simps) (simp add: declared_ok_def Let_def frame_consts)
      then have "prefix_goes_on limit r s ?next s'" using 3 bs stream short
        by (simp add: prefix_goes_on_def reader_ok_def reader_stream_def)
      then show ?thesis by blast
    next
      case 4
      then have "read_prefix limit r s = read_prefix limit ?r s'"
        using short read Inr by (subst read_prefix.simps) (simp add: Let_def frame_consts)
      then have "prefix_goes_on limit r s ?r s'" using 4 bs stream empty
        by (simp add: prefix_goes_on_def reader_ok_def reader_stream_def)
      then show ?thesis by blast
    qed
  qed
qed

lemma read_prefix_outcome:
  "reader_ok limit r \<Longrightarrow> socket_open s \<Longrightarrow>
   read_outcome limit (reader_stream r s) (socket_failures s) (\<lambda>r. length (fr_prefix r) = 4) (read_prefix limit r s)"
proof (induction "4 - length (fr_prefix r)" arbitrary: r s rule: less_induct)
  case less
  show ?case
  proof (cases "length (fr_prefix r) < 4")
    case False
    then have "length (fr_prefix r) = 4" using less(2) by (simp add: reader_ok_def)
    then show ?thesis using less(2,3)
      by (subst read_prefix.simps) (simp add: read_outcome_def frame_consts)
  next
    case True
    show ?thesis
    proof (rule disjE [OF read_prefix_step [OF less(2,3) True, of "\<lambda>r. length (fr_prefix r) = 4"]])
      assume "\<exists>r' s'. prefix_goes_on limit r s r' s'"
      then obtain r' s' where on: "prefix_goes_on limit r s r' s'" by blast
      then have "4 - length (fr_prefix r') < 4 - length (fr_prefix r)"
        using True by (simp add: prefix_goes_on_def diff_less_mono2)
      from less(1) [OF this, of s'] on show ?thesis by (simp add: prefix_goes_on_def)
    qed
  qed
qed

lemma read_body_outcome:
  "reader_ok limit r \<Longrightarrow> socket_open s \<Longrightarrow> length (fr_prefix r) = 4 \<Longrightarrow>
   read_outcome limit (reader_stream r s) (socket_failures s)
     (\<lambda>r. length (fr_prefix r) = 4 \<and> length (fr_frame r) = fr_frame_len r) (read_body r s)"
proof (induction "fr_frame_len r - length (fr_frame r)" arbitrary: r s rule: less_induct)
  case less
  show ?case
  proof (cases "length (fr_frame r) < fr_frame_len r")
    case False
    then have "length (fr_frame r) = fr_frame_len r" using less(2,4) by (simp add: reader_ok_def)
    then show ?thesis using less(2-4) by (subst read_body.simps) (simp add: read_outcome_def)
  next
    case short: True
    obtain d s' where read: "socket_read (fr_frame_len r - length (fr_frame r)) s = (d, s')" by fastforce
    note spec = socket_read_spec [OF read _ less(3)]
    show ?thesis
    proof (cases d)
      case (Inl error)
      then show ?thesis using short read spec less(2)
        by (subst read_body.simps) (simp add: read_outcome_def reader_stream_def normalize_socket_io_error_def)
    next
      case (Inr bs)
      let ?r = "r\<lparr>fr_frame := fr_frame r @ bs\<rparr>"
      show ?thesis
      proof (cases "bs = []")
        case True
        have "broken_stream limit (reader_stream r s)"
          using spec Inr True short less(2,4) by (auto simp: broken_stream_def reader_stream_def reader_ok_def)
        then show ?thesis using short read Inr True by (subst read_body.simps) (simp add: read_outcome_def)
      next
        case False
        then have eq: "read_body r s = read_body ?r s'"
          using short read Inr by (subst read_body.simps) simp
        have facts: "reader_ok limit ?r" "socket_open s'" "reader_stream ?r s' = reader_stream r s"
          "socket_failures s' = socket_failures s"
          using spec Inr short less(2,4) by (auto simp: reader_ok_def reader_stream_def)
        have "fr_frame_len ?r - length (fr_frame ?r) < fr_frame_len r - length (fr_frame r)"
          using short False by (simp add: diff_less_mono2)
        then show ?thesis using less(1) [of ?r s'] facts less(4) by (simp add: eq)
      qed
    qed
  qed
qed

text \<open>One call, whatever the cuts: a whole frame, nothing lost on an interruption, or the end.\<close>

definition raw_outcome ::
  "usize \<Rightarrow> string \<Rightarrow> nat \<Rightarrow> (transport_error + string) \<times> frame_reader \<times> socket \<Rightarrow> bool"
where
  "raw_outcome limit b failures out =
     (case out of
        (Inr f, r, s) \<Rightarrow>
          b = framed f @ socket_bytes s \<and> 0 < length f \<and> length f \<le> limit \<and> r = frame_reader_new \<and>
          socket_failures s = failures \<and> socket_open s
      | (Inl IoError, r, s) \<Rightarrow> reader_stream r s = b \<and> Suc (socket_failures s) = failures \<and> socket_open s \<and> reader_ok limit r
      | (Inl ClientDisconnected, _, _) \<Rightarrow> b = []
      | (Inl ProtocolError, _, _) \<Rightarrow> broken_stream limit b
      | (Inl _, _, _) \<Rightarrow> False)"

lemma complete_frame:
  assumes "reader_ok limit r" "length (fr_prefix r) = 4" "length (fr_frame r) = fr_frame_len r"
  shows "reader_stream r s = framed (fr_frame r) @ socket_bytes s \<and> 0 < length (fr_frame r) \<and> length (fr_frame r) \<le> limit"
  using assms le_bytes_eq_roundtrip [OF assms(2)] by (simp add: reader_ok_def reader_stream_def declared_ok_def)

lemma read_raw_frame_outcome:
  assumes "reader_ok limit r" "socket_open s"
  shows "raw_outcome limit (reader_stream r s) (socket_failures s) (read_raw_frame limit r s)"
proof -
  obtain e r1 s1 where p: "read_prefix limit r s = (e, r1, s1)" by (metis surj_pair)
  note po = read_prefix_outcome [OF assms, unfolded p]
  show ?thesis
  proof (cases e)
    case (Inl x)
    then show ?thesis using po p by (cases x) (simp_all add: read_outcome_def raw_outcome_def read_raw_frame_def)
  next
    case (Inr u)
    then have h: "reader_ok limit r1" "socket_open s1" "length (fr_prefix r1) = 4"
      "reader_stream r1 s1 = reader_stream r s" "socket_failures s1 = socket_failures s"
      using po by (auto simp: read_outcome_def)
    obtain e2 r2 s2 where b: "read_body r1 s1 = (e2, r2, s2)" by (metis surj_pair)
    note bo = read_body_outcome [OF h(1-3), unfolded b h(4,5)]
    show ?thesis
    proof (cases e2)
      case (Inl x)
      then show ?thesis using bo p Inr b
        by (cases x) (simp_all add: read_outcome_def raw_outcome_def read_raw_frame_def)
    next
      case (Inr v)
      then have "reader_ok limit r2" "length (fr_prefix r2) = 4" "length (fr_frame r2) = fr_frame_len r2"
        "reader_stream r2 s2 = reader_stream r s" "socket_failures s2 = socket_failures s" "socket_open s2"
        using bo by (auto simp: read_outcome_def)
      then show ?thesis using p \<open>e = Inr u\<close> b Inr complete_frame [of limit r2 s2]
        by (simp add: raw_outcome_def read_raw_frame_def)
    qed
  qed
qed

text \<open>A client that reads on: it tries again after an interrupted read and stops at an error.\<close>

primrec read_frames :: "usize \<Rightarrow> nat \<Rightarrow> frame_reader \<Rightarrow> socket \<Rightarrow> string list \<times> transport_error option" where
  "read_frames limit 0 r s = ([], None)"
| "read_frames limit (Suc n) r s =
     (case read_raw_frame limit r s of
        (Inr f, r, s) \<Rightarrow> let (fs, e) = read_frames limit n r s in (f # fs, e)
      | (Inl e, r, s) \<Rightarrow> if e = IoError then read_frames limit n r s else ([], Some e))"

lemma framed_prefix:
  assumes "length f < 2 ^ 32"
  shows "take 4 (framed f @ x) = to_le_bytes 4 (length f)" "from_le_bytes (to_le_bytes 4 (length f)) = length f"
  using assms by (auto intro!: le_bytes_roundtrip)

lemma framed_inject:
  assumes "framed f @ x = framed g @ y" "length f < 2 ^ 32" "length g < 2 ^ 32"
  shows "f = g \<and> x = y"
proof -
  have "to_le_bytes 4 (length f) = to_le_bytes 4 (length g)"
    using assms(1) by (metis append.assoc append_eq_append_conv length_to_le_bytes)
  then have "length f = length g" using framed_prefix(2) assms(2,3) by metis
  then show ?thesis using assms(1) by simp
qed

lemma framed_not_broken:
  "0 < length f \<Longrightarrow> length f \<le> limit \<Longrightarrow> limit < 2 ^ 32 \<Longrightarrow> \<not> broken_stream limit (framed f @ x)"
  using framed_prefix(1) [of f x] framed_prefix(2) [of f] by (simp add: broken_stream_def declared_ok_def)

lemma read_frames_exact:
  assumes "limit < 2 ^ 32" "\<forall>f \<in> set fs. 0 < length f \<and> length f \<le> limit" "rest = [] \<or> broken_stream limit rest"
  shows "reader_ok limit r \<Longrightarrow> socket_open s \<Longrightarrow> reader_stream r s = concat (map framed fs) @ rest \<Longrightarrow>
    length fs + socket_failures s < n \<Longrightarrow>
    read_frames limit n r s = (fs, Some (if rest = [] then ClientDisconnected else ProtocolError))"
  using assms(2)
proof (induction n arbitrary: fs r s)
  case (Suc n)
  obtain e r1 s1 where raw: "read_raw_frame limit r s = (e, r1, s1)" by (metis surj_pair)
  note out = read_raw_frame_outcome [OF Suc(2,3), unfolded raw]
  have small: "length f < 2 ^ 32" if "length f \<le> limit" for f :: string using that assms(1) by simp
  show ?case
  proof (cases "e = Inl IoError")
    case True
    then have "read_frames limit n r1 s1 = (fs, Some (if rest = [] then ClientDisconnected else ProtocolError))"
      using out Suc(1) [of r1 s1 fs] Suc(4-6) by (auto simp: raw_outcome_def)
    then show ?thesis using raw True by simp
  next
    case no_io: False
    show ?thesis
    proof (cases fs)
      case Nil
      have "\<not> (\<exists>f. e = Inr f)"
        using out Nil Suc(4) assms(1,3) framed_not_broken by (auto simp: raw_outcome_def)
      then show ?thesis using out raw Nil no_io Suc(4) assms(3)
        by (cases e) (auto simp: raw_outcome_def broken_stream_def split: transport_error.splits)
    next
      case (Cons f fs')
      have f: "0 < length f" "length f \<le> limit" using Suc(6) Cons by auto
      have starts: "reader_stream r s = framed f @ concat (map framed fs') @ rest" using Suc(4) Cons by simp
      then have nonempty: "reader_stream r s \<noteq> []" "\<not> broken_stream limit (reader_stream r s)"
        using f(1) framed_not_broken [OF f assms(1)] by auto
      obtain g where g: "e = Inr g"
        using out no_io nonempty by (cases e) (auto simp: raw_outcome_def split: transport_error.splits)
      then have read: "framed f @ concat (map framed fs') @ rest = framed g @ socket_bytes s1" "length g \<le> limit"
        "r1 = frame_reader_new" "socket_failures s1 = socket_failures s" "socket_open s1"
        using out unfolding starts by (auto simp: raw_outcome_def)
      then have whole: "e = Inr f \<and> socket_bytes s1 = concat (map framed fs') @ rest \<and> r1 = frame_reader_new \<and>
          socket_failures s1 = socket_failures s \<and> socket_open s1"
        using g framed_inject [OF read(1) small [OF f(2)] small [OF read(2)]] by simp
      then have "read_frames limit n r1 s1 = (fs', Some (if rest = [] then ClientDisconnected else ProtocolError))"
        using Suc(1) [of r1 s1 fs'] Suc(5,6) Cons by simp
      then show ?thesis using raw whole Cons by simp
    qed
  qed
qed simp

section \<open>What a client sends, the Hub reads\<close>

lemma read_exact_exact:
  "socket_open s \<Longrightarrow> socket_failures s = 0 \<Longrightarrow> n \<le> length (socket_bytes s) \<Longrightarrow>
   \<exists>s'. read_exact n s = (Some (take n (socket_bytes s)), s') \<and> socket_bytes s' = drop n (socket_bytes s) \<and>
     socket_open s' \<and> socket_failures s' = 0"
proof (induction n arbitrary: s rule: less_induct)
  case (less n)
  show ?case
  proof (cases "n = 0")
    case False
    obtain d s1 where read: "socket_read n s = (d, s1)" by fastforce
    then obtain bs where d: "d = Inr bs" "socket_bytes s = bs @ socket_bytes s1" "socket_open s1"
      "socket_failures s1 = 0" "length bs \<le> n" "bs \<noteq> []"
      using socket_read_spec [OF read _ less(2)] less(3,4) False by (cases d) auto
    have "n - length bs \<le> length (socket_bytes s1)" using less(4) d(2) by simp
    with d obtain s2 where "read_exact (n - length bs) s1 = (Some (take (n - length bs) (socket_bytes s1)), s2)"
      "socket_bytes s2 = drop (n - length bs) (socket_bytes s1)" "socket_open s2" "socket_failures s2 = 0"
      using less(1) [of "n - length bs" s1] less(4) False by auto
    then show ?thesis using False read d by (subst read_exact.simps) simp
  qed (use less in \<open>simp add: read_exact.simps\<close>)
qed

lemma read_async_raw_frame_exact:
  assumes s: "socket_open s" "socket_failures s = 0" "socket_bytes s = framed f @ rest"
    and f: "0 < length f" "length f \<le> MAX_UNIX_FRAME_BYTES"
  shows "\<exists>s'. read_async_raw_frame s = (Inr f, s') \<and> socket_bytes s' = rest \<and> socket_open s' \<and> socket_failures s' = 0"
proof -
  have prefix: "from_le_bytes (take 4 (socket_bytes s)) = length f"
    using f(2) s(3) by (auto simp: frame_consts intro!: le_bytes_roundtrip)
  obtain d s1 where read: "socket_read 1 s = (d, s1)" by fastforce
  then obtain bs where d: "d = Inr bs" "socket_bytes s = bs @ socket_bytes s1" "socket_open s1"
    "socket_failures s1 = 0" "length bs \<le> 1" "bs \<noteq> []"
    using socket_read_spec [OF read _ s(1)] s(2,3) f by (cases d) auto
  then have one: "length bs = 1" by (cases bs) auto
  have "length (socket_bytes s) = 1 + length (socket_bytes s1)" using d(2) one by simp
  then have "3 \<le> length (socket_bytes s1)" unfolding s(3) by simp
  then obtain s2 where r3: "read_exact 3 s1 = (Some (take 3 (socket_bytes s1)), s2)"
    "socket_bytes s2 = drop 3 (socket_bytes s1)" "socket_open s2" "socket_failures s2 = 0"
    using read_exact_exact [OF d(3,4)] by blast
  have four: "bs @ take 3 (socket_bytes s1) = take 4 (socket_bytes s)" "drop 3 (socket_bytes s1) = drop 4 (socket_bytes s)"
    using d(2) one by simp_all
  then have s2: "socket_bytes s2 = f @ rest" using r3(2) s(3) by simp
  then obtain s3 where "read_exact (length f) s2 = (Some f, s3)" "socket_bytes s3 = rest" "socket_open s3" "socket_failures s3 = 0"
    using read_exact_exact [OF r3(3,4), of "length f"] by auto
  then show ?thesis using read d r3 four(1) prefix f
    by (simp add: read_async_raw_frame_def Let_def UNIX_FRAME_LENGTH_PREFIX_BYTES_def)
qed

theorem request_reaches_hub:
  assumes "socket_open s" "socket_failures s = 0" "encode_control_json json = Inr w" "socket_bytes s = w @ rest"
    and "from_slice json = Some (ClientRequest request_id request)"
  shows "\<exists>s'. read_async_inbound n from_slice s = (Inr (InboundRequest request_id request), s') \<and>
    socket_bytes s' = rest"
proof -
  have w: "w = framed (UNIX_CONTAINER_CONTROL # json)" "length json \<le> 2 ^ 20"
    using assms(3) by (auto simp: encode_control_json_def frame_consts split: if_splits)
  obtain s' where "read_async_raw_frame s = (Inr (UNIX_CONTAINER_CONTROL # json), s')" "socket_bytes s' = rest"
    using read_async_raw_frame_exact [OF assms(1,2), of "UNIX_CONTAINER_CONTROL # json" rest] assms(4) w
    by (auto simp: frame_consts)
  then show ?thesis using assms(5) w(2)
    by (simp add: read_async_inbound_def decode_unix_frame_def frame_consts)
qed

theorem terminal_input_reaches_hub:
  assumes "socket_open s" "socket_failures s = 0" "socket_bytes s = w @ rest"
    and "encode_unix_terminal_frame route generation stream_epoch body = Some w"
    and "route_ok route" "generation < 2 ^ 64" "stream_epoch < 2 ^ 32" "length body \<le> n"
  shows "\<exists>s'. read_async_inbound n from_slice s =
      (Inr (InboundTerminal \<lparr>tf_route = route, tf_generation = generation, tf_stream_epoch = stream_epoch, tf_body = body\<rparr>), s') \<and>
    socket_bytes s' = rest"
proof -
  let ?f = "UNIX_CONTAINER_TERMINAL # terminal_payload route generation stream_epoch body"
  note w = encode_terminal_eq [OF assms(4)]
  obtain s' where "read_async_raw_frame s = (Inr ?f, s')" "socket_bytes s' = rest"
    using read_async_raw_frame_exact [OF assms(1,2), of ?f rest] assms(3) w by auto
  then show ?thesis using decode_terminal_payload [of route generation stream_epoch body] assms(5-8) w
    by (simp add: read_async_inbound_def decode_unix_frame_def UNIX_CONTAINER_CONTROL_def UNIX_CONTAINER_TERMINAL_def)
qed

end
