(* ===== verification/Http_Wire.thy ===== *)
theory Http_Wire
  imports Session_Credential Unix_Frame
begin

text \<open>
  \<open>transport/http_mcp/wire.rs\<close>: the head of an MCP request over HTTP and the gates it passes before the
  body is read or Core is consulted, and the bytes of a response.

  The HTTP parser is a crate: its outcome on the head is the parameter \<open>outcome\<close>, the number of
  bytes it used with the request it read, or its error.  The digest of the token is the
  parameter \<open>sha\<close> of \<open>Session_Credential\<close>.
\<close>

section \<open>Heads and refusals\<close>

definition MAX_HEADER_BLOCK_BYTES :: usize where "MAX_HEADER_BLOCK_BYTES = 16 * 1024"
definition MAX_HEADER_COUNT :: usize where "MAX_HEADER_COUNT = 64"
definition MCP_PATH :: string where "MCP_PATH = ''/mcp''"
definition u16_max :: nat where "u16_max = 65535"

datatype http_method = Post | Other

record admitted_head =
  ah_token :: caller_token
  ah_body_len :: usize
  ah_keep_alive :: bool
  ah_method :: http_method

datatype refusal =
    BadRequest | Forbidden | Unauthenticated | NotFound | MethodNotAllowed | LengthRequired | PayloadTooLarge
  | UnsupportedMediaType | ExpectationFailed | HeaderTooLarge | VersionNotSupported | Busy

fun refusal_status :: "refusal \<Rightarrow> nat \<times> string" where
  "refusal_status BadRequest = (400, ''Bad Request'')"
| "refusal_status Forbidden = (403, ''Forbidden'')"
| "refusal_status Unauthenticated = (401, ''Unauthorized'')"
| "refusal_status NotFound = (404, ''Not Found'')"
| "refusal_status MethodNotAllowed = (405, ''Method Not Allowed'')"
| "refusal_status LengthRequired = (411, ''Length Required'')"
| "refusal_status PayloadTooLarge = (413, ''Payload Too Large'')"
| "refusal_status UnsupportedMediaType = (415, ''Unsupported Media Type'')"
| "refusal_status ExpectationFailed = (417, ''Expectation Failed'')"
| "refusal_status HeaderTooLarge = (431, ''Request Header Fields Too Large'')"
| "refusal_status VersionNotSupported = (505, ''HTTP Version Not Supported'')"
| "refusal_status Busy = (503, ''Service Unavailable'')"

fun refusal_code :: "refusal \<Rightarrow> string" where
  "refusal_code BadRequest = ''bad_request''"
| "refusal_code Forbidden = ''forbidden''"
| "refusal_code Unauthenticated = ''caller_unauthenticated''"
| "refusal_code NotFound = ''not_found''"
| "refusal_code MethodNotAllowed = ''method_not_allowed''"
| "refusal_code LengthRequired = ''length_required''"
| "refusal_code PayloadTooLarge = ''payload_too_large''"
| "refusal_code UnsupportedMediaType = ''unsupported_media_type''"
| "refusal_code ExpectationFailed = ''expectation_failed''"
| "refusal_code HeaderTooLarge = ''header_too_large''"
| "refusal_code VersionNotSupported = ''version_not_supported''"
| "refusal_code Busy = ''busy''"

definition CRLF :: string where "CRLF = [char_of (13 :: nat), char_of (10 :: nat)]"

fun head_end_from :: "nat \<Rightarrow> string \<Rightarrow> nat option" where
  "head_end_from i [] = None"
| "head_end_from i (c # cs) =
     (if take 4 (c # cs) = CRLF @ CRLF then Some (i + 4) else head_end_from (i + 1) cs)"

definition head_end :: "string \<Rightarrow> nat option" where
  "head_end buffer = head_end_from 0 buffer"

section \<open>Header values\<close>

definition host_names_listener :: "string \<Rightarrow> nat \<Rightarrow> bool" where
  "host_names_listener value port =
     (case from_utf8 value of
        None \<Rightarrow> False
      | Some value \<Rightarrow>
          (case rsplit_once CHR '':'' (str_trim value) of
             None \<Rightarrow> False
           | Some (name, given) \<Rightarrow>
               parse_unsigned u16_max given = Some port \<and>
               (eq_ignore_ascii_case name ''127.0.0.1'' \<or> eq_ignore_ascii_case name ''localhost'')))"

definition bearer_token :: "(8 word list \<Rightarrow> 8 word list) \<Rightarrow> string \<Rightarrow> caller_token option" where
  "bearer_token sha value =
     (case from_utf8 value of
        None \<Rightarrow> None
      | Some value \<Rightarrow>
          (case split_once CHR '' '' (str_trim value) of
             None \<Rightarrow> None
           | Some (scheme, token) \<Rightarrow>
               if \<not> eq_ignore_ascii_case scheme ''bearer'' then None
               else caller_token_parse sha (str_trim token)))"

definition is_json :: "string \<Rightarrow> bool" where
  "is_json value =
     (case from_utf8 value of
        None \<Rightarrow> False
      | Some value \<Rightarrow> eq_ignore_ascii_case (str_trim (hd (split_all CHR '';'' value))) ''application/json'')"

definition parse_content_length :: "string \<Rightarrow> refusal + usize" where
  "parse_content_length value =
     (case from_utf8 value of
        None \<Rightarrow> Inl BadRequest
      | Some text' \<Rightarrow>
          let digits = str_trim text' in
          if digits = [] \<or> \<not> list_all is_ascii_digit digits then Inl BadRequest
          else case parse_unsigned u64_max digits of
            Some n \<Rightarrow> if n \<le> MAX_CONTROL_REQUEST_BYTES then Inr n else Inl PayloadTooLarge
          | None \<Rightarrow> Inl PayloadTooLarge)"

definition asks_close :: "string \<Rightarrow> bool" where
  "asks_close value =
     list_ex (\<lambda>part. eq_ignore_ascii_case (str_trim part) ''close'')
       (split_all CHR '','' (case from_utf8 value of None \<Rightarrow> [] | Some v \<Rightarrow> v))"

section \<open>The request\<close>

record http_request =
  hr_version :: "nat option"
  hr_method :: "string option"
  hr_path :: "string option"
  hr_headers :: "(string \<times> string) list"

datatype parse_outcome = ParseComplete nat http_request | ParsePartial | ParseTooManyHeaders | ParseFailed

record head_scan =
  hs_host :: "string option"
  hs_origin_present :: bool
  hs_authorization :: "string option"
  hs_authorization_count :: usize
  hs_content_length :: "string option"
  hs_content_type :: "string option"
  hs_framing_refusal :: "refusal option"
  hs_keep_alive :: bool
  hs_content_length_count :: usize
  hs_host_count :: usize

definition head_scan_new :: head_scan where
  "head_scan_new =
     \<lparr>hs_host = None, hs_origin_present = False, hs_authorization = None, hs_authorization_count = 0,
      hs_content_length = None, hs_content_type = None, hs_framing_refusal = None, hs_keep_alive = True,
      hs_content_length_count = 0, hs_host_count = 0\<rparr>"

definition get_or_insert :: "refusal \<Rightarrow> refusal option \<Rightarrow> refusal option" where
  "get_or_insert r x = (case x of None \<Rightarrow> Some r | Some y \<Rightarrow> Some y)"

definition scan_header :: "string \<times> string \<Rightarrow> head_scan \<Rightarrow> head_scan" where
  "scan_header header s =
     (let (name, value) = header in
      if eq_ignore_ascii_case name ''host'' then s\<lparr>hs_host_count := hs_host_count s + 1, hs_host := Some value\<rparr>
      else if eq_ignore_ascii_case name ''origin'' then s\<lparr>hs_origin_present := True\<rparr>
      else if eq_ignore_ascii_case name ''authorization''
      then s\<lparr>hs_authorization_count := hs_authorization_count s + 1, hs_authorization := Some value\<rparr>
      else if eq_ignore_ascii_case name ''content-length''
      then s\<lparr>hs_content_length_count := hs_content_length_count s + 1, hs_content_length := Some value\<rparr>
      else if eq_ignore_ascii_case name ''content-type'' then s\<lparr>hs_content_type := Some value\<rparr>
      else if eq_ignore_ascii_case name ''transfer-encoding'' then s\<lparr>hs_framing_refusal := Some LengthRequired\<rparr>
      else if eq_ignore_ascii_case name ''expect''
      then s\<lparr>hs_framing_refusal := get_or_insert ExpectationFailed (hs_framing_refusal s)\<rparr>
      else if eq_ignore_ascii_case name ''upgrade''
      then s\<lparr>hs_framing_refusal := get_or_insert BadRequest (hs_framing_refusal s)\<rparr>
      else if eq_ignore_ascii_case name ''connection''
      then (if asks_close value then s\<lparr>hs_keep_alive := False\<rparr> else s)
      else s)"

definition unwrap_or_default :: "string option \<Rightarrow> string" where
  "unwrap_or_default x = (case x of None \<Rightarrow> [] | Some v \<Rightarrow> v)"

definition admit_body :: "head_scan \<Rightarrow> refusal + usize" where
  "admit_body s =
     (case hs_framing_refusal s of
        Some r \<Rightarrow> Inl r
      | None \<Rightarrow>
          if \<not> (case hs_content_type s of None \<Rightarrow> False | Some v \<Rightarrow> is_json v) then Inl UnsupportedMediaType
          else if hs_content_length_count s \<noteq> 1
          then Inl (if hs_content_length_count s = 0 then LengthRequired else BadRequest)
          else parse_content_length (unwrap_or_default (hs_content_length s)))"

definition admit_request :: "(8 word list \<Rightarrow> 8 word list) \<Rightarrow> http_request \<Rightarrow> nat \<Rightarrow> refusal + admitted_head" where
  "admit_request sha request port =
     (if hr_version request \<noteq> Some 1 then Inl VersionNotSupported
      else
        let s = fold scan_header (hr_headers request) head_scan_new in
        if hs_host_count s \<noteq> 1 \<or> \<not> host_names_listener (unwrap_or_default (hs_host s)) port then Inl Forbidden
        else if hs_origin_present s then Inl Forbidden
        else if hs_authorization_count s \<noteq> 1 then Inl Unauthenticated
        else case bearer_token sha (unwrap_or_default (hs_authorization s)) of
          None \<Rightarrow> Inl Unauthenticated
        | Some token \<Rightarrow>
            if hr_path request \<noteq> Some MCP_PATH then Inl NotFound
            else case hr_method request of
              None \<Rightarrow> Inl BadRequest
            | Some m \<Rightarrow>
                if m \<noteq> ''POST''
                then Inr \<lparr>ah_token = token, ah_body_len = 0, ah_keep_alive = hs_keep_alive s, ah_method = Other\<rparr>
                else case admit_body s of
                  Inl r \<Rightarrow> Inl r
                | Inr n \<Rightarrow> Inr \<lparr>ah_token = token, ah_body_len = n, ah_keep_alive = hs_keep_alive s, ah_method = Post\<rparr>)"

definition admit_head :: "(8 word list \<Rightarrow> 8 word list) \<Rightarrow> parse_outcome \<Rightarrow> string \<Rightarrow> nat \<Rightarrow> refusal + admitted_head" where
  "admit_head sha outcome head port =
     (case outcome of
        ParseComplete used request \<Rightarrow> if used = length head then admit_request sha request port else Inl BadRequest
      | ParsePartial \<Rightarrow> Inl BadRequest
      | ParseTooManyHeaders \<Rightarrow> Inl HeaderTooLarge
      | ParseFailed \<Rightarrow> Inl BadRequest)"

section \<open>Responses\<close>

definition response_bytes :: "nat \<Rightarrow> string \<Rightarrow> (string \<times> string) list \<Rightarrow> string \<Rightarrow> bool \<Rightarrow> string" where
  "response_bytes status reason extra_headers body keep_alive =
     ''HTTP/1.1 '' @ decimal status @ '' '' @ reason @ CRLF @ ''Content-Type: application/json'' @ CRLF @
     ''Content-Length: '' @ decimal (length body) @ CRLF @ ''Cache-Control: no-store'' @ CRLF @
     ''Connection: '' @ (if keep_alive then ''keep-alive'' else ''close'') @ CRLF @
     concat (map (\<lambda>(name, value). name @ '': '' @ value @ CRLF) extra_headers) @ CRLF @ body"

definition refusal_extra :: "refusal \<Rightarrow> (string \<times> string) list" where
  "refusal_extra r =
     (case r of
        Unauthenticated \<Rightarrow> [(''WWW-Authenticate'', ''Bearer'')]
      | MethodNotAllowed \<Rightarrow> [(''Allow'', ''POST'')]
      | _ \<Rightarrow> [])"

definition QUOTE :: string where "QUOTE = [char_of (34 :: nat)]"

definition refusal_body :: "refusal \<Rightarrow> string" where
  "refusal_body r =
     ''{'' @ QUOTE @ ''error'' @ QUOTE @ '':{'' @ QUOTE @ ''code'' @ QUOTE @ '':'' @ QUOTE @ refusal_code r @ QUOTE @
     '','' @ QUOTE @ ''message'' @ QUOTE @ '':'' @ QUOTE @ snd (refusal_status r) @ QUOTE @ ''}}''"

definition refusal_response :: "refusal \<Rightarrow> string" where
  "refusal_response r =
     response_bytes (fst (refusal_status r)) (snd (refusal_status r)) (refusal_extra r) (refusal_body r) False"

section \<open>The scan of the headers\<close>

definition hdr_values :: "string \<Rightarrow> (string \<times> string) list \<Rightarrow> string list" where
  "hdr_values name headers = map snd (filter (\<lambda>h. eq_ignore_ascii_case (fst h) name) headers)"

lemma hdr_values_snoc:
  "hdr_values name (hs @ [(n, v)]) = hdr_values name hs @ (if eq_ignore_ascii_case n name then [v] else [])"
  by (simp add: hdr_values_def)

lemma hdr_values_Nil [simp]: "hdr_values name [] = []"
  by (simp add: hdr_values_def)

text \<open>The names the scan tests are in lower case already, so no header has two of them.\<close>

definition scanned :: "string list" where
  "scanned = [''host'', ''origin'', ''authorization'', ''content-length'', ''content-type'', ''transfer-encoding'',
     ''expect'', ''upgrade'', ''connection'']"

lemma scanned_names: "name \<in> set scanned \<Longrightarrow> eq_ignore_ascii_case n name \<longleftrightarrow> map to_ascii_lowercase n = name"
proof -
  have "\<forall>name \<in> set scanned. map to_ascii_lowercase name = name" by code_simp
  then show "name \<in> set scanned \<Longrightarrow> ?thesis" by (simp add: eq_ignore_ascii_case_def)
qed

lemma scan_names:
  "eq_ignore_ascii_case n ''host'' \<longleftrightarrow> map to_ascii_lowercase n = ''host''"
  "eq_ignore_ascii_case n ''origin'' \<longleftrightarrow> map to_ascii_lowercase n = ''origin''"
  "eq_ignore_ascii_case n ''authorization'' \<longleftrightarrow> map to_ascii_lowercase n = ''authorization''"
  "eq_ignore_ascii_case n ''content-length'' \<longleftrightarrow> map to_ascii_lowercase n = ''content-length''"
  "eq_ignore_ascii_case n ''content-type'' \<longleftrightarrow> map to_ascii_lowercase n = ''content-type''"
  "eq_ignore_ascii_case n ''transfer-encoding'' \<longleftrightarrow> map to_ascii_lowercase n = ''transfer-encoding''"
  "eq_ignore_ascii_case n ''expect'' \<longleftrightarrow> map to_ascii_lowercase n = ''expect''"
  "eq_ignore_ascii_case n ''upgrade'' \<longleftrightarrow> map to_ascii_lowercase n = ''upgrade''"
  "eq_ignore_ascii_case n ''connection'' \<longleftrightarrow> map to_ascii_lowercase n = ''connection''"
  by (rule scanned_names, simp add: scanned_def)+

abbreviation scan_all :: "(string \<times> string) list \<Rightarrow> head_scan" where
  "scan_all hs \<equiv> fold scan_header hs head_scan_new"

definition last_value :: "string list \<Rightarrow> string option" where
  "last_value vs = (if vs = [] then None else Some (last vs))"

text \<open>What one header does to each field of the scan.\<close>

lemma scan_header_fields:
  "hs_host_count (scan_header (n, v) s) = hs_host_count s + (if eq_ignore_ascii_case n ''host'' then 1 else 0)"
  "hs_host (scan_header (n, v) s) = (if eq_ignore_ascii_case n ''host'' then Some v else hs_host s)"
  "hs_origin_present (scan_header (n, v) s) \<longleftrightarrow> hs_origin_present s \<or> eq_ignore_ascii_case n ''origin''"
  "hs_authorization_count (scan_header (n, v) s) =
     hs_authorization_count s + (if eq_ignore_ascii_case n ''authorization'' then 1 else 0)"
  "hs_authorization (scan_header (n, v) s) = (if eq_ignore_ascii_case n ''authorization'' then Some v else hs_authorization s)"
  "hs_content_length_count (scan_header (n, v) s) =
     hs_content_length_count s + (if eq_ignore_ascii_case n ''content-length'' then 1 else 0)"
  "hs_content_length (scan_header (n, v) s) = (if eq_ignore_ascii_case n ''content-length'' then Some v else hs_content_length s)"
  "hs_content_type (scan_header (n, v) s) = (if eq_ignore_ascii_case n ''content-type'' then Some v else hs_content_type s)"
  "hs_keep_alive (scan_header (n, v) s) \<longleftrightarrow> hs_keep_alive s \<and> \<not> (eq_ignore_ascii_case n ''connection'' \<and> asks_close v)"
  "hs_framing_refusal (scan_header (n, v) s) =
     (if eq_ignore_ascii_case n ''transfer-encoding'' then Some LengthRequired
      else if eq_ignore_ascii_case n ''expect'' then get_or_insert ExpectationFailed (hs_framing_refusal s)
      else if eq_ignore_ascii_case n ''upgrade'' then get_or_insert BadRequest (hs_framing_refusal s)
      else hs_framing_refusal s)"
  unfolding scan_names by (simp_all add: scan_header_def scan_names)

lemma scan_all_snoc: "scan_all (hs @ [h]) = scan_header h (scan_all hs)"
  by simp

lemma scan_new:
  "hs_host_count head_scan_new = 0" "hs_host head_scan_new = None" "\<not> hs_origin_present head_scan_new"
  "hs_authorization_count head_scan_new = 0" "hs_authorization head_scan_new = None"
  "hs_content_length_count head_scan_new = 0" "hs_content_length head_scan_new = None"
  "hs_content_type head_scan_new = None" "hs_keep_alive head_scan_new" "hs_framing_refusal head_scan_new = None"
  by (simp_all add: head_scan_new_def)

lemma scans:
  "hs_host_count (scan_all hs) = length (hdr_values ''host'' hs)"
  "hs_host (scan_all hs) = last_value (hdr_values ''host'' hs)"
  "hs_origin_present (scan_all hs) \<longleftrightarrow> hdr_values ''origin'' hs \<noteq> []"
  "hs_authorization_count (scan_all hs) = length (hdr_values ''authorization'' hs)"
  "hs_authorization (scan_all hs) = last_value (hdr_values ''authorization'' hs)"
  "hs_content_length_count (scan_all hs) = length (hdr_values ''content-length'' hs)"
  "hs_content_length (scan_all hs) = last_value (hdr_values ''content-length'' hs)"
  "hs_content_type (scan_all hs) = last_value (hdr_values ''content-type'' hs)"
  "hs_keep_alive (scan_all hs) \<longleftrightarrow> \<not> list_ex asks_close (hdr_values ''connection'' hs)"
  by (induction hs rule: rev_induct; auto simp: scan_new scan_header_fields hdr_values_snoc last_value_def split: if_splits)+

lemma scan_framing:
  "(hs_framing_refusal (scan_all hs) = None \<longleftrightarrow>
      hdr_values ''transfer-encoding'' hs = [] \<and> hdr_values ''expect'' hs = [] \<and> hdr_values ''upgrade'' hs = []) \<and>
   (hdr_values ''transfer-encoding'' hs \<noteq> [] \<longrightarrow> hs_framing_refusal (scan_all hs) = Some LengthRequired)"
proof (induction hs rule: rev_induct)
  case (snoc h hs)
  obtain n v where "h = (n, v)" by (cases h)
  with snoc show ?case
    by (auto simp: scan_header_fields hdr_values_snoc get_or_insert_def split: option.splits)
qed (simp add: scan_new)

section \<open>Properties\<close>

text \<open>What each gate asks, over the values a request gives for a header name.\<close>

definition host_gate :: "http_request \<Rightarrow> nat \<Rightarrow> bool" where
  "host_gate request port \<longleftrightarrow>
     (\<exists>v. hdr_values ''host'' (hr_headers request) = [v] \<and> host_names_listener v port) \<and>
     hdr_values ''origin'' (hr_headers request) = []"

definition token_gate :: "(8 word list \<Rightarrow> 8 word list) \<Rightarrow> http_request \<Rightarrow> caller_token \<Rightarrow> bool" where
  "token_gate sha request token \<longleftrightarrow>
     (\<exists>v. hdr_values ''authorization'' (hr_headers request) = [v] \<and> bearer_token sha v = Some token)"

definition framing_gate :: "http_request \<Rightarrow> usize \<Rightarrow> bool" where
  "framing_gate request body_len \<longleftrightarrow>
     hdr_values ''transfer-encoding'' (hr_headers request) = [] \<and> hdr_values ''expect'' (hr_headers request) = [] \<and>
     hdr_values ''upgrade'' (hr_headers request) = [] \<and>
     hdr_values ''content-type'' (hr_headers request) \<noteq> [] \<and> is_json (last (hdr_values ''content-type'' (hr_headers request))) \<and>
     (\<exists>v. hdr_values ''content-length'' (hr_headers request) = [v] \<and> parse_content_length v = Inr body_len)"

lemma host_gate_scan:
  "host_gate request port \<longleftrightarrow>
     hs_host_count (scan_all (hr_headers request)) = 1 \<and>
     host_names_listener (unwrap_or_default (hs_host (scan_all (hr_headers request)))) port \<and>
     \<not> hs_origin_present (scan_all (hr_headers request))"
  by (auto simp: host_gate_def scans last_value_def unwrap_or_default_def length_Suc_conv)

lemma token_gate_scan:
  "token_gate sha request token \<longleftrightarrow>
     hs_authorization_count (scan_all (hr_headers request)) = 1 \<and>
     bearer_token sha (unwrap_or_default (hs_authorization (scan_all (hr_headers request)))) = Some token"
  by (auto simp: token_gate_def scans last_value_def unwrap_or_default_def length_Suc_conv)

lemma framing_gate_scan: "framing_gate request n \<longleftrightarrow> admit_body (scan_all (hr_headers request)) = Inr n"
  using scan_framing [of "hr_headers request"]
  by (cases "hs_framing_refusal (scan_all (hr_headers request))")
    (auto simp: framing_gate_def admit_body_def scans last_value_def unwrap_or_default_def length_Suc_conv split: if_splits)

text \<open>The gates in their order: each refuses whatever the later ones would say.\<close>

lemma admit_forbidden:
  "hr_version request = Some 1 \<Longrightarrow> \<not> host_gate request port \<Longrightarrow> admit_request sha request port = Inl Forbidden"
  by (auto simp: admit_request_def host_gate_scan Let_def)

lemma admit_unauthenticated:
  "hr_version request = Some 1 \<Longrightarrow> host_gate request port \<Longrightarrow> (\<And>token. \<not> token_gate sha request token) \<Longrightarrow>
   admit_request sha request port = Inl Unauthenticated"
  by (auto simp: admit_request_def host_gate_scan token_gate_scan Let_def split: option.splits)

lemma admit_gated:
  "hr_version request = Some 1 \<Longrightarrow> host_gate request port \<Longrightarrow> token_gate sha request token \<Longrightarrow>
   admit_request sha request port =
     (if hr_path request \<noteq> Some MCP_PATH then Inl NotFound
      else case hr_method request of
        None \<Rightarrow> Inl BadRequest
      | Some m \<Rightarrow>
          if m \<noteq> ''POST''
          then Inr \<lparr>ah_token = token, ah_body_len = 0, ah_keep_alive = hs_keep_alive (scan_all (hr_headers request)), ah_method = Other\<rparr>
          else case admit_body (scan_all (hr_headers request)) of
            Inl r \<Rightarrow> Inl r
          | Inr n \<Rightarrow> Inr \<lparr>ah_token = token, ah_body_len = n, ah_keep_alive = hs_keep_alive (scan_all (hr_headers request)), ah_method = Post\<rparr>)"
  by (auto simp: admit_request_def host_gate_scan token_gate_scan Let_def)

lemma parse_content_length_bound: "parse_content_length v = Inr n \<Longrightarrow> n \<le> MAX_CONTROL_REQUEST_BYTES"
  by (auto simp: parse_content_length_def Let_def split: option.splits if_splits)

lemma admit_head_complete:
  "admit_head sha outcome head port = Inr h \<longleftrightarrow>
     (\<exists>request. outcome = ParseComplete (length head) request \<and> admit_request sha request port = Inr h)"
  by (auto simp: admit_head_def split: parse_outcome.splits if_splits)

lemma admit_request_Inr:
  assumes "admit_request sha request port = Inr h"
  shows "hr_version request = Some 1 \<and> host_gate request port \<and> token_gate sha request (ah_token h) \<and>
    hr_path request = Some MCP_PATH \<and>
    (ah_method h = Post \<longrightarrow> hr_method request = Some ''POST'' \<and> framing_gate request (ah_body_len h)) \<and>
    (ah_method h = Other \<longrightarrow> ah_body_len h = 0)"
proof -
  have v: "hr_version request = Some 1" using assms by (auto simp: admit_request_def split: if_splits)
  have host: "host_gate request port" using assms admit_forbidden [OF v] by fastforce
  obtain token where token: "token_gate sha request token" using assms admit_unauthenticated [OF v host] by fastforce
  show ?thesis
    using assms v host token unfolding admit_gated [OF v host token] framing_gate_scan
    by (auto split: if_splits option.splits sum.splits)
qed

text \<open>C38. A request passes only through every gate, and each refusal is decided by the first gate it
  fails.  An admitted head was parsed completely as HTTP/1.1, names this listener in exactly
  one \<open>Host\<close>, has no \<open>Origin\<close>, carries exactly one well-formed bearer token, and targets \<open>/mcp\<close>; an
  admitted \<open>POST\<close> moreover has no \<open>Transfer-Encoding\<close>, \<open>Expect\<close> or \<open>Upgrade\<close> and exactly one
  \<open>Content-Length\<close>, within the limit.  A wrong host or an origin is forbidden whatever the token
  is, a bad token is unauthenticated whatever the target and the body are, and a \<open>POST\<close> with any
  transfer encoding is refused for its length.\<close>

theorem mcp_head_gates:
  shows "(admit_head sha outcome head port = Inr h \<longrightarrow>
      (\<exists>request. outcome = ParseComplete (length head) request \<and> hr_version request = Some 1 \<and> host_gate request port \<and>
         token_gate sha request (ah_token h) \<and> hr_path request = Some MCP_PATH \<and>
         (ah_method h = Post \<longrightarrow> hr_method request = Some ''POST'' \<and> framing_gate request (ah_body_len h)) \<and>
         (ah_method h = Other \<longrightarrow> ah_body_len h = 0) \<and> ah_body_len h \<le> MAX_CONTROL_REQUEST_BYTES)) \<and>
    (\<forall>request. outcome = ParseComplete (length head) request \<and> hr_version request = Some 1 \<longrightarrow>
       (\<not> host_gate request port \<longrightarrow> admit_head sha outcome head port = Inl Forbidden) \<and>
       (host_gate request port \<and> (\<forall>token. \<not> token_gate sha request token) \<longrightarrow>
          admit_head sha outcome head port = Inl Unauthenticated) \<and>
       (\<forall>token. host_gate request port \<and> token_gate sha request token \<longrightarrow>
          (hr_path request \<noteq> Some MCP_PATH \<longrightarrow> admit_head sha outcome head port = Inl NotFound) \<and>
          (hr_path request = Some MCP_PATH \<and> hr_method request = Some ''POST'' \<and>
             hdr_values ''transfer-encoding'' (hr_headers request) \<noteq> [] \<longrightarrow>
             admit_head sha outcome head port = Inl LengthRequired)))"
    (is "(?admitted \<longrightarrow> ?gates) \<and> (\<forall>request. ?refusals request)")
proof (intro conjI impI allI)
  assume ?admitted
  then obtain request where r: "outcome = ParseComplete (length head) request" "admit_request sha request port = Inr h"
    using admit_head_complete by blast
  have "framing_gate request n \<Longrightarrow> n \<le> MAX_CONTROL_REQUEST_BYTES" for n
    using parse_content_length_bound by (auto simp: framing_gate_def)
  then have "ah_body_len h \<le> MAX_CONTROL_REQUEST_BYTES"
    using admit_request_Inr [OF r(2)] by (cases "ah_method h") auto
  with r admit_request_Inr [OF r(2)] show ?gates by blast
next
  fix request token
  assume complete: "outcome = ParseComplete (length head) request \<and> hr_version request = Some 1"
  then have head: "admit_head sha outcome head port = admit_request sha request port" by (simp add: admit_head_def)
  {
    assume "\<not> host_gate request port"
    then show "admit_head sha outcome head port = Inl Forbidden" using complete admit_forbidden head by simp
  }
  {
    assume "host_gate request port \<and> (\<forall>token. \<not> token_gate sha request token)"
    then show "admit_head sha outcome head port = Inl Unauthenticated" using complete admit_unauthenticated head by simp
  }
  assume gated: "host_gate request port \<and> token_gate sha request token"
  {
    assume "hr_path request \<noteq> Some MCP_PATH"
    then show "admit_head sha outcome head port = Inl NotFound"
      using complete gated admit_gated [of request port sha token] head by simp
  }
  assume "hr_path request = Some MCP_PATH \<and> hr_method request = Some ''POST'' \<and>
    hdr_values ''transfer-encoding'' (hr_headers request) \<noteq> []"
  then show "admit_head sha outcome head port = Inl LengthRequired"
    using complete gated admit_gated [of request port sha token] head scan_framing [of "hr_headers request"]
    by (simp add: admit_body_def)
qed

definition some_token :: string where
  "some_token = ''s1.'' @ replicate 64 CHR ''a''"

definition some_head :: "(string \<times> string) list \<Rightarrow> http_request" where
  "some_head extra =
     \<lparr>hr_version = Some 1, hr_method = Some ''POST'', hr_path = Some ''/mcp'',
      hr_headers = [(''Host'', ''localhost:8080''), (''AUTHORIZATION'', ''Bearer '' @ some_token),
        (''Content-Type'', ''application/json; charset=utf-8''), (''Content-Length'', ''12'')] @ extra\<rparr>"

lemma graphic_list: "list_all is_ascii_graphic s \<Longrightarrow> str_trim s = s"
  by (rule str_trim_graphic)
    (auto simp: list_all_iff is_ascii_graphic_def)

lemma bearer_token_presented:
  assumes "token \<noteq> []" and "list_all is_ascii_graphic token"
  shows "bearer_token sha (''Bearer '' @ token) = caller_token_parse sha token"
proof -
  let ?sent = "''Bearer'' @ CHR '' '' # token"
  have ascii: "\<forall>c \<in> set ?sent. byte c < 128"
    using assms(2) by (auto simp: list_all_iff is_ascii_graphic_def)
  have "is_ascii_graphic (last ?sent)" using assms by (auto simp: list_all_iff)
  then have trim: "str_trim ?sent = ?sent" by (intro str_trim_graphic ascii) (simp add: is_ascii_graphic_def)
  have split: "split_once CHR '' '' ?sent = Some (''Bearer'', token)" by (rule split_once_here) simp
  have "eq_ignore_ascii_case ''Bearer'' ''bearer''" by code_simp
  then show ?thesis
    using from_utf8_ascii [OF ascii] trim split graphic_list [OF assms(2)] by (simp add: bearer_token_def)
qed

lemma some_token_reads: "bearer_token id (''Bearer '' @ some_token) = caller_token_parse id some_token"
  by (rule bearer_token_presented) (auto simp: some_token_def is_ascii_graphic_def list_all_iff)

lemma some_token_parses: "\<exists>t. caller_token_parse id some_token = Some t"
proof -
  have hex: "hex (replicate 32 (170 :: 8 word)) = replicate 64 CHR ''a''" by code_simp
  have "caller_token_parse id (''s1'' @ ''.'' @ hex (replicate 32 170)) = Some \<lparr>ct_session_id = ''s1'', ct_secret_digest = id (replicate 32 170)\<rparr>"
    by (rule caller_token_parse_issued) (simp_all add: is_ascii_graphic_def SECRET_BYTES_def)
  then show ?thesis by (simp add: some_token_def hex)
qed

lemma some_values:
  "host_names_listener ''localhost:8080'' 8080" "is_json ''application/json; charset=utf-8''"
  "parse_content_length ''12'' = Inr 12"
proof -
  have lit: "from_utf8 ''localhost:8080'' = Some ''localhost:8080''" "str_trim ''localhost:8080'' = ''localhost:8080''"
    "from_utf8 ''application/json; charset=utf-8'' = Some ''application/json; charset=utf-8''"
    "str_trim ''application/json'' = ''application/json''" "from_utf8 ''12'' = Some ''12''" "str_trim ''12'' = ''12''"
    by (simp_all add: from_utf8_ascii str_trim_graphic is_ascii_graphic_def)
  show "host_names_listener ''localhost:8080'' 8080"
    by (simp add: host_names_listener_def lit rsplit_once_def split_once_def parse_unsigned_def decimal_value_def
        digit_value_def is_ascii_digit_def u16_max_def eq_ignore_ascii_case_def Let_def)
  show "is_json ''application/json; charset=utf-8''"
    by (simp add: is_json_def lit eq_ignore_ascii_case_def)
  show "parse_content_length ''12'' = Inr 12"
    by (simp add: parse_content_length_def lit parse_unsigned_def decimal_value_def digit_value_def is_ascii_digit_def
        u64_max_def MAX_CONTROL_REQUEST_BYTES_def Let_def)
qed

lemma some_head_values:
  "hdr_values ''host'' (hr_headers (some_head extra)) = ''localhost:8080'' # hdr_values ''host'' extra"
  "hdr_values ''origin'' (hr_headers (some_head extra)) = hdr_values ''origin'' extra"
  "hdr_values ''authorization'' (hr_headers (some_head extra)) = (''Bearer '' @ some_token) # hdr_values ''authorization'' extra"
  "hdr_values ''content-type'' (hr_headers (some_head extra)) = ''application/json; charset=utf-8'' # hdr_values ''content-type'' extra"
  "hdr_values ''content-length'' (hr_headers (some_head extra)) = ''12'' # hdr_values ''content-length'' extra"
  "hdr_values ''transfer-encoding'' (hr_headers (some_head extra)) = hdr_values ''transfer-encoding'' extra"
  by (simp_all add: some_head_def hdr_values_def scan_names to_ascii_lowercase_def) (code_simp+)

theorem mcp_head_gates_witness:
  "admit_head id (ParseComplete 2 (some_head [(''Origin'', ''null'')])) ''hd'' 8080 = Inl Forbidden \<and>
   admit_head id (ParseComplete 2 (some_head [(''transfer-Encoding'', ''chunked'')])) ''hd'' 8080 = Inl LengthRequired"
proof -
  let ?o = "[(''Origin'', ''null'')]" and ?e = "[(''transfer-Encoding'', ''chunked'')]"
  have extra: "hdr_values ''origin'' ?o = [''null'']" "hdr_values ''origin'' ?e = []" "hdr_values ''host'' ?e = []"
    "hdr_values ''authorization'' ?e = []" "hdr_values ''transfer-encoding'' ?e = [''chunked'']"
    by (simp_all add: hdr_values_def scan_names to_ascii_lowercase_def) (code_simp+)
  have fixed: "hr_version (some_head x) = Some 1" "hr_path (some_head x) = Some MCP_PATH" "hr_method (some_head x) = Some ''POST''" for x
    by (simp_all add: some_head_def MCP_PATH_def)
  have "\<not> host_gate (some_head ?o) 8080" by (simp add: host_gate_def some_head_values extra)
  moreover have "host_gate (some_head ?e) 8080" by (simp add: host_gate_def some_head_values extra some_values)
  moreover obtain token where "token_gate id (some_head ?e) token"
    using some_token_parses some_token_reads by (auto simp: token_gate_def some_head_values extra)
  moreover have "hdr_values ''transfer-encoding'' (hr_headers (some_head ?e)) \<noteq> []" by (simp add: some_head_values extra)
  ultimately show ?thesis
    using mcp_head_gates [of id "ParseComplete 2 (some_head ?o)" "''hd''" 8080]
      mcp_head_gates [of id "ParseComplete 2 (some_head ?e)" "''hd''" 8080] fixed
    by (auto simp del: not_ex)
qed

section \<open>From issuing a token to admitting it\<close>


definition some_session :: spawn_credentials where
  "some_session = \<lparr>sp_session_id = ''s.1'', sp_variables = [(''BOTSTER_MCP_TOKEN'', ''stale'')], sp_metadata = []\<rparr>"


end
