(* ===== verification/Closed_Events.thy ===== *)
theory Closed_Events
  imports Ordered_Map Close_Cause
begin

text \<open>
  \<open>subscription/closed_events.rs\<close> with \<open>transport/shared/close_progress.rs\<close>: the ledger of close events
  of one connection, the bounded walk that classifies its closed routes, the cache of registry
  decisions, and the owner phase that walks all admitted connections from a cursor.

  A route's handle is the cause byte of its adapter (\<open>Close_Cause\<close>); a visit reads it once.  The
  ticket of a registry read is the list of session names it asks for, and what the Core thread
  has answered when it is polled is an argument.  The locks are not poisoned.
\<close>

section \<open>Events and routes\<close>

type_synonym route_key = "string \<times> string \<times> u64"

definition TERMINAL_SUBSCRIPTION_CLOSED_HOST_ADAPTER :: string where
  "TERMINAL_SUBSCRIPTION_CLOSED_HOST_ADAPTER = ''host_adapter_closed''"
definition TERMINAL_SUBSCRIPTION_CLOSED_CORE_ADAPTER :: string where
  "TERMINAL_SUBSCRIPTION_CLOSED_CORE_ADAPTER = ''core_adapter_closed''"
definition TERMINAL_SUBSCRIPTION_CLOSED_WORKER_LOST :: string where
  "TERMINAL_SUBSCRIPTION_CLOSED_WORKER_LOST = ''worker_lost''"

text \<open>The payloads are opaque.\<close>

datatype 'p daemon_event =
    SessionLifecycle string string
  | RuntimeObservation string
  | WorktreeLifecycle 'p
  | TerminalSubscriptionClosed string string u64 string
  | PackageEvent string string string 'p
  | EventGap string string string

record closed_event_route =
  er_session_id :: string
  er_subscription_id :: string
  er_generation :: u64
  er_handle :: "8 word"
  er_reported :: bool

section \<open>The counters of one bounded walk\<close>

record closed_event_slice_progress =
  sp_classified :: usize
  sp_more :: bool
  sp_after_route :: "route_key option"

definition empty_close_event_progress :: closed_event_slice_progress where
  "empty_close_event_progress = \<lparr>sp_classified = 0, sp_more = False, sp_after_route = None\<rparr>"

record close_slice_accumulator =
  sa_max_candidates :: usize
  sa_max_entries_visited :: usize
  sa_classified :: usize
  sa_visited :: usize
  sa_more :: bool
  sa_last_visited :: "route_key option"

definition close_slice_new :: "usize \<Rightarrow> route_key option \<Rightarrow> usize \<Rightarrow> close_slice_accumulator" where
  "close_slice_new max_candidates after_route max_entries =
     \<lparr>sa_max_candidates = max_candidates, sa_max_entries_visited = max_entries,
      sa_classified = 0, sa_visited = 0, sa_more = False, sa_last_visited = after_route\<rparr>"

definition begin_entry :: "bool \<Rightarrow> close_slice_accumulator \<Rightarrow> bool \<times> close_slice_accumulator" where
  "begin_entry is_unreported_closed a =
     (if sa_max_entries_visited a \<le> sa_visited a then (False, a\<lparr>sa_more := True\<rparr>)
      else if is_unreported_closed \<and> sa_max_candidates a \<le> sa_classified a then (False, a\<lparr>sa_more := True\<rparr>)
      else (True, a))"

definition slice_visit :: "route_key \<Rightarrow> close_slice_accumulator \<Rightarrow> close_slice_accumulator" where
  "slice_visit key a = a\<lparr>sa_visited := sa_visited a + 1, sa_last_visited := Some key\<rparr>"

definition record_classified :: "close_slice_accumulator \<Rightarrow> close_slice_accumulator" where
  "record_classified a = a\<lparr>sa_classified := sa_classified a + 1\<rparr>"

definition slice_finish :: "close_slice_accumulator \<Rightarrow> closed_event_slice_progress" where
  "slice_finish a =
     \<lparr>sp_classified = sa_classified a, sp_more = sa_more a, sp_after_route = sa_last_visited a\<rparr>"

section \<open>The ledger\<close>

record 'p closed_event_ledger =
  le_pending :: "'p daemon_event list"
  le_suppress :: "route_key oset"

definition closed_event_ledger_new :: "'p closed_event_ledger" where
  "closed_event_ledger_new = \<lparr>le_pending = [], le_suppress = []\<rparr>"

definition suppress_session_keys :: "route_key list \<Rightarrow> 'p closed_event_ledger \<Rightarrow> 'p closed_event_ledger" where
  "suppress_session_keys keys l =
     (if keys = [] then l else l\<lparr>le_suppress := fold os_insert keys (le_suppress l)\<rparr>)"

definition suppress_generation :: "string \<Rightarrow> string \<Rightarrow> u64 \<Rightarrow> 'p closed_event_ledger \<Rightarrow> 'p closed_event_ledger" where
  "suppress_generation session_id subscription_id generation l =
     l\<lparr>le_suppress := os_insert (session_id, subscription_id, generation) (le_suppress l)\<rparr>"

definition unsuppress_generation :: "string \<Rightarrow> string \<Rightarrow> u64 \<Rightarrow> 'p closed_event_ledger \<Rightarrow> 'p closed_event_ledger" where
  "unsuppress_generation session_id subscription_id generation l =
     l\<lparr>le_suppress := os_remove (session_id, subscription_id, generation) (le_suppress l)\<rparr>"

definition generation_is_suppressed :: "string \<Rightarrow> string \<Rightarrow> u64 \<Rightarrow> route_key oset \<Rightarrow> bool" where
  "generation_is_suppressed session_id subscription_id generation suppressed \<longleftrightarrow>
     (session_id, subscription_id, generation) \<in> set suppressed"

definition has_pending_event :: "'p closed_event_ledger \<Rightarrow> bool" where
  "has_pending_event l \<longleftrightarrow> le_pending l \<noteq> []"

definition pop_pending_event :: "'p closed_event_ledger \<Rightarrow> 'p daemon_event option \<times> 'p closed_event_ledger" where
  "pop_pending_event l =
     (case le_pending l of [] \<Rightarrow> (None, l) | e # es \<Rightarrow> (Some e, l\<lparr>le_pending := es\<rparr>))"

definition push_event :: "'p daemon_event \<Rightarrow> 'p closed_event_ledger \<Rightarrow> 'p closed_event_ledger" where
  "push_event event l = l\<lparr>le_pending := le_pending l @ [event]\<rparr>"

section \<open>The bounded walk\<close>

definition closed_reason :: "8 word \<Rightarrow> string" where
  "closed_reason handle =
     (if cc_core_reason handle = Some WorkerLinkFailed then TERMINAL_SUBSCRIPTION_CLOSED_WORKER_LOST
      else if cc_host_closed handle then TERMINAL_SUBSCRIPTION_CLOSED_HOST_ADAPTER
      else TERMINAL_SUBSCRIPTION_CLOSED_CORE_ADAPTER)"

definition closed_event :: "closed_event_route \<Rightarrow> 'p daemon_event" where
  "closed_event route =
     TerminalSubscriptionClosed (er_session_id route) (er_subscription_id route) (er_generation route)
       (closed_reason (er_handle route))"

text \<open>
  The body of the loop for a closed route that is not reported yet: the route afterwards, the
  state of the classifier, and the event to queue.  A lost worker is reported whatever the
  registry says, and the classifier is not asked.
\<close>

definition classify_closed ::
  "(string \<Rightarrow> 'd \<Rightarrow> bool option \<times> 'd) \<Rightarrow> route_key oset \<Rightarrow> 'd \<Rightarrow> closed_event_route \<Rightarrow>
   closed_event_route \<times> 'd \<times> 'p daemon_event list"
where
  "classify_closed classify suppressed d route =
     (if generation_is_suppressed (er_session_id route) (er_subscription_id route) (er_generation route) suppressed
      then (route\<lparr>er_reported := True\<rparr>, d, [])
      else
        let worker_lost = (cc_core_reason (er_handle route) = Some WorkerLinkFailed);
            (decision, d) = (if worker_lost then (Some True, d) else classify (er_session_id route) d)
        in case decision of
             None \<Rightarrow> (route, d, [])
           | Some False \<Rightarrow> (route\<lparr>er_reported := True\<rparr>, d, [])
           | Some True \<Rightarrow> (route\<lparr>er_reported := True\<rparr>, d, [closed_event route]))"

fun close_walk ::
  "(string \<Rightarrow> 'd \<Rightarrow> bool option \<times> 'd) \<Rightarrow> route_key oset \<Rightarrow> close_slice_accumulator \<Rightarrow> 'd \<Rightarrow>
   (route_key \<times> closed_event_route) list \<Rightarrow>
   close_slice_accumulator \<times> 'd \<times> 'p daemon_event list \<times> (route_key \<times> closed_event_route) list"
where
  "close_walk classify suppressed a d [] = (a, d, [], [])"
| "close_walk classify suppressed a d ((key, route) # rest) =
     (let candidate = (\<not> er_reported route \<and> cc_is_closed (er_handle route));
          (go, a) = begin_entry candidate a
      in if \<not> go then (a, d, [], (key, route) # rest)
         else
           let a = slice_visit key a
           in if \<not> candidate then
                let (a, d, queued, walked) = close_walk classify suppressed a d rest
                in (a, d, queued, (key, route) # walked)
              else
                let a = record_classified a;
                    (route, d, event) = classify_closed classify suppressed d route;
                    (a, d, queued, walked) = close_walk classify suppressed a d rest
                in (a, d, event @ queued, (key, route) # walked))"

definition om_upto :: "'k :: linorder option \<Rightarrow> ('k, 'v) omap \<Rightarrow> ('k, 'v) omap" where
  "om_upto c m = (case c of None \<Rightarrow> [] | Some k \<Rightarrow> filter (\<lambda>e. fst e \<le> k) m)"

text \<open>The last component tells whether the connection's writer is woken.\<close>

definition queue_closed_subscription_events_bounded ::
  "bool \<Rightarrow> (string \<Rightarrow> 'd \<Rightarrow> bool option \<times> 'd) \<Rightarrow> usize \<Rightarrow> route_key option \<Rightarrow> usize \<Rightarrow>
   (route_key, closed_event_route) omap \<Rightarrow> 'd \<Rightarrow> 'p closed_event_ledger \<Rightarrow>
   closed_event_slice_progress \<times> (route_key, closed_event_route) omap \<times> 'd \<times> 'p closed_event_ledger \<times> bool"
where
  "queue_closed_subscription_events_bounded dying classify max_candidates after_route max_entries routes d l =
     (if dying then
        (empty_close_event_progress, map (\<lambda>(k, r). (k, r\<lparr>er_reported := True\<rparr>)) routes, d, l, False)
      else
        let (a, d, queued, walked) =
              close_walk classify (le_suppress l) (close_slice_new max_candidates after_route max_entries) d
                (om_after after_route routes);
            l = (if queued = [] then l else l\<lparr>le_pending := le_pending l @ queued\<rparr>)
        in (slice_finish a, om_upto after_route routes @ walked, d, l, queued \<noteq> []))"

section \<open>Registry decisions\<close>

text \<open>What the Core registry answers for a session, as far as the decision reads it.\<close>

datatype registry_lookup = FoundRunning | FoundNotRunning | RegistryAbsent | LookupOther | LookupFailed

fun session_close_event_decision :: "registry_lookup \<Rightarrow> bool option" where
  "session_close_event_decision FoundRunning = Some True"
| "session_close_event_decision FoundNotRunning = Some False"
| "session_close_event_decision RegistryAbsent = None"
| "session_close_event_decision LookupOther = None"
| "session_close_event_decision LookupFailed = None"

record close_event_decisions =
  cd_cache :: "(string, bool option) omap"
  cd_missing :: "string oset"
  cd_read :: "string list option"

definition close_event_decisions_new :: close_event_decisions where
  "close_event_decisions_new = \<lparr>cd_cache = [], cd_missing = [], cd_read = None\<rparr>"

definition cd_decision :: "string \<Rightarrow> close_event_decisions \<Rightarrow> bool option \<times> close_event_decisions" where
  "cd_decision session_id d =
     (case om_get (cd_cache d) session_id of
        Some decision \<Rightarrow> (decision, d)
      | None \<Rightarrow> (None, d\<lparr>cd_missing := os_insert session_id (cd_missing d)\<rparr>))"

definition cd_request_missing :: "close_event_decisions \<Rightarrow> bool \<times> close_event_decisions" where
  "cd_request_missing d =
     (if cd_read d \<noteq> None then (True, d)
      else if cd_missing d = [] then (False, d)
      else (True, d\<lparr>cd_missing := [], cd_read := Some (cd_missing d)\<rparr>))"

datatype core_ticket_poll = TicketPending | TicketLost | TicketRefused | TicketReady

text \<open>\<open>lookup\<close> is the registry at the moment the Core thread runs the read.\<close>

definition cd_poll ::
  "core_ticket_poll \<Rightarrow> (string \<Rightarrow> registry_lookup) \<Rightarrow> close_event_decisions \<Rightarrow> bool \<times> close_event_decisions"
where
  "cd_poll poll lookup d =
     (case cd_read d of
        None \<Rightarrow> (False, d)
      | Some session_ids \<Rightarrow>
          (case poll of
             TicketPending \<Rightarrow> (True, d)
           | TicketLost \<Rightarrow> (False, d\<lparr>cd_read := None\<rparr>)
           | TicketRefused \<Rightarrow> (False, d\<lparr>cd_read := None\<rparr>)
           | TicketReady \<Rightarrow>
               (False, d\<lparr>cd_read := None,
                  cd_cache := fold (\<lambda>s. om_insert s (session_close_event_decision (lookup s))) session_ids (cd_cache d)\<rparr>)))"

definition cd_reset :: "close_event_decisions \<Rightarrow> close_event_decisions" where
  "cd_reset d = d\<lparr>cd_cache := [], cd_missing := []\<rparr>"

section \<open>The owner phase\<close>

definition PUMP_MAX_ADMISSIONS_VISITED :: usize where "PUMP_MAX_ADMISSIONS_VISITED = 8"
definition PUMP_MAX_CANDIDATE_CLASSIFICATIONS :: usize where "PUMP_MAX_CANDIDATE_CLASSIFICATIONS = 8"
definition PUMP_MAX_ROUTE_ENTRIES_VISITED :: usize where "PUMP_MAX_ROUTE_ENTRIES_VISITED = 8"

text \<open>What the phase uses of a connection's multiplexer; \<open>cm_wakes\<close> counts the wakes of its writer.\<close>

record 'p connection_mux =
  cm_routes :: "(route_key, closed_event_route) omap"
  cm_ledger :: "'p closed_event_ledger"
  cm_dying :: bool
  cm_wakes :: nat

datatype 'p terminal_admission = Admitted "'p connection_mux" | Rejected

datatype pump_admission_cursor =
    CursorUnix "string option" "route_key option"
  | CursorWebrtc "string option" "route_key option"

definition pump_admission_cursor_default :: pump_admission_cursor where
  "pump_admission_cursor_default = CursorUnix None None"

record 'p close_phase =
  cp_unix_admissions :: "(string, 'p terminal_admission) omap"
  cp_webrtc_admissions :: "(string, 'p terminal_admission) omap"
  cp_cursor :: pump_admission_cursor
  cp_decisions :: close_event_decisions

text \<open>\<open>queue_closed_subscription_events_bounded\<close> of the two multiplexers.\<close>

definition mux_queue_closed ::
  "usize \<Rightarrow> route_key option \<Rightarrow> usize \<Rightarrow> 'p connection_mux \<Rightarrow> close_event_decisions \<Rightarrow>
   closed_event_slice_progress \<times> 'p connection_mux \<times> close_event_decisions"
where
  "mux_queue_closed max_candidates after_route max_entries m d =
     (let (progress, routes, d, ledger, woke) =
            queue_closed_subscription_events_bounded (cm_dying m) cd_decision max_candidates after_route
              max_entries (cm_routes m) d (cm_ledger m)
      in (progress, m\<lparr>cm_routes := routes, cm_ledger := ledger, cm_wakes := cm_wakes m + (if woke then 1 else 0)\<rparr>, d))"

definition visit_admission ::
  "usize \<Rightarrow> route_key option \<Rightarrow> string \<Rightarrow> (string, 'p terminal_admission) omap \<Rightarrow> close_event_decisions \<Rightarrow>
   closed_event_slice_progress \<times> (string, 'p terminal_admission) omap \<times> close_event_decisions"
where
  "visit_admission remaining after_route key admissions d =
     (case om_get admissions key of
        Some (Admitted m) \<Rightarrow>
          let (progress, m, d) = mux_queue_closed remaining after_route PUMP_MAX_ROUTE_ENTRIES_VISITED m d
          in (progress, om_modify key (\<lambda>_. Admitted m) admissions, d)
      | _ \<Rightarrow> (empty_close_event_progress, admissions, d))"

text \<open>
  The turn stops (\<open>Some\<close>) at the cursor it will resume from: the same place when registry
  answers are missing, the last visited route when the slice was cut.  Otherwise (\<open>None\<close>) the
  walk goes on behind this admission.
\<close>

definition close_turn_stop ::
  "bool \<Rightarrow> closed_event_slice_progress \<Rightarrow> route_key option \<Rightarrow> route_key option option"
where
  "close_turn_stop asked progress after_route =
     (if asked then Some after_route else if sp_more progress then Some (sp_after_route progress) else None)"

function close_loop :: "usize \<Rightarrow> usize \<Rightarrow> 'p close_phase \<Rightarrow> bool \<times> 'p close_phase" where
  "close_loop visited classified s =
     (if PUMP_MAX_ADMISSIONS_VISITED \<le> visited \<or> PUMP_MAX_CANDIDATE_CLASSIFICATIONS \<le> classified then (True, s)
      else
        let remaining = saturating_sub PUMP_MAX_CANDIDATE_CLASSIFICATIONS classified
        in case cp_cursor s of
             CursorUnix after after_route \<Rightarrow>
               (case om_next (cp_unix_admissions s) after of
                  None \<Rightarrow> close_loop visited classified (s\<lparr>cp_cursor := CursorWebrtc None None\<rparr>)
                | Some key \<Rightarrow>
                    let (progress, admissions, d) =
                          visit_admission remaining after_route key (cp_unix_admissions s) (cp_decisions s);
                        (asked, d) = cd_request_missing d;
                        s = s\<lparr>cp_unix_admissions := admissions, cp_decisions := d\<rparr>
                    in (case close_turn_stop asked progress after_route of
                          Some route \<Rightarrow> (True, s\<lparr>cp_cursor := CursorUnix after route\<rparr>)
                        | None \<Rightarrow>
                            close_loop (visited + 1) (saturating_add classified (sp_classified progress))
                              (s\<lparr>cp_cursor := CursorUnix (Some key) None\<rparr>)))
           | CursorWebrtc after after_route \<Rightarrow>
               (case om_next (cp_webrtc_admissions s) after of
                  None \<Rightarrow> (False, s\<lparr>cp_cursor := pump_admission_cursor_default, cp_decisions := cd_reset (cp_decisions s)\<rparr>)
                | Some key \<Rightarrow>
                    let (progress, admissions, d) =
                          visit_admission remaining after_route key (cp_webrtc_admissions s) (cp_decisions s);
                        (asked, d) = cd_request_missing d;
                        s = s\<lparr>cp_webrtc_admissions := admissions, cp_decisions := d\<rparr>
                    in (case close_turn_stop asked progress after_route of
                          Some route \<Rightarrow> (True, s\<lparr>cp_cursor := CursorWebrtc after route\<rparr>)
                        | None \<Rightarrow>
                            close_loop (visited + 1) (saturating_add classified (sp_classified progress))
                              (s\<lparr>cp_cursor := CursorWebrtc (Some key) None\<rparr>))))"
  by auto

termination
  by (relation "measure (\<lambda>(visited, _, s). 2 * (PUMP_MAX_ADMISSIONS_VISITED - visited) +
        (case cp_cursor s of CursorUnix _ _ \<Rightarrow> 1 | CursorWebrtc _ _ \<Rightarrow> 0))") auto

declare close_loop.simps [simp del]

definition run_close_events_phase ::
  "bool \<Rightarrow> core_ticket_poll \<Rightarrow> (string \<Rightarrow> registry_lookup) \<Rightarrow> 'p close_phase \<Rightarrow> bool \<times> 'p close_phase"
where
  "run_close_events_phase has_runtime poll lookup s =
     (if \<not> has_runtime then
        (False, s\<lparr>cp_cursor := pump_admission_cursor_default, cp_decisions := cd_reset (cp_decisions s)\<rparr>)
      else
        let (waiting, d) = cd_poll poll lookup (cp_decisions s);
            s = s\<lparr>cp_decisions := d\<rparr>
        in if waiting then (True, s) else close_loop 0 0 s)"

section \<open>What a walk does\<close>

text \<open>
  The specification of a visit, for decisions \<open>c\<close> that do not change during the pass: the route
  afterwards and the events it causes, without budgets and cursors.
\<close>

definition visit_decision :: "(string \<Rightarrow> bool option) \<Rightarrow> route_key oset \<Rightarrow> closed_event_route \<Rightarrow> bool option" where
  "visit_decision c suppressed route =
     (if er_reported route \<or> \<not> cc_is_closed (er_handle route) then None
      else if (er_session_id route, er_subscription_id route, er_generation route) \<in> set suppressed then Some False
      else if cc_core_reason (er_handle route) = Some WorkerLinkFailed then Some True
      else c (er_session_id route))"

definition after_visit :: "(string \<Rightarrow> bool option) \<Rightarrow> route_key oset \<Rightarrow> closed_event_route \<Rightarrow> closed_event_route" where
  "after_visit c suppressed route =
     (if visit_decision c suppressed route = None then route else route\<lparr>er_reported := True\<rparr>)"

definition visit_events :: "(string \<Rightarrow> bool option) \<Rightarrow> route_key oset \<Rightarrow> closed_event_route \<Rightarrow> 'p daemon_event list" where
  "visit_events c suppressed route =
     (if visit_decision c suppressed route = Some True then [closed_event route] else [])"

lemmas visit_defs = visit_decision_def after_visit_def visit_events_def

lemma classify_closed_pure:
  assumes "\<not> er_reported route" and "cc_is_closed (er_handle route)"
  shows "classify_closed (\<lambda>s d. (c s, d)) suppressed d route =
     (after_visit c suppressed route, d, visit_events c suppressed route)"
  using assms
  by (auto simp: classify_closed_def visit_defs generation_is_suppressed_def split: option.splits bool.splits)

lemma not_candidate:
  "er_reported route \<or> \<not> cc_is_closed (er_handle route) \<Longrightarrow>
   after_visit c suppressed route = route \<and> visit_events c suppressed route = []"
  by (auto simp: visit_defs)

definition slice_room :: "close_slice_accumulator \<Rightarrow> bool" where
  "slice_room a \<longleftrightarrow> sa_visited a < sa_max_entries_visited a \<and> sa_classified a < sa_max_candidates a"

lemma close_walk_step:
  "close_walk (\<lambda>s d. (c s, d)) suppressed a d ((key, route) # rest) =
     (if \<not> fst (begin_entry (\<not> er_reported route \<and> cc_is_closed (er_handle route)) a)
      then (a\<lparr>sa_more := True\<rparr>, d, [], (key, route) # rest)
      else
        let (a, d, queued, walked) = close_walk (\<lambda>s d. (c s, d)) suppressed
              (if \<not> er_reported route \<and> cc_is_closed (er_handle route)
               then record_classified (slice_visit key a) else slice_visit key a) d rest
        in (a, d, visit_events c suppressed route @ queued, (key, after_visit c suppressed route) # walked))"
proof (cases "\<not> er_reported route \<and> cc_is_closed (er_handle route)")
  case True
  then show ?thesis by (auto simp: begin_entry_def Let_def classify_closed_pure)
next
  case False
  then show ?thesis by (auto simp: begin_entry_def Let_def visit_defs)
qed

declare close_walk.simps(2) [simp del]

lemma close_walk_pure:
  "\<exists>n a'. n \<le> length rs \<and>
     close_walk (\<lambda>s d. (c s, d)) suppressed a d rs =
       (a', d, concat (map (\<lambda>e. visit_events c suppressed (snd e)) (take n rs)) :: 'p daemon_event list,
        map (apsnd (after_visit c suppressed)) (take n rs) @ drop n rs) \<and>
     sa_last_visited a' = (if n = 0 then sa_last_visited a else Some (fst (rs ! (n - 1)))) \<and>
     (n < length rs \<longrightarrow> sa_more a') \<and> (n = length rs \<longrightarrow> sa_more a' = sa_more a) \<and>
     (rs \<noteq> [] \<and> slice_room a \<longrightarrow> 0 < n)"
proof (induction rs arbitrary: a d)
  case (Cons e rs)
  obtain key route where e: "e = (key, route)" by (cases e)
  define cand where "cand = (\<not> er_reported route \<and> cc_is_closed (er_handle route))"
  note step = close_walk_step [of c suppressed a d key route rs, folded cand_def]
  show ?case
  proof (cases "fst (begin_entry cand a)")
    case False
    then have "\<not> slice_room a" by (auto simp: begin_entry_def slice_room_def split: if_splits)
    with False show ?thesis unfolding e step by (intro exI [of _ 0] exI [of _ "a\<lparr>sa_more := True\<rparr>"]) simp
  next
    case True
    define b where "b = (if cand then record_classified (slice_visit key a) else slice_visit key a)"
    have b: "sa_last_visited b = Some key" "sa_more b = sa_more a"
      by (simp_all add: b_def slice_visit_def record_classified_def)
    from Cons.IH [of b d] obtain n a' where
      n: "n \<le> length rs"
      and w: "close_walk (\<lambda>s d. (c s, d)) suppressed b d rs =
         (a', d, concat (map (\<lambda>e. visit_events c suppressed (snd e)) (take n rs)) :: 'p daemon_event list,
          map (apsnd (after_visit c suppressed)) (take n rs) @ drop n rs)"
      and l: "sa_last_visited a' = (if n = 0 then sa_last_visited b else Some (fst (rs ! (n - 1))))"
      and m: "n < length rs \<longrightarrow> sa_more a'" "n = length rs \<longrightarrow> sa_more a' = sa_more b"
      by blast
    have "sa_last_visited a' = Some (fst ((e # rs) ! n))" using l b by (cases n) (simp_all add: e)
    moreover have "close_walk (\<lambda>s d. (c s, d)) suppressed a d (e # rs) =
       (a', d, concat (map (\<lambda>e. visit_events c suppressed (snd e)) (take (Suc n) (e # rs))) :: 'p daemon_event list,
        map (apsnd (after_visit c suppressed)) (take (Suc n) (e # rs)) @ drop (Suc n) (e # rs))"
      using True w unfolding e step b_def [symmetric] by simp
    ultimately show ?thesis using n m b by (intro exI [of _ "Suc n"] exI [of _ a']) simp
  qed
qed simp

section \<open>A pass in slices\<close>

text \<open>
  A whole pass over one connection: slices until one leaves nothing behind, each resuming from
  the cursor the one before returned.  The fuel bounds the number of slices.
\<close>

fun close_pass ::
  "nat \<Rightarrow> (string \<Rightarrow> bool option) \<Rightarrow> usize \<Rightarrow> usize \<Rightarrow> route_key option \<Rightarrow>
   (route_key, closed_event_route) omap \<Rightarrow> 'p closed_event_ledger \<Rightarrow>
   ((route_key, closed_event_route) omap \<times> 'p closed_event_ledger) option"
where
  "close_pass 0 c mc me after routes l = None"
| "close_pass (Suc n) c mc me after routes l =
     (let (progress, routes, _, l, _) =
            queue_closed_subscription_events_bounded False (\<lambda>s d. (c s, d)) mc after me routes () l
      in if sp_more progress then close_pass n c mc me (sp_after_route progress) routes l
         else Some (routes, l))"

definition cut_at :: "'k :: linorder option \<Rightarrow> ('k, 'v) omap \<Rightarrow> ('k, 'v) omap \<Rightarrow> bool" where
  "cut_at after done rest \<longleftrightarrow>
     om_upto after (done @ rest) = done \<and> om_after after (done @ rest) = rest"

lemma cut_at_start: "cut_at None [] rest"
  by (simp add: cut_at_def om_upto_def om_after_def)

lemma cut_at_key:
  assumes "om_ok (done @ e # rest)"
  shows "cut_at (Some (fst e)) (done @ [e]) rest"
proof -
  have "\<forall>x \<in> set done. fst x < fst e" "\<forall>x \<in> set rest. fst e < fst x"
    using assms by (auto simp: om_ok_def sorted_wrt_append)
  then have "filter (\<lambda>x. fst x \<le> fst e) done = done" "filter (\<lambda>x. fst x \<le> fst e) rest = []"
    "filter (\<lambda>x. fst e < fst x) done = []" "filter (\<lambda>x. fst e < fst x) rest = rest"
    by (auto simp: filter_id_conv filter_empty_conv)
  then show ?thesis by (simp add: cut_at_def om_upto_def om_after_def)
qed

lemma keys_after_visit [simp]: "om_keys (map (apsnd f) m) = om_keys m"
  by (simp add: comp_def)

lemma close_pass_rest:
  fixes l :: "'p closed_event_ledger"
  assumes "0 < mc" and "0 < me"
  shows "om_ok (done @ rest) \<Longrightarrow> cut_at after done rest \<Longrightarrow> length rest < n \<Longrightarrow>
    close_pass n c mc me after (done @ rest) l =
      Some (done @ map (apsnd (after_visit c (le_suppress l))) rest,
            l\<lparr>le_pending := le_pending l @ concat (map (\<lambda>e. visit_events c (le_suppress l) (snd e)) rest)\<rparr>)"
proof (induction n arbitrary: "done" rest after l)
  case (Suc n)
  let ?sup = "le_suppress l"
  let ?upd = "apsnd (after_visit c ?sup)" and ?ev = "(\<lambda>e. visit_events c ?sup (snd e)) :: route_key \<times> closed_event_route \<Rightarrow> 'p daemon_event list"
  let ?a = "close_slice_new mc after me"
  have room: "slice_room ?a" using assms by (simp add: slice_room_def close_slice_new_def)
  obtain i a' where
    i: "i \<le> length rest" and
    w: "close_walk (\<lambda>s d. (c s, d)) ?sup ?a () rest =
        (a', (), concat (map ?ev (take i rest)), map ?upd (take i rest) @ drop i rest)"
    and last: "sa_last_visited a' = (if i = 0 then sa_last_visited ?a else Some (fst (rest ! (i - 1))))"
    and more: "i < length rest \<longrightarrow> sa_more a'" "i = length rest \<longrightarrow> sa_more a' = sa_more ?a"
    and pos: "rest \<noteq> [] \<longrightarrow> 0 < i"
    using close_walk_pure [of rest c ?sup ?a "()"] room by blast
  let ?l = "l\<lparr>le_pending := le_pending l @ concat (map ?ev (take i rest))\<rparr>"
  have slice: "queue_closed_subscription_events_bounded False (\<lambda>s d. (c s, d)) mc after me (done @ rest) () l =
      (slice_finish a', done @ map ?upd (take i rest) @ drop i rest, (), ?l,
       concat (map ?ev (take i rest)) \<noteq> [])"
    using Suc.prems(2) w by (auto simp: queue_closed_subscription_events_bounded_def cut_at_def Let_def)
  show ?case
  proof (cases "i = length rest")
    case True
    then have "\<not> sa_more a'" using more(2) by (simp add: close_slice_new_def)
    then show ?thesis using slice True by (simp add: slice_finish_def comp_def)
  next
    case False
    then have less: "i < length rest" "sa_more a'" using i more(1) by auto
    with pos have "0 < i" by auto
    then obtain j where j: "i = Suc j" by (cases i) auto
    let ?e = "rest ! j"
    have split: "take i rest = take j rest @ [?e]" using less j by (simp add: take_Suc_conv_app_nth)
    have ok: "om_ok ((done @ map ?upd (take j rest)) @ ?upd ?e # drop i rest)"
    proof -
      have r: "rest = take j rest @ ?e # drop i rest" using less(1) j by (simp add: id_take_nth_drop)
      have "om_keys (done @ rest) = om_keys (done @ take j rest @ ?e # drop i rest)"
        by (rule arg_cong [OF r])
      then have keys: "om_keys ((done @ map ?upd (take j rest)) @ ?upd ?e # drop i rest) = om_keys (done @ rest)"
        by (simp add: comp_def)
      show ?thesis using Suc.prems(1) unfolding om_ok_def keys .
    qed
    have cut: "cut_at (Some (fst ?e)) (done @ map ?upd (take i rest)) (drop i rest)"
      using cut_at_key [OF ok] by (simp add: split)
    have ok': "om_ok ((done @ map ?upd (take i rest)) @ drop i rest)" using ok by (simp add: split)
    have "length (drop i rest) < n" using Suc.prems(3) \<open>0 < i\<close> less by simp
    from Suc.IH [OF ok' cut this, of ?l]
    have "close_pass n c mc me (Some (fst ?e)) ((done @ map ?upd (take i rest)) @ drop i rest) ?l =
       Some (done @ map ?upd (take i rest) @ map ?upd (drop i rest),
         l\<lparr>le_pending := le_pending l @ concat (map ?ev (take i rest)) @ concat (map ?ev (drop i rest))\<rparr>)"
      by simp
    moreover have "sp_after_route (slice_finish a') = Some (fst ?e)" "sp_more (slice_finish a')"
      using last less j by (simp_all add: slice_finish_def)
    moreover have "map ?upd (take i rest) @ map ?upd (drop i rest) = map ?upd rest"
      "concat (map ?ev (take i rest)) @ concat (map ?ev (drop i rest)) = concat (map ?ev rest)"
      unfolding map_append [symmetric] concat_append [symmetric] append_take_drop_id by (rule refl)+
    ultimately show ?thesis unfolding close_pass.simps slice by (simp only: prod.case Let_def if_True append_assoc)
  qed
qed simp

lemma close_pass_whole:
  fixes l :: "'p closed_event_ledger"
  assumes "0 < mc" and "0 < me" and "om_ok routes" and "n = Suc (length routes)"
  shows "close_pass n c mc me None routes l =
    Some (map (apsnd (after_visit c (le_suppress l))) routes,
          l\<lparr>le_pending := le_pending l @ concat (map (\<lambda>e. visit_events c (le_suppress l) (snd e)) routes)\<rparr>)"
  using close_pass_rest [OF assms(1,2), of "[]" routes None n c l] assms(3,4)
  by (simp add: cut_at_start del: close_pass.simps)

section \<open>Every close is reported once\<close>

lemma visited_again:
  "visit_events c' suppressed (after_visit c suppressed route) =
     (if visit_decision c suppressed route = None then visit_events c' suppressed route else [])"
  by (auto simp: visit_defs)

lemma pass_again:
  "concat (map (\<lambda>e. visit_events c' suppressed (snd e)) (map (apsnd (after_visit c suppressed)) routes)) =
   concat (map (visit_events c' suppressed)
     (filter (\<lambda>r. visit_decision c suppressed r = None) (om_values routes)))"
  by (induction routes) (auto simp: visited_again)

text \<open>C25. However small the budgets are, a pass in slices does what one unbounded walk would do: it ends, it
  queues behind the pending events, in key order, one close event for exactly the closed routes
  not reported yet that are not suppressed and whose session runs or whose worker was lost, each
  with the cause of its close, and marks exactly the decided routes reported.  A later pass, with
  whatever decisions, queues events only for routes the first one had to leave undecided.\<close>

theorem closed_routes_reported_once:
  fixes l :: "'p closed_event_ledger"
  assumes "om_ok routes" and "0 < mc" and "0 < me"
  shows "\<exists>routes' l'. close_pass (Suc (length routes)) c mc me None routes l = Some (routes', l') \<and>
    le_pending l' = le_pending l @ map closed_event (filter (\<lambda>r. visit_decision c (le_suppress l) r = Some True) (om_values routes)) \<and>
    om_keys routes' = om_keys routes \<and>
    (\<forall>k r. om_get routes k = Some r \<longrightarrow>
       om_get routes' k = Some (if visit_decision c (le_suppress l) r = None then r else r\<lparr>er_reported := True\<rparr>)) \<and>
    (\<forall>c' routes'' l''. close_pass (Suc (length routes)) c' mc me None routes' l' = Some (routes'', l'') \<longrightarrow>
       le_pending l'' = le_pending l' @ map closed_event
         (filter (\<lambda>r. visit_decision c (le_suppress l) r = None \<and> visit_decision c' (le_suppress l) r = Some True)
           (om_values routes)))"
proof -
  let ?sup = "le_suppress l"
  let ?routes = "map (apsnd (after_visit c ?sup)) routes"
  let ?l = "l\<lparr>le_pending := le_pending l @ concat (map (\<lambda>e. visit_events c ?sup (snd e)) routes)\<rparr>"
  have first: "close_pass (Suc (length routes)) c mc me None routes l = Some (?routes, ?l)"
    by (rule close_pass_whole [OF assms(2,3,1) refl])
  have ok: "om_ok ?routes" using assms(1) by (simp add: om_ok_def)
  have second: "close_pass (Suc (length routes)) c' mc me None ?routes ?l =
      Some (map (apsnd (after_visit c' ?sup)) ?routes,
        ?l\<lparr>le_pending := le_pending ?l @ concat (map (\<lambda>e. visit_events c' ?sup (snd e)) ?routes)\<rparr>)" for c'
    using close_pass_whole [OF assms(2,3) ok, of "Suc (length routes)" c' ?l] by (simp del: close_pass.simps)
  have events: "concat (map (visit_events c ?sup) rs) =
      (map closed_event (filter (\<lambda>r. visit_decision c ?sup r = Some True) rs) :: 'p daemon_event list)" for c rs
    by (induction rs) (simp_all add: visit_events_def)
  have vals: "concat (map (\<lambda>e. visit_events c ?sup (snd e)) m) =
      (concat (map (visit_events c ?sup) (om_values m)) :: 'p daemon_event list)"
    for c and m :: "(route_key, closed_event_route) omap"
    by (simp add: comp_def)
  have get: "om_get routes k = Some r \<Longrightarrow> om_get ?routes k = Some (after_visit c ?sup r)" for k r
    by (induction routes) auto
  have again: "close_pass (Suc (length routes)) c' mc me None ?routes ?l = Some (routes'', l'') \<Longrightarrow>
      le_pending l'' = le_pending ?l @ map closed_event
         (filter (\<lambda>r. visit_decision c ?sup r = None \<and> visit_decision c' ?sup r = Some True) (om_values routes))"
    for c' routes'' l''
    unfolding second pass_again events by (auto simp: conj_commute)
  show ?thesis
  proof (intro exI [of _ ?routes] exI [of _ ?l] conjI allI impI)
    show "le_pending ?l = le_pending l @ map closed_event
        (filter (\<lambda>r. visit_decision c ?sup r = Some True) (om_values routes))"
      unfolding vals events by simp
  qed (use first again get in \<open>simp_all add: after_visit_def del: close_pass.simps\<close>)
qed

text \<open>Three routes: one open, one closed by the host, one lost with its worker.\<close>

definition some_routes :: "(route_key, closed_event_route) omap" where
  "some_routes =
     [((''a'', ''s'', 1), \<lparr>er_session_id = ''a'', er_subscription_id = ''s'', er_generation = 1,
         er_handle = OPEN, er_reported = False\<rparr>),
      ((''a'', ''t'', 2), \<lparr>er_session_id = ''a'', er_subscription_id = ''t'', er_generation = 2,
         er_handle = HOST, er_reported = False\<rparr>),
      ((''b'', ''s'', 3), \<lparr>er_session_id = ''b'', er_subscription_id = ''s'', er_generation = 3,
         er_handle = encode_core_reason WorkerLinkFailed, er_reported = False\<rparr>)]"

lemma some_routes_ok: "om_ok some_routes"
  by code_simp

theorem closed_routes_reported_once_witness:
  "om_ok some_routes \<and>
   (\<exists>routes' l'. close_pass 4 (\<lambda>s. Some (s = ''a'')) 1 1 None some_routes closed_event_ledger_new = Some (routes', l') \<and>
      le_pending l' =
        [TerminalSubscriptionClosed ''a'' ''t'' 2 ''host_adapter_closed'' :: nat daemon_event,
         TerminalSubscriptionClosed ''b'' ''s'' 3 ''worker_lost''] \<and>
      map er_reported (om_values routes') = [False, True, True])"
proof -
  let ?c = "\<lambda>s. Some (s = ''a'')" and ?l = "closed_event_ledger_new :: nat closed_event_ledger"
  obtain routes' l' where
    p: "close_pass (Suc (length some_routes)) ?c 1 1 None some_routes ?l = Some (routes', l')"
    and e: "le_pending l' = le_pending ?l @
      map closed_event (filter (\<lambda>r. visit_decision ?c (le_suppress ?l) r = Some True) (om_values some_routes))"
    and k: "om_keys routes' = om_keys some_routes"
    and g: "\<forall>k r. om_get some_routes k = Some r \<longrightarrow>
       om_get routes' k = Some (if visit_decision ?c (le_suppress ?l) r = None then r else r\<lparr>er_reported := True\<rparr>)"
    using closed_routes_reported_once [OF some_routes_ok, of 1 1 ?c ?l] by auto
  have "le_pending l' = [TerminalSubscriptionClosed ''a'' ''t'' 2 ''host_adapter_closed'',
      TerminalSubscriptionClosed ''b'' ''s'' 3 ''worker_lost'']"
    unfolding e by code_simp
  moreover have "om_ok routes'" using some_routes_ok k by (simp add: om_ok_def)
  then have "map er_reported (om_values routes') =
      map (\<lambda>k. er_reported (the (om_get routes' k))) (om_keys routes')"
    by (subst om_as_keys) (simp_all add: comp_def)
  then have "map er_reported (om_values routes') =
      map (\<lambda>k. er_reported (the (om_get routes' k))) (om_keys some_routes)" unfolding k .
  moreover have "\<dots> = [False, True, True]"
    using g by (simp add: some_routes_def visit_decision_def closed_event_ledger_new_def cc_is_closed_def
      cc_core_reason_def decode_core_reason_def close_bytes)
  ultimately show ?thesis using p some_routes_ok by (simp add: some_routes_def numeral_eq_Suc)
qed

section \<open>A turn of the owner phase\<close>

text \<open>
  \<open>mux_turn m m'\<close>: events are only appended, and every close event appended is the one of a route
  that was not reported before and is reported now.
\<close>

definition route_ident :: "closed_event_route \<Rightarrow> route_key" where
  "route_ident r = (er_session_id r, er_subscription_id r, er_generation r)"

fun reports_route :: "route_key \<Rightarrow> 'p daemon_event \<Rightarrow> bool" where
  "reports_route k (TerminalSubscriptionClosed session subscription generation _) \<longleftrightarrow>
     (session, subscription, generation) = k"
| "reports_route k _ \<longleftrightarrow> False"

definition reports_of :: "route_key \<Rightarrow> 'p daemon_event list \<Rightarrow> nat" where
  "reports_of k es = length (filter (reports_route k) es)"

definition reported_flag :: "closed_event_route option \<Rightarrow> nat" where
  "reported_flag r = (case r of None \<Rightarrow> 0 | Some r \<Rightarrow> if er_reported r then 1 else 0)"

definition routes_ok :: "(route_key, closed_event_route) omap \<Rightarrow> bool" where
  "routes_ok routes \<longleftrightarrow> om_ok routes \<and> (\<forall>e \<in> set routes. route_ident (snd e) = fst e)"

definition reports_once ::
  "'p daemon_event list \<Rightarrow> (route_key, closed_event_route) omap \<Rightarrow> (route_key, closed_event_route) omap \<Rightarrow> bool"
where
  "reports_once queued routes routes' \<longleftrightarrow>
     (\<forall>k. reports_of k queued + reported_flag (om_get routes k) \<le> reported_flag (om_get routes' k))"

definition mux_turn :: "'p connection_mux \<Rightarrow> 'p connection_mux \<Rightarrow> bool" where
  "mux_turn m m' \<longleftrightarrow> (routes_ok (cm_routes m) \<longrightarrow>
     routes_ok (cm_routes m') \<and> om_keys (cm_routes m') = om_keys (cm_routes m) \<and>
     (\<exists>queued. le_pending (cm_ledger m') = le_pending (cm_ledger m) @ queued \<and>
        reports_once queued (cm_routes m) (cm_routes m')))"

lemma reports_of_simps [simp]:
  "reports_of k [] = 0" "reports_of k (es @ fs) = reports_of k es + reports_of k fs"
  by (simp_all add: reports_of_def)

lemma classify_closed_once:
  assumes "classify_closed cl suppressed d r = (r', d', es)" and "\<not> er_reported r"
  shows "route_ident r' = route_ident r \<and>
    reports_of k es \<le> (if k = route_ident r \<and> er_reported r' then 1 else 0)"
  using assms
  by (auto simp: classify_closed_def Let_def route_ident_def reports_of_def closed_event_def
      split: if_splits option.splits bool.splits prod.splits)

lemma reported_flag_Some [simp]: "reported_flag (Some r) = (if er_reported r then 1 else 0)"
  "reported_flag None = 0"
  by (simp_all add: reported_flag_def)

lemma om_get_absent: "k \<notin> set (om_keys m) \<Longrightarrow> om_get m k = None"
  by (simp add: map_of_eq_None_iff)

text \<open>One visited route in front of a walk that satisfies the property.\<close>

lemma reports_once_Cons:
  assumes "reports_once q rs rs'" and "key \<notin> set (om_keys rs)" and "om_keys rs' = om_keys rs"
    and "er_reported r \<Longrightarrow> er_reported r'"
    and "\<And>k. reports_of k es \<le> (if k = key \<and> er_reported r' \<and> \<not> er_reported r then 1 else 0)"
  shows "reports_once (es @ q) ((key, r) # rs) ((key, r') # rs')"
  unfolding reports_once_def
proof
  fix k
  have q: "reports_of k q + reported_flag (om_get rs k) \<le> reported_flag (om_get rs' k)"
    using assms(1) unfolding reports_once_def by (rule spec)
  show "reports_of k (es @ q) + reported_flag (om_get ((key, r) # rs) k) \<le> reported_flag (om_get ((key, r') # rs') k)"
  proof (cases "k = key")
    case True
    then have "reports_of k q = 0" using q assms(2,3) om_get_absent [of key rs'] by simp
    then show ?thesis using True assms(4) assms(5) [of k] by (auto split: if_splits)
  next
    case False
    then show ?thesis using q assms(5) [of k] by simp
  qed
qed

lemma close_walk_once:
  "close_walk cl suppressed a d rs = (a', d', q, rs') \<Longrightarrow> routes_ok rs \<Longrightarrow>
   routes_ok rs' \<and> om_keys rs' = om_keys rs \<and> reports_once q rs rs'"
proof (induction rs arbitrary: a d a' d' q rs')
  case Nil
  then show ?case by (simp add: reports_once_def)
next
  case (Cons e rs)
  obtain key r where e: "e = (key, r)" by (cases e)
  have ok: "routes_ok rs" "key \<notin> set (om_keys rs)" "route_ident r = key"
    using Cons.prems(2) by (auto simp: routes_ok_def e om_ok_Cons)
  have built: "routes_ok ((key, r') # ts)" if "route_ident r' = key" "routes_ok ts" "om_keys ts = om_keys rs" for r' ts
    using that Cons.prems(2) by (auto simp: routes_ok_def e om_ok_Cons)
  obtain go b where b: "begin_entry (\<not> er_reported r \<and> cc_is_closed (er_handle r)) a = (go, b)" by fastforce
  show ?case
  proof (cases go)
    case False
    then have "q = []" "rs' = e # rs" using Cons.prems(1) b by (auto simp: e close_walk.simps)
    then show ?thesis using Cons.prems(2) by (simp add: reports_once_def)
  next
    case True
    show ?thesis
    proof (cases "\<not> er_reported r \<and> cc_is_closed (er_handle r)")
      case False
      with Cons.prems(1) b True obtain ts where
        w: "close_walk cl suppressed (slice_visit key b) d rs = (a', d', q, ts)" and rs': "rs' = (key, r) # ts"
        by (auto simp: e close_walk.simps Let_def split: prod.splits)
      note ih = Cons.IH [OF w ok(1)]
      have "reports_once ([] @ q) ((key, r) # rs) ((key, r) # ts)"
        by (rule reports_once_Cons) (use ih ok(2) in auto)
      then show ?thesis using ih built [of r ts] ok(3) by (simp add: rs' e)
    next
      case c: True
      with Cons.prems(1) b True obtain r' d1 es q1 ts where
        k: "classify_closed cl suppressed d r = (r', d1, es)" and
        w: "close_walk cl suppressed (record_classified (slice_visit key b)) d1 rs = (a', d', q1, ts)"
        and q: "q = es @ q1" and rs': "rs' = (key, r') # ts"
        by (auto simp: e close_walk.simps Let_def split: prod.splits)
      note ih = Cons.IH [OF w ok(1)]
      have once: "route_ident r' = key"
        "\<And>k. reports_of k es \<le> (if k = key \<and> er_reported r' \<and> \<not> er_reported r then 1 else 0)"
        using classify_closed_once [OF k] c ok(3) by auto
      have "reports_once (es @ q1) ((key, r) # rs) ((key, r') # ts)"
        by (rule reports_once_Cons) (use ih ok(2) once c in auto)
      then show ?thesis using ih built [of r' ts] once(1) by (simp add: rs' e q)
    qed
  qed
qed

lemma om_split:
  assumes "om_ok m"
  shows "om_upto c m @ om_after c m = m"
proof (cases c)
  case (Some k)
  have "om_ok m \<Longrightarrow> filter (\<lambda>e. fst e \<le> k) m @ filter (\<lambda>e. k < fst e) m = m"
  proof (induction m)
    case (Cons e m)
    show ?case
    proof (cases "fst e \<le> k")
      case False
      then have "\<forall>x \<in> set m. k < fst x" using Cons.prems by (fastforce simp: om_ok_Cons)
      then have "filter (\<lambda>e. fst e \<le> k) m = []" "filter (\<lambda>e. k < fst e) m = m"
        by (auto simp: filter_id_conv filter_empty_conv not_le)
      then show ?thesis using False by simp
    qed (use Cons in \<open>simp add: om_ok_Cons\<close>)
  qed simp
  then show ?thesis using assms Some by (simp add: om_upto_def om_after_def)
qed (simp add: om_upto_def om_after_def)

lemma reports_once_append:
  assumes "reports_once q rs rs'" and "om_keys rs' = om_keys rs" and "distinct (om_keys (before @ rs))"
  shows "reports_once q (before @ rs) (before @ rs')"
  unfolding reports_once_def
proof
  fix k
  have q: "reports_of k q + reported_flag (om_get rs k) \<le> reported_flag (om_get rs' k)"
    using assms(1) unfolding reports_once_def by (rule spec)
  show "reports_of k q + reported_flag (om_get (before @ rs) k) \<le> reported_flag (om_get (before @ rs') k)"
  proof (cases "om_get before k")
    case None
    then show ?thesis using q by (simp add: map_add_def)
  next
    case (Some r)
    then have "k \<notin> set (om_keys rs')" using assms(2,3) om_get_Some_key [OF Some] by auto
    then have none: "om_get rs' k = None" "om_get rs k = None"
      using assms(2) om_get_absent [of k rs'] om_get_absent [of k rs] by simp_all
    then show ?thesis using q Some by (simp add: map_add_def)
  qed
qed

lemma routes_ok_append: "routes_ok (a @ b) \<longleftrightarrow> routes_ok a \<and> routes_ok b \<and>
    (\<forall>x \<in> set (om_keys a). \<forall>y \<in> set (om_keys b). x < y)"
  by (auto simp: routes_ok_def om_ok_def sorted_wrt_append)

lemma mux_queue_closed_turn:
  fixes m :: "'p connection_mux"
  assumes "mux_queue_closed mc after me m d = (progress, m', d')"
  shows "mux_turn m m'"
proof (cases "cm_dying m")
  case True
  let ?f = "\<lambda>(k, r). (k, r\<lparr>er_reported := True\<rparr>) :: route_key \<times> closed_event_route"
  have m': "m' = m\<lparr>cm_routes := map ?f (cm_routes m)\<rparr>"
    using assms True by (simp add: mux_queue_closed_def queue_closed_subscription_events_bounded_def)
  have keys: "om_keys (map ?f rs) = om_keys rs" for rs by (induction rs) auto
  have ids: "\<forall>e \<in> set rs. route_ident (snd e) = fst e \<Longrightarrow> \<forall>e \<in> set (map ?f rs). route_ident (snd e) = fst e" for rs
    by (auto simp: route_ident_def)
  have "reports_once [] rs (map ?f rs)" for rs
    unfolding reports_once_def by (induction rs) (auto simp: reported_flag_def split: option.splits)
  moreover have "routes_ok (cm_routes m) \<Longrightarrow> routes_ok (map ?f (cm_routes m))"
    unfolding routes_ok_def om_ok_def keys using ids by blast
  ultimately show ?thesis using keys by (auto simp: mux_turn_def m' simp del: map_map list.map_comp)
next
  case False
  let ?rs = "cm_routes m"
  obtain a d1 q walked where
    w: "close_walk cd_decision (le_suppress (cm_ledger m)) (close_slice_new mc after me) d (om_after after ?rs) =
      (a, d1, q :: 'p daemon_event list, walked)"
    by (metis prod_cases4)
  have m': "cm_routes m' = om_upto after ?rs @ walked"
    "le_pending (cm_ledger m') = le_pending (cm_ledger m) @ q"
    using assms False w by (auto simp: mux_queue_closed_def queue_closed_subscription_events_bounded_def Let_def)
  show ?thesis
    unfolding mux_turn_def
  proof
    assume ok: "routes_ok ?rs"
    then have split: "om_upto after ?rs @ om_after after ?rs = ?rs" by (simp add: routes_ok_def om_split)
    have parts: "routes_ok (om_upto after ?rs @ om_after after ?rs)" using ok by (simp add: split)
    then have "routes_ok (om_after after ?rs)" by (simp add: routes_ok_append)
    from close_walk_once [OF w this]
    have walk: "routes_ok walked" "om_keys walked = om_keys (om_after after ?rs)" "reports_once q (om_after after ?rs) walked"
      by auto
    have "routes_ok (om_upto after ?rs @ walked)" using parts walk(1,2) by (simp add: routes_ok_append)
    moreover have "distinct (om_keys (om_upto after ?rs @ om_after after ?rs))"
      using parts om_ok_distinct unfolding routes_ok_def by blast
    then have "reports_once q (om_upto after ?rs @ om_after after ?rs) (om_upto after ?rs @ walked)"
      by (rule reports_once_append [OF walk(3,2)])
    moreover have "om_keys (om_upto after ?rs @ walked) = om_keys ?rs"
      using arg_cong [OF split, of om_keys] walk(2) by simp
    ultimately show "routes_ok (cm_routes m') \<and> om_keys (cm_routes m') = om_keys ?rs \<and>
       (\<exists>queued. le_pending (cm_ledger m') = le_pending (cm_ledger m) @ queued \<and> reports_once queued ?rs (cm_routes m'))"
      unfolding m' split by blast
  qed
qed

lemma mux_turn_refl: "mux_turn m m"
  by (auto simp: mux_turn_def reports_once_def)

lemma mux_turn_trans:
  assumes "mux_turn a b" and "mux_turn b c"
  shows "mux_turn a c"
  unfolding mux_turn_def
proof
  assume "routes_ok (cm_routes a)"
  with assms(1) obtain p where p: "routes_ok (cm_routes b)" "om_keys (cm_routes b) = om_keys (cm_routes a)"
    "le_pending (cm_ledger b) = le_pending (cm_ledger a) @ p" "reports_once p (cm_routes a) (cm_routes b)"
    unfolding mux_turn_def by blast
  with assms(2) obtain q where q: "routes_ok (cm_routes c)" "om_keys (cm_routes c) = om_keys (cm_routes b)"
    "le_pending (cm_ledger c) = le_pending (cm_ledger b) @ q" "reports_once q (cm_routes b) (cm_routes c)"
    unfolding mux_turn_def by blast
  have "reports_once (p @ q) (cm_routes a) (cm_routes c)"
    unfolding reports_once_def
  proof
    fix k
    have "reports_of k p + reported_flag (om_get (cm_routes a) k) \<le> reported_flag (om_get (cm_routes b) k)"
      "reports_of k q + reported_flag (om_get (cm_routes b) k) \<le> reported_flag (om_get (cm_routes c) k)"
      using p(4) q(4) unfolding reports_once_def by blast+
    then show "reports_of k (p @ q) + reported_flag (om_get (cm_routes a) k) \<le> reported_flag (om_get (cm_routes c) k)"
      by simp
  qed
  with p q show "routes_ok (cm_routes c) \<and> om_keys (cm_routes c) = om_keys (cm_routes a) \<and>
     (\<exists>queued. le_pending (cm_ledger c) = le_pending (cm_ledger a) @ queued \<and> reports_once queued (cm_routes a) (cm_routes c))"
    by auto
qed

definition admissions_turn :: "(string, 'p terminal_admission) omap \<Rightarrow> (string, 'p terminal_admission) omap \<Rightarrow> bool" where
  "admissions_turn ad ad' \<longleftrightarrow>
     (\<forall>k m. om_get ad k = Some (Admitted m) \<longrightarrow> (\<exists>m'. om_get ad' k = Some (Admitted m') \<and> mux_turn m m'))"

lemma admissions_turn_refl: "admissions_turn ad ad"
  by (auto simp: admissions_turn_def intro: mux_turn_refl)

lemma admissions_turn_trans: "admissions_turn a b \<Longrightarrow> admissions_turn b c \<Longrightarrow> admissions_turn a c"
  unfolding admissions_turn_def by (meson mux_turn_trans)

lemma visit_admission_turn:
  assumes "visit_admission remaining after_route key ad d = (progress, ad', d')"
  shows "admissions_turn ad ad'"
proof (cases "om_get ad key")
  case (Some adm)
  show ?thesis
  proof (cases adm)
    case (Admitted m)
    obtain p m1 d1 where m1: "mux_queue_closed remaining after_route PUMP_MAX_ROUTE_ENTRIES_VISITED m d = (p, m1, d1)"
      by (metis prod_cases3)
    have "ad' = om_modify key (\<lambda>_. Admitted m1) ad" using assms Some Admitted m1 by (simp add: visit_admission_def)
    then show ?thesis using Some Admitted mux_queue_closed_turn [OF m1]
      by (auto simp: admissions_turn_def intro: mux_turn_refl)
  qed (use assms Some in \<open>simp add: visit_admission_def admissions_turn_refl\<close>)
qed (use assms in \<open>simp add: visit_admission_def admissions_turn_refl\<close>)

definition phase_turn :: "'p close_phase \<Rightarrow> 'p close_phase \<Rightarrow> bool" where
  "phase_turn s s' \<longleftrightarrow> admissions_turn (cp_unix_admissions s) (cp_unix_admissions s') \<and>
     admissions_turn (cp_webrtc_admissions s) (cp_webrtc_admissions s')"

lemma phase_turn_refl: "phase_turn s s"
  by (simp add: phase_turn_def admissions_turn_refl)

lemma phase_turn_trans: "phase_turn a b \<Longrightarrow> phase_turn b c \<Longrightarrow> phase_turn a c"
  unfolding phase_turn_def using admissions_turn_trans by blast

lemma phase_turn_fields [simp]:
  "phase_turn (s\<lparr>cp_cursor := c\<rparr>) t \<longleftrightarrow> phase_turn s t"
  "phase_turn s (t\<lparr>cp_cursor := c\<rparr>) \<longleftrightarrow> phase_turn s t"
  "phase_turn (s\<lparr>cp_decisions := d\<rparr>) t \<longleftrightarrow> phase_turn s t"
  "phase_turn s (t\<lparr>cp_decisions := d\<rparr>) \<longleftrightarrow> phase_turn s t"
  by (simp_all add: phase_turn_def)

lemma phase_turn_visit:
  assumes "visit_admission remaining route key ad d = (progress, ad', d')"
  shows "cp_unix_admissions s = ad \<Longrightarrow> phase_turn s (s\<lparr>cp_unix_admissions := ad', cp_decisions := e\<rparr>)"
    and "cp_webrtc_admissions s = ad \<Longrightarrow> phase_turn s (s\<lparr>cp_webrtc_admissions := ad', cp_decisions := e\<rparr>)"
  using visit_admission_turn [OF assms] by (simp_all add: phase_turn_def admissions_turn_refl)

lemma close_loop_turn: "phase_turn s (snd (close_loop visited classified s))"
proof (induction visited classified s rule: close_loop.induct)
  case (1 visited classified s)
  let ?rem = "saturating_sub PUMP_MAX_CANDIDATE_CLASSIFICATIONS classified"
  show ?case
  proof (cases "PUMP_MAX_ADMISSIONS_VISITED \<le> visited \<or> PUMP_MAX_CANDIDATE_CLASSIFICATIONS \<le> classified")
    case True
    then show ?thesis by (subst close_loop.simps) (simp add: phase_turn_refl)
  next
    case room: False
    show ?thesis
    proof (cases "cp_cursor s")
      case c: (CursorUnix after after_route)
      show ?thesis
      proof (cases "om_next (cp_unix_admissions s) after")
        case None
        then show ?thesis using room c 1(1) [OF room refl c None] by (subst close_loop.simps) simp
      next
        case (Some key)
        obtain progress ad d asked d' where
          v: "visit_admission ?rem after_route key (cp_unix_admissions s) (cp_decisions s) = (progress, ad, d)"
          and r: "cd_request_missing d = (asked, d')"
          by (metis prod.collapse)
        note one = phase_turn_visit(1) [OF v refl, of d']
        show ?thesis
          using room c Some v r one 1(2) [OF room refl c Some v [symmetric] refl refl r [symmetric] refl refl]
          by (subst close_loop.simps) (auto simp: Let_def split: option.splits intro: phase_turn_trans)
      qed
    next
      case c: (CursorWebrtc after after_route)
      show ?thesis
      proof (cases "om_next (cp_webrtc_admissions s) after")
        case None
        then show ?thesis using room c by (subst close_loop.simps) (simp add: phase_turn_refl)
      next
        case (Some key)
        obtain progress ad d asked d' where
          v: "visit_admission ?rem after_route key (cp_webrtc_admissions s) (cp_decisions s) = (progress, ad, d)"
          and r: "cd_request_missing d = (asked, d')"
          by (metis prod.collapse)
        note one = phase_turn_visit(2) [OF v refl, of d']
        show ?thesis
          using room c Some v r one 1(3) [OF room refl c Some v [symmetric] refl refl r [symmetric] refl refl]
          by (subst close_loop.simps) (auto simp: Let_def split: option.splits intro: phase_turn_trans)
      qed
    qed
  qed
qed

type_synonym close_turn = "bool \<times> core_ticket_poll \<times> (string \<Rightarrow> registry_lookup)"

definition close_turn_exec :: "close_turn \<Rightarrow> 'p close_phase \<Rightarrow> 'p close_phase option" where
  "close_turn_exec t s = (case t of (has_runtime, poll, lookup) \<Rightarrow> Some (snd (run_close_events_phase has_runtime poll lookup s)))"

lemma close_turn_exec_turn: "close_turn_exec t s = Some s' \<Longrightarrow> phase_turn s s'"
  by (auto simp: close_turn_exec_def run_close_events_phase_def phase_turn_refl Let_def split: prod.splits if_splits)
    (metis close_loop_turn phase_turn_fields(3) snd_conv)+

text \<open>C21. No close is reported twice.  However many turns the owner phase takes, whatever the registry
  answers and whenever it answers, on every connection the pending events only grow at the end,
  no route appears or disappears, a reported route stays reported, and a close event for a
  route is appended at most once, only if the route was not reported when the turns began, and
  then it is reported when they end.\<close>

theorem closes_queued_at_most_once:
  assumes "run_events close_turn_exec turns s = Some s'"
    and "side = cp_unix_admissions \<or> side = cp_webrtc_admissions"
    and "om_get (side s) connection = Some (Admitted m)" and "routes_ok (cm_routes m)"
  shows "\<exists>m' queued. om_get (side s') connection = Some (Admitted m') \<and>
    le_pending (cm_ledger m') = le_pending (cm_ledger m) @ queued \<and>
    om_keys (cm_routes m') = om_keys (cm_routes m) \<and>
    (\<forall>k r. om_get (cm_routes m) k = Some r \<longrightarrow>
       (\<exists>r'. om_get (cm_routes m') k = Some r' \<and> (er_reported r \<longrightarrow> er_reported r' \<and> reports_of k queued = 0) \<and>
          reports_of k queued \<le> (if er_reported r' then 1 else 0)))"
proof -
  have "phase_turn s s'"
    by (rule run_events_guarded [OF assms(1), of "phase_turn s"])
      (auto intro: phase_turn_refl phase_turn_trans close_turn_exec_turn)
  then have "admissions_turn (side s) (side s')" using assms(2) by (auto simp: phase_turn_def)
  then obtain m' where m': "om_get (side s') connection = Some (Admitted m')" "mux_turn m m'"
    using assms(3) unfolding admissions_turn_def by blast
  then obtain q where q: "om_keys (cm_routes m') = om_keys (cm_routes m)"
    "le_pending (cm_ledger m') = le_pending (cm_ledger m) @ q" "reports_once q (cm_routes m) (cm_routes m')"
    using assms(4) unfolding mux_turn_def by blast
  have "\<exists>r'. om_get (cm_routes m') k = Some r' \<and> (er_reported r \<longrightarrow> er_reported r' \<and> reports_of k q = 0) \<and>
      reports_of k q \<le> (if er_reported r' then 1 else 0)"
    if r: "om_get (cm_routes m) k = Some r" for k r
  proof -
    have "k \<in> set (om_keys (cm_routes m'))" using om_get_Some_key [OF r] q(1) by simp
    then obtain r' where "om_get (cm_routes m') k = Some r'"
      by (metis map_of_eq_None_iff not_None_eq list.set_map)
    moreover have "reports_of k q + reported_flag (om_get (cm_routes m) k) \<le> reported_flag (om_get (cm_routes m') k)"
      using q(3) unfolding reports_once_def by (rule spec)
    ultimately show ?thesis using r by (auto split: if_splits)
  qed
  then show ?thesis using m' q by blast
qed

definition some_phase :: "nat close_phase" where
  "some_phase =
     \<lparr>cp_unix_admissions = [(''c'', Admitted \<lparr>cm_routes = some_routes, cm_ledger = closed_event_ledger_new,
        cm_dying = False, cm_wakes = 0\<rparr>)],
      cp_webrtc_admissions = [], cp_cursor = pump_admission_cursor_default, cp_decisions = close_event_decisions_new\<rparr>"

definition some_turns :: "close_turn list" where
  "some_turns = [(True, TicketPending, \<lambda>_. FoundRunning), (True, TicketPending, \<lambda>_. FoundRunning),
     (True, TicketReady, \<lambda>_. FoundRunning), (True, TicketPending, \<lambda>_. FoundRunning)]"

definition some_pending :: "nat close_phase \<Rightarrow> nat daemon_event list option" where
  "some_pending s = (case om_get (cp_unix_admissions s) ''c'' of Some (Admitted m) \<Rightarrow> Some (le_pending (cm_ledger m)) | _ \<Rightarrow> None)"

theorem closes_queued_at_most_once_witness:
  "\<exists>s' queued. run_events close_turn_exec some_turns some_phase = Some s' \<and>
     some_pending s' = Some queued \<and> length queued = 2 \<and> reports_of (''a'', ''t'', 2) queued \<le> 1 \<and>
     reports_of (''b'', ''s'', 3) queued \<le> 1"
proof -
  obtain s' where s': "run_events close_turn_exec some_turns some_phase = Some s'"
    by (simp add: some_turns_def close_turn_exec_def)
  have m: "om_get (cp_unix_admissions some_phase) ''c'' =
      Some (Admitted \<lparr>cm_routes = some_routes, cm_ledger = closed_event_ledger_new, cm_dying = False, cm_wakes = 0\<rparr>)"
    by (simp add: some_phase_def)
  have ok: "routes_ok some_routes" by code_simp
  have two: "map_option (\<lambda>s. map_option length (some_pending s)) (run_events close_turn_exec some_turns some_phase) = Some (Some 2)"
    by code_simp
  have get: "om_get some_routes (''a'', ''t'', 2) \<noteq> None" "om_get some_routes (''b'', ''s'', 3) \<noteq> None"
    by (simp_all add: some_routes_def)
  note turns = closes_queued_at_most_once [OF s' disjI1 [OF refl] m, simplified connection_mux.simps
    closed_event_ledger_new_def closed_event_ledger.simps append_Nil, OF ok]
  then obtain m' queued where m': "om_get (cp_unix_admissions s') ''c'' = Some (Admitted m')"
    "le_pending (cm_ledger m') = queued"
    and all: "\<forall>k r. om_get some_routes k = Some r \<longrightarrow>
      (\<exists>r'. om_get (cm_routes m') k = Some r' \<and> (er_reported r \<longrightarrow> er_reported r' \<and> reports_of k queued = 0) \<and>
         reports_of k queued \<le> (if er_reported r' then 1 else 0))"
    by (elim exE conjE)
  have le: "reports_of k queued \<le> 1" if "om_get some_routes k \<noteq> None" for k
  proof -
    from that obtain r where r: "om_get some_routes k = Some r" by blast
    from all [rule_format, OF r] obtain r' :: closed_event_route where "reports_of k queued \<le> (if er_reported r' then 1 else 0)"
      by (elim exE conjE)
    then show ?thesis by (simp split: if_splits)
  qed
  show ?thesis using s' m' two le [OF get(1)] le [OF get(2)] by (auto simp: some_pending_def)
qed

end
