(* ===== verification/Event_Mailbox.thy ===== *)
theory Event_Mailbox
  imports Closed_Events
begin

text \<open>
  \<open>subscription/package_events.rs\<close>: the package-event subscriptions of one client connection.  Every
  subscription has a bounded mailbox with a gap bit, all mailboxes of a connection share a pool
  that keeps a reserve for each subscription, and the connection admits, retires and reclaims
  the slots.

  The mailbox locks are only tried, and a flag of the call says whether another thread holds
  the lock then.  The package event router is not modelled: its answers to a registration are
  arguments, and \<open>deliver_to_holder\<close> is the call it makes per matching holder.  A mailbox is
  always created with its connection's pool.  Hash maps are kept sorted: apart from the search
  for a gap bit, where a mailbox has at most one slot, they are only looked up and summed.
\<close>

section \<open>State\<close>

definition MAX_SUBJECTS_PER_SUBSCRIPTION :: usize where "MAX_SUBJECTS_PER_SUBSCRIPTION = 16"
definition MAX_SUBJECT_UTF8_BYTES :: usize where "MAX_SUBJECT_UTF8_BYTES = 256"
definition MAX_SUBJECT_AGGREGATE_BYTES :: usize where "MAX_SUBJECT_AGGREGATE_BYTES = 4096"
definition MAX_SUBSCRIPTIONS_PER_CONNECTION :: usize where "MAX_SUBSCRIPTIONS_PER_CONNECTION = 64"
definition CONNECTION_EVENT_MAX :: usize where "CONNECTION_EVENT_MAX = 128"
definition CONNECTION_BYTE_MAX :: usize where "CONNECTION_BYTE_MAX = 2 * 1024 * 1024"
definition SUBSCRIPTION_EVENT_RESERVE :: usize where "SUBSCRIPTION_EVENT_RESERVE = 4"
definition SUBSCRIPTION_BYTE_RESERVE :: usize where "SUBSCRIPTION_BYTE_RESERVE = 65536"

definition GLOB_CHARS :: "char list" where "GLOB_CHARS = ''*?[]{}''"

lemmas mailbox_consts = CONNECTION_EVENT_MAX_def CONNECTION_BYTE_MAX_def SUBSCRIPTION_EVENT_RESERVE_def
  SUBSCRIPTION_BYTE_RESERVE_def MAX_SUBSCRIPTIONS_PER_CONNECTION_def

datatype event_plane_status =
    Accepted | RejectedUndeclared | RejectedForeign | RejectedInvalid | RejectedOversize
  | RejectedOverRate | RejectedOverFanout | RejectedWildcard | RejectedCausalScope
  | RejectedAudience | ShedFull | ShedBusy

datatype client_event_admit_error =
    EmptySubject | WildcardSubject | DuplicateSubject | TooManySubjects | SubjectTooLong
  | AggregateTooLarge | TooManySubscriptions | DuplicateSubscription | UnknownSubscription
  | NotNegotiated | ConnectionCapacity | RouterRefused event_plane_status

datatype admit_refusal = RefusedError client_event_admit_error | RefusedBusy

text \<open>The limits of the event plane that a mailbox takes over.\<close>

record package_event_plane_policy =
  pp_consumer_queue_max_events :: usize
  pp_consumer_queue_max_bytes :: usize
  pp_queue_age :: nat

record 'p queued_client_event =
  qe_subscription_id :: string
  qe_owner :: string
  qe_name :: string
  qe_payload :: 'p
  qe_enqueued_at :: nat
  qe_size :: usize

record client_gap_slot =
  gs_owner :: string
  gs_name :: string
  gs_bit :: bool

text \<open>\<open>mb_wakes\<close> counts the calls of \<open>signal_wake\<close>.\<close>

record 'p client_event_mailbox =
  mb_events :: "'p queued_client_event list"
  mb_bytes :: usize
  mb_slots :: "(string, client_gap_slot) omap"
  mb_wake_bit :: bool
  mb_wakes :: nat
  mb_retired :: bool
  mb_event_max :: usize
  mb_byte_max :: usize
  mb_queue_age :: nat
  mb_subscription_id :: string

record connection_residency =
  rs_events :: usize
  rs_bytes :: usize
  rs_subscriptions :: "(string, usize \<times> usize) omap"

definition mailbox_with_pool :: "package_event_plane_policy \<Rightarrow> string \<Rightarrow> 'p client_event_mailbox" where
  "mailbox_with_pool policy subscription_id =
     \<lparr>mb_events = [], mb_bytes = 0, mb_slots = [], mb_wake_bit = False, mb_wakes = 0, mb_retired = False,
      mb_event_max = pp_consumer_queue_max_events policy, mb_byte_max = pp_consumer_queue_max_bytes policy,
      mb_queue_age = pp_queue_age policy, mb_subscription_id = subscription_id\<rparr>"

section \<open>The mailbox\<close>

definition signal_wake :: "'p client_event_mailbox \<Rightarrow> 'p client_event_mailbox" where
  "signal_wake m = m\<lparr>mb_wake_bit := True, mb_wakes := mb_wakes m + 1\<rparr>"

definition take_wake :: "'p client_event_mailbox \<Rightarrow> bool \<times> 'p client_event_mailbox" where
  "take_wake m = (mb_wake_bit m, m\<lparr>mb_wake_bit := False\<rparr>)"

definition is_retired :: "bool \<Rightarrow> 'p client_event_mailbox \<Rightarrow> bool" where
  "is_retired closing m \<longleftrightarrow> mb_retired m \<or> closing"

definition mb_retire :: "'p client_event_mailbox \<Rightarrow> 'p client_event_mailbox" where
  "mb_retire m = signal_wake (m\<lparr>mb_retired := True\<rparr>)"

definition mark_gap :: "bool \<Rightarrow> string \<Rightarrow> string \<Rightarrow> string \<Rightarrow> 'p client_event_mailbox \<Rightarrow> 'p client_event_mailbox" where
  "mark_gap slots_held subscription_id owner name m =
     signal_wake
       (if slots_held then m
        else
          let slot = (case om_get (mb_slots m) subscription_id of
                        None \<Rightarrow> \<lparr>gs_owner = owner, gs_name = name, gs_bit = False\<rparr>
                      | Some slot \<Rightarrow> slot)
          in m\<lparr>mb_slots := om_insert subscription_id (slot\<lparr>gs_bit := True\<rparr>) (mb_slots m)\<rparr>)"

definition register_gap_slot ::
  "bool \<Rightarrow> string \<Rightarrow> string \<Rightarrow> string \<Rightarrow> 'p client_event_mailbox \<Rightarrow>
   (event_plane_status + unit) \<times> 'p client_event_mailbox"
where
  "register_gap_slot slots_held subscription_id owner name m =
     (if slots_held then (Inl ShedBusy, m)
      else (Inr (), m\<lparr>mb_slots := om_insert subscription_id
              \<lparr>gs_owner = owner, gs_name = name, gs_bit = False\<rparr> (mb_slots m)\<rparr>))"

text \<open>What the reserves of the other subscriptions still hold back.\<close>

definition protected_events :: "string \<Rightarrow> connection_residency \<Rightarrow> usize" where
  "protected_events subscription_id r =
     sum_list (map (\<lambda>e. saturating_sub SUBSCRIPTION_EVENT_RESERVE (fst (snd e)))
       (filter (\<lambda>e. fst e \<noteq> subscription_id) (rs_subscriptions r)))"

definition protected_bytes :: "string \<Rightarrow> connection_residency \<Rightarrow> usize" where
  "protected_bytes subscription_id r =
     sum_list (map (\<lambda>e. saturating_sub SUBSCRIPTION_BYTE_RESERVE (snd (snd e)))
       (filter (\<lambda>e. fst e \<noteq> subscription_id) (rs_subscriptions r)))"

definition connection_full :: "string \<Rightarrow> usize \<Rightarrow> connection_residency \<Rightarrow> bool" where
  "connection_full subscription_id sz r \<longleftrightarrow>
     saturating_sub CONNECTION_EVENT_MAX (protected_events subscription_id r) < rs_events r + 1 \<or>
     saturating_sub CONNECTION_BYTE_MAX (protected_bytes subscription_id r) < rs_bytes r + sz"

definition residency_charge :: "string \<Rightarrow> usize \<Rightarrow> connection_residency \<Rightarrow> connection_residency" where
  "residency_charge subscription_id sz r =
     r\<lparr>rs_events := rs_events r + 1, rs_bytes := rs_bytes r + sz,
       rs_subscriptions := om_modify subscription_id (\<lambda>(events, bytes). (events + 1, bytes + sz)) (rs_subscriptions r)\<rparr>"

definition residency_release :: "string \<Rightarrow> usize \<Rightarrow> connection_residency \<Rightarrow> connection_residency" where
  "residency_release subscription_id sz r =
     r\<lparr>rs_events := saturating_sub (rs_events r) 1, rs_bytes := saturating_sub (rs_bytes r) sz,
       rs_subscriptions := om_modify subscription_id
         (\<lambda>(events, bytes). (saturating_sub events 1, saturating_sub bytes sz)) (rs_subscriptions r)\<rparr>"

record lock_state =
  lk_inner :: bool
  lk_pool :: bool
  lk_slots :: bool

definition try_push ::
  "lock_state \<Rightarrow> bool \<Rightarrow> string \<Rightarrow> string \<Rightarrow> string \<Rightarrow> 'p \<Rightarrow> usize \<Rightarrow> nat \<Rightarrow>
   'p client_event_mailbox \<Rightarrow> connection_residency \<Rightarrow>
   (event_plane_status + unit) \<times> 'p client_event_mailbox \<times> connection_residency"
where
  "try_push locks closing subscription_id owner name payload sz now m r =
     (if lk_inner locks then (Inl ShedBusy, m, r)
      else if is_retired closing m then (Inl RejectedInvalid, m, r)
      else if lk_pool locks then (Inl ShedBusy, m, r)
      else if connection_full (mb_subscription_id m) sz r then
        (Inl ShedFull, mark_gap (lk_slots locks) subscription_id owner name m, r)
      else if mb_event_max m < length (mb_events m) + 1 \<or> mb_byte_max m < mb_bytes m + sz then
        (Inl ShedFull, mark_gap (lk_slots locks) subscription_id owner name m, r)
      else
        (Inr (),
         signal_wake (m\<lparr>mb_bytes := mb_bytes m + sz,
           mb_events := mb_events m @
             [\<lparr>qe_subscription_id = subscription_id, qe_owner = owner, qe_name = name, qe_payload = payload,
               qe_enqueued_at = now, qe_size = sz\<rparr>]\<rparr>),
         residency_charge (mb_subscription_id m) sz r))"

text \<open>
  The router's call for one holder: a refused push sets the bit of the registered gap slot
  directly, and marks the gap again through the mailbox.
\<close>

definition deliver_to_holder ::
  "lock_state \<Rightarrow> bool \<Rightarrow> bool \<Rightarrow> string \<Rightarrow> string \<Rightarrow> string \<Rightarrow> 'p \<Rightarrow> usize \<Rightarrow> nat \<Rightarrow>
   'p client_event_mailbox \<Rightarrow> connection_residency \<Rightarrow>
   (event_plane_status + unit) \<times> 'p client_event_mailbox \<times> connection_residency"
where
  "deliver_to_holder locks slots_held closing subscription_id owner name payload sz now m r =
     (case try_push locks closing subscription_id owner name payload sz now m r of
        (Inr u, m, r) \<Rightarrow> (Inr u, m, r)
      | (Inl status, m, r) \<Rightarrow>
          (Inl status,
           mark_gap slots_held subscription_id owner name
             (m\<lparr>mb_slots := om_modify subscription_id (gs_bit_update (\<lambda>_. True)) (mb_slots m)\<rparr>), r))"

definition has_ready_event :: "bool \<Rightarrow> bool \<Rightarrow> 'p client_event_mailbox \<Rightarrow> bool" where
  "has_ready_event slots_held inner_held m \<longleftrightarrow>
     slots_held \<or> list_ex (\<lambda>e. gs_bit (snd e)) (mb_slots m) \<or> (\<not> inner_held \<and> mb_events m \<noteq> [])"

definition take_gap :: "bool \<Rightarrow> 'p client_event_mailbox \<Rightarrow> 'p daemon_event option \<times> 'p client_event_mailbox" where
  "take_gap slots_held m =
     (if slots_held then (None, m)
      else case find (\<lambda>e. gs_bit (snd e)) (mb_slots m) of
        None \<Rightarrow> (None, m)
      | Some (subscription_id, slot) \<Rightarrow>
          (Some (EventGap subscription_id (gs_owner slot) (gs_name slot)),
           m\<lparr>mb_slots := om_modify subscription_id (gs_bit_update (\<lambda>_. False)) (mb_slots m)\<rparr>))"

text \<open>
  What a take meets: the locks, whether the gap slots are held when an expired event is
  marked, and the clock.  The call repeats itself after an expired event, so it meets one of
  these per repetition.
\<close>

record take_view =
  tv_locks :: lock_state
  tv_mark_held :: bool
  tv_now :: nat

function take_ready_event ::
  "(nat \<Rightarrow> take_view) \<Rightarrow> nat \<Rightarrow> bool \<Rightarrow> 'p client_event_mailbox \<Rightarrow> connection_residency \<Rightarrow>
   'p daemon_event option \<times> 'p client_event_mailbox \<times> connection_residency"
where
  "take_ready_event view n closing m r =
     (if is_retired closing m then (None, m, r)
      else
        let locks = tv_locks (view n)
        in case take_gap (lk_slots locks) m of
             (Some event, m') \<Rightarrow> (Some event, m', r)
           | (None, _) \<Rightarrow>
               if lk_inner locks \<or> lk_pool locks then (None, m, r)
               else case mb_events m of
                 [] \<Rightarrow> (None, m, r)
               | queued # rest \<Rightarrow>
                   let m' = m\<lparr>mb_events := rest, mb_bytes := saturating_sub (mb_bytes m) (qe_size queued)\<rparr>;
                       r' = residency_release (mb_subscription_id m) (qe_size queued) r
                   in if mb_queue_age m < saturating_sub (tv_now (view n)) (qe_enqueued_at queued) then
                        take_ready_event view (n + 1) closing
                          (mark_gap (tv_mark_held (view n)) (qe_subscription_id queued) (qe_owner queued) (qe_name queued) m') r'
                      else
                        (Some (PackageEvent (qe_subscription_id queued) (qe_owner queued) (qe_name queued) (qe_payload queued)),
                         m', r'))"
  by auto

termination
  by (relation "measure (\<lambda>(_, _, _, m, _). length (mb_events m))")
    (auto simp: mark_gap_def signal_wake_def Let_def)

declare take_ready_event.simps [simp del]

definition mb_reclaim ::
  "'p client_event_mailbox \<Rightarrow> connection_residency \<Rightarrow> 'p client_event_mailbox \<times> connection_residency"
where
  "mb_reclaim m r =
     ((mb_retire m)\<lparr>mb_events := [], mb_bytes := 0, mb_slots := []\<rparr>,
      r\<lparr>rs_events := saturating_sub (rs_events r) (length (mb_events m)),
        rs_bytes := saturating_sub (rs_bytes r) (mb_bytes m),
        rs_subscriptions := om_remove (mb_subscription_id m) (rs_subscriptions r)\<rparr>)"

section \<open>Subjects\<close>

fun compile_subjects_from :: "string oset \<Rightarrow> usize \<Rightarrow> string list \<Rightarrow> client_event_admit_error + string oset" where
  "compile_subjects_from compiled aggregate [] = Inr compiled"
| "compile_subjects_from compiled aggregate (subject # subjects) =
     (if subject = [] then Inl EmptySubject
      else if list_ex (\<lambda>ch. ch \<in> set GLOB_CHARS) subject then Inl WildcardSubject
      else if MAX_SUBJECT_UTF8_BYTES < length subject then Inl SubjectTooLong
      else
        let aggregate = saturating_add aggregate (length subject)
        in if MAX_SUBJECT_AGGREGATE_BYTES < aggregate then Inl AggregateTooLarge
           else if subject \<in> set compiled then Inl DuplicateSubject
           else compile_subjects_from (os_insert subject compiled) aggregate subjects)"

definition compile_subjects :: "string list \<Rightarrow> client_event_admit_error + string oset" where
  "compile_subjects subjects =
     (if MAX_SUBJECTS_PER_SUBSCRIPTION < length subjects then Inl TooManySubjects
      else compile_subjects_from [] 0 subjects)"

section \<open>The connection\<close>

record 'p client_event_slot =
  sl_mailbox :: "'p client_event_mailbox"
  sl_active :: bool

record 'p client_event_connection =
  ec_pool :: connection_residency
  ec_slots :: "(string, 'p client_event_slot) omap"
  ec_reader_bound :: bool
  ec_reader_wake :: bool
  ec_closing :: bool
  ec_fully_reclaimed :: bool
  ec_requested :: bool
  ec_faulted :: bool

definition client_event_connection_new :: "'p client_event_connection" where
  "client_event_connection_new =
     \<lparr>ec_pool = \<lparr>rs_events = 0, rs_bytes = 0, rs_subscriptions = []\<rparr>, ec_slots = [],
      ec_reader_bound = False, ec_reader_wake = False, ec_closing = False, ec_fully_reclaimed = False,
      ec_requested = False, ec_faulted = False\<rparr>"

definition admit_connection ::
  "string \<Rightarrow> (string, 'p client_event_connection) omap \<Rightarrow>
   'p client_event_connection \<times> (string, 'p client_event_connection) omap"
where
  "admit_connection connection_id connections =
     (case om_get connections connection_id of
        Some connection \<Rightarrow> (connection, connections)
      | None \<Rightarrow> (client_event_connection_new, om_insert connection_id client_event_connection_new connections))"

definition bind_reader :: "'p client_event_connection \<Rightarrow> 'p client_event_connection" where
  "bind_reader c = (if ec_reader_bound c then c else c\<lparr>ec_reader_bound := True, ec_reader_wake := True\<rparr>)"

text \<open>
  A mailbox reaches its connection through a weak handle: every \<open>signal_wake\<close> wakes the bound
  reader too.
\<close>

definition put_mailbox ::
  "string \<Rightarrow> 'p client_event_mailbox \<Rightarrow> connection_residency \<Rightarrow> 'p client_event_connection \<Rightarrow> 'p client_event_connection"
where
  "put_mailbox subscription_id m r c =
     (case om_get (ec_slots c) subscription_id of
        None \<Rightarrow> c
      | Some slot \<Rightarrow>
          c\<lparr>ec_pool := r, ec_slots := om_insert subscription_id (slot\<lparr>sl_mailbox := m\<rparr>) (ec_slots c),
            ec_reader_wake := ec_reader_wake c \<or> (ec_reader_bound c \<and> mb_wakes (sl_mailbox slot) < mb_wakes m)\<rparr>)"

definition request_cleanup :: "'p client_event_connection \<Rightarrow> 'p client_event_connection" where
  "request_cleanup c = (if ec_fully_reclaimed c then c else c\<lparr>ec_requested := True\<rparr>)"

definition ec_close :: "'p client_event_connection \<Rightarrow> 'p client_event_connection" where
  "ec_close c = request_cleanup (c\<lparr>ec_closing := True\<rparr>)"

definition cleanup_requested :: "'p client_event_connection \<Rightarrow> bool" where
  "cleanup_requested c \<longleftrightarrow> ec_requested c \<and> \<not> ec_faulted c \<and> \<not> ec_fully_reclaimed c"

definition retain_fault :: "'p client_event_connection \<Rightarrow> 'p client_event_connection" where
  "retain_fault c = c\<lparr>ec_faulted := True\<rparr>"

definition slot_serves :: "bool \<Rightarrow> 'p client_event_slot \<Rightarrow> bool" where
  "slot_serves closing slot \<longleftrightarrow> sl_active slot \<and> \<not> is_retired closing (sl_mailbox slot)"

text \<open>
  The mailbox the reader serves next: the first one with something ready, else the first one.
  \<open>held\<close> tells which gap slots and which queues are locked by others.
\<close>

definition ec_mailbox :: "(string \<Rightarrow> bool \<times> bool) \<Rightarrow> 'p client_event_connection \<Rightarrow> string option" where
  "ec_mailbox held c =
     (let serving = filter (\<lambda>e. slot_serves (ec_closing c) (snd e)) (ec_slots c)
      in case find (\<lambda>e. has_ready_event (fst (held (fst e))) (snd (held (fst e))) (sl_mailbox (snd e))) serving of
           Some e \<Rightarrow> Some (fst e)
         | None \<Rightarrow> (case serving of [] \<Rightarrow> None | e # _ \<Rightarrow> Some (fst e)))"

section \<open>Subscribing\<close>

text \<open>The router's two answers to the registration, and whether its lock is poisoned after each.\<close>

record router_view =
  rv_first :: event_plane_status
  rv_first_poisoned :: bool
  rv_second :: event_plane_status
  rv_second_poisoned :: bool

datatype subscribe_progress = SubscribeDone | SubscribeRouterBusy

definition abandon :: "string \<Rightarrow> 'p client_event_connection \<Rightarrow> 'p client_event_connection" where
  "abandon subscription_id c =
     request_cleanup
       (case om_get (ec_slots c) subscription_id of
          None \<Rightarrow> c
        | Some slot \<Rightarrow> put_mailbox subscription_id (mb_retire (sl_mailbox slot)) (ec_pool c) c)"

definition subscribe_resume ::
  "router_view \<Rightarrow> string \<Rightarrow> 'p client_event_connection \<Rightarrow>
   (admit_refusal + subscribe_progress) \<times> 'p client_event_connection"
where
  "subscribe_resume router subscription_id c =
     (if ec_closing c \<or> ec_faulted c then
        (Inl (RefusedError (RouterRefused RejectedInvalid)), abandon subscription_id c)
      else if rv_first router = ShedBusy \<and> \<not> rv_first_poisoned router \<and>
              rv_second router = ShedBusy \<and> \<not> rv_second_poisoned router then
        (Inr SubscribeRouterBusy, c)
      else
        let status = (if rv_first router = ShedBusy \<and> \<not> rv_first_poisoned router then rv_second router
                      else rv_first router)
        in if status = Accepted then
             (Inr SubscribeDone,
              c\<lparr>ec_slots := om_modify subscription_id (sl_active_update (\<lambda>_. True)) (ec_slots c)\<rparr>)
           else if status = ShedBusy then
             (Inl (RefusedError (RouterRefused RejectedInvalid)), abandon subscription_id c)
           else (Inl (RefusedError (RouterRefused status)), abandon subscription_id c))"

text \<open>The provisional slot, with its residency and its gap slot.\<close>

definition provisional_slot ::
  "package_event_plane_policy \<Rightarrow> string \<Rightarrow> 'p client_event_connection \<Rightarrow> 'p client_event_connection"
where
  "provisional_slot policy subscription_id c =
     c\<lparr>ec_slots := om_insert subscription_id
          \<lparr>sl_mailbox = mailbox_with_pool policy subscription_id, sl_active = False\<rparr> (ec_slots c),
       ec_pool := (ec_pool c)\<lparr>rs_subscriptions := om_insert subscription_id (0, 0) (rs_subscriptions (ec_pool c))\<rparr>\<rparr>"

definition subscribe_mailbox ::
  "bool \<Rightarrow> bool \<Rightarrow> bool \<Rightarrow> router_view \<Rightarrow> string \<Rightarrow> string \<Rightarrow> string \<Rightarrow> string list \<Rightarrow> package_event_plane_policy \<Rightarrow>
   'p client_event_connection \<Rightarrow> (admit_refusal + subscribe_progress) \<times> 'p client_event_connection"
where
  "subscribe_mailbox slots_busy pool_busy gap_busy router subscription_id owner name subjects policy c =
     (case compile_subjects subjects of
        Inl e \<Rightarrow> (Inl (RefusedError e), c)
      | Inr _ \<Rightarrow>
          if slots_busy then (Inl RefusedBusy, c)
          else if ec_closing c \<or> ec_faulted c then (Inl (RefusedError (RouterRefused RejectedInvalid)), c)
          else if om_contains (ec_slots c) subscription_id then (Inl (RefusedError DuplicateSubscription), c)
          else if MAX_SUBSCRIPTIONS_PER_CONNECTION \<le> length (ec_slots c) then (Inl (RefusedError TooManySubscriptions), c)
          else if pool_busy then (Inl RefusedBusy, c)
          else if saturating_sub CONNECTION_EVENT_MAX SUBSCRIPTION_EVENT_RESERVE < rs_events (ec_pool c) \<or>
                  saturating_sub CONNECTION_BYTE_MAX SUBSCRIPTION_BYTE_RESERVE < rs_bytes (ec_pool c) then
            (Inl (RefusedError ConnectionCapacity), c)
          else
            let c = provisional_slot policy subscription_id c;
                (registered, m) = register_gap_slot gap_busy subscription_id owner name
                  (mailbox_with_pool policy subscription_id)
            in case registered of
                 Inl status \<Rightarrow> (Inl (RefusedError (RouterRefused status)), abandon subscription_id c)
               | Inr _ \<Rightarrow> subscribe_resume router subscription_id (put_mailbox subscription_id m (ec_pool c) c))"

definition retire_subscription ::
  "bool \<Rightarrow> string \<Rightarrow> 'p client_event_connection \<Rightarrow> (admit_refusal + unit) \<times> 'p client_event_connection"
where
  "retire_subscription slots_busy subscription_id c =
     (if slots_busy then (Inl RefusedBusy, c)
      else case om_get (ec_slots c) subscription_id of
        None \<Rightarrow> (Inl (RefusedError UnknownSubscription), c)
      | Some slot \<Rightarrow>
          if slot_serves (ec_closing c) slot then (Inr (), abandon subscription_id c)
          else (Inl (RefusedError UnknownSubscription), c))"

section \<open>Cleanup\<close>

text \<open>
  The cleanup worker takes the slots one after the other by key.  No lock is poisoned, and the
  router has dropped the holder before the mailbox is reclaimed.
\<close>

definition cleanup_slot :: "bool \<Rightarrow> string \<Rightarrow> 'p client_event_connection \<Rightarrow> 'p client_event_connection" where
  "cleanup_slot closing subscription_id c =
     (case om_get (ec_slots c) subscription_id of
        None \<Rightarrow> c
      | Some slot \<Rightarrow>
          if closing \<or> is_retired (ec_closing c) (sl_mailbox slot) then
            let (m, r) = mb_reclaim (mb_retire (sl_mailbox slot)) (ec_pool c);
                c = put_mailbox subscription_id m r c
            in c\<lparr>ec_slots := om_remove subscription_id (ec_slots c)\<rparr>
          else c)"

definition cleanup_apply :: "'p client_event_connection \<Rightarrow> bool \<times> 'p client_event_connection" where
  "cleanup_apply c =
     (let closing = ec_closing c;
          c = fold (cleanup_slot closing) (om_keys (ec_slots c)) (c\<lparr>ec_requested := False\<rparr>);
          closed = (closing \<and> ec_slots c = [])
      in (closed, if closed then c\<lparr>ec_fully_reclaimed := True\<rparr> else c))"

section \<open>Accounting\<close>

text \<open>
  A mailbox counts its bytes exactly and keeps within its limits, and has no gap slot but its
  own.  The pool's entry for a subscription is what its mailbox holds, and the totals are the
  sums of the entries.
\<close>

definition mailbox_ok :: "string \<Rightarrow> 'p client_event_mailbox \<Rightarrow> bool" where
  "mailbox_ok sid m \<longleftrightarrow> mb_subscription_id m = sid \<and> mb_bytes m = sum_list (map qe_size (mb_events m)) \<and>
     length (mb_events m) \<le> mb_event_max m \<and> mb_bytes m \<le> mb_byte_max m \<and>
     set (om_keys (mb_slots m)) \<subseteq> {sid} \<and> (\<forall>q \<in> set (mb_events m). qe_subscription_id q = sid)"

definition pool_total :: "('v \<Rightarrow> nat) \<Rightarrow> (string, 'v) omap \<Rightarrow> nat" where
  "pool_total f m = sum_list (map (\<lambda>e. f (snd e)) m)"

definition pool_sums :: "connection_residency \<Rightarrow> bool" where
  "pool_sums r \<longleftrightarrow> om_ok (rs_subscriptions r) \<and>
     rs_events r = pool_total fst (rs_subscriptions r) \<and> rs_bytes r = pool_total snd (rs_subscriptions r)"

definition pool_entry :: "string \<Rightarrow> 'p client_event_mailbox \<Rightarrow> connection_residency \<Rightarrow> bool" where
  "pool_entry sid m r \<longleftrightarrow> om_get (rs_subscriptions r) sid = Some (length (mb_events m), mb_bytes m)"

text \<open>Everything queued, plus what the reserves of all subscriptions still hold back, fits the connection.\<close>

definition reserves_fit :: "connection_residency \<Rightarrow> bool" where
  "reserves_fit r \<longleftrightarrow>
     rs_events r + pool_total (\<lambda>u. SUBSCRIPTION_EVENT_RESERVE - fst u) (rs_subscriptions r) \<le> CONNECTION_EVENT_MAX \<and>
     rs_bytes r + pool_total (\<lambda>u. SUBSCRIPTION_BYTE_RESERVE - snd u) (rs_subscriptions r) \<le> CONNECTION_BYTE_MAX"

definition within_connection :: "connection_residency \<Rightarrow> bool" where
  "within_connection r \<longleftrightarrow> rs_events r \<le> CONNECTION_EVENT_MAX \<and> rs_bytes r \<le> CONNECTION_BYTE_MAX"

lemma om_modify_insert: "om_ok m \<Longrightarrow> om_get m k = Some v \<Longrightarrow> om_modify k f m = om_insert k (f v) m"
  by (rule om_eqI) (auto simp: fun_eq_iff)

lemma pool_total_modify:
  "om_ok m \<Longrightarrow> om_get m k = Some v \<Longrightarrow> pool_total f (om_modify k g m) + f v = pool_total f m + f (g v)"
  unfolding pool_total_def by (simp add: om_modify_insert sum_om_insert_present)

lemma pool_total_insert: "om_get m k = None \<Longrightarrow> pool_total f (om_insert k v m) = f v + pool_total f m"
  unfolding pool_total_def by (rule sum_om_insert_absent)

lemma pool_total_remove: "om_ok m \<Longrightarrow> om_get m k = Some v \<Longrightarrow> pool_total f (om_remove k m) + f v = pool_total f m"
  unfolding pool_total_def by (rule sum_om_remove)

lemma protected_total:
  assumes "pool_sums r" and "om_get (rs_subscriptions r) sid = Some (e, b)"
  shows "protected_events sid r + (SUBSCRIPTION_EVENT_RESERVE - e) = pool_total (\<lambda>u. SUBSCRIPTION_EVENT_RESERVE - fst u) (rs_subscriptions r)"
    and "protected_bytes sid r + (SUBSCRIPTION_BYTE_RESERVE - b) = pool_total (\<lambda>u. SUBSCRIPTION_BYTE_RESERVE - snd u) (rs_subscriptions r)"
  using assms pool_total_remove [of "rs_subscriptions r" sid "(e, b)" "\<lambda>u. SUBSCRIPTION_EVENT_RESERVE - fst u"]
    pool_total_remove [of "rs_subscriptions r" sid "(e, b)" "\<lambda>u. SUBSCRIPTION_BYTE_RESERVE - snd u"]
  by (simp_all add: pool_sums_def protected_events_def protected_bytes_def pool_total_def om_remove_def saturating_sub_def)

text \<open>
  A step of one mailbox against the pool: it keeps the accounting, touches no other
  subscription, and keeps the reserves fitting.
\<close>

definition member_step ::
  "string \<Rightarrow> 'p client_event_mailbox \<Rightarrow> connection_residency \<Rightarrow> 'p client_event_mailbox \<Rightarrow> connection_residency \<Rightarrow> bool"
where
  "member_step sid m r m' r' \<longleftrightarrow> (mailbox_ok sid m \<and> pool_sums r \<and> pool_entry sid m r \<longrightarrow>
     mailbox_ok sid m' \<and> pool_sums r' \<and> pool_entry sid m' r' \<and>
     om_keys (rs_subscriptions r') = om_keys (rs_subscriptions r) \<and>
     (\<forall>k. k \<noteq> sid \<longrightarrow> om_get (rs_subscriptions r') k = om_get (rs_subscriptions r) k) \<and>
     (reserves_fit r \<longrightarrow> reserves_fit r') \<and> (within_connection r \<longrightarrow> within_connection r'))"

lemma member_step_refl: "member_step sid m r m r"
  by (simp add: member_step_def)

lemma member_step_trans:
  "member_step sid m r m' r' \<Longrightarrow> member_step sid m' r' m'' r'' \<Longrightarrow> member_step sid m r m'' r''"
  unfolding member_step_def by auto

lemma member_step_wellformed: "(mailbox_ok sid m \<Longrightarrow> member_step sid m r m' r') \<Longrightarrow> member_step sid m r m' r'"
  unfolding member_step_def by blast

text \<open>A step that leaves the queue alone.\<close>

lemma member_step_quiet:
  assumes "mb_events m' = mb_events m" "mb_bytes m' = mb_bytes m" "mb_event_max m' = mb_event_max m"
    "mb_byte_max m' = mb_byte_max m" "mb_subscription_id m' = mb_subscription_id m"
    "mailbox_ok sid m \<Longrightarrow> set (om_keys (mb_slots m')) \<subseteq> {sid}"
  shows "member_step sid m r m' r"
  using assms by (auto simp: member_step_def mailbox_ok_def pool_entry_def)

lemma mark_gap_fields [simp]:
  "mb_events (mark_gap held k owner name m) = mb_events m" "mb_bytes (mark_gap held k owner name m) = mb_bytes m"
  "mb_event_max (mark_gap held k owner name m) = mb_event_max m" "mb_byte_max (mark_gap held k owner name m) = mb_byte_max m"
  "mb_subscription_id (mark_gap held k owner name m) = mb_subscription_id m"
  "mb_retired (mark_gap held k owner name m) = mb_retired m"
  "mb_queue_age (mark_gap held k owner name m) = mb_queue_age m"
  by (simp_all add: mark_gap_def signal_wake_def Let_def)

lemma mark_gap_keys: "set (om_keys (mb_slots (mark_gap held k owner name m))) \<subseteq> insert k (set (om_keys (mb_slots m)))"
proof (cases held)
  case False
  then have "om_keys (mb_slots (mark_gap held k owner name m)) =
      om_keys (om_insert k ((case om_get (mb_slots m) k of None \<Rightarrow> \<lparr>gs_owner = owner, gs_name = name, gs_bit = False\<rparr>
        | Some slot \<Rightarrow> slot)\<lparr>gs_bit := True\<rparr>) (mb_slots m))"
    by (simp add: mark_gap_def signal_wake_def Let_def)
  then show ?thesis unfolding om_keys_insert by (simp only: om_keys_insert order_refl)
qed (auto simp: mark_gap_def signal_wake_def)

lemma member_step_mark_gap: "member_step sid m r (mark_gap held sid owner name m) r"
  by (rule member_step_quiet) (use mark_gap_keys [of held sid owner name m] in \<open>auto simp: mailbox_ok_def\<close>)

lemma member_step_bit:
  "member_step sid m r (m\<lparr>mb_slots := om_modify k f (mb_slots m)\<rparr>) r"
  by (rule member_step_quiet) (auto simp: mailbox_ok_def)

lemma member_step_retire: "member_step sid m r (mb_retire m) r"
  by (rule member_step_quiet) (auto simp: mb_retire_def signal_wake_def mailbox_ok_def)

lemma member_step_wake: "member_step sid m r (signal_wake m') r' \<longleftrightarrow> member_step sid m r m' r'"
  by (simp add: member_step_def signal_wake_def mailbox_ok_def pool_entry_def)

lemma member_step_push:
  assumes "\<not> connection_full sid (qe_size q) r" and "length (mb_events m) + 1 \<le> mb_event_max m"
    and "mb_bytes m + qe_size q \<le> mb_byte_max m" and "qe_subscription_id q = sid"
  shows "member_step sid m r (m\<lparr>mb_bytes := mb_bytes m + qe_size q, mb_events := mb_events m @ [q]\<rparr>)
    (residency_charge sid (qe_size q) r)"
  unfolding member_step_def
proof (intro impI, elim conjE)
  assume ok: "mailbox_ok sid m" "pool_sums r" "pool_entry sid m r"
  let ?r = "residency_charge sid (qe_size q) r"
  let ?g = "\<lambda>(events :: nat, bytes). (events + 1, bytes + qe_size q)"
  have get: "om_get (rs_subscriptions r) sid = Some (length (mb_events m), mb_bytes m)"
    using ok(3) by (simp add: pool_entry_def)
  have sums: "om_ok (rs_subscriptions r)" using ok(2) by (simp add: pool_sums_def)
  note t = pool_total_modify [OF sums get, of _ ?g, simplified]
  have r: "rs_subscriptions ?r = om_modify sid ?g (rs_subscriptions r)" "rs_events ?r = rs_events r + 1"
    "rs_bytes ?r = rs_bytes r + qe_size q"
    by (simp_all add: residency_charge_def)
  have sums': "pool_sums ?r"
    using ok(2) t [of fst] t [of snd] by (simp add: pool_sums_def r)
  have left: "pool_total (\<lambda>u. SUBSCRIPTION_EVENT_RESERVE - fst u) (rs_subscriptions ?r) =
      protected_events sid r + (SUBSCRIPTION_EVENT_RESERVE - (length (mb_events m) + 1))"
    "pool_total (\<lambda>u. SUBSCRIPTION_BYTE_RESERVE - snd u) (rs_subscriptions ?r) =
      protected_bytes sid r + (SUBSCRIPTION_BYTE_RESERVE - (mb_bytes m + qe_size q))"
    using t [of "\<lambda>u. SUBSCRIPTION_EVENT_RESERVE - fst u"] t [of "\<lambda>u. SUBSCRIPTION_BYTE_RESERVE - snd u"]
      protected_total [OF ok(2) get] by (simp_all add: r)
  have room: "rs_events r + 1 + protected_events sid r \<le> CONNECTION_EVENT_MAX"
    "rs_bytes r + qe_size q + protected_bytes sid r \<le> CONNECTION_BYTE_MAX \<or> qe_size q = 0 \<and> rs_bytes r = 0"
    using assms(1) by (auto simp: connection_full_def saturating_sub_def)
  have fit: "reserves_fit r \<Longrightarrow> reserves_fit ?r"
    using room left protected_total [OF ok(2) get] unfolding reserves_fit_def r(2,3) by auto
  have within: "within_connection r \<Longrightarrow> within_connection ?r"
    using room unfolding within_connection_def r(2,3) by auto
  show "mailbox_ok sid (m\<lparr>mb_bytes := mb_bytes m + qe_size q, mb_events := mb_events m @ [q]\<rparr>) \<and>
    pool_sums ?r \<and> pool_entry sid (m\<lparr>mb_bytes := mb_bytes m + qe_size q, mb_events := mb_events m @ [q]\<rparr>) ?r \<and>
    om_keys (rs_subscriptions ?r) = om_keys (rs_subscriptions r) \<and>
    (\<forall>k. k \<noteq> sid \<longrightarrow> om_get (rs_subscriptions ?r) k = om_get (rs_subscriptions r) k) \<and>
    (reserves_fit r \<longrightarrow> reserves_fit ?r) \<and> (within_connection r \<longrightarrow> within_connection ?r)"
    using sums' fit within ok(1) get assms(2-4) by (auto simp: mailbox_ok_def pool_entry_def r)
qed

lemma member_step_pop:
  assumes "mb_events m = q # rest"
  shows "member_step sid m r (m\<lparr>mb_events := rest, mb_bytes := saturating_sub (mb_bytes m) (qe_size q)\<rparr>)
    (residency_release (mb_subscription_id m) (qe_size q) r)"
  unfolding member_step_def
proof (intro impI, elim conjE)
  assume ok: "mailbox_ok sid m" "pool_sums r" "pool_entry sid m r"
  let ?m = "m\<lparr>mb_events := rest, mb_bytes := saturating_sub (mb_bytes m) (qe_size q)\<rparr>"
  let ?r = "residency_release (mb_subscription_id m) (qe_size q) r"
  let ?g = "\<lambda>(events :: nat, bytes :: nat). (saturating_sub events 1, saturating_sub bytes (qe_size q))"
  have sid: "mb_subscription_id m = sid" and bytes: "mb_bytes m = qe_size q + sum_list (map qe_size rest)"
    using ok(1) assms by (simp_all add: mailbox_ok_def)
  have get: "om_get (rs_subscriptions r) sid = Some (Suc (length rest), mb_bytes m)"
    using ok(3) assms by (simp add: pool_entry_def)
  have sums: "om_ok (rs_subscriptions r)" using ok(2) by (simp add: pool_sums_def)
  have r: "rs_subscriptions ?r = om_modify sid ?g (rs_subscriptions r)" "rs_events ?r = rs_events r - 1"
    "rs_bytes ?r = rs_bytes r - qe_size q"
    by (simp_all add: residency_release_def saturating_sub_def sid)
  note t = pool_total_modify [OF sums get, of _ ?g, simplified saturating_sub_def prod.case]
  have counts: "rs_events ?r = pool_total fst (rs_subscriptions ?r)" "rs_bytes ?r = pool_total snd (rs_subscriptions ?r)"
    "Suc (rs_events ?r) = rs_events r" "rs_bytes ?r + qe_size q = rs_bytes r"
    using ok(2) t [of fst] t [of snd] bytes unfolding r pool_sums_def saturating_sub_def by auto
  have left: "pool_total (\<lambda>u. SUBSCRIPTION_EVENT_RESERVE - fst u) (rs_subscriptions ?r) \<le>
      Suc (pool_total (\<lambda>u. SUBSCRIPTION_EVENT_RESERVE - fst u) (rs_subscriptions r))"
    "pool_total (\<lambda>u. SUBSCRIPTION_BYTE_RESERVE - snd u) (rs_subscriptions ?r) \<le>
      qe_size q + pool_total (\<lambda>u. SUBSCRIPTION_BYTE_RESERVE - snd u) (rs_subscriptions r)"
    using t [of "\<lambda>u. SUBSCRIPTION_EVENT_RESERVE - fst u"] t [of "\<lambda>u. SUBSCRIPTION_BYTE_RESERVE - snd u"] bytes
    unfolding r saturating_sub_def by auto
  have "pool_sums ?r" using counts(1,2) sums by (simp add: pool_sums_def r(1))
  moreover have "reserves_fit r \<Longrightarrow> reserves_fit ?r" using counts(3,4) left unfolding reserves_fit_def by linarith
  moreover have "within_connection r \<Longrightarrow> within_connection ?r" using counts(3,4) unfolding within_connection_def by linarith
  moreover have "mailbox_ok sid ?m" using ok(1) assms bytes by (simp add: mailbox_ok_def saturating_sub_def)
  moreover have "pool_entry sid ?m ?r" using get by (simp add: pool_entry_def r(1) saturating_sub_def)
  ultimately show "mailbox_ok sid ?m \<and> pool_sums ?r \<and> pool_entry sid ?m ?r \<and>
    om_keys (rs_subscriptions ?r) = om_keys (rs_subscriptions r) \<and>
    (\<forall>k. k \<noteq> sid \<longrightarrow> om_get (rs_subscriptions ?r) k = om_get (rs_subscriptions r) k) \<and>
    (reserves_fit r \<longrightarrow> reserves_fit ?r) \<and> (within_connection r \<longrightarrow> within_connection ?r)"
    by (simp add: r(1))
qed

lemma try_push_step:
  assumes "try_push locks closing sid owner name payload sz now m r = (res, m', r')" and "mb_subscription_id m = sid"
  shows "member_step sid m r m' r'"
proof -
  let ?q = "\<lparr>qe_subscription_id = sid, qe_owner = owner, qe_name = name, qe_payload = payload,
      qe_enqueued_at = now, qe_size = sz\<rparr>"
  let ?own = "mb_event_max m < length (mb_events m) + 1 \<or> mb_byte_max m < mb_bytes m + sz"
  show ?thesis
  proof (cases "lk_inner locks \<or> is_retired closing m \<or> lk_pool locks")
    case True
    then have "m' = m \<and> r' = r" using assms(1) by (auto simp: try_push_def split: if_splits)
    then show ?thesis by (simp add: member_step_refl)
  next
    case free: False
    show ?thesis
    proof (cases "connection_full sid sz r \<or> ?own")
      case True
      then have "m' = mark_gap (lk_slots locks) sid owner name m \<and> r' = r"
        using assms free by (auto simp: try_push_def split: if_splits)
      then show ?thesis by (simp add: member_step_mark_gap)
    next
      case False
      then have "m' = signal_wake (m\<lparr>mb_bytes := mb_bytes m + sz, mb_events := mb_events m @ [?q]\<rparr>) \<and>
          r' = residency_charge sid sz r"
        using assms free by (simp add: try_push_def)
      then show ?thesis using False member_step_push [of sid ?q r m] by (simp add: member_step_wake)
    qed
  qed
qed

lemma try_push_id:
  "try_push locks closing sid owner name payload sz now m r = (res, m', r') \<Longrightarrow> mb_subscription_id m' = mb_subscription_id m"
  by (auto simp: try_push_def signal_wake_def split: if_splits)

lemma deliver_to_holder_step:
  assumes "deliver_to_holder locks held closing sid owner name payload sz now m r = (res, m', r')"
    and "mb_subscription_id m = sid"
  shows "member_step sid m r m' r'"
proof -
  obtain res1 m1 r1 where p: "try_push locks closing sid owner name payload sz now m r = (res1, m1, r1)"
    by (metis prod_cases3)
  note first = try_push_step [OF p assms(2)]
  consider "m' = m1" "r' = r1"
    | "m' = mark_gap held sid owner name (m1\<lparr>mb_slots := om_modify sid (gs_bit_update (\<lambda>_. True)) (mb_slots m1)\<rparr>)" "r' = r1"
    using assms p by (cases res1) (auto simp: deliver_to_holder_def)
  then show ?thesis
    by cases (use first in \<open>auto intro: member_step_trans [OF first member_step_trans [OF member_step_bit member_step_mark_gap]]\<close>)
qed

lemma take_gap_step: "take_gap held m = (event, m') \<Longrightarrow> member_step sid m r m' r"
  by (auto simp: take_gap_def member_step_refl member_step_bit split: if_splits option.splits)

lemma take_ready_event_step:
  "take_ready_event view n closing m r = (event, m', r') \<Longrightarrow> member_step sid m r m' r'"
proof (induction view n closing m r rule: take_ready_event.induct)
  case (1 view n closing m r)
  obtain g m1 where g: "take_gap (lk_slots (tv_locks (view n))) m = (g, m1)" by fastforce
  show ?case
  proof (cases "is_retired closing m \<or> g \<noteq> None \<or> lk_inner (tv_locks (view n)) \<or> lk_pool (tv_locks (view n)) \<or> mb_events m = []")
    case True
    then have "m' = m \<and> r' = r \<or> m' = m1 \<and> r' = r"
      using "1.prems" g by (subst (asm) take_ready_event.simps) (auto simp: Let_def split: if_splits option.splits)
    then show ?thesis using take_gap_step [OF g] member_step_refl by blast
  next
    case False
    then obtain q rest where e: "mb_events m = q # rest" by (cases "mb_events m") auto
    let ?m = "m\<lparr>mb_events := rest, mb_bytes := saturating_sub (mb_bytes m) (qe_size q)\<rparr>"
    let ?r = "residency_release (mb_subscription_id m) (qe_size q) r"
    let ?late = "mb_queue_age m < saturating_sub (tv_now (view n)) (qe_enqueued_at q)"
    let ?next = "mark_gap (tv_mark_held (view n)) (qe_subscription_id q) (qe_owner q) (qe_name q) ?m"
    note pop = member_step_pop [OF e, of sid r]
    have free: "\<not> is_retired closing m" "g = None" "\<not> (lk_inner (tv_locks (view n)) \<or> lk_pool (tv_locks (view n)))"
      using False by auto
    show ?thesis
    proof (cases ?late)
      case True
      have rec: "take_ready_event view (n + 1) closing ?next ?r = (event, m', r')"
        using "1.prems" free g e True by (subst (asm) take_ready_event.simps) (simp add: Let_def)
      have ih: "member_step sid ?next ?r m' r'"
        by (rule "1.IH" [OF free(1) refl g [symmetric] free(2) free(3) e refl refl True rec])
      show ?thesis
      proof (rule member_step_wellformed)
        assume "mailbox_ok sid m"
        then have "qe_subscription_id q = sid" using e by (simp add: mailbox_ok_def)
        then show "member_step sid m r m' r'"
          using member_step_trans [OF pop member_step_trans [OF member_step_mark_gap]] ih by simp
      qed
    next
      case False
      then have "m' = ?m \<and> r' = ?r"
        using "1.prems" free g e by (subst (asm) take_ready_event.simps) (simp add: Let_def)
      then show ?thesis using pop by simp
    qed
  qed
qed

section \<open>The connection's invariant\<close>

definition conn_ok :: "'p client_event_connection \<Rightarrow> bool" where
  "conn_ok c \<longleftrightarrow> om_ok (ec_slots c) \<and> pool_sums (ec_pool c) \<and> within_connection (ec_pool c) \<and>
     om_keys (rs_subscriptions (ec_pool c)) = om_keys (ec_slots c) \<and>
     (\<forall>sid slot. om_get (ec_slots c) sid = Some slot \<longrightarrow>
        mailbox_ok sid (sl_mailbox slot) \<and> pool_entry sid (sl_mailbox slot) (ec_pool c))"

text \<open>The invariant is kept, and the reserves of a connection where they fit still fit.\<close>

definition conn_step :: "'p client_event_connection \<Rightarrow> 'p client_event_connection \<Rightarrow> bool" where
  "conn_step c c' \<longleftrightarrow> (conn_ok c \<longrightarrow> conn_ok c' \<and> (reserves_fit (ec_pool c) \<longrightarrow> reserves_fit (ec_pool c')))"

lemma conn_step_refl: "conn_step c c"
  by (simp add: conn_step_def)

lemma conn_step_trans: "conn_step a b \<Longrightarrow> conn_step b c \<Longrightarrow> conn_step a c"
  by (simp add: conn_step_def)

lemma conn_step_same: "ec_slots c' = ec_slots c \<Longrightarrow> ec_pool c' = ec_pool c \<Longrightarrow> conn_step c c'"
  by (simp add: conn_step_def conn_ok_def)

lemma om_insert_twice: "om_insert k v (om_insert k w m) = om_insert k v m"
  by (induction m) auto

lemma om_remove_insert: "om_remove k (om_insert k v m) = om_remove k m"
  by (induction m) (auto simp: om_remove_def)

lemma om_keys_remove_filter: "om_keys (om_remove k m) = filter (\<lambda>x. x \<noteq> k) (om_keys m)"
  by (induction m) (simp_all add: om_remove_def)

lemma om_keys_put:
  assumes "om_ok m" and "om_get m k = Some v"
  shows "om_keys (om_insert k w m) = om_keys m"
  using om_modify_insert [OF assms, of "\<lambda>_. w"] om_keys_modify [of k "\<lambda>_. w" m] by simp

lemma om_keys_insert_eq:
  assumes "om_ok m" and "om_ok n" and "om_keys m = om_keys n"
  shows "om_keys (om_insert k v m) = om_keys (om_insert k w n)"
proof (rule strict_sorted_equal)
  have "set (om_keys (om_insert k v m)) = insert k (set (om_keys m))" by (rule om_keys_insert)
  also have "\<dots> = set (om_keys (om_insert k w n))" unfolding assms(3) by (rule om_keys_insert [symmetric])
  finally show "set (om_keys (om_insert k v m)) = set (om_keys (om_insert k w n))" .
qed (use om_ok_insert assms(1,2) in \<open>auto simp: om_ok_def\<close>)

lemma put_mailbox_step:
  assumes "om_get (ec_slots c) sid = Some slot" and "member_step sid (sl_mailbox slot) (ec_pool c) m r"
  shows "conn_step c (put_mailbox sid m r c)"
  unfolding conn_step_def
proof
  assume ok: "conn_ok c"
  let ?c = "put_mailbox sid m r c"
  have c: "ec_slots ?c = om_insert sid (slot\<lparr>sl_mailbox := m\<rparr>) (ec_slots c)" "ec_pool ?c = r"
    using assms(1) by (simp_all add: put_mailbox_def)
  have slots: "om_ok (ec_slots c)" using ok by (simp add: conn_ok_def)
  from ok assms(1) have "mailbox_ok sid (sl_mailbox slot)" "pool_sums (ec_pool c)" "pool_entry sid (sl_mailbox slot) (ec_pool c)"
    by (auto simp: conn_ok_def)
  with assms(2) have step: "mailbox_ok sid m" "pool_sums r" "pool_entry sid m r"
    "om_keys (rs_subscriptions r) = om_keys (rs_subscriptions (ec_pool c))"
    "\<And>k. k \<noteq> sid \<Longrightarrow> om_get (rs_subscriptions r) k = om_get (rs_subscriptions (ec_pool c)) k"
    "reserves_fit (ec_pool c) \<Longrightarrow> reserves_fit r" "within_connection (ec_pool c) \<Longrightarrow> within_connection r"
    by (auto simp: member_step_def)
  have "mailbox_ok k (sl_mailbox s) \<and> pool_entry k (sl_mailbox s) r" if "om_get (ec_slots ?c) k = Some s" for k s
  proof (cases "k = sid")
    case True
    then show ?thesis using that step(1,3) by (auto simp: c)
  next
    case False
    then show ?thesis using that ok step(5) by (auto simp: c conn_ok_def pool_entry_def)
  qed
  then show "conn_ok ?c \<and> (reserves_fit (ec_pool c) \<longrightarrow> reserves_fit (ec_pool ?c))"
    using ok slots step om_keys_put [OF slots assms(1)] by (auto simp: conn_ok_def c)
qed

lemma request_cleanup_step: "conn_step c (request_cleanup c)"
  by (rule conn_step_same) (simp_all add: request_cleanup_def)

lemma abandon_step: "conn_step c (abandon sid c)"
proof (cases "om_get (ec_slots c) sid")
  case None
  then show ?thesis by (simp add: abandon_def request_cleanup_step)
next
  case (Some slot)
  then show ?thesis
    using conn_step_trans [OF put_mailbox_step [OF Some member_step_retire] request_cleanup_step]
    by (simp add: abandon_def)
qed

lemma activate_step: "conn_step c (c\<lparr>ec_slots := om_modify sid (sl_active_update f) (ec_slots c)\<rparr>)"
  unfolding conn_step_def conn_ok_def by (auto split: if_splits)

lemma subscribe_resume_step: "conn_step c (snd (subscribe_resume router sid c))"
  by (simp add: subscribe_resume_def Let_def abandon_step activate_step conn_step_refl)

text \<open>A new subscription takes room for its reserve.\<close>

definition reserve_room :: "connection_residency \<Rightarrow> bool" where
  "reserve_room r \<longleftrightarrow>
     rs_events r + pool_total (\<lambda>u. SUBSCRIPTION_EVENT_RESERVE - fst u) (rs_subscriptions r) + SUBSCRIPTION_EVENT_RESERVE \<le> CONNECTION_EVENT_MAX \<and>
     rs_bytes r + pool_total (\<lambda>u. SUBSCRIPTION_BYTE_RESERVE - snd u) (rs_subscriptions r) + SUBSCRIPTION_BYTE_RESERVE \<le> CONNECTION_BYTE_MAX"

lemma provisional_slot_ok:
  assumes "conn_ok c" and "om_get (ec_slots c) sid = None"
  shows "conn_ok (provisional_slot policy sid c) \<and>
    (reserve_room (ec_pool c) \<longrightarrow> reserves_fit (ec_pool (provisional_slot policy sid c)))"
proof -
  let ?subs = "rs_subscriptions (ec_pool c)"
  have ok: "om_ok (ec_slots c)" "om_ok ?subs" "om_keys ?subs = om_keys (ec_slots c)"
    using assms(1) by (simp_all add: conn_ok_def pool_sums_def)
  have none: "om_get ?subs sid = None"
    using assms(2) ok(3) by (metis map_of_eq_None_iff list.set_map)
  note t = pool_total_insert [OF none, of _ "(0, 0)", simplified]
  have keys: "om_keys (om_insert sid (0, 0) ?subs) = om_keys (om_insert sid v (ec_slots c))" for v :: "'a client_event_slot"
    by (rule om_keys_insert_eq [OF ok(2,1,3)])
  have fresh: "mailbox_ok sid (mailbox_with_pool policy sid :: 'a client_event_mailbox)"
    by (simp add: mailbox_ok_def mailbox_with_pool_def)
  show ?thesis
    using assms(1) fresh keys ok(1,2) t [of fst] t [of snd] t [of "\<lambda>u. SUBSCRIPTION_EVENT_RESERVE - fst u"]
      t [of "\<lambda>u. SUBSCRIPTION_BYTE_RESERVE - snd u"]
    by (auto simp: conn_ok_def provisional_slot_def pool_sums_def within_connection_def reserve_room_def
        reserves_fit_def pool_entry_def mailbox_with_pool_def)
qed

text \<open>Whether a call admits a subscription, that is, whether it adds a slot.\<close>

definition admits_slot ::
  "bool \<Rightarrow> bool \<Rightarrow> string \<Rightarrow> string list \<Rightarrow> 'p client_event_connection \<Rightarrow> bool"
where
  "admits_slot slots_busy pool_busy sid subjects c \<longleftrightarrow>
     (case compile_subjects subjects of Inl _ \<Rightarrow> False | Inr _ \<Rightarrow> True) \<and> \<not> slots_busy \<and> \<not> pool_busy \<and>
     \<not> ec_closing c \<and> \<not> ec_faulted c \<and> om_get (ec_slots c) sid = None \<and>
     length (ec_slots c) < MAX_SUBSCRIPTIONS_PER_CONNECTION \<and>
     rs_events (ec_pool c) + SUBSCRIPTION_EVENT_RESERVE \<le> CONNECTION_EVENT_MAX \<and>
     rs_bytes (ec_pool c) + SUBSCRIPTION_BYTE_RESERVE \<le> CONNECTION_BYTE_MAX"

lemma subscribe_mailbox_refused:
  "\<not> admits_slot slots_busy pool_busy sid subjects c \<Longrightarrow>
   \<exists>e. subscribe_mailbox slots_busy pool_busy gap_busy router sid owner name subjects policy c = (Inl e, c)"
  by (auto simp: subscribe_mailbox_def admits_slot_def om_contains_def saturating_sub_def mailbox_consts not_le not_less
      split: sum.splits)

lemma subscribe_mailbox_admitted:
  assumes "admits_slot slots_busy pool_busy sid subjects c"
  shows "subscribe_mailbox slots_busy pool_busy gap_busy router sid owner name subjects policy c =
    (let c = provisional_slot policy sid c;
         (registered, m) = register_gap_slot gap_busy sid owner name (mailbox_with_pool policy sid)
     in case registered of
          Inl status \<Rightarrow> (Inl (RefusedError (RouterRefused status)), abandon sid c)
        | Inr _ \<Rightarrow> subscribe_resume router sid (put_mailbox sid m (ec_pool c) c))"
  using assms
  by (auto simp: subscribe_mailbox_def admits_slot_def om_contains_def saturating_sub_def mailbox_consts
      split: sum.splits)

lemma own_key_insert: "set (om_keys m) \<subseteq> {k} \<Longrightarrow> set (om_keys (om_insert k v m)) \<subseteq> {k}"
  unfolding om_keys_insert by simp

lemma register_gap_slot_step:
  assumes "register_gap_slot held sid owner name m = (res, m')"
  shows "member_step sid m r m' r"
proof (cases held)
  case True
  then show ?thesis using assms by (simp add: register_gap_slot_def member_step_refl)
next
  case False
  then have m': "m' = m\<lparr>mb_slots := om_insert sid \<lparr>gs_owner = owner, gs_name = name, gs_bit = False\<rparr> (mb_slots m)\<rparr>"
    using assms by (simp add: register_gap_slot_def)
  show ?thesis
  proof (rule member_step_quiet)
    assume "mailbox_ok sid m"
    then have "set (om_keys (mb_slots m)) \<subseteq> {sid}" by (simp add: mailbox_ok_def)
    from own_key_insert [OF this] show "set (om_keys (mb_slots m')) \<subseteq> {sid}" by (simp add: m')
  qed (simp_all add: m')
qed

lemma subscribe_mailbox_ok:
  assumes "conn_ok c"
  shows "conn_ok (snd (subscribe_mailbox slots_busy pool_busy gap_busy router sid owner name subjects policy c)) \<and>
    (reserves_fit (ec_pool c) \<and> (admits_slot slots_busy pool_busy sid subjects c \<longrightarrow> reserve_room (ec_pool c)) \<longrightarrow>
     reserves_fit (ec_pool (snd (subscribe_mailbox slots_busy pool_busy gap_busy router sid owner name subjects policy c))))"
proof (cases "admits_slot slots_busy pool_busy sid subjects c")
  case False
  then obtain e where "subscribe_mailbox slots_busy pool_busy gap_busy router sid owner name subjects policy c = (Inl e, c)"
    using subscribe_mailbox_refused by blast
  then show ?thesis using assms by simp
next
  case True
  let ?p = "provisional_slot policy sid c"
  obtain res m where g: "register_gap_slot gap_busy sid owner name (mailbox_with_pool policy sid) = (res, m :: 'a client_event_mailbox)"
    by fastforce
  have p: "conn_ok ?p \<and> (reserve_room (ec_pool c) \<longrightarrow> reserves_fit (ec_pool ?p))"
    using provisional_slot_ok [OF assms] True by (simp add: admits_slot_def)
  have slot: "om_get (ec_slots ?p) sid = Some \<lparr>sl_mailbox = mailbox_with_pool policy sid, sl_active = False\<rparr>"
    by (simp add: provisional_slot_def)
  have "conn_step ?p (put_mailbox sid m (ec_pool ?p) ?p)"
    by (rule put_mailbox_step [OF slot]) (use register_gap_slot_step [OF g] in simp)
  then have "conn_step ?p (snd (subscribe_mailbox slots_busy pool_busy gap_busy router sid owner name subjects policy c))"
    unfolding subscribe_mailbox_admitted [OF True] Let_def g
    by (cases res) (auto intro: abandon_step conn_step_trans subscribe_resume_step)
  then show ?thesis using p True unfolding conn_step_def by blast
qed

lemma retire_subscription_step: "conn_step c (snd (retire_subscription slots_busy sid c))"
  by (auto simp: retire_subscription_def abandon_step conn_step_refl split: option.splits)

text \<open>Reclaiming a slot gives back exactly what its mailbox held.\<close>

lemma cleanup_slot_step: "conn_step c (cleanup_slot closing sid c)"
proof (cases "om_get (ec_slots c) sid")
  case None
  then show ?thesis by (simp add: cleanup_slot_def conn_step_refl)
next
  case (Some slot)
  show ?thesis
  proof (cases "closing \<or> is_retired (ec_closing c) (sl_mailbox slot)")
    case False
    then show ?thesis using Some by (simp add: cleanup_slot_def conn_step_refl)
  next
    case True
    let ?c = "cleanup_slot closing sid c" and ?m = "sl_mailbox slot" and ?r = "ec_pool c"
    show ?thesis
      unfolding conn_step_def
    proof
      assume ok: "conn_ok c"
      have m: "mailbox_ok sid ?m" "pool_entry sid ?m ?r" "om_ok (ec_slots c)" "om_ok (rs_subscriptions ?r)"
        using ok Some by (auto simp: conn_ok_def pool_sums_def)
      have id: "mb_subscription_id ?m = sid" using m(1) by (simp add: mailbox_ok_def)
      have c: "ec_slots ?c = om_remove sid (ec_slots c)"
        "rs_subscriptions (ec_pool ?c) = om_remove sid (rs_subscriptions ?r)"
        "rs_events (ec_pool ?c) = rs_events ?r - length (mb_events ?m)" "rs_bytes (ec_pool ?c) = rs_bytes ?r - mb_bytes ?m"
        using Some True id
        by (auto simp: cleanup_slot_def mb_reclaim_def mb_retire_def signal_wake_def put_mailbox_def saturating_sub_def
            om_remove_insert)
      note t = pool_total_remove [OF m(4) m(2) [unfolded pool_entry_def]]
      have keys: "om_keys (om_remove sid (rs_subscriptions ?r)) = om_keys (om_remove sid (ec_slots c))"
        using ok unfolding om_keys_remove_filter conn_ok_def by simp
      have sums: "pool_sums (ec_pool ?c)"
        using ok t [of fst] t [of snd] by (auto simp: conn_ok_def pool_sums_def c)
      have "reserves_fit ?r \<Longrightarrow> reserves_fit (ec_pool ?c)" "within_connection ?r \<Longrightarrow> within_connection (ec_pool ?c)"
        using t [of "\<lambda>u. SUBSCRIPTION_EVENT_RESERVE - fst u"] t [of "\<lambda>u. SUBSCRIPTION_BYTE_RESERVE - snd u"]
        unfolding reserves_fit_def within_connection_def c by linarith+
      then show "conn_ok ?c \<and> (reserves_fit ?r \<longrightarrow> reserves_fit (ec_pool ?c))"
        using ok sums keys m(3) by (auto simp: conn_ok_def c pool_entry_def split: if_splits)
    qed
  qed
qed

section \<open>Schedules of one connection\<close>

datatype 'p connection_event =
    EvDeliver lock_state bool string string string 'p usize nat
  | EvTake "nat \<Rightarrow> take_view" string
  | EvSubscribe bool bool bool router_view string string string "string list" package_event_plane_policy
  | EvResume router_view string
  | EvAbandon string
  | EvRetire bool string
  | EvCleanup
  | EvClose
  | EvFault
  | EvBindReader

text \<open>The router delivers to a mailbox, and the reader takes from one, only while its slot exists.\<close>

fun connection_exec :: "'p connection_event \<Rightarrow> 'p client_event_connection \<Rightarrow> 'p client_event_connection option" where
  "connection_exec (EvDeliver locks held sid owner name payload sz now) c =
     (case om_get (ec_slots c) sid of
        None \<Rightarrow> None
      | Some slot \<Rightarrow>
          let (_, m, r) = deliver_to_holder locks held (ec_closing c) sid owner name payload sz now (sl_mailbox slot) (ec_pool c)
          in Some (put_mailbox sid m r c))"
| "connection_exec (EvTake view sid) c =
     (case om_get (ec_slots c) sid of
        None \<Rightarrow> None
      | Some slot \<Rightarrow>
          let (_, m, r) = take_ready_event view 0 (ec_closing c) (sl_mailbox slot) (ec_pool c)
          in Some (put_mailbox sid m r c))"
| "connection_exec (EvSubscribe slots_busy pool_busy gap_busy router sid owner name subjects policy) c =
     Some (snd (subscribe_mailbox slots_busy pool_busy gap_busy router sid owner name subjects policy c))"
| "connection_exec (EvResume router sid) c = Some (snd (subscribe_resume router sid c))"
| "connection_exec (EvAbandon sid) c = Some (abandon sid c)"
| "connection_exec (EvRetire slots_busy sid) c = Some (snd (retire_subscription slots_busy sid c))"
| "connection_exec EvCleanup c = Some (snd (cleanup_apply c))"
| "connection_exec EvClose c = Some (ec_close c)"
| "connection_exec EvFault c = Some (retain_fault c)"
| "connection_exec EvBindReader c = Some (bind_reader c)"

text \<open>The same, except that a subscription is only admitted while its reserve still fits.\<close>

definition fitting_exec :: "'p connection_event \<Rightarrow> 'p client_event_connection \<Rightarrow> 'p client_event_connection option" where
  "fitting_exec e c =
     (case e of
        EvSubscribe slots_busy pool_busy _ _ sid _ _ subjects _ \<Rightarrow>
          if admits_slot slots_busy pool_busy sid subjects c \<and> \<not> reserve_room (ec_pool c) then None
          else connection_exec e c
      | _ \<Rightarrow> connection_exec e c)"

lemma cleanup_apply_step: "conn_step c (snd (cleanup_apply c))"
proof -
  have fold: "conn_step c (fold (cleanup_slot closing) ks c)" for closing ks and c :: "'a client_event_connection"
  proof (induction ks arbitrary: c)
    case (Cons k ks)
    show ?case using conn_step_trans [OF cleanup_slot_step Cons.IH] by simp
  qed (simp add: conn_step_refl)
  let ?c = "fold (cleanup_slot (ec_closing c)) (om_keys (ec_slots c)) (c\<lparr>ec_requested := False\<rparr>)"
  have "conn_step c ?c" using conn_step_trans [OF conn_step_same fold] by force
  moreover have "conn_step ?c (?c\<lparr>ec_fully_reclaimed := True\<rparr>)" by (rule conn_step_same) simp_all
  ultimately show ?thesis using conn_step_trans by (fastforce simp: cleanup_apply_def Let_def)
qed

lemma conn_ok_mailbox: "conn_ok c \<Longrightarrow> om_get (ec_slots c) sid = Some slot \<Longrightarrow> mb_subscription_id (sl_mailbox slot) = sid"
  by (auto simp: conn_ok_def mailbox_ok_def)

lemma connection_exec_step:
  assumes "connection_exec e c = Some c'" and "\<And>a b g r sid o1 n s p. e \<noteq> EvSubscribe a b g r sid o1 n s p" and "conn_ok c"
  shows "conn_step c c'"
proof (cases e)
  case (EvDeliver locks held sid owner name payload sz now)
  then obtain slot res m r where s: "om_get (ec_slots c) sid = Some slot"
    "deliver_to_holder locks held (ec_closing c) sid owner name payload sz now (sl_mailbox slot) (ec_pool c) = (res, m, r)"
    "c' = put_mailbox sid m r c"
    using assms(1) by (auto split: option.splits prod.splits)
  then show ?thesis using put_mailbox_step [OF s(1) deliver_to_holder_step [OF s(2) conn_ok_mailbox [OF assms(3) s(1)]]] by simp
next
  case (EvTake view sid)
  then obtain slot ev m r where s: "om_get (ec_slots c) sid = Some slot"
    "take_ready_event view 0 (ec_closing c) (sl_mailbox slot) (ec_pool c) = (ev, m, r)" "c' = put_mailbox sid m r c"
    using assms(1) by (auto split: option.splits prod.splits)
  then show ?thesis using put_mailbox_step [OF s(1) take_ready_event_step [OF s(2)]] by simp
qed (use assms in \<open>auto simp: subscribe_resume_step abandon_step retire_subscription_step cleanup_apply_step
    ec_close_def request_cleanup_def retain_fault_def bind_reader_def intro: conn_step_same\<close>)

lemma connection_exec_ok: "connection_exec e c = Some c' \<Longrightarrow> conn_ok c \<Longrightarrow> conn_ok c'"
proof (cases e)
  case (EvSubscribe a b g r sid o1 n s p)
  assume "connection_exec e c = Some c'" "conn_ok c"
  then show ?thesis using EvSubscribe subscribe_mailbox_ok [of c a b g r sid o1 n s p] by auto
qed (use connection_exec_step [of e c c'] in \<open>auto simp: conn_step_def\<close>)

definition fitting :: "'p client_event_connection \<Rightarrow> bool" where
  "fitting c \<longleftrightarrow> conn_ok c \<and> reserves_fit (ec_pool c)"

lemma fitting_exec_keeps: "fitting_exec e c = Some c' \<Longrightarrow> fitting c \<Longrightarrow> fitting c'"
proof (cases e)
  case (EvSubscribe a b g r sid o1 n s p)
  assume "fitting_exec e c = Some c'" "fitting c"
  then show ?thesis using EvSubscribe subscribe_mailbox_ok [of c a b g r sid o1 n s p]
    by (auto simp: fitting_exec_def fitting_def split: if_splits)
qed (use connection_exec_step [of e c c'] in \<open>auto simp: conn_step_def fitting_def fitting_exec_def\<close>)

lemma conn_ok_new: "conn_ok client_event_connection_new"
  by (simp add: client_event_connection_new_def conn_ok_def pool_sums_def pool_total_def within_connection_def)

lemma fitting_new: "fitting client_event_connection_new"
  using conn_ok_new
  by (simp add: fitting_def reserves_fit_def client_event_connection_new_def pool_total_def mailbox_consts)

interpretation connection: event_invariant "connection_exec :: 'p connection_event \<Rightarrow> _" conn_ok
  by unfold_locales (rule connection_exec_ok)

interpretation fitting_connection: event_invariant "fitting_exec :: 'p connection_event \<Rightarrow> _" fitting
  by unfold_locales (rule fitting_exec_keeps)

section \<open>The reserves\<close>

definition free_locks :: lock_state where
  "free_locks = \<lparr>lk_inner = False, lk_pool = False, lk_slots = False\<rparr>"

lemma reserve_not_full:
  assumes "pool_sums r" and "om_get (rs_subscriptions r) sid = Some (e, b)" and "reserves_fit r"
    and "e < SUBSCRIPTION_EVENT_RESERVE" and "b + sz \<le> SUBSCRIPTION_BYTE_RESERVE"
  shows "\<not> connection_full sid sz r"
  using assms(3-5) protected_total [OF assms(1,2)]
  unfolding connection_full_def reserves_fit_def saturating_sub_def by linarith


text \<open>
  But admission itself does not look at the reserves already given away: it compares only what
  is queued with one reserve.  A connection may hold 64 subscriptions, whose reserves are twice
  its limits, and then the reserves of the others exceed what is left for anyone.
\<close>

lemma idle_protected:
  assumes "pool_sums r" and "rs_events r = 0" and "om_get (rs_subscriptions r) sid \<noteq> None"
  shows "protected_events sid r + SUBSCRIPTION_EVENT_RESERVE = SUBSCRIPTION_EVENT_RESERVE * length (rs_subscriptions r)"
proof -
  have zero: "\<forall>e \<in> set (rs_subscriptions r). fst (snd e) = 0"
    using assms(1,2) by (auto simp: pool_sums_def pool_total_def)
  have "\<forall>e \<in> set m. fst (snd e) = 0 \<Longrightarrow>
      pool_total (\<lambda>u. SUBSCRIPTION_EVENT_RESERVE - fst u) m = SUBSCRIPTION_EVENT_RESERVE * length m"
    for m :: "(string, usize \<times> usize) omap"
    by (induction m) (simp_all add: pool_total_def)
  note all = this [OF zero]
  obtain e b where g: "om_get (rs_subscriptions r) sid = Some (e, b)" using assms(3) by auto
  then have "e = 0" using zero by (metis fst_conv map_of_SomeD snd_conv)
  then show ?thesis using protected_total(1) [OF assms(1) g] all by simp
qed

theorem idle_connection_refuses_everything:
  assumes "run_events connection_exec es client_event_connection_new = Some c"
    and "rs_events (ec_pool c) = 0" and "33 \<le> length (ec_slots c)"
    and "om_get (ec_slots c) sid = Some slot"
  shows "fst (try_push locks closing sid owner name payload sz now (sl_mailbox slot) (ec_pool c)) \<noteq> Inr ()"
proof -
  have ok: "conn_ok c" by (rule connection.inv_run [OF assms(1) conn_ok_new])
  then have m: "mb_subscription_id (sl_mailbox slot) = sid" "pool_sums (ec_pool c)"
    "om_get (rs_subscriptions (ec_pool c)) sid \<noteq> None"
    using assms(4) by (auto simp: conn_ok_def mailbox_ok_def pool_entry_def)
  have "om_keys (rs_subscriptions (ec_pool c)) = om_keys (ec_slots c)" using ok by (simp add: conn_ok_def)
  then have "length (om_keys (rs_subscriptions (ec_pool c))) = length (om_keys (ec_slots c))" by (rule arg_cong)
  then have "33 \<le> length (rs_subscriptions (ec_pool c))" using assms(3) by simp
  then have "connection_full sid sz (ec_pool c)"
    using idle_protected [OF m(2) assms(2) m(3)] by (simp add: connection_full_def saturating_sub_def mailbox_consts)
  then show ?thesis using m(1) by (simp add: try_push_def)
qed

definition open_router :: router_view where
  "open_router = \<lparr>rv_first = Accepted, rv_first_poisoned = False, rv_second = Accepted, rv_second_poisoned = False\<rparr>"

definition default_policy :: package_event_plane_policy where
  "default_policy = \<lparr>pp_consumer_queue_max_events = 128, pp_consumer_queue_max_bytes = 2 * 1024 * 1024, pp_queue_age = 1000\<rparr>"

definition nth_subscription :: "nat \<Rightarrow> string" where
  "nth_subscription i = replicate i CHR ''a''"

definition subscribe_nth :: "nat \<Rightarrow> 'p connection_event" where
  "subscribe_nth i = EvSubscribe False False False open_router (nth_subscription i) ''owner'' ''ready'' [] default_policy"

definition idle_after :: "nat \<Rightarrow> 'p client_event_connection \<Rightarrow> bool" where
  "idle_after n c \<longleftrightarrow> length (ec_slots c) = n \<and> set (om_keys (ec_slots c)) \<subseteq> nth_subscription ` {..<n} \<and>
     rs_events (ec_pool c) = 0 \<and> rs_bytes (ec_pool c) = 0 \<and> \<not> ec_closing c \<and> \<not> ec_faulted c \<and>
     (\<forall>sid slot. om_get (ec_slots c) sid = Some slot \<longrightarrow> slot_serves False slot)"

lemma idle_after_subscribe:
  assumes "idle_after n c" and "n < MAX_SUBSCRIPTIONS_PER_CONNECTION"
  shows "\<exists>c'. connection_exec (subscribe_nth n) c = Some c' \<and> idle_after (Suc n) c'"
proof -
  let ?sid = "nth_subscription n"
  have "?sid \<notin> nth_subscription ` {..<n}" by (auto simp: nth_subscription_def)
  then have "?sid \<notin> set (om_keys (ec_slots c))" using assms(1) unfolding idle_after_def by (meson subsetD)
  then have new: "om_get (ec_slots c) ?sid = None" by (rule om_get_absent)
  have adm: "admits_slot False False ?sid [] c"
    using assms new by (simp add: admits_slot_def idle_after_def compile_subjects_def mailbox_consts)
  define c' where "c' = snd (subscribe_mailbox False False False open_router ?sid ''owner'' ''ready'' [] default_policy c)"
  let ?slot = "\<lparr>sl_mailbox = (mailbox_with_pool default_policy ?sid)\<lparr>mb_slots :=
      [(?sid, \<lparr>gs_owner = ''owner'', gs_name = ''ready'', gs_bit = False\<rparr>)]\<rparr>, sl_active = True\<rparr>"
  have c': "ec_slots c' = om_modify ?sid (sl_active_update (\<lambda>_. True)) (om_insert ?sid (?slot\<lparr>sl_active := False\<rparr>)
        (om_insert ?sid \<lparr>sl_mailbox = mailbox_with_pool default_policy ?sid, sl_active = False\<rparr> (ec_slots c)))"
    "rs_events (ec_pool c') = 0" "rs_bytes (ec_pool c') = 0" "\<not> ec_closing c'" "\<not> ec_faulted c'"
    using assms(1) adm
    by (simp_all add: c'_def subscribe_mailbox_admitted [OF adm] register_gap_slot_def subscribe_resume_def open_router_def
        provisional_slot_def put_mailbox_def idle_after_def mailbox_with_pool_def)
  then have slots: "ec_slots c' = om_modify ?sid (sl_active_update (\<lambda>_. True)) (om_insert ?sid (?slot\<lparr>sl_active := False\<rparr>) (ec_slots c))"
    unfolding c'(1) om_insert_twice by simp
  have "set (om_keys (ec_slots c')) = insert ?sid (set (om_keys (ec_slots c)))"
    unfolding slots om_keys_modify by (rule om_keys_insert)
  then have keys: "set (om_keys (ec_slots c')) \<subseteq> nth_subscription ` {..<Suc n}"
    using assms(1) unfolding idle_after_def lessThan_Suc by (simp del: set_map) blast
  have "length (ec_slots c') = Suc n"
    unfolding slots om_length_modify om_length_insert_absent [OF new] using assms(1) by (simp add: idle_after_def)
  moreover have "slot_serves False s" if "om_get (ec_slots c') k = Some s" for k s
    using that assms(1) unfolding slots
    by (auto simp: idle_after_def slot_serves_def is_retired_def mailbox_with_pool_def split: if_splits)
  ultimately have "idle_after (Suc n) c'" unfolding idle_after_def using keys c'(2-5) by blast
  moreover have "connection_exec (subscribe_nth n) c = Some c'" by (simp add: subscribe_nth_def c'_def)
  ultimately show ?thesis by blast
qed

lemma idle_connection_reached:
  "n \<le> MAX_SUBSCRIPTIONS_PER_CONNECTION \<Longrightarrow>
   \<exists>c. run_events connection_exec (map subscribe_nth [0..<n]) client_event_connection_new = Some c \<and> idle_after n c"
proof (induction n)
  case 0
  then show ?case by (simp add: idle_after_def client_event_connection_new_def)
next
  case (Suc n)
  then obtain c :: "'a client_event_connection" where
    "run_events connection_exec (map subscribe_nth [0..<n]) client_event_connection_new = Some c" "idle_after n c"
    by auto
  then show ?case using idle_after_subscribe [of n c] Suc.prems by (auto simp: run_events_append)
qed

text \<open>
  So a client that opens the 64 subscriptions it is allowed, all of them accepted and serving,
  never receives an event on any of them.
\<close>

theorem idle_connection_refuses_everything_witness:
  "\<exists>c :: nat client_event_connection.
     run_events connection_exec (map subscribe_nth [0..<64]) client_event_connection_new = Some c \<and>
     length (ec_slots c) = 64 \<and>
     (\<forall>sid slot. om_get (ec_slots c) sid = Some slot \<longrightarrow> slot_serves False slot \<and>
        fst (try_push free_locks False sid ''owner'' ''ready'' 0 1 0 (sl_mailbox slot) (ec_pool c)) \<noteq> Inr ())"
proof -
  obtain c :: "nat client_event_connection" where
    c: "run_events connection_exec (map subscribe_nth [0..<64]) client_event_connection_new = Some c" "idle_after 64 c"
    using idle_connection_reached [of 64] by (auto simp: mailbox_consts)
  then have "33 \<le> length (ec_slots c)" "rs_events (ec_pool c) = 0" "length (ec_slots c) = 64"
    "\<forall>sid slot. om_get (ec_slots c) sid = Some slot \<longrightarrow> slot_serves False slot"
    by (simp_all add: idle_after_def)
  then show ?thesis using idle_connection_refuses_everything [OF c(1)] c(1) by blast
qed

definition first_slot :: "nat client_event_slot" where
  "first_slot = \<lparr>sl_mailbox = (mailbox_with_pool default_policy (nth_subscription 0))\<lparr>mb_slots :=
     [(nth_subscription 0, \<lparr>gs_owner = ''owner'', gs_name = ''ready'', gs_bit = False\<rparr>)]\<rparr>, sl_active = True\<rparr>"

lemma first_subscription:
  "\<exists>c. run_events fitting_exec [subscribe_nth 0] client_event_connection_new = Some c \<and>
     om_get (ec_slots c) (nth_subscription 0) = Some first_slot \<and> \<not> ec_closing c"
  by (simp add: fitting_exec_def subscribe_nth_def client_event_connection_new_def reserve_room_def pool_total_def
      mailbox_consts subscribe_mailbox_def compile_subjects_def om_contains_def saturating_sub_def provisional_slot_def
      register_gap_slot_def put_mailbox_def subscribe_resume_def open_router_def first_slot_def om_modify_def mailbox_with_pool_def)


section \<open>Refused events leave a gap\<close>

definition gap_pending :: "string \<Rightarrow> 'p client_event_mailbox \<Rightarrow> bool" where
  "gap_pending sid m \<longleftrightarrow> (case om_get (mb_slots m) sid of None \<Rightarrow> False | Some g \<Rightarrow> gs_bit g)"

lemma mark_gap_keeps_gap: "gap_pending sid m \<Longrightarrow> gap_pending sid (mark_gap held k owner name m)"
  by (auto simp: gap_pending_def mark_gap_def signal_wake_def Let_def split: option.splits)

text \<open>
  The router sets the registered bit itself, so a refused delivery leaves the gap pending even
  when every lock of the mailbox was held.
\<close>

lemma refused_delivery_gap:
  assumes "deliver_to_holder locks held closing sid owner name payload sz now m r = (Inl status, m', r')"
    and "om_get (mb_slots m) sid \<noteq> None"
  shows "gap_pending sid m'"
proof -
  obtain res m1 r1 where p: "try_push locks closing sid owner name payload sz now m r = (res, m1, r1)"
    by (metis prod_cases3)
  have "om_get (mb_slots m1) sid \<noteq> None"
    using p assms(2) by (auto simp: try_push_def mark_gap_def signal_wake_def Let_def split: if_splits)
  moreover have "m' = mark_gap held sid owner name (m1\<lparr>mb_slots := om_modify sid (gs_bit_update (\<lambda>_. True)) (mb_slots m1)\<rparr>)"
    using assms(1) p by (cases res) (auto simp: deliver_to_holder_def)
  moreover from calculation(1) have "gap_pending sid (m1\<lparr>mb_slots := om_modify sid (gs_bit_update (\<lambda>_. True)) (mb_slots m1)\<rparr>)"
    by (auto simp: gap_pending_def)
  ultimately show ?thesis by (simp add: mark_gap_keeps_gap)
qed

text \<open>A pending gap is the next thing a reader takes.\<close>

lemma pending_gap_taken:
  assumes "gap_pending sid m" and "mailbox_ok sid m" and "\<not> is_retired closing m" and "\<not> lk_slots (tv_locks (view n))"
    and "om_ok (mb_slots m)"
  shows "\<exists>g m'. om_get (mb_slots m) sid = Some g \<and>
    take_ready_event view n closing m r = (Some (EventGap sid (gs_owner g) (gs_name g)), m', r)"
proof -
  obtain g where g: "om_get (mb_slots m) sid = Some g" "gs_bit g"
    using assms(1) by (auto simp: gap_pending_def split: option.splits)
  then obtain k s where e: "find (\<lambda>e. gs_bit (snd e)) (mb_slots m) = Some (k, s)"
    using find_None_iff [of "\<lambda>e. gs_bit (snd e)" "mb_slots m"] map_of_SomeD [OF g(1)] by fastforce
  then have mem: "(k, s) \<in> set (mb_slots m)" by (auto simp: find_Some_iff)
  then have "k = sid" using assms(2) by (force simp: mailbox_ok_def)
  then have "s = g" using mem g(1) om_in_set_iff [OF assms(5), of k s] by simp
  then show ?thesis using g(1) e assms(3,4) \<open>k = sid\<close>
    by (subst take_ready_event.simps) (simp add: take_gap_def Let_def)
qed

section \<open>Subject filters\<close>

text \<open>The filters that compile, and the set they compile to.\<close>

lemma compile_subjects_from_iff:
  "aggregate \<le> MAX_SUBJECT_AGGREGATE_BYTES \<Longrightarrow>
   compile_subjects_from compiled aggregate ss = Inr out \<longleftrightarrow>
     (\<forall>s \<in> set ss. s \<noteq> [] \<and> set s \<inter> set GLOB_CHARS = {} \<and> length s \<le> MAX_SUBJECT_UTF8_BYTES) \<and>
     aggregate + sum_list (map length ss) \<le> MAX_SUBJECT_AGGREGATE_BYTES \<and> distinct ss \<and>
     set ss \<inter> set compiled = {} \<and> out = fold os_insert ss compiled"
proof (induction ss arbitrary: compiled aggregate)
  case (Cons s ss)
  have exact: "saturating_add aggregate (length s) \<le> MAX_SUBJECT_AGGREGATE_BYTES \<longleftrightarrow>
      aggregate + length s \<le> MAX_SUBJECT_AGGREGATE_BYTES"
    by (rule saturating_add_le_iff) (simp add: MAX_SUBJECT_AGGREGATE_BYTES_def u64_max_def)
  show ?case
  proof (cases "aggregate + length s \<le> MAX_SUBJECT_AGGREGATE_BYTES")
    case True
    then have "saturating_add aggregate (length s) = aggregate + length s"
      by (simp add: saturating_add_def MAX_SUBJECT_AGGREGATE_BYTES_def u64_max_def)
    then show ?thesis using True Cons.IH [OF True] by (auto simp: Let_def list_ex_iff not_less)
  next
    case False
    then show ?thesis using exact by (auto simp: Let_def not_le)
  qed
qed auto

lemma compile_subjects_iff:
  "compile_subjects ss = Inr out \<longleftrightarrow> length ss \<le> MAX_SUBJECTS_PER_SUBSCRIPTION \<and>
     (\<forall>s \<in> set ss. s \<noteq> [] \<and> set s \<inter> set GLOB_CHARS = {} \<and> length s \<le> MAX_SUBJECT_UTF8_BYTES) \<and>
     sum_list (map length ss) \<le> MAX_SUBJECT_AGGREGATE_BYTES \<and> distinct ss \<and> out = fold os_insert ss []"
  by (auto simp: compile_subjects_def compile_subjects_from_iff)

end
