(* ===== verification/Entity_Delivery.thy ===== *)
theory Entity_Delivery
  imports Unix_Frame Shared_View
begin

text \<open>
  JSON with a byte limit (\<open>bounded_json.rs\<close>) and the encoded entity frames that keep a charge on
  the shared byte budget (\<open>entity_delivery.rs\<close>).  What the serializer does with a writer is the
  buffers it hands over, in order, and whether it then fails by itself.  A prepared delivery is its
  container and its charge.
\<close>

section \<open>Bounded JSON\<close>

datatype encode_error = EncodeTooLarge | EncodeSerialize

type_synonym serialization = "string list \<times> bool"

text \<open>The capped writers: the bytes, or their number, and whether a buffer went over the limit.\<close>

fun capped_vec_write :: "usize \<Rightarrow> string list \<Rightarrow> string \<Rightarrow> string \<times> bool" where
  "capped_vec_write limit [] bytes = (bytes, False)"
| "capped_vec_write limit (buffer # buffers) bytes =
     (if saturating_sub limit (length bytes) < length buffer then (bytes, True)
      else capped_vec_write limit buffers (bytes @ buffer))"

definition bounded_encode :: "serialization \<Rightarrow> usize \<Rightarrow> encode_error + string" where
  "bounded_encode v limit =
     (let (bytes, exceeded) = capped_vec_write limit (fst v) []
      in if exceeded then Inl EncodeTooLarge else if snd v then Inl EncodeSerialize else Inr bytes)"

fun capped_count_write :: "usize \<Rightarrow> string list \<Rightarrow> usize \<Rightarrow> usize \<times> bool" where
  "capped_count_write limit [] bytes = (bytes, False)"
| "capped_count_write limit (buffer # buffers) bytes =
     (if saturating_sub limit bytes < length buffer then (bytes, True)
      else capped_count_write limit buffers (bytes + length buffer))"

definition encoded_len :: "serialization \<Rightarrow> usize \<Rightarrow> encode_error + usize" where
  "encoded_len v limit =
     (let (bytes, exceeded) = capped_count_write limit (fst v) 0
      in if exceeded then Inl EncodeTooLarge else if snd v then Inl EncodeSerialize else Inr bytes)"

lemma capped_count_is_length:
  "capped_count_write limit buffers (length bytes) = map_prod length id (capped_vec_write limit buffers bytes)"
proof (induction buffers arbitrary: bytes)
  case (Cons b bs)
  then show ?case using Cons [of "bytes @ b"] by simp
qed simp

lemma capped_vec_write_exact:
  "length bytes \<le> limit \<Longrightarrow>
   (case capped_vec_write limit buffers bytes of
      (out, exceeded) \<Rightarrow>
        (exceeded \<longleftrightarrow> limit < length bytes + length (concat buffers)) \<and>
        (\<not> exceeded \<longrightarrow> out = bytes @ concat buffers))"
proof (induction buffers arbitrary: bytes)
  case (Cons b bs)
  show ?case
  proof (cases "saturating_sub limit (length bytes) < length b")
    case True
    then show ?thesis by (simp add: saturating_sub_def)
  next
    case False
    then have "length (bytes @ b) \<le> limit" using Cons.prems by (simp add: saturating_sub_def)
    from Cons.IH [OF this] show ?thesis using False by (simp add: add.assoc split: prod.splits)
  qed
qed simp

text \<open>The measurement agrees with the encoding, and the encoding is cut off exactly at the limit.\<close>

theorem encoded_len_eq: "encoded_len v limit = map_sum id length (bounded_encode v limit)"
  using capped_count_is_length [of limit "fst v" "[]"]
  by (auto simp: encoded_len_def bounded_encode_def split: prod.splits)

theorem bounded_encode_eq:
  "bounded_encode v limit =
     (if limit < length (concat (fst v)) then Inl EncodeTooLarge
      else if snd v then Inl EncodeSerialize else Inr (concat (fst v)))"
  using capped_vec_write_exact [of "[]" limit "fst v"]
  by (auto simp: bounded_encode_def split: prod.splits)

section \<open>Prepared deliveries\<close>

definition CONTROL_HEADER_BYTES :: usize where "CONTROL_HEADER_BYTES = UNIX_FRAME_LENGTH_PREFIX_BYTES + 1"
definition DAEMON_MAX_FRAME_BYTES :: usize where "DAEMON_MAX_FRAME_BYTES = MAX_CONTROL_RESPONSE_BYTES"
definition HOST_PREPARED_BYTE_CAPACITY :: usize where "HOST_PREPARED_BYTE_CAPACITY = 8 * 1024 * 1024"

record prepared_entity_delivery =
  pe_container :: string
  pe_charge :: usize

datatype prepare_entity_error = PrepareTooLarge | PrepareSerialize | PrepareCapacity

text \<open>No value is a failed assertion.  A charge whose container is refused is dropped.\<close>

definition prepare_entity ::
  "usize \<Rightarrow> serialization \<Rightarrow> shared_view_budget \<Rightarrow>
   ((prepare_entity_error + prepared_entity_delivery) \<times> shared_view_budget) option"
where
  "prepare_entity reserved_prepared_bytes v b =
     (if reserved_prepared_bytes < HOST_PREPARED_BYTE_CAPACITY then None
      else Some
        (case bounded_encode v DAEMON_MAX_FRAME_BYTES of
           Inl EncodeTooLarge \<Rightarrow> (Inl PrepareTooLarge, b)
         | Inl EncodeSerialize \<Rightarrow> (Inl PrepareSerialize, b)
         | Inr json \<Rightarrow>
             (case svb_reserve (length json + CONTROL_HEADER_BYTES) b of
                (Inl _, b) \<Rightarrow> (Inl PrepareCapacity, b)
              | (Inr charge, b) \<Rightarrow>
                  (case encode_control_json json of
                     Inl _ \<Rightarrow> (Inl PrepareSerialize, svb_drop_charge charge b)
                   | Inr container \<Rightarrow> (Inr \<lparr>pe_container = container, pe_charge = charge\<rparr>, b)))))"

definition pe_json :: "prepared_entity_delivery \<Rightarrow> string" where
  "pe_json d = drop CONTROL_HEADER_BYTES (pe_container d)"

text \<open>The container never fails to encode after the JSON fitted, and the charge is its length.\<close>

theorem prepare_entity_exact:
  assumes "prepare_entity n v b = Some (Inr d, b')"
  shows "pe_json d = concat (fst v) \<and> pe_container d = framed (UNIX_CONTAINER_CONTROL # concat (fst v)) \<and>
    pe_charge d = length (pe_container d) \<and> b' = b\<lparr>svb_used := svb_used b + pe_charge d\<rparr> \<and>
    svb_used b' \<le> svb_capacity b'"
  using assms
  by (auto simp: prepare_entity_def bounded_encode_eq svb_reserve_def reserve_next_Inr encode_control_json_def
      pe_json_def CONTROL_HEADER_BYTES_def UNIX_FRAME_LENGTH_PREFIX_BYTES_def
      split: if_splits sum.splits prod.splits encode_error.splits)

theorem prepare_entity_refusal_keeps_budget:
  assumes "prepare_entity n v b = Some (Inl e, b')"
  shows "b' = b"
  using assms
  by (auto simp: prepare_entity_def bounded_encode_eq svb_reserve_def encode_control_json_def
      DAEMON_MAX_FRAME_BYTES_def split: if_splits sum.splits prod.splits encode_error.splits)

end
