(* ===== verification/Mux_Write.thy ===== *)
theory Mux_Write
  imports Event_Mailbox Entity_Delivery
begin

text \<open>
  What the Hub writes to a Unix control socket (\<open>transport/unix/mux_write.rs\<close>,
  \<open>host_write_order.rs\<close>): one frame in flight, resumed across partial writes, a bounded lane of
  responses, a lane of entity frames, and the events of the connection's close ledger
  (\<open>Closed_Events\<close>) and of its package event mailbox (\<open>Event_Mailbox\<close>), drawn when their turn
  comes.

  The JSON serializer is the parameter \<open>to_json\<close>.  The writer is the sequence of what its polls
  will meet.  While a write is awaited other threads change the ledger and the mailbox; what they
  did when the next frame is chosen is \<open>mv_interfere\<close>.  The senders of delivery acknowledgements
  and the delivery receipts are identities, and the ones that were used are logged.
\<close>

section \<open>Frames and lanes\<close>

definition PENDING_RESPONSE_BYTE_CAPACITY :: usize where "PENDING_RESPONSE_BYTE_CAPACITY = 8 * 1024 * 1024"
definition MAX_HOST_FRAMES_PER_FLUSH_TURN :: nat where "MAX_HOST_FRAMES_PER_FLUSH_TURN = 2"
definition DAEMON_CLIENT_WRITE_TIMEOUT :: nat where "DAEMON_CLIENT_WRITE_TIMEOUT = 2000"

datatype 'p server_frame =
    HelloAckFrame 'p | ResponseFrame string 'p | EventFrame "'p daemon_event" | EntityFrame 'p | CloseFrame 'p

datatype host_control_class = HostControl | HostEvent

definition next_ready_host_control_class :: "host_control_class option \<Rightarrow> bool \<Rightarrow> bool \<Rightarrow> host_control_class option" where
  "next_ready_host_control_class last_class control_ready event_ready =
     (case (control_ready, event_ready) of
        (False, False) \<Rightarrow> None
      | (True, False) \<Rightarrow> Some HostControl
      | (False, True) \<Rightarrow> Some HostEvent
      | (True, True) \<Rightarrow>
          (case last_class of Some HostControl \<Rightarrow> Some HostEvent | Some HostEvent \<Rightarrow> Some HostControl | None \<Rightarrow> Some HostControl))"

datatype pending_mux_class = EventClass | ResponseClass

datatype pending_mux_bytes = ControlBytes string | PreparedEntity prepared_entity_delivery

definition mux_total_len :: "pending_mux_bytes \<Rightarrow> usize" where
  "mux_total_len b = (case b of ControlBytes bytes \<Rightarrow> length bytes | PreparedEntity d \<Rightarrow> length (pe_container d))"

definition mux_remaining :: "pending_mux_bytes \<Rightarrow> usize \<Rightarrow> string" where
  "mux_remaining b offset =
     (case b of ControlBytes bytes \<Rightarrow> drop offset bytes | PreparedEntity d \<Rightarrow> drop offset (pe_container d))"

record pending_mux_frame =
  pf_bytes :: pending_mux_bytes
  pf_offset :: usize
  pf_class :: pending_mux_class
  pf_delivery_ack :: "nat option"
  pf_delivery_receipt :: "nat option"
  pf_close_after :: bool

record mux_write_state =
  ws_pending :: "pending_mux_frame option"
  ws_queued_control :: "pending_mux_frame list"
  ws_queued_events :: "pending_mux_frame list"
  ws_pending_response_bytes :: usize
  ws_last_host_class :: "host_control_class option"

definition mux_write_state_new :: mux_write_state where
  "mux_write_state_new =
     \<lparr>ws_pending = None, ws_queued_control = [], ws_queued_events = [], ws_pending_response_bytes = 0,
      ws_last_host_class = None\<rparr>"

definition has_pending :: "mux_write_state \<Rightarrow> bool" where
  "has_pending st \<longleftrightarrow> ws_pending st \<noteq> None \<or> ws_queued_control st \<noteq> [] \<or> ws_queued_events st \<noteq> []"

definition has_close_after_pending :: "mux_write_state \<Rightarrow> bool" where
  "has_close_after_pending st \<longleftrightarrow>
     (case ws_pending st of None \<Rightarrow> False | Some f \<Rightarrow> pf_close_after f) \<or> list_ex pf_close_after (ws_queued_control st)"

definition has_pending_response :: "mux_write_state \<Rightarrow> bool" where
  "has_pending_response st \<longleftrightarrow>
     (case ws_pending st of None \<Rightarrow> False | Some f \<Rightarrow> pf_class f = ResponseClass) \<or> ws_queued_control st \<noteq> []"

text \<open>\<open>MuxPanic\<close> is a failed \<open>expect\<close>.\<close>

datatype mux_error =
    MuxTransport transport_error | ResponseBackpressured usize usize usize
  | MuxWriteZero | MuxIo | MuxTimedOut | MuxPanic

definition control_mux_frame ::
  "('p server_frame \<Rightarrow> string option) \<Rightarrow> 'p server_frame \<Rightarrow> pending_mux_class \<Rightarrow> nat option \<Rightarrow> bool \<Rightarrow>
   mux_error + pending_mux_frame"
where
  "control_mux_frame to_json frame cls delivery_ack close_after =
     (case encode_control_frame (to_json frame) of
        Inl e \<Rightarrow> Inl (MuxTransport e)
      | Inr bytes \<Rightarrow>
          Inr \<lparr>pf_bytes = ControlBytes bytes, pf_offset = 0, pf_class = cls, pf_delivery_ack = delivery_ack,
               pf_delivery_receipt = None, pf_close_after = close_after\<rparr>)"

definition enqueue_response_frame :: "pending_mux_frame \<Rightarrow> mux_write_state \<Rightarrow> (mux_error + unit) \<times> mux_write_state" where
  "enqueue_response_frame frame st =
     (let frame_bytes = mux_total_len (pf_bytes frame)
      in if PENDING_RESPONSE_BYTE_CAPACITY < saturating_add (ws_pending_response_bytes st) frame_bytes then
           (Inl (ResponseBackpressured (ws_pending_response_bytes st) frame_bytes PENDING_RESPONSE_BYTE_CAPACITY), st)
         else
           (Inr (), st\<lparr>ws_pending_response_bytes := ws_pending_response_bytes st + frame_bytes,
                       ws_queued_control := ws_queued_control st @ [frame]\<rparr>))"

definition enqueue_response_with_receipt ::
  "('p server_frame \<Rightarrow> string option) \<Rightarrow> string \<Rightarrow> 'p \<Rightarrow> nat option \<Rightarrow> bool \<Rightarrow> nat option \<Rightarrow> mux_write_state \<Rightarrow>
   (mux_error + unit) \<times> mux_write_state"
where
  "enqueue_response_with_receipt to_json request_id response delivery_ack close_after delivery_receipt st =
     (case control_mux_frame to_json (ResponseFrame request_id response) ResponseClass delivery_ack close_after of
        Inl e \<Rightarrow> (Inl e, st)
      | Inr frame \<Rightarrow> enqueue_response_frame (frame\<lparr>pf_delivery_receipt := delivery_receipt\<rparr>) st)"

definition enqueue_response ::
  "('p server_frame \<Rightarrow> string option) \<Rightarrow> string \<Rightarrow> 'p \<Rightarrow> nat option \<Rightarrow> bool \<Rightarrow> mux_write_state \<Rightarrow>
   (mux_error + unit) \<times> mux_write_state"
where
  "enqueue_response to_json request_id response delivery_ack close_after st =
     enqueue_response_with_receipt to_json request_id response delivery_ack close_after None st"

definition enqueue_encoded_response ::
  "string \<Rightarrow> nat option \<Rightarrow> bool \<Rightarrow> mux_write_state \<Rightarrow> (mux_error + unit) \<times> mux_write_state"
where
  "enqueue_encoded_response encoded_frame delivery_ack close_after st =
     (case encode_control_json encoded_frame of
        Inl e \<Rightarrow> (Inl (MuxTransport e), st)
      | Inr bytes \<Rightarrow>
          enqueue_response_frame
            \<lparr>pf_bytes = ControlBytes bytes, pf_offset = 0, pf_class = ResponseClass, pf_delivery_ack = delivery_ack,
             pf_delivery_receipt = None, pf_close_after = close_after\<rparr> st)"

datatype 'p entity_delivery = TypedEntity 'p | EncodedEntity prepared_entity_delivery

definition enqueue_entity_frame ::
  "('p server_frame \<Rightarrow> string option) \<Rightarrow> 'p entity_delivery \<Rightarrow> mux_write_state \<Rightarrow> (mux_error + unit) \<times> mux_write_state"
where
  "enqueue_entity_frame to_json entity st =
     (case entity of
        EncodedEntity d \<Rightarrow>
          (Inr (), st\<lparr>ws_queued_events := ws_queued_events st @
             [\<lparr>pf_bytes = PreparedEntity d, pf_offset = 0, pf_class = EventClass, pf_delivery_ack = None,
               pf_delivery_receipt = None, pf_close_after = False\<rparr>]\<rparr>)
      | TypedEntity entity \<Rightarrow>
          (case control_mux_frame to_json (EntityFrame entity) EventClass None False of
             Inl e \<Rightarrow> (Inl e, st)
           | Inr frame \<Rightarrow> (Inr (), st\<lparr>ws_queued_events := ws_queued_events st @ [frame]\<rparr>)))"

section \<open>Resumable writes\<close>

datatype write_poll = Accepts nat | WouldBlock | WriteFails | NotReady

record mux_io =
  io_polls :: "nat \<Rightarrow> write_poll"
  io_next :: nat
  io_wire :: string
  io_acks :: "nat list"
  io_receipts :: "nat list"

definition mux_io_new :: "(nat \<Rightarrow> write_poll) \<Rightarrow> mux_io" where
  "mux_io_new polls = \<lparr>io_polls = polls, io_next = 0, io_wire = [], io_acks = [], io_receipts = []\<rparr>"

text \<open>One poll takes at most what it was offered; \<open>NotReady\<close> is a poll that the timeout ends.\<close>

definition poll_write :: "string \<Rightarrow> mux_io \<Rightarrow> write_poll \<times> mux_io" where
  "poll_write buffer io =
     (case io_polls io (io_next io) of
        Accepts n \<Rightarrow>
          (Accepts (length (take n buffer)),
           io\<lparr>io_next := io_next io + 1, io_wire := io_wire io @ take n buffer\<rparr>)
      | poll \<Rightarrow> (poll, io\<lparr>io_next := io_next io + 1\<rparr>))"

datatype mux_write = Written | WritePending

function write_frame_bytes_resumable ::
  "pending_mux_frame \<Rightarrow> mux_io \<Rightarrow> (mux_error + mux_write) \<times> pending_mux_frame \<times> mux_io"
where
  "write_frame_bytes_resumable frame io =
     (if pf_offset frame < mux_total_len (pf_bytes frame) then
        case poll_write (mux_remaining (pf_bytes frame) (pf_offset frame)) io of
          (Accepts written, io) \<Rightarrow>
            if written = 0 then (Inl MuxWriteZero, frame, io)
            else write_frame_bytes_resumable (frame\<lparr>pf_offset := pf_offset frame + written\<rparr>) io
        | (WouldBlock, io) \<Rightarrow> (Inr WritePending, frame, io)
        | (WriteFails, io) \<Rightarrow> (Inl MuxIo, frame, io)
        | (NotReady, io) \<Rightarrow> (Inr WritePending, frame, io)
      else (Inr Written, frame, io))"
  by pat_completeness auto

termination
  by (relation "measure (\<lambda>(frame, _). mux_total_len (pf_bytes frame) - pf_offset frame)") auto

declare write_frame_bytes_resumable.simps [simp del]

fun option_list :: "'a option \<Rightarrow> 'a list" where
  "option_list None = []"
| "option_list (Some x) = [x]"

text \<open>What happens when the frame in flight is written: its charge, its acknowledgement, its receipt.\<close>

definition complete_frame_write ::
  "pending_mux_frame \<Rightarrow> mux_write_state \<Rightarrow> mux_io \<Rightarrow> (mux_error + mux_write) \<times> mux_write_state \<times> mux_io"
where
  "complete_frame_write frame st io =
     (let st = st\<lparr>ws_pending := None\<rparr>
      in case (if pf_class frame = ResponseClass
               then checked_sub (ws_pending_response_bytes st) (mux_total_len (pf_bytes frame))
               else Some (ws_pending_response_bytes st)) of
           None \<Rightarrow> (Inl MuxPanic, st, io)
         | Some bytes \<Rightarrow>
             (Inr Written, st\<lparr>ws_pending_response_bytes := bytes\<rparr>,
              io\<lparr>io_acks := io_acks io @ option_list (pf_delivery_ack frame),
                 io_receipts := io_receipts io @ option_list (pf_delivery_receipt frame)\<rparr>))"

definition resume_pending_mux_write ::
  "mux_write_state \<Rightarrow> mux_io \<Rightarrow> (mux_error + mux_write) \<times> mux_write_state \<times> mux_io"
where
  "resume_pending_mux_write st io =
     (case ws_pending st of
        None \<Rightarrow> (Inr Written, st, io)
      | Some frame \<Rightarrow>
          (case write_frame_bytes_resumable frame io of
             (Inl e, frame, io) \<Rightarrow> (Inl e, st\<lparr>ws_pending := Some frame\<rparr>, io)
           | (Inr WritePending, frame, io) \<Rightarrow> (Inr WritePending, st\<lparr>ws_pending := Some frame\<rparr>, io)
           | (Inr Written, frame, io) \<Rightarrow> complete_frame_write frame st io))"

section \<open>The events of the connection\<close>

record 'p event_source =
  es_ledger :: "'p closed_event_ledger"
  es_mailbox :: "'p client_event_mailbox option"
  es_closing :: bool
  es_pool :: connection_residency

text \<open>What one choice of a frame meets: the other threads, the locks it tries, the clock.\<close>

record 'p mux_view =
  mv_interfere :: "'p event_source \<Rightarrow> 'p event_source"
  mv_slots_held :: bool
  mv_inner_held :: bool
  mv_take :: "nat \<Rightarrow> take_view"

definition source_ready :: "'p mux_view \<Rightarrow> 'p event_source \<Rightarrow> bool" where
  "source_ready v src \<longleftrightarrow>
     has_pending_event (es_ledger src) \<or>
     (case es_mailbox src of None \<Rightarrow> False | Some m \<Rightarrow> has_ready_event (mv_slots_held v) (mv_inner_held v) m)"

definition source_take :: "'p mux_view \<Rightarrow> 'p event_source \<Rightarrow> 'p daemon_event option \<times> 'p event_source" where
  "source_take v src =
     (case pop_pending_event (es_ledger src) of
        (Some event, l) \<Rightarrow> (Some event, src\<lparr>es_ledger := l\<rparr>)
      | (None, _) \<Rightarrow>
          (case es_mailbox src of
             None \<Rightarrow> (None, src)
           | Some m \<Rightarrow>
               (case take_ready_event (mv_take v) 0 (es_closing src) m (es_pool src) of
                  (event, m, pool) \<Rightarrow> (event, src\<lparr>es_mailbox := Some m, es_pool := pool\<rparr>))))"

definition next_event_frame ::
  "('p server_frame \<Rightarrow> string option) \<Rightarrow> 'p mux_view \<Rightarrow> mux_write_state \<Rightarrow> 'p event_source \<Rightarrow>
   (mux_error + pending_mux_frame option) \<times> mux_write_state \<times> 'p event_source"
where
  "next_event_frame to_json v st src =
     (case ws_queued_events st of
        frame # rest \<Rightarrow> (Inr (Some frame), st\<lparr>ws_queued_events := rest\<rparr>, src)
      | [] \<Rightarrow>
          (case source_take v src of
             (None, src) \<Rightarrow> (Inr None, st, src)
           | (Some event, src) \<Rightarrow>
               (case control_mux_frame to_json (EventFrame event) EventClass None False of
                  Inl e \<Rightarrow> (Inl e, st, src)
                | Inr frame \<Rightarrow> (Inr (Some frame), st, src))))"

section \<open>Flushing\<close>

type_synonym 'p flushed = "(mux_error + unit) \<times> mux_write_state \<times> mux_io \<times> 'p event_source"

definition start_frame ::
  "host_control_class \<Rightarrow> pending_mux_frame \<Rightarrow> mux_write_state \<Rightarrow> mux_write_state"
where
  "start_frame cls frame st = st\<lparr>ws_last_host_class := Some cls, ws_pending := Some frame\<rparr>"

text \<open>The loop of one turn; the first argument is how many host frames it may still start.\<close>

primrec flush_loop ::
  "nat \<Rightarrow> ('p server_frame \<Rightarrow> string option) \<Rightarrow> (nat \<Rightarrow> 'p mux_view) \<Rightarrow> mux_write_state \<Rightarrow> mux_io \<Rightarrow>
   'p event_source \<Rightarrow> 'p flushed"
where
  "flush_loop 0 to_json views st io src = (Inr (), st, io, src)"
| "flush_loop (Suc n) to_json views st io src =
     (let v = views n;
          src = mv_interfere v src;
          control_ready = (ws_queued_control st \<noteq> []);
          event_ready = (ws_queued_events st \<noteq> [] \<or> source_ready v src)
      in case next_ready_host_control_class (ws_last_host_class st) control_ready event_ready of
           None \<Rightarrow> (Inr (), st, io, src)
         | Some HostControl \<Rightarrow>
             (case ws_queued_control st of
                [] \<Rightarrow> (Inr (), st, io, src)
              | frame # rest \<Rightarrow>
                  (case resume_pending_mux_write (start_frame HostControl frame (st\<lparr>ws_queued_control := rest\<rparr>)) io of
                     (Inl e, st, io) \<Rightarrow> (Inl e, st, io, src)
                   | (Inr WritePending, st, io) \<Rightarrow> (Inr (), st, io, src)
                   | (Inr Written, st, io) \<Rightarrow> flush_loop n to_json views st io src))
         | Some HostEvent \<Rightarrow>
             (case next_event_frame to_json v st src of
                (Inl e, st, src) \<Rightarrow> (Inl e, st, io, src)
              | (Inr None, st, src) \<Rightarrow> (Inr (), st, io, src)
              | (Inr (Some frame), st, src) \<Rightarrow>
                  (case resume_pending_mux_write (start_frame HostEvent frame st) io of
                     (Inl e, st, io) \<Rightarrow> (Inl e, st, io, src)
                   | (Inr WritePending, st, io) \<Rightarrow> (Inr (), st, io, src)
                   | (Inr Written, st, io) \<Rightarrow> flush_loop n to_json views st io src)))"

definition flush_unix_mux_writes ::
  "('p server_frame \<Rightarrow> string option) \<Rightarrow> (nat \<Rightarrow> 'p mux_view) \<Rightarrow> mux_write_state \<Rightarrow> mux_io \<Rightarrow> 'p event_source \<Rightarrow> 'p flushed"
where
  "flush_unix_mux_writes to_json views st io src =
     (case resume_pending_mux_write st io of
        (Inl e, st, io) \<Rightarrow> (Inl e, st, io, src)
      | (Inr WritePending, st, io) \<Rightarrow> (Inr (), st, io, src)
      | (Inr Written, st, io) \<Rightarrow> flush_loop MAX_HOST_FRAMES_PER_FLUSH_TURN to_json views st io src)"

text \<open>
  The loop until no response is left; \<open>elapsed n\<close> is the time since the start, in milliseconds,
  when the \<open>n\<close>-th turn is over.  Not returning is no value.
\<close>

partial_function (option) flush_pending_responses ::
  "('p server_frame \<Rightarrow> string option) \<Rightarrow> (nat \<Rightarrow> nat \<Rightarrow> 'p mux_view) \<Rightarrow> (nat \<Rightarrow> nat) \<Rightarrow> nat \<Rightarrow>
   mux_write_state \<Rightarrow> mux_io \<Rightarrow> 'p event_source \<Rightarrow> 'p flushed option"
where
  "flush_pending_responses to_json views elapsed n st io src =
     (case flush_unix_mux_writes to_json (views n) st io src of
        (Inl e, st, io, src) \<Rightarrow> Some (Inl e, st, io, src)
      | (Inr _, st, io, src) \<Rightarrow>
          if \<not> has_pending_response st then Some (Inr (), st, io, src)
          else if DAEMON_CLIENT_WRITE_TIMEOUT \<le> elapsed n then Some (Inl MuxTimedOut, st, io, src)
          else flush_pending_responses to_json views elapsed (n + 1) st io src)"

section \<open>Schedules\<close>

text \<open>
  A connection task's calls in any order.  The first error ends the task.  \<open>mw_responses\<close> logs
  the responses that were accepted.
\<close>

record 'p mux_world =
  mw_state :: mux_write_state
  mw_io :: mux_io
  mw_source :: "'p event_source"
  mw_failed :: "mux_error option"
  mw_responses :: "pending_mux_frame list"

definition mux_world_new :: "(nat \<Rightarrow> write_poll) \<Rightarrow> 'p event_source \<Rightarrow> 'p mux_world" where
  "mux_world_new polls src =
     \<lparr>mw_state = mux_write_state_new, mw_io = mux_io_new polls, mw_source = src, mw_failed = None, mw_responses = []\<rparr>"

datatype 'p mux_command =
    Respond string 'p "nat option" bool "nat option"
  | RespondEncoded string "nat option" bool
  | SendEntity 'p
  | SendPrepared usize serialization shared_view_budget
  | Flush "nat \<Rightarrow> 'p mux_view"
  | FlushResponses "nat \<Rightarrow> nat \<Rightarrow> 'p mux_view" "nat \<Rightarrow> nat"

definition mux_queued :: "(mux_error + unit) \<times> mux_write_state \<Rightarrow> 'p mux_world \<Rightarrow> 'p mux_world" where
  "mux_queued out w =
     (case out of
        (Inl e, st) \<Rightarrow> w\<lparr>mw_state := st, mw_failed := Some e\<rparr>
      | (Inr _, st) \<Rightarrow> w\<lparr>mw_state := st\<rparr>)"

definition mux_accepted :: "(mux_error + unit) \<times> mux_write_state \<Rightarrow> 'p mux_world \<Rightarrow> 'p mux_world" where
  "mux_accepted out w =
     (mux_queued out w)\<lparr>mw_responses := mw_responses w @
        (case out of (Inl _, _) \<Rightarrow> [] | (Inr _, st) \<Rightarrow> [last (ws_queued_control st)])\<rparr>"

definition mux_flushed :: "'p flushed \<Rightarrow> 'p mux_world \<Rightarrow> 'p mux_world" where
  "mux_flushed out w =
     (case out of
        (r, st, io, src) \<Rightarrow>
          w\<lparr>mw_state := st, mw_io := io, mw_source := src, mw_failed := (case r of Inl e \<Rightarrow> Some e | Inr _ \<Rightarrow> None)\<rparr>)"

fun exec_mux :: "('p server_frame \<Rightarrow> string option) \<Rightarrow> 'p mux_command \<Rightarrow> 'p mux_world \<Rightarrow> 'p mux_world option" where
  "exec_mux to_json (Respond request_id response ack close_after receipt) w =
     (if mw_failed w \<noteq> None then None
      else Some (mux_accepted (enqueue_response_with_receipt to_json request_id response ack close_after receipt (mw_state w)) w))"
| "exec_mux to_json (RespondEncoded json ack close_after) w =
     (if mw_failed w \<noteq> None then None
      else Some (mux_accepted (enqueue_encoded_response json ack close_after (mw_state w)) w))"
| "exec_mux to_json (SendEntity entity) w =
     (if mw_failed w \<noteq> None then None
      else Some (mux_queued (enqueue_entity_frame to_json (TypedEntity entity) (mw_state w)) w))"
| "exec_mux to_json (SendPrepared reserved v budget) w =
     (if mw_failed w \<noteq> None then None
      else case prepare_entity reserved v budget of
             Some (Inr d, _) \<Rightarrow> Some (mux_queued (enqueue_entity_frame to_json (EncodedEntity d) (mw_state w)) w)
           | _ \<Rightarrow> None)"
| "exec_mux to_json (Flush views) w =
     (if mw_failed w \<noteq> None then None
      else Some (mux_flushed (flush_unix_mux_writes to_json views (mw_state w) (mw_io w) (mw_source w)) w))"
| "exec_mux to_json (FlushResponses views elapsed) w =
     (if mw_failed w \<noteq> None then None
      else map_option (\<lambda>out. mux_flushed out w)
             (flush_pending_responses to_json views elapsed 0 (mw_state w) (mw_io w) (mw_source w)))"

section \<open>What the socket promises\<close>

text \<open>
  The specification: two lanes, at most one frame in flight, the frames that are done.  A frame
  starts only when none is in flight; a response does not start after a response while an entity
  frame waits, and an event does not start while a response waits, except after a response.
\<close>

definition frame_text :: "pending_mux_frame \<Rightarrow> string" where
  "frame_text f = (case pf_bytes f of ControlBytes bytes \<Rightarrow> bytes | PreparedEntity d \<Rightarrow> pe_container d)"

definition control_framed :: "string \<Rightarrow> bool" where
  "control_framed text_bytes \<longleftrightarrow>
     (\<exists>json. text_bytes = framed (UNIX_CONTAINER_CONTROL # json) \<and> length json \<le> MAX_CONTROL_RESPONSE_BYTES)"

definition fresh_frame :: "pending_mux_class \<Rightarrow> pending_mux_frame \<Rightarrow> bool" where
  "fresh_frame cls f \<longleftrightarrow> pf_offset f = 0 \<and> pf_class f = cls \<and> control_framed (frame_text f)"

definition responses_of :: "pending_mux_frame list \<Rightarrow> pending_mux_frame list" where
  "responses_of fs = filter (\<lambda>f. pf_class f = ResponseClass) fs"

record lanes =
  ln_control :: "pending_mux_frame list"
  ln_events :: "pending_mux_frame list"
  ln_flight :: "pending_mux_frame option"
  ln_done :: "pending_mux_frame list"
  ln_last :: "host_control_class option"
  ln_responses :: "pending_mux_frame list"

definition lanes_empty :: lanes where
  "lanes_empty = \<lparr>ln_control = [], ln_events = [], ln_flight = None, ln_done = [], ln_last = None, ln_responses = []\<rparr>"

definition frames_bytes :: "pending_mux_frame list \<Rightarrow> nat" where
  "frames_bytes fs = sum_list (map (length \<circ> frame_text) fs)"

definition response_bytes :: "lanes \<Rightarrow> nat" where
  "response_bytes a = frames_bytes (responses_of (option_list (ln_flight a)) @ ln_control a)"

inductive lane_step :: "lanes \<Rightarrow> lanes \<Rightarrow> bool" where
  respond: "fresh_frame ResponseClass f \<Longrightarrow>
    response_bytes a + length (frame_text f) \<le> PENDING_RESPONSE_BYTE_CAPACITY \<Longrightarrow>
    lane_step a (a\<lparr>ln_control := ln_control a @ [f], ln_responses := ln_responses a @ [f]\<rparr>)"
| notify: "fresh_frame EventClass f \<Longrightarrow> lane_step a (a\<lparr>ln_events := ln_events a @ [f]\<rparr>)"
| start_response: "ln_flight a = None \<Longrightarrow> ln_control a = f # fs \<Longrightarrow>
    \<not> (ln_last a = Some HostControl \<and> ln_events a \<noteq> []) \<Longrightarrow>
    lane_step a (a\<lparr>ln_control := fs, ln_flight := Some f, ln_last := Some HostControl\<rparr>)"
| start_entity: "ln_flight a = None \<Longrightarrow> ln_events a = f # fs \<Longrightarrow>
    ln_control a = [] \<or> ln_last a = Some HostControl \<Longrightarrow>
    lane_step a (a\<lparr>ln_events := fs, ln_flight := Some f, ln_last := Some HostEvent\<rparr>)"
| start_event: "ln_flight a = None \<Longrightarrow> ln_events a = [] \<Longrightarrow> fresh_frame EventClass f \<Longrightarrow>
    ln_control a = [] \<or> ln_last a = Some HostControl \<Longrightarrow>
    lane_step a (a\<lparr>ln_flight := Some f, ln_last := Some HostEvent\<rparr>)"
| finish: "ln_flight a = Some f \<Longrightarrow> lane_step a (a\<lparr>ln_flight := None, ln_done := ln_done a @ [f]\<rparr>)"

text \<open>No lane reorders or loses a frame, and the responses that are held are bounded.\<close>

definition lanes_ok :: "lanes \<Rightarrow> bool" where
  "lanes_ok a \<longleftrightarrow>
     list_all (fresh_frame ResponseClass) (ln_control a) \<and> list_all (fresh_frame EventClass) (ln_events a) \<and>
     list_all (\<lambda>f. fresh_frame (pf_class f) f) (ln_done a @ option_list (ln_flight a)) \<and>
     ln_responses a = responses_of (ln_done a @ option_list (ln_flight a)) @ ln_control a \<and>
     response_bytes a \<le> PENDING_RESPONSE_BYTE_CAPACITY"

lemma responses_of_simps [simp]:
  "responses_of [] = []"
  "responses_of (f # fs) = (if pf_class f = ResponseClass then f # responses_of fs else responses_of fs)"
  "responses_of (fs @ gs) = responses_of fs @ responses_of gs"
  by (simp_all add: responses_of_def)

lemma frames_bytes_simps [simp]:
  "frames_bytes [] = 0"
  "frames_bytes (f # fs) = length (frame_text f) + frames_bytes fs"
  "frames_bytes (fs @ gs) = frames_bytes fs + frames_bytes gs"
  by (simp_all add: frames_bytes_def)

lemma lanes_ok_step: "lanes_ok a \<Longrightarrow> lane_step a b \<Longrightarrow> lanes_ok b"
proof (erule lane_step.cases)
  fix f a'
  assume "lanes_ok a" "fresh_frame ResponseClass f" "a = a'"
    "response_bytes a' + length (frame_text f) \<le> PENDING_RESPONSE_BYTE_CAPACITY"
    "b = a'\<lparr>ln_control := ln_control a' @ [f], ln_responses := ln_responses a' @ [f]\<rparr>"
  then show "lanes_ok b" by (simp add: lanes_ok_def response_bytes_def)
qed (auto simp: lanes_ok_def response_bytes_def fresh_frame_def)

interpretation lanes: transition_invariant "\<lambda>a. a = lanes_empty" lane_step lanes_ok
proof
  show "lanes_ok a" if "a = lanes_empty" for a using that by (simp add: lanes_ok_def lanes_empty_def response_bytes_def)
qed (rule lanes_ok_step)

section \<open>Writes keep whole frames\<close>

lemma mux_total_len_eq: "mux_total_len (pf_bytes f) = length (frame_text f)"
  by (simp add: mux_total_len_def frame_text_def split: pending_mux_bytes.splits)

lemma mux_remaining_eq: "mux_remaining (pf_bytes f) n = drop n (frame_text f)"
  by (simp add: mux_remaining_def frame_text_def split: pending_mux_bytes.splits)

lemma frame_text_offset [simp]: "frame_text (f\<lparr>pf_offset := n\<rparr>) = frame_text f"
  by (simp add: frame_text_def)

text \<open>Where a write leaves the frame and the wire.\<close>

definition write_advance :: "pending_mux_frame \<Rightarrow> mux_io \<Rightarrow> pending_mux_frame \<Rightarrow> mux_io \<Rightarrow> bool" where
  "write_advance f io f' io' \<longleftrightarrow>
     (\<exists>n wire k. pf_offset f \<le> n \<and> n \<le> length (frame_text f) \<and> f' = f\<lparr>pf_offset := n\<rparr> \<and>
        io' = io\<lparr>io_next := k, io_wire := wire\<rparr> \<and>
        (\<forall>w. io_wire io = w @ take (pf_offset f) (frame_text f) \<longrightarrow> wire = w @ take n (frame_text f)))"

lemma write_advance_still: "pf_offset f \<le> length (frame_text f) \<Longrightarrow> write_advance f io f (io\<lparr>io_next := k\<rparr>)"
  unfolding write_advance_def
  by (intro exI [of _ "pf_offset f"] exI [of _ "io_wire io"] exI [of _ k]) simp

lemma write_advance_trans:
  assumes "write_advance f io f' io'" "write_advance f' io' f'' io''"
  shows "write_advance f io f'' io''"
proof -
  obtain n wire k where 1: "pf_offset f \<le> n" "n \<le> length (frame_text f)" "f' = f\<lparr>pf_offset := n\<rparr>"
    "io' = io\<lparr>io_next := k, io_wire := wire\<rparr>"
    "\<And>w. io_wire io = w @ take (pf_offset f) (frame_text f) \<Longrightarrow> wire = w @ take n (frame_text f)"
    using assms(1) unfolding write_advance_def by blast
  obtain n' wire' k' where 2: "pf_offset f' \<le> n'" "n' \<le> length (frame_text f')" "f'' = f'\<lparr>pf_offset := n'\<rparr>"
    "io'' = io'\<lparr>io_next := k', io_wire := wire'\<rparr>"
    "\<And>w. io_wire io' = w @ take (pf_offset f') (frame_text f') \<Longrightarrow> wire' = w @ take n' (frame_text f')"
    using assms(2) unfolding write_advance_def by blast
  show ?thesis unfolding write_advance_def using 1 2 by (intro exI [of _ n'] exI [of _ wire'] exI [of _ k']) auto
qed

lemma poll_write_advances:
  assumes "poll_write (drop (pf_offset f) (frame_text f)) io = (p, io')" "pf_offset f \<le> length (frame_text f)"
  shows "case p of
      Accepts n \<Rightarrow> pf_offset f + n \<le> length (frame_text f) \<and> write_advance f io (f\<lparr>pf_offset := pf_offset f + n\<rparr>) io'
    | _ \<Rightarrow> write_advance f io f io'"
proof (cases "io_polls io (io_next io)")
  case (Accepts m)
  define n where "n = length (take m (drop (pf_offset f) (frame_text f)))"
  have n: "p = Accepts n" "io' = io\<lparr>io_next := io_next io + 1, io_wire := io_wire io @ take m (drop (pf_offset f) (frame_text f))\<rparr>"
    using assms(1) Accepts by (auto simp: poll_write_def n_def)
  have take: "take m (drop (pf_offset f) (frame_text f)) = take n (drop (pf_offset f) (frame_text f))"
    unfolding n_def by (metis append_eq_conv_conj append_take_drop_id)
  have le: "pf_offset f + n \<le> length (frame_text f)" using assms(2) by (simp add: n_def)
  then have "write_advance f io (f\<lparr>pf_offset := pf_offset f + n\<rparr>) io'" unfolding write_advance_def n(2) take
    by (intro exI [of _ "pf_offset f + n"] exI [of _ "io_wire io @ take n (drop (pf_offset f) (frame_text f))"]
        exI [of _ "io_next io + 1"]) (auto simp: take_add)
  then show ?thesis using n(1) le by simp
qed (use assms in \<open>auto simp: poll_write_def intro: write_advance_still\<close>)

lemma write_frame_advances:
  "write_frame_bytes_resumable f io = (r, f', io') \<Longrightarrow> pf_offset f \<le> length (frame_text f) \<Longrightarrow>
     write_advance f io f' io' \<and> (r = Inr Written \<longrightarrow> pf_offset f' = length (frame_text f)) \<and> r \<noteq> Inl MuxPanic"
proof (induction "length (frame_text f) - pf_offset f" arbitrary: f io rule: less_induct)
  case (less f io)
  show ?case
  proof (cases "pf_offset f < length (frame_text f)")
    case False
    then show ?thesis using less.prems write_advance_still [of f io "io_next io"]
      by (subst (asm) write_frame_bytes_resumable.simps) (auto simp: mux_total_len_eq)
  next
    case short: True
    obtain p io1 where poll: "poll_write (drop (pf_offset f) (frame_text f)) io = (p, io1)" by fastforce
    note adv = poll_write_advances [OF poll less.prems(2)]
    show ?thesis
    proof (cases "\<exists>n. p = Accepts n \<and> 0 < n")
      case False
      then have "write_advance f io f io1" using adv by (cases p) auto
      then show ?thesis using less.prems short poll False
        by (subst (asm) write_frame_bytes_resumable.simps)
          (auto simp: mux_total_len_eq mux_remaining_eq split: write_poll.splits if_splits)
    next
      case True
      then obtain n where n: "p = Accepts n" "0 < n" by blast
      let ?f = "f\<lparr>pf_offset := pf_offset f + n\<rparr>"
      have "write_frame_bytes_resumable ?f io1 = (r, f', io')"
        using less.prems(1) short poll n
        by (subst (asm) write_frame_bytes_resumable.simps) (simp add: mux_total_len_eq mux_remaining_eq)
      moreover have "length (frame_text ?f) - pf_offset ?f < length (frame_text f) - pf_offset f"
        using n(2) short by simp
      ultimately show ?thesis using adv n(1) less.hyps [of ?f io1] write_advance_trans [of f io ?f io1 f' io'] by simp
    qed
  qed
qed

section \<open>The writer implements the specification\<close>

definition wire_of :: "pending_mux_frame list \<Rightarrow> string" where
  "wire_of fs = concat (map frame_text fs)"

definition acks_of :: "pending_mux_frame list \<Rightarrow> nat list" where
  "acks_of fs = concat (map (\<lambda>f. option_list (pf_delivery_ack f)) fs)"

definition receipts_of :: "pending_mux_frame list \<Rightarrow> nat list" where
  "receipts_of fs = concat (map (\<lambda>f. option_list (pf_delivery_receipt f)) fs)"

text \<open>The wire is the frames that are done and what is written of the one in flight.\<close>

definition implements :: "mux_write_state \<Rightarrow> mux_io \<Rightarrow> lanes \<Rightarrow> bool" where
  "implements st io a \<longleftrightarrow>
     ln_control a = ws_queued_control st \<and> ln_events a = ws_queued_events st \<and> ln_last a = ws_last_host_class st \<and>
     ln_flight a = map_option (\<lambda>f. f\<lparr>pf_offset := 0\<rparr>) (ws_pending st) \<and>
     ws_pending_response_bytes st = response_bytes a \<and>
     io_acks io = acks_of (ln_done a) \<and> io_receipts io = receipts_of (ln_done a) \<and>
     (case ws_pending st of
        None \<Rightarrow> io_wire io = wire_of (ln_done a)
      | Some f \<Rightarrow> pf_offset f \<le> length (frame_text f) \<and>
          io_wire io = wire_of (ln_done a) @ take (pf_offset f) (frame_text f))"

definition reaches :: "lanes \<Rightarrow> mux_write_state \<Rightarrow> mux_io \<Rightarrow> bool" where
  "reaches a st io \<longleftrightarrow>
     (\<exists>b. lane_step\<^sup>*\<^sup>* a b \<and> lanes_ok b \<and> implements st io b \<and> ln_responses b = ln_responses a)"

lemma reaches_refl: "lanes_ok a \<Longrightarrow> implements st io a \<Longrightarrow> reaches a st io"
  by (auto simp: reaches_def)

lemma reaches_step:
  assumes "lane_step a b" "ln_responses b = ln_responses a" "reaches b st io"
  shows "reaches a st io"
  using assms unfolding reaches_def by (metis converse_rtranclp_into_rtranclp)

lemma reaches_trans:
  assumes "reaches a st io" "\<And>b. lanes_ok b \<Longrightarrow> implements st io b \<Longrightarrow> reaches b st' io'"
  shows "reaches a st' io'"
  using assms unfolding reaches_def by (metis rtranclp_trans)

lemma implements_advance:
  assumes "implements st io a" "ws_pending st = Some f" "write_advance f io f' io'"
  shows "implements (st\<lparr>ws_pending := Some f'\<rparr>) io' a"
  using assms by (auto simp: implements_def write_advance_def response_bytes_def)

lemma complete_frame_sim:
  assumes sim: "implements st io a" "lanes_ok a" "ws_pending st = Some f" "pf_offset f = length (frame_text f)"
    and fin: "complete_frame_write f st io = (r, st', io')"
  shows "r = Inr Written \<and> ws_pending st' = None \<and> reaches a st' io'"
proof -
  let ?f = "f\<lparr>pf_offset := 0\<rparr>"
  let ?b = "a\<lparr>ln_flight := None, ln_done := ln_done a @ [?f]\<rparr>"
  have flight: "ln_flight a = Some ?f" using sim(1,3) by (simp add: implements_def)
  then have step: "lane_step a ?b" by (rule lane_step.finish)
  have bytes: "ws_pending_response_bytes st =
      (if pf_class f = ResponseClass then length (frame_text f) else 0) + response_bytes ?b"
    using sim(1) flight by (simp add: implements_def response_bytes_def)
  have st': "r = Inr Written" "st' = st\<lparr>ws_pending := None, ws_pending_response_bytes := response_bytes ?b\<rparr>"
    "io' = io\<lparr>io_acks := io_acks io @ option_list (pf_delivery_ack f),
      io_receipts := io_receipts io @ option_list (pf_delivery_receipt f)\<rparr>"
    using fin bytes
    by (auto simp: complete_frame_write_def mux_total_len_eq checked_sub_def Let_def split: if_splits)
  have "implements st' io' ?b"
    using sim by (simp add: implements_def st' response_bytes_def wire_of_def acks_of_def receipts_of_def)
  then have "reaches ?b st' io'" using lanes_ok_step [OF sim(2) step] by (rule reaches_refl [rotated])
  then show ?thesis using st' reaches_step [OF step] by simp
qed

lemma resume_sim:
  assumes sim: "implements st io a" "lanes_ok a" and resume: "resume_pending_mux_write st io = (r, st', io')"
  shows "r \<noteq> Inl MuxPanic \<and> reaches a st' io' \<and> (r = Inr Written \<longrightarrow> ws_pending st' = None)"
proof (cases "ws_pending st")
  case None
  then show ?thesis using assms by (auto simp: resume_pending_mux_write_def intro: reaches_refl)
next
  case (Some f)
  obtain x f' io1 where wr: "write_frame_bytes_resumable f io = (x, f', io1)" by (metis surj_pair)
  have "pf_offset f \<le> length (frame_text f)" using sim(1) Some by (simp add: implements_def)
  note adv = write_frame_advances [OF wr this]
  let ?st = "st\<lparr>ws_pending := Some f'\<rparr>"
  have kept: "implements ?st io1 a" using implements_advance [OF sim(1) Some] adv by blast
  have same: "frame_text f' = frame_text f" using adv by (auto simp: write_advance_def)
  show ?thesis
  proof (cases "x = Inr Written")
    case True
    then have "complete_frame_write f' ?st io1 = (r, st', io')"
      using resume Some wr by (simp add: resume_pending_mux_write_def complete_frame_write_def)
    with complete_frame_sim [OF kept sim(2), of f' r st' io'] show ?thesis using adv True same by auto
  next
    case False
    then have "r = x \<and> st' = ?st \<and> io' = io1"
      using resume Some wr by (auto simp: resume_pending_mux_write_def split: sum.splits mux_write.splits)
    then show ?thesis using False adv kept sim(2) by (auto intro: reaches_refl)
  qed
qed

lemma control_mux_frame_fresh:
  assumes "control_mux_frame to_json frame cls ack close_after = Inr f"
  shows "fresh_frame cls f" "fresh_frame cls (f\<lparr>pf_delivery_receipt := receipt\<rparr>)"
  using assms
  by (auto simp: control_mux_frame_def encode_control_frame_def encode_control_json_def fresh_frame_def control_framed_def
      frame_text_def frame_consts split: option.splits sum.splits if_splits)

text \<open>A frame that is started is a step of the specification, and then the write goes on from there.\<close>

lemma start_sim:
  assumes step: "lane_step a b" and ok: "lanes_ok a" "ln_responses b = ln_responses a"
    and b: "implements (start_frame cls f st) io b"
    and resume: "resume_pending_mux_write (start_frame cls f st) io = (r, st', io')"
  shows "r \<noteq> Inl MuxPanic \<and> reaches a st' io' \<and> (r = Inr Written \<longrightarrow> ws_pending st' = None)"
  using resume_sim [OF b lanes_ok_step [OF ok(1) step] resume] reaches_step [OF step ok(2)] by blast

lemma start_response_sim:
  assumes sim: "implements st io a" "lanes_ok a" "ws_pending st = None" "ws_queued_control st = f # fs"
    and turn: "ws_queued_events st \<noteq> [] \<Longrightarrow> ws_last_host_class st \<noteq> Some HostControl"
  obtains b where "lane_step a b" "ln_responses b = ln_responses a"
    "implements (start_frame HostControl f (st\<lparr>ws_queued_control := fs\<rparr>)) io b"
proof
  let ?b = "a\<lparr>ln_control := fs, ln_flight := Some f, ln_last := Some HostControl\<rparr>"
  show "lane_step a ?b" using sim turn by (intro lane_step.start_response) (auto simp: implements_def)
  have "fresh_frame ResponseClass f" using sim(1,2,4) by (simp add: implements_def lanes_ok_def)
  then show "implements (start_frame HostControl f (st\<lparr>ws_queued_control := fs\<rparr>)) io ?b"
    using sim by (simp add: implements_def start_frame_def response_bytes_def fresh_frame_def)
qed simp

lemma next_event_frame_sim:
  assumes sim: "implements st io a" "lanes_ok a" "ws_pending st = None"
    and turn: "ws_queued_control st = [] \<or> ws_last_host_class st = Some HostControl"
    and frame: "next_event_frame to_json v st src = (Inr (Some f), st1, src1)"
  obtains b where "lane_step a b" "ln_responses b = ln_responses a" "implements (start_frame HostEvent f st1) io b"
proof (cases "ws_queued_events st")
  case Nil
  then have f: "fresh_frame EventClass f" "st1 = st"
    using frame control_mux_frame_fresh(1)
    by (auto simp: next_event_frame_def split: prod.splits option.splits sum.splits)
  let ?b = "a\<lparr>ln_flight := Some f, ln_last := Some HostEvent\<rparr>"
  have "lane_step a ?b" using sim turn Nil f(1) by (intro lane_step.start_event) (auto simp: implements_def)
  moreover have "implements (start_frame HostEvent f st1) io ?b"
    using sim f by (simp add: implements_def start_frame_def response_bytes_def fresh_frame_def)
  ultimately show ?thesis using that by simp
next
  case (Cons g fs)
  then have f: "g = f" "st1 = st\<lparr>ws_queued_events := fs\<rparr>" using frame by (auto simp: next_event_frame_def)
  let ?b = "a\<lparr>ln_events := fs, ln_flight := Some f, ln_last := Some HostEvent\<rparr>"
  have "lane_step a ?b" using sim turn Cons f(1) by (intro lane_step.start_entity) (auto simp: implements_def)
  moreover have "fresh_frame EventClass f" using sim(1,2) Cons f(1) by (simp add: implements_def lanes_ok_def)
  then have "implements (start_frame HostEvent f st1) io ?b"
    using sim Cons f by (simp add: implements_def start_frame_def response_bytes_def fresh_frame_def)
  ultimately show ?thesis using that by simp
qed

lemma next_event_frame_none:
  assumes "next_event_frame to_json v st src = (r, st1, src1)" "\<not> (\<exists>f. r = Inr (Some f))"
  shows "st1 = st \<and> r \<noteq> Inl MuxPanic"
  using assms
  by (auto simp: next_event_frame_def control_mux_frame_def split: list.splits prod.splits option.splits sum.splits)

lemma next_class_turn:
  "next_ready_host_control_class c control_ready event_ready = Some HostControl \<Longrightarrow>
     control_ready \<and> (event_ready \<longrightarrow> c \<noteq> Some HostControl)"
  "next_ready_host_control_class c control_ready event_ready = Some HostEvent \<Longrightarrow>
     event_ready \<and> (control_ready \<longrightarrow> c = Some HostControl)"
  by (auto simp: next_ready_host_control_class_def split: bool.splits option.splits host_control_class.splits)

lemma flush_loop_sim:
  "flush_loop n to_json views st io src = (r, st', io', src') \<Longrightarrow> implements st io a \<Longrightarrow> lanes_ok a \<Longrightarrow>
   ws_pending st = None \<Longrightarrow> r \<noteq> Inl MuxPanic \<and> reaches a st' io'"
proof (induction n arbitrary: st io src a)
  case 0
  then show ?case by (auto intro: reaches_refl)
next
  case (Suc n)
  let ?src = "mv_interfere (views n) src"
  let ?cls = "next_ready_host_control_class (ws_last_host_class st) (ws_queued_control st \<noteq> [])
    (ws_queued_events st \<noteq> [] \<or> source_ready (views n) ?src)"
  have go_on: "r \<noteq> Inl MuxPanic \<and> reaches a st' io'"
    if start: "lane_step a b" "ln_responses b = ln_responses a" "implements (start_frame cls f st0) io b"
      and out: "(case resume_pending_mux_write (start_frame cls f st0) io of
             (Inl e, st, io) \<Rightarrow> (Inl e, st, io, src0)
           | (Inr WritePending, st, io) \<Rightarrow> (Inr (), st, io, src0)
           | (Inr Written, st, io) \<Rightarrow> flush_loop n to_json views st io src0) = (r, st', io', src')"
    for b cls f st0 src0
  proof -
    obtain x st1 io1 where resume: "resume_pending_mux_write (start_frame cls f st0) io = (x, st1, io1)"
      by (metis surj_pair)
    note s = start_sim [OF start(1) Suc.prems(3) start(2,3) resume]
    show ?thesis
    proof (cases "x = Inr Written")
      case True
      then have "flush_loop n to_json views st1 io1 src0 = (r, st', io', src')" using out resume by simp
      then have "r \<noteq> Inl MuxPanic \<and> reaches c st' io'" if "implements st1 io1 c" "lanes_ok c" for c
        using Suc.IH that s True by blast
      then show ?thesis using s reaches_trans [of a st1 io1 st' io'] unfolding reaches_def by blast
    next
      case False
      then show ?thesis using s out resume by (auto split: sum.splits mux_write.splits)
    qed
  qed
  consider "?cls = None" | "?cls = Some HostControl" | "?cls = Some HostEvent"
    by (metis host_control_class.exhaust not_None_eq)
  then show ?case
  proof cases
    case 1
    then show ?thesis using Suc.prems by (auto simp: Let_def intro: reaches_refl)
  next
    case 2
    then obtain f fs where q: "ws_queued_control st = f # fs" using next_class_turn(1) by (metis neq_Nil_conv)
    obtain b where "lane_step a b" "ln_responses b = ln_responses a"
      "implements (start_frame HostControl f (st\<lparr>ws_queued_control := fs\<rparr>)) io b"
      using start_response_sim [OF Suc.prems(2-4) q] next_class_turn(1) [OF 2] by blast
    from go_on [OF this, of ?src] show ?thesis using Suc.prems(1) 2 q by (simp add: Let_def)
  next
    case 3
    obtain x st1 src1 where e: "next_event_frame to_json (views n) st ?src = (x, st1, src1)" by (metis surj_pair)
    show ?thesis
    proof (cases "\<exists>f. x = Inr (Some f)")
      case True
      then obtain f where f: "x = Inr (Some f)" by blast
      have turn: "ws_queued_control st = [] \<or> ws_last_host_class st = Some HostControl"
        using next_class_turn(2) [OF 3] by blast
      obtain b where "lane_step a b" "ln_responses b = ln_responses a" "implements (start_frame HostEvent f st1) io b"
        using next_event_frame_sim [OF Suc.prems(2-4) turn e [unfolded f]] .
      from go_on [OF this, of src1] show ?thesis using Suc.prems(1) 3 e f by (simp add: Let_def)
    next
      case False
      then show ?thesis using Suc.prems 3 e next_event_frame_none [OF e False]
        by (auto simp: Let_def split: sum.splits option.splits intro: reaches_refl)
    qed
  qed
qed

lemma flush_sim:
  assumes flush: "flush_unix_mux_writes to_json views st io src = (r, st', io', src')"
    and sim: "implements st io a" "lanes_ok a"
  shows "r \<noteq> Inl MuxPanic \<and> reaches a st' io'"
proof -
  obtain x st1 io1 where resume: "resume_pending_mux_write st io = (x, st1, io1)" by (metis surj_pair)
  note s = resume_sim [OF sim resume]
  show ?thesis
  proof (cases "x = Inr Written")
    case True
    then have "flush_loop MAX_HOST_FRAMES_PER_FLUSH_TURN to_json views st1 io1 src = (r, st', io', src')"
      using flush resume by (simp add: flush_unix_mux_writes_def)
    note loop = flush_loop_sim [OF this]
    show ?thesis using s True loop reaches_trans [of a st1 io1 st' io'] unfolding reaches_def by blast
  next
    case False
    then show ?thesis using s flush resume
      by (auto simp: flush_unix_mux_writes_def split: sum.splits mux_write.splits)
  qed
qed

lemma flush_pending_sim:
  "flush_pending_responses to_json views elapsed n st io src = Some out \<Longrightarrow> implements st io a \<Longrightarrow> lanes_ok a \<Longrightarrow>
   fst out \<noteq> Inl MuxPanic \<and> reaches a (fst (snd out)) (fst (snd (snd out))) \<and>
   (fst out = Inr () \<longrightarrow> \<not> has_pending_response (fst (snd out)))"
proof (induction arbitrary: a rule: flush_pending_responses.raw_induct [rotated, consumes 1, case_names turn])
  case (turn self to_json views elapsed n st io src out)
  obtain x st1 io1 src1 where flush: "flush_unix_mux_writes to_json (views n) st io src = (x, st1, io1, src1)"
    by (metis surj_pair)
  note s = flush_sim [OF flush turn(3,4)]
  consider e where "x = Inl e" | "x = Inr ()" "\<not> has_pending_response st1"
    | "x = Inr ()" "has_pending_response st1" "DAEMON_CLIENT_WRITE_TIMEOUT \<le> elapsed n"
    | "x = Inr ()" "has_pending_response st1" "\<not> DAEMON_CLIENT_WRITE_TIMEOUT \<le> elapsed n"
    by (cases x) auto
  then show ?case
  proof cases
    case 4
    then have "self to_json views elapsed (n + 1) st1 io1 src1 = Some out" using turn(2) flush by simp
    from turn(1) [OF this] show ?thesis
      using s reaches_trans [of a st1 io1 "fst (snd out)" "fst (snd (snd out))"] unfolding reaches_def by blast
  qed (use turn(2) flush s in auto)
qed

definition mux_sim :: "'p mux_world \<Rightarrow> lanes \<Rightarrow> bool" where
  "mux_sim w a \<longleftrightarrow>
     implements (mw_state w) (mw_io w) a \<and> lanes_ok a \<and> ln_responses a = mw_responses w \<and> mw_failed w \<noteq> Some MuxPanic"

lemma implements_respond:
  "implements st io a \<Longrightarrow>
   implements (st\<lparr>ws_pending_response_bytes := ws_pending_response_bytes st + length (frame_text f),
       ws_queued_control := ws_queued_control st @ [f]\<rparr>) io
     (a\<lparr>ln_control := ln_control a @ [f], ln_responses := ln_responses a @ [f]\<rparr>)"
  by (cases "ws_pending st") (simp_all add: implements_def response_bytes_def)

lemma implements_notify:
  "implements st io a \<Longrightarrow>
   implements (st\<lparr>ws_queued_events := ws_queued_events st @ [f]\<rparr>) io (a\<lparr>ln_events := ln_events a @ [f]\<rparr>)"
  by (cases "ws_pending st") (simp_all add: implements_def response_bytes_def)

lemma control_mux_frame_error: "control_mux_frame to_json frame cls ack close_after = Inl e \<Longrightarrow> e \<noteq> MuxPanic"
  by (auto simp: control_mux_frame_def split: sum.splits)

lemma enqueue_response_sim:
  assumes sim: "mux_sim w a" and f: "fresh_frame ResponseClass f"
  shows "\<exists>b. lane_step\<^sup>*\<^sup>* a b \<and> mux_sim (mux_accepted (enqueue_response_frame f (mw_state w)) w) b"
proof (cases "PENDING_RESPONSE_BYTE_CAPACITY < saturating_add (ws_pending_response_bytes (mw_state w)) (length (frame_text f))")
  case True
  then have "mux_sim (mux_accepted (enqueue_response_frame f (mw_state w)) w) a"
    using sim by (simp add: enqueue_response_frame_def mux_accepted_def mux_queued_def mux_sim_def mux_total_len_eq Let_def)
  then show ?thesis by blast
next
  case False
  let ?b = "a\<lparr>ln_control := ln_control a @ [f], ln_responses := ln_responses a @ [f]\<rparr>"
  have "PENDING_RESPONSE_BYTE_CAPACITY < u64_max" by (simp add: PENDING_RESPONSE_BYTE_CAPACITY_def u64_max_def)
  then have "response_bytes a + length (frame_text f) \<le> PENDING_RESPONSE_BYTE_CAPACITY"
    using False sim saturating_add_le_iff by (simp add: mux_sim_def implements_def not_less)
  then have step: "lane_step a ?b" by (rule lane_step.respond [OF f])
  have "mux_sim (mux_accepted (enqueue_response_frame f (mw_state w)) w) ?b"
    using sim False lanes_ok_step [OF _ step] implements_respond [of "mw_state w" "mw_io w" a f]
    by (simp add: enqueue_response_frame_def mux_accepted_def mux_queued_def mux_sim_def mux_total_len_eq Let_def)
  then show ?thesis using step by blast
qed

lemma enqueue_entity_sim:
  assumes sim: "mux_sim w a" and f: "fresh_frame EventClass f"
  shows "\<exists>b. lane_step\<^sup>*\<^sup>* a b \<and>
    mux_sim (w\<lparr>mw_state := (mw_state w)\<lparr>ws_queued_events := ws_queued_events (mw_state w) @ [f]\<rparr>\<rparr>) b"
proof (intro exI conjI)
  show "lane_step\<^sup>*\<^sup>* a (a\<lparr>ln_events := ln_events a @ [f]\<rparr>)" using lane_step.notify [OF f] by blast
  show "mux_sim (w\<lparr>mw_state := (mw_state w)\<lparr>ws_queued_events := ws_queued_events (mw_state w) @ [f]\<rparr>\<rparr>)
      (a\<lparr>ln_events := ln_events a @ [f]\<rparr>)"
    using sim lanes_ok_step [OF _ lane_step.notify [OF f]] implements_notify by (simp add: mux_sim_def)
qed

lemma mux_failed_sim: "mux_sim w a \<Longrightarrow> e \<noteq> MuxPanic \<Longrightarrow> mux_sim (w\<lparr>mw_failed := Some e\<rparr>) a"
  by (simp add: mux_sim_def)

lemma mux_flushed_sim:
  assumes "mux_sim w a" "r \<noteq> Inl MuxPanic" "reaches a st io"
  shows "\<exists>b. lane_step\<^sup>*\<^sup>* a b \<and> mux_sim (mux_flushed (r, st, io, src) w) b"
  using assms by (cases r) (auto simp: reaches_def mux_sim_def mux_flushed_def)

lemma encoded_frame_fresh:
  "encode_control_json json = Inr bytes \<Longrightarrow>
   fresh_frame ResponseClass
     \<lparr>pf_bytes = ControlBytes bytes, pf_offset = 0, pf_class = ResponseClass, pf_delivery_ack = ack,
      pf_delivery_receipt = None, pf_close_after = close_after\<rparr>"
  by (auto simp: encode_control_json_def fresh_frame_def control_framed_def frame_text_def frame_consts split: if_splits)

lemma prepared_frame_fresh:
  assumes "prepare_entity n v b = Some (Inr d, b')"
  shows "fresh_frame EventClass
     \<lparr>pf_bytes = PreparedEntity d, pf_offset = 0, pf_class = EventClass, pf_delivery_ack = None,
      pf_delivery_receipt = None, pf_close_after = False\<rparr>"
proof -
  have "length (concat (fst v)) \<le> MAX_CONTROL_RESPONSE_BYTES"
    using assms by (auto simp: prepare_entity_def bounded_encode_eq DAEMON_MAX_FRAME_BYTES_def split: if_splits)
  then show ?thesis using prepare_entity_exact [OF assms] by (auto simp: fresh_frame_def control_framed_def frame_text_def)
qed

lemma exec_mux_sim:
  assumes "exec_mux to_json c w = Some w'" "mux_sim w a"
  shows "\<exists>b. lane_step\<^sup>*\<^sup>* a b \<and> mux_sim w' b"
proof (cases c)
  case (Respond request_id response ack close_after receipt)
  let ?out = "control_mux_frame to_json (ResponseFrame request_id response) ResponseClass ack close_after"
  show ?thesis
  proof (cases ?out)
    case (Inl e)
    then show ?thesis using assms Respond mux_failed_sim [OF assms(2) control_mux_frame_error [OF Inl]]
      by (auto simp: enqueue_response_with_receipt_def mux_accepted_def mux_queued_def split: if_splits)
  next
    case (Inr f)
    then show ?thesis using assms Respond enqueue_response_sim [OF assms(2) control_mux_frame_fresh(2) [OF Inr]]
      by (auto simp: enqueue_response_with_receipt_def split: if_splits)
  qed
next
  case (RespondEncoded json ack close_after)
  show ?thesis
  proof (cases "encode_control_json json")
    case (Inl e)
    then show ?thesis using assms RespondEncoded mux_failed_sim [OF assms(2), of "MuxTransport e"]
      by (auto simp: enqueue_encoded_response_def mux_accepted_def mux_queued_def split: if_splits)
  next
    case (Inr f)
    then show ?thesis using assms RespondEncoded enqueue_response_sim [OF assms(2) encoded_frame_fresh [OF Inr]]
      by (auto simp: enqueue_encoded_response_def split: if_splits)
  qed
next
  case (SendEntity entity)
  show ?thesis
  proof (cases "control_mux_frame to_json (EntityFrame entity) EventClass None False")
    case (Inl e)
    then show ?thesis using assms SendEntity mux_failed_sim [OF assms(2) control_mux_frame_error [OF Inl]]
      by (auto simp: enqueue_entity_frame_def mux_queued_def split: if_splits)
  next
    case (Inr f)
    then show ?thesis using assms SendEntity enqueue_entity_sim [OF assms(2) control_mux_frame_fresh(1) [OF Inr]]
      by (auto simp: enqueue_entity_frame_def mux_queued_def split: if_splits)
  qed
next
  case (SendPrepared n v budget)
  then obtain d b' where "prepare_entity n v budget = Some (Inr d, b')"
    "w' = mux_queued (enqueue_entity_frame to_json (EncodedEntity d) (mw_state w)) w"
    using assms(1) by (auto split: if_splits option.splits prod.splits sum.splits)
  then show ?thesis using enqueue_entity_sim [OF assms(2) prepared_frame_fresh]
    by (simp add: enqueue_entity_frame_def mux_queued_def)
next
  case (Flush views)
  obtain r st io src where f: "flush_unix_mux_writes to_json views (mw_state w) (mw_io w) (mw_source w) = (r, st, io, src)"
    by (metis surj_pair)
  then show ?thesis using assms Flush mux_flushed_sim [OF assms(2)] flush_sim [OF f]
    by (auto simp: mux_sim_def split: if_splits)
next
  case (FlushResponses views elapsed)
  then obtain r st io src where
    f: "flush_pending_responses to_json views elapsed 0 (mw_state w) (mw_io w) (mw_source w) = Some (r, st, io, src)"
      "w' = mux_flushed (r, st, io, src) w"
    using assms(1) by (auto split: if_splits)
  then show ?thesis using assms(2) mux_flushed_sim [OF assms(2)] flush_pending_sim [OF f(1)] by (auto simp: mux_sim_def)
qed

interpretation mux: forward_simulation "exec_mux to_json" lane_step mux_sim for to_json
  by unfold_locales (rule exec_mux_sim)

lemma mux_sim_new: "mux_sim (mux_world_new polls src) lanes_empty"
  by (simp add: mux_sim_def mux_world_new_def implements_def mux_write_state_new_def mux_io_new_def lanes_empty_def
      response_bytes_def lanes_ok_def wire_of_def acks_of_def receipts_of_def)

section \<open>The refinement\<close>


definition quiet_source :: "nat event_source" where
  "quiet_source =
     \<lparr>es_ledger = closed_event_ledger_new, es_mailbox = None, es_closing = False,
      es_pool = \<lparr>rs_events = 0, rs_bytes = 0, rs_subscriptions = []\<rparr>\<rparr>"

definition quiet_view :: "nat mux_view" where
  "quiet_view =
     \<lparr>mv_interfere = (\<lambda>src. src), mv_slots_held = False, mv_inner_held = False,
      mv_take = (\<lambda>_. \<lparr>tv_locks = \<lparr>lk_inner = False, lk_pool = False, lk_slots = False\<rparr>, tv_mark_held = False, tv_now = 0\<rparr>)\<rparr>"

lemma two_frames_a_turn: "MAX_HOST_FRAMES_PER_FLUSH_TURN = Suc (Suc 0)"
  by (simp add: MAX_HOST_FRAMES_PER_FLUSH_TURN_def)

lemma to_le_bytes_4:
  "to_le_bytes 4 n = [char_of n, char_of (n div 256), char_of (n div 256 div 256), char_of (n div 256 div 256 div 256)]"
  by (simp only: eval_nat_numeral BitM.simps to_le_bytes.simps)

lemmas mux_eval = mux_world_new_def mux_write_state_new_def mux_io_new_def enqueue_response_with_receipt_def
  control_mux_frame_def encode_control_frame_def encode_control_json_def frame_consts enqueue_response_frame_def
  mux_total_len_def PENDING_RESPONSE_BYTE_CAPACITY_def saturating_add_def u64_max_def mux_accepted_def mux_queued_def
  enqueue_entity_frame_def flush_unix_mux_writes_def resume_pending_mux_write_def mux_flushed_def two_frames_a_turn
  to_le_bytes_4 start_frame_def next_ready_host_control_class_def next_event_frame_def
  write_frame_bytes_resumable.simps mux_remaining_def poll_write_def complete_frame_write_def quiet_view_def
  quiet_source_def source_ready_def has_pending_event_def closed_event_ledger_new_def checked_sub_def Let_def


end
