(* ===== verification/Mux_Progress.thy ===== *)
theory Mux_Progress
  imports Mux_Write
begin

text \<open>
  The Unix writer makes progress: with a writer that takes bytes and a mailbox that is served,
  every turn of \<open>flush_pending_responses\<close> writes a response, so the loop returns with every accepted
  response on the wire.  A retired mailbox that still holds an event stops it.
\<close>

section \<open>A writer that takes bytes\<close>

definition accepting :: "mux_io \<Rightarrow> bool" where
  "accepting io \<longleftrightarrow> (\<forall>i. case io_polls io i of Accepts n \<Rightarrow> 0 < n | _ \<Rightarrow> False)"

lemma accepting_write:
  "accepting io \<Longrightarrow> pf_offset f \<le> length (frame_text f) \<Longrightarrow> fst (write_frame_bytes_resumable f io) = Inr Written"
proof (induction "length (frame_text f) - pf_offset f" arbitrary: f io rule: less_induct)
  case (less f io)
  show ?case
  proof (cases "pf_offset f < length (frame_text f)")
    case True
    let ?buffer = "drop (pf_offset f) (frame_text f)"
    have "case io_polls io (io_next io) of Accepts n \<Rightarrow> 0 < n | _ \<Rightarrow> False"
      using less.prems(1) unfolding accepting_def by (rule spec)
    then obtain m where m: "io_polls io (io_next io) = Accepts m" "0 < m" by (cases "io_polls io (io_next io)") auto
    define n where "n = length (take m ?buffer)"
    let ?f = "f\<lparr>pf_offset := pf_offset f + n\<rparr>"
    let ?io = "io\<lparr>io_next := io_next io + 1, io_wire := io_wire io @ take m ?buffer\<rparr>"
    have n: "0 < n" "pf_offset f + n \<le> length (frame_text f)" using m(2) True by (auto simp: n_def)
    have "poll_write (mux_remaining (pf_bytes f) (pf_offset f)) io = (Accepts n, ?io)"
      by (simp add: mux_remaining_eq poll_write_def m n_def)
    then have "write_frame_bytes_resumable f io = write_frame_bytes_resumable ?f ?io"
      using True n(1) by (subst write_frame_bytes_resumable.simps) (simp add: mux_total_len_eq)
    moreover have "fst (write_frame_bytes_resumable ?f ?io) = Inr Written"
    proof (rule less.hyps)
      show "length (frame_text ?f) - pf_offset ?f < length (frame_text f) - pf_offset f" using n True by simp
      show "accepting ?io" using less.prems(1) by (simp add: accepting_def)
    qed (use n in simp)
    ultimately show ?thesis by simp
  qed (use less.prems in \<open>simp add: write_frame_bytes_resumable.simps mux_total_len_eq\<close>)
qed

text \<open>A connection between two frames, its writer taking bytes.\<close>

definition idle :: "lanes \<Rightarrow> mux_write_state \<Rightarrow> mux_io \<Rightarrow> bool" where
  "idle a st io \<longleftrightarrow> implements st io a \<and> lanes_ok a \<and> ws_pending st = None \<and> accepting io"

lemma accepting_resume:
  assumes sim: "implements st io a" "lanes_ok a" and io: "accepting io"
  obtains b st' io' where "resume_pending_mux_write st io = (Inr Written, st', io')" "idle b st' io'" "lane_step\<^sup>*\<^sup>* a b"
    "ln_responses b = ln_responses a" "ws_queued_control st' = ws_queued_control st" "ws_last_host_class st' = ws_last_host_class st"
proof -
  obtain r st' io' where resume: "resume_pending_mux_write st io = (r, st', io')" by (metis surj_pair)
  note s = resume_sim [OF sim resume]
  have "r = Inr Written \<and> accepting io' \<and> ws_queued_control st' = ws_queued_control st \<and>
      ws_last_host_class st' = ws_last_host_class st"
  proof (cases "ws_pending st")
    case None
    then show ?thesis using resume io by (auto simp: resume_pending_mux_write_def)
  next
    case (Some f)
    then have le: "pf_offset f \<le> length (frame_text f)" using sim(1) by (simp add: implements_def)
    obtain f' io1 where w: "write_frame_bytes_resumable f io = (Inr Written, f', io1)"
      using accepting_write [OF io le] by (metis prod.collapse)
    have "io_polls io1 = io_polls io" using write_frame_advances [OF w le] by (auto simp: write_advance_def)
    then show ?thesis using resume Some w s io
      by (auto simp: resume_pending_mux_write_def complete_frame_write_def accepting_def Let_def split: if_splits option.splits)
  qed
  then show ?thesis using that [of st' io'] s resume by (auto simp: reaches_def idle_def)
qed

section \<open>A mailbox that is served\<close>

definition serving :: "'p event_source \<Rightarrow> bool" where
  "serving src \<longleftrightarrow> (case es_mailbox src of None \<Rightarrow> True | Some m \<Rightarrow> \<not> is_retired (es_closing src) m)"

text \<open>A choice that finds every lock free, and other threads that do not retire the mailbox.\<close>

definition undisturbed :: "'p mux_view \<Rightarrow> bool" where
  "undisturbed v \<longleftrightarrow>
     \<not> mv_slots_held v \<and> \<not> mv_inner_held v \<and>
     (\<forall>n. tv_locks (mv_take v n) = free_locks \<and> \<not> tv_mark_held (mv_take v n)) \<and>
     (\<forall>src. serving src \<longrightarrow> serving (mv_interfere v src))"

lemma gap_bit_taken:
  assumes "list_ex (\<lambda>e. gs_bit (snd e)) (mb_slots m)" "\<not> is_retired closing m" "tv_locks (view n) = free_locks"
  shows "\<exists>e m' r'. take_ready_event view n closing m r = (Some e, m', r') \<and> mb_retired m' = mb_retired m"
proof -
  obtain e where "find (\<lambda>e. gs_bit (snd e)) (mb_slots m) = Some e"
    using assms(1) by (cases "find (\<lambda>e. gs_bit (snd e)) (mb_slots m)") (auto simp: find_None_iff list_ex_iff)
  then show ?thesis using assms(2,3)
    by (subst take_ready_event.simps) (auto simp: take_gap_def free_locks_def Let_def split: prod.splits)
qed

lemma marked_gap_found: "list_ex (\<lambda>e. gs_bit (snd e)) (mb_slots (mark_gap False sid owner name m))"
proof -
  have "map_of (om_insert sid g (mb_slots m)) sid = Some g" for g by simp
  then have "(sid, g) \<in> set (om_insert sid g (mb_slots m))" for g using map_of_SomeD by metis
  then show ?thesis by (force simp: mark_gap_def signal_wake_def list_ex_iff Let_def)
qed

lemma served_mailbox_yields:
  assumes v: "undisturbed v" and live: "\<not> is_retired closing m" and ready: "has_ready_event False False m"
  shows "\<exists>e m' r'. take_ready_event (mv_take v) 0 closing m r = (Some e, m', r') \<and> mb_retired m' = mb_retired m"
proof (cases "list_ex (\<lambda>e. gs_bit (snd e)) (mb_slots m)")
  case True
  then show ?thesis using gap_bit_taken [of m closing "mv_take v" 0 r] live v by (simp add: undisturbed_def)
next
  case no_gap: False
  have locks: "tv_locks (mv_take v k) = free_locks" "\<not> tv_mark_held (mv_take v k)" for k
    using v by (auto simp: undisturbed_def)
  have none: "take_gap False m = (None, m)"
    using no_gap by (auto simp: take_gap_def find_None_iff list_ex_iff find_Some_iff split: option.splits)
  obtain q rest where q: "mb_events m = q # rest" using ready no_gap by (auto simp: has_ready_event_def neq_Nil_conv)
  let ?m = "m\<lparr>mb_events := rest, mb_bytes := saturating_sub (mb_bytes m) (qe_size q)\<rparr>"
  let ?r = "residency_release (mb_subscription_id m) (qe_size q) r"
  let ?g = "mark_gap False (qe_subscription_id q) (qe_owner q) (qe_name q) ?m"
  show ?thesis
  proof (cases "mb_queue_age m < saturating_sub (tv_now (mv_take v 0)) (qe_enqueued_at q)")
    case True
    then have "take_ready_event (mv_take v) 0 closing m r = take_ready_event (mv_take v) 1 closing ?g ?r"
      using live locks none q by (subst take_ready_event.simps) (simp add: free_locks_def Let_def)
    moreover have "mb_retired ?g = mb_retired m" by (simp add: mark_gap_def signal_wake_def Let_def)
    ultimately show ?thesis
      using gap_bit_taken [OF marked_gap_found, of closing "qe_subscription_id q" "qe_owner q" "qe_name q" ?m "mv_take v" 1 ?r]
        live locks by (simp add: is_retired_def)
  next
    case False
    then show ?thesis using live locks none q by (subst take_ready_event.simps) (simp add: free_locks_def Let_def)
  qed
qed

lemma served_source_yields:
  assumes v: "undisturbed v" and src: "serving src" "source_ready v src"
  obtains e src' where "source_take v src = (Some e, src')" "serving src'"
proof (cases "le_pending (es_ledger src)")
  case (Cons e es)
  show ?thesis
  proof
    show "source_take v src = (Some e, src\<lparr>es_ledger := (es_ledger src)\<lparr>le_pending := es\<rparr>\<rparr>)"
      using Cons by (simp add: source_take_def pop_pending_event_def)
  qed (use src(1) in \<open>auto simp: serving_def split: option.splits\<close>)
next
  case Nil
  then obtain m where m: "es_mailbox src = Some m" "has_ready_event False False m"
    using src(2) v by (auto simp: source_ready_def has_pending_event_def undisturbed_def split: option.splits)
  then have live: "\<not> is_retired (es_closing src) m" using src(1) by (simp add: serving_def)
  obtain e m' r' where t: "take_ready_event (mv_take v) 0 (es_closing src) m (es_pool src) = (Some e, m', r')"
    "mb_retired m' = mb_retired m"
    using served_mailbox_yields [OF v live m(2)] by blast
  show ?thesis
  proof
    show "source_take v src = (Some e, src\<lparr>es_mailbox := Some m', es_pool := r'\<rparr>)"
      using Nil m t by (simp add: source_take_def pop_pending_event_def)
  qed (use live t in \<open>simp add: serving_def is_retired_def\<close>)
qed

section \<open>Every turn writes a response\<close>

text \<open>Where a turn that did not fail to encode an event leaves the connection.\<close>

definition at_rest :: "lanes \<Rightarrow> 'p flushed \<Rightarrow> nat \<Rightarrow> bool" where
  "at_rest a out k \<longleftrightarrow>
     (case out of
        (Inl e, _) \<Rightarrow> (\<exists>t. e = MuxTransport t)
      | (Inr _, st, io, src) \<Rightarrow>
          serving src \<and> length (ws_queued_control st) \<le> k \<and>
          (\<exists>b. lane_step\<^sup>*\<^sup>* a b \<and> ln_responses b = ln_responses a \<and> idle b st io))"

lemma at_rest_from:
  "lane_step\<^sup>*\<^sup>* a b \<Longrightarrow> ln_responses b = ln_responses a \<Longrightarrow> at_rest b out k \<Longrightarrow> k \<le> l \<Longrightarrow> at_rest a out l"
proof (cases out)
  case (fields r st io src)
  assume "lane_step\<^sup>*\<^sup>* a b" "ln_responses b = ln_responses a" "at_rest b out k" "k \<le> l"
  then show ?thesis unfolding fields by (cases r) (auto simp: at_rest_def intro: rtranclp_trans)
qed

text \<open>One choice: nothing to write, an event that cannot be encoded, a response, or an event after a response.\<close>

definition wrote_response :: "mux_write_state \<Rightarrow> mux_write_state \<Rightarrow> bool" where
  "wrote_response st st' \<longleftrightarrow> (\<exists>f. ws_queued_control st = f # ws_queued_control st')"

definition wrote_event :: "mux_write_state \<Rightarrow> mux_write_state \<Rightarrow> bool" where
  "wrote_event st st' \<longleftrightarrow>
     ws_queued_control st' = ws_queued_control st \<and> ws_last_host_class st' = Some HostEvent \<and>
     (ws_queued_control st \<noteq> [] \<longrightarrow> ws_last_host_class st = Some HostControl)"

lemma start_and_write:
  assumes idle: "idle a st io" and step: "lane_step a b" "ln_responses b = ln_responses a"
    and b: "implements (start_frame cls f st0) io b"
  obtains c st' io' where "resume_pending_mux_write (start_frame cls f st0) io = (Inr Written, st', io')"
    "idle c st' io'" "lane_step\<^sup>*\<^sup>* a c" "ln_responses c = ln_responses a"
    "ws_queued_control st' = ws_queued_control st0" "ws_last_host_class st' = Some cls"
proof -
  have "lanes_ok b" "accepting io" using idle lanes_ok_step [OF _ step(1)] by (auto simp: idle_def)
  from accepting_resume [OF b this] show ?thesis using that step
    by (metis (no_types, lifting) start_frame_def converse_rtranclp_into_rtranclp mux_write_state.select_convs(2,5)
        mux_write_state.simps(7,10) mux_write_state.surjective mux_write_state.update_convs(1,5))
qed

lemma flush_choice:
  assumes idle: "idle a st io" and src: "serving src" and v: "undisturbed (views n)"
  shows "(ws_queued_control st = [] \<and> at_rest a (flush_loop (Suc n) to_json views st io src) 0) \<or>
    (\<exists>t out. flush_loop (Suc n) to_json views st io src = (Inl (MuxTransport t), out)) \<or>
    (\<exists>b st' io' src'. flush_loop (Suc n) to_json views st io src = flush_loop n to_json views st' io' src' \<and>
       lane_step\<^sup>*\<^sup>* a b \<and> ln_responses b = ln_responses a \<and> idle b st' io' \<and> serving src' \<and>
       (wrote_response st st' \<or> wrote_event st st'))"
proof -
  let ?src = "mv_interfere (views n) src"
  let ?cls = "next_ready_host_control_class (ws_last_host_class st) (ws_queued_control st \<noteq> [])
    (ws_queued_events st \<noteq> [] \<or> source_ready (views n) ?src)"
  have sim: "implements st io a" "lanes_ok a" "ws_pending st = None" using idle by (auto simp: idle_def)
  have src': "serving ?src" using v src by (simp add: undisturbed_def)
  consider "?cls = None" | "?cls = Some HostControl" | "?cls = Some HostEvent"
    by (metis host_control_class.exhaust not_None_eq)
  then show ?thesis
  proof cases
    case 1
    then have "ws_queued_control st = []"
      by (auto simp: next_ready_host_control_class_def split: bool.splits option.splits host_control_class.splits)
    then show ?thesis using 1 idle src' by (auto simp: at_rest_def Let_def)
  next
    case 2
    then obtain f fs where q: "ws_queued_control st = f # fs" using next_class_turn(1) by (metis neq_Nil_conv)
    obtain b where b: "lane_step a b" "ln_responses b = ln_responses a"
      "implements (start_frame HostControl f (st\<lparr>ws_queued_control := fs\<rparr>)) io b"
      using start_response_sim [OF sim q] next_class_turn(1) [OF 2] by blast
    obtain c st' io' where c:
      "resume_pending_mux_write (start_frame HostControl f (st\<lparr>ws_queued_control := fs\<rparr>)) io = (Inr Written, st', io')"
      "idle c st' io'" "lane_step\<^sup>*\<^sup>* a c" "ln_responses c = ln_responses a" "ws_queued_control st' = fs"
      using start_and_write [OF idle b] by (metis mux_write_state.select_convs(2) mux_write_state.surjective mux_write_state.update_convs(2))
    then have "flush_loop (Suc n) to_json views st io src = flush_loop n to_json views st' io' ?src"
      using 2 q by (simp add: Let_def)
    moreover have "wrote_response st st'" using q c(5) by (simp add: wrote_response_def)
    ultimately show ?thesis using c(2-4) src' by blast
  next
    case 3
    have turn: "ws_queued_control st = [] \<or> ws_last_host_class st = Some HostControl"
      using next_class_turn(2) [OF 3] by blast
    obtain x st1 src1 where e: "next_event_frame to_json (views n) st ?src = (x, st1, src1)" by (metis surj_pair)
    have outcome: "(\<exists>t. x = Inl (MuxTransport t)) \<or> (\<exists>f. x = Inr (Some f) \<and> serving src1 \<and> ws_queued_control st1 = ws_queued_control st)"
    proof (cases "ws_queued_events st")
      case Nil
      then obtain ev src2 where "source_take (views n) ?src = (Some ev, src2)" "serving src2"
        using served_source_yields [OF v src'] next_class_turn(2) [OF 3] by blast
      then show ?thesis using e Nil
        by (auto simp: next_event_frame_def control_mux_frame_def split: sum.splits)
    qed (use e src' in \<open>auto simp: next_event_frame_def\<close>)
    show ?thesis
    proof (cases "\<exists>t. x = Inl (MuxTransport t)")
      case True
      then show ?thesis using 3 e by (auto simp: Let_def)
    next
      case False
      then obtain f where f: "x = Inr (Some f)" "serving src1" "ws_queued_control st1 = ws_queued_control st"
        using outcome by blast
      obtain b where b: "lane_step a b" "ln_responses b = ln_responses a" "implements (start_frame HostEvent f st1) io b"
        using next_event_frame_sim [OF sim turn e [unfolded f(1)]] .
      obtain c st' io' where c: "resume_pending_mux_write (start_frame HostEvent f st1) io = (Inr Written, st', io')"
        "idle c st' io'" "lane_step\<^sup>*\<^sup>* a c" "ln_responses c = ln_responses a"
        "ws_queued_control st' = ws_queued_control st" "ws_last_host_class st' = Some HostEvent"
        using start_and_write [OF idle b] f(3) by metis
      then have "flush_loop (Suc n) to_json views st io src = flush_loop n to_json views st' io' src1"
        using 3 e f by (simp add: Let_def)
      moreover have "wrote_event st st'" using c(5,6) turn by (auto simp: wrote_event_def)
      ultimately show ?thesis using c(2-4) f(2) by blast
    qed
  qed
qed

declare flush_loop.simps(2) [simp del]

lemma flush_loop_rests:
  "idle a st io \<Longrightarrow> serving src \<Longrightarrow> \<forall>i. undisturbed (views i) \<Longrightarrow>
   at_rest a (flush_loop n to_json views st io src) (length (ws_queued_control st))"
proof (induction n arbitrary: a st io src)
  case 0
  then show ?case by (auto simp: at_rest_def)
next
  case (Suc n)
  have v: "undisturbed (views n)" using Suc.prems(3) by blast
  from flush_choice [where views = views and n = n and to_json = to_json, OF Suc.prems(1,2) v] show ?case
  proof (elim disjE exE conjE)
    fix b st' io' src'
    assume on: "flush_loop (Suc n) to_json views st io src = flush_loop n to_json views st' io' src'"
      "lane_step\<^sup>*\<^sup>* a b" "ln_responses b = ln_responses a" "idle b st' io'" "serving src'"
      and "wrote_response st st'"
    then have "length (ws_queued_control st') \<le> length (ws_queued_control st)" by (auto simp: wrote_response_def)
    then show ?case unfolding on(1) by (rule at_rest_from [OF on(2,3) Suc.IH [OF on(4,5) Suc.prems(3)]])
  next
    fix b st' io' src'
    assume on: "flush_loop (Suc n) to_json views st io src = flush_loop n to_json views st' io' src'"
      "lane_step\<^sup>*\<^sup>* a b" "ln_responses b = ln_responses a" "idle b st' io'" "serving src'"
      and "wrote_event st st'"
    then have "length (ws_queued_control st') \<le> length (ws_queued_control st)" by (simp add: wrote_event_def)
    then show ?case unfolding on(1) by (rule at_rest_from [OF on(2,3) Suc.IH [OF on(4,5) Suc.prems(3)]])
  qed (use at_rest_from in \<open>auto simp: at_rest_def\<close>)
qed

text \<open>Two choices are enough: after an event it is a response's turn.\<close>

lemma flush_turn_writes_response:
  assumes idle: "idle a st io" and src: "serving src" and v: "\<forall>i. undisturbed (views i)"
    and waits: "ws_queued_control st \<noteq> []"
  shows "at_rest a (flush_loop (Suc (Suc n)) to_json views st io src) (length (ws_queued_control st) - 1)"
proof -
  have wrote: "at_rest c (flush_loop (Suc m) to_json views st io src) (length (ws_queued_control st) - 1)"
    if idle: "idle a st io" and src: "serving src" and waits: "ws_queued_control st \<noteq> []"
      and since: "lane_step\<^sup>*\<^sup>* c a" "ln_responses a = ln_responses c"
      and on: "flush_loop (Suc m) to_json views st io src = flush_loop m to_json views st' io' src'"
      "lane_step\<^sup>*\<^sup>* a b" "ln_responses b = ln_responses a" "idle b st' io'" "serving src'" "wrote_response st st'"
    for a b c st io src st' io' src' m
  proof -
    have "length (ws_queued_control st') \<le> length (ws_queued_control st) - 1"
      using on(6) by (auto simp: wrote_response_def)
    moreover have "lane_step\<^sup>*\<^sup>* c b" "ln_responses b = ln_responses c"
      using since on(2,3) by (auto intro: rtranclp_trans)
    ultimately show ?thesis unfolding on(1) using at_rest_from flush_loop_rests [OF on(4,5) v] by blast
  qed
  have u: "undisturbed (views m)" for m using v by blast
  from flush_choice [where views = views and n = "Suc n" and to_json = to_json, OF idle src u] waits show ?thesis
  proof (elim disjE exE conjE)
    fix b st' io' src'
    assume on: "flush_loop (Suc (Suc n)) to_json views st io src = flush_loop (Suc n) to_json views st' io' src'"
      "lane_step\<^sup>*\<^sup>* a b" "ln_responses b = ln_responses a" "idle b st' io'" "serving src'" "wrote_response st st'"
    then show ?thesis using wrote [OF idle src waits _ _ on] by simp
  next
    fix b st' io' src'
    assume on: "flush_loop (Suc (Suc n)) to_json views st io src = flush_loop (Suc n) to_json views st' io' src'"
      "lane_step\<^sup>*\<^sup>* a b" "ln_responses b = ln_responses a" "idle b st' io'" "serving src'" "wrote_event st st'"
    then have st': "ws_queued_control st' = ws_queued_control st" "ws_queued_control st' \<noteq> []"
      "ws_last_host_class st' = Some HostEvent" using waits by (auto simp: wrote_event_def)
    from flush_choice [where views = views and n = n and to_json = to_json, OF on(4,5) u] st' show ?thesis
    proof (elim disjE exE conjE)
      fix c st2 io2 src2
      assume "flush_loop (Suc n) to_json views st' io' src' = flush_loop n to_json views st2 io2 src2"
        "lane_step\<^sup>*\<^sup>* b c" "ln_responses c = ln_responses b" "idle c st2 io2" "serving src2" "wrote_response st' st2"
      from wrote [OF on(4,5) st'(2) on(2,3) this] show ?thesis unfolding on(1) st'(1) .
    qed (auto simp: on(1) at_rest_def wrote_event_def)
  qed (auto simp: at_rest_def)
qed

lemma flush_turn:
  assumes sim: "implements st io a" "lanes_ok a" "accepting io" and src: "serving src" and v: "\<forall>i. undisturbed (views i)"
  shows "at_rest a (flush_unix_mux_writes to_json views st io src) (length (ws_queued_control st) - 1)"
proof -
  obtain b st' io' where b: "resume_pending_mux_write st io = (Inr Written, st', io')" "idle b st' io'" "lane_step\<^sup>*\<^sup>* a b"
    "ln_responses b = ln_responses a" "ws_queued_control st' = ws_queued_control st"
    using accepting_resume [OF sim] by metis
  have "at_rest b (flush_loop (Suc (Suc 0)) to_json views st' io' src) (length (ws_queued_control st') - 1)"
  proof (cases "ws_queued_control st' = []")
    case True
    then show ?thesis using flush_loop_rests [OF b(2) src v, of "Suc (Suc 0)" to_json] by simp
  qed (rule flush_turn_writes_response [OF b(2) src v])
  from at_rest_from [OF b(3,4) this order.refl] show ?thesis using b(1,5)
    by (simp add: flush_unix_mux_writes_def two_frames_a_turn)
qed

section \<open>The loop returns\<close>

definition drained :: "lanes \<Rightarrow> (nat \<Rightarrow> nat) \<Rightarrow> 'p flushed \<Rightarrow> bool" where
  "drained a elapsed out \<longleftrightarrow>
     (case out of
        (Inl e, _) \<Rightarrow> (\<exists>t. e = MuxTransport t) \<or> (e = MuxTimedOut \<and> (\<exists>n. DAEMON_CLIENT_WRITE_TIMEOUT \<le> elapsed n))
      | (Inr _, st, io, _) \<Rightarrow>
          ws_queued_control st = [] \<and> (\<exists>b. lane_step\<^sup>*\<^sup>* a b \<and> ln_responses b = ln_responses a \<and> idle b st io))"

lemma drained_from:
  "lane_step\<^sup>*\<^sup>* a b \<Longrightarrow> ln_responses b = ln_responses a \<Longrightarrow> drained b elapsed out \<Longrightarrow> drained a elapsed out"
proof (cases out)
  case (fields r st io src)
  assume "lane_step\<^sup>*\<^sup>* a b" "ln_responses b = ln_responses a" "drained b elapsed out"
  then show ?thesis unfolding fields by (cases r) (auto simp: drained_def intro: rtranclp_trans)
qed

lemma flush_pending_drains:
  assumes v: "\<forall>n i. undisturbed (views n i)"
  shows "implements st io a \<Longrightarrow> lanes_ok a \<Longrightarrow> accepting io \<Longrightarrow> serving src \<Longrightarrow>
    \<exists>out. flush_pending_responses to_json views elapsed n st io src = Some out \<and> drained a elapsed out"
proof (induction "length (ws_queued_control st)" arbitrary: n st io src a rule: less_induct)
  case less
  have u: "\<forall>i. undisturbed (views n i)" using v by blast
  obtain r st1 io1 src1 where flush: "flush_unix_mux_writes to_json (views n) st io src = (r, st1, io1, src1)"
    by (metis surj_pair)
  note rest = flush_turn [OF less.prems u, of to_json, unfolded flush]
  show ?case
  proof (cases r)
    case (Inl e)
    then show ?thesis using rest flush
      by (subst flush_pending_responses.simps) (auto simp: at_rest_def drained_def)
  next
    case (Inr x)
    then obtain b where b: "serving src1" "length (ws_queued_control st1) \<le> length (ws_queued_control st) - 1"
      "lane_step\<^sup>*\<^sup>* a b" "ln_responses b = ln_responses a" "idle b st1 io1"
      using rest by (auto simp: at_rest_def)
    then have pending: "has_pending_response st1 \<longleftrightarrow> ws_queued_control st1 \<noteq> []"
      by (simp add: has_pending_response_def idle_def)
    show ?thesis
    proof (cases "ws_queued_control st1 = [] \<or> DAEMON_CLIENT_WRITE_TIMEOUT \<le> elapsed n")
      case True
      then show ?thesis using flush Inr b pending
        by (subst flush_pending_responses.simps) (auto simp: drained_def)
    next
      case False
      then have "length (ws_queued_control st1) < length (ws_queued_control st)" using b(2) by (cases "ws_queued_control st1") auto
      moreover have "implements st1 io1 b" "lanes_ok b" "accepting io1" using b(5) by (auto simp: idle_def)
      ultimately obtain out where
        "flush_pending_responses to_json views elapsed (n + 1) st1 io1 src1 = Some out" "drained b elapsed out"
        using less.hyps b(1) by blast
      then show ?thesis using flush Inr False pending drained_from [OF b(3,4), of elapsed out]
        by (subst flush_pending_responses.simps) auto
    qed
  qed
qed



text \<open>Whatever the writer and the other threads do, the deadline ends the loop.\<close>

theorem flush_pending_responses_deadline:
  "n \<le> k \<Longrightarrow> DAEMON_CLIENT_WRITE_TIMEOUT \<le> elapsed k \<Longrightarrow>
   \<exists>out. flush_pending_responses to_json views elapsed n st io src = Some out"
proof (induction "k - n" arbitrary: n st io src)
  case 0
  then show ?case by (subst flush_pending_responses.simps) (auto split: sum.splits prod.splits)
next
  case (Suc d)
  have "\<exists>out. flush_pending_responses to_json views elapsed (n + 1) st io src = Some out" for st io src
    using Suc.hyps(1) [of "n + 1"] Suc.hyps(2) Suc.prems by simp
  then show ?case by (subst flush_pending_responses.simps) (auto split: sum.splits prod.splits)
qed

section \<open>A retired mailbox stops the responses\<close>

text \<open>
  A mailbox that was retired, or whose connection is closing, keeps its queued events until it is
  reclaimed; meanwhile it still reports that an event is ready and yields none.  After a response
  it is then an event's turn, the turn ends without a frame, and the next turn finds the same: no
  waiting response is written, and the loop ends at the deadline although the writer takes
  everything.
\<close>

definition starved :: "mux_write_state \<Rightarrow> 'p event_source \<Rightarrow> bool" where
  "starved st src \<longleftrightarrow>
     ws_pending st = None \<and> ws_queued_events st = [] \<and> ws_queued_control st \<noteq> [] \<and>
     ws_last_host_class st = Some HostControl \<and> le_pending (es_ledger src) = [] \<and>
     (case es_mailbox src of None \<Rightarrow> False | Some m \<Rightarrow> is_retired (es_closing src) m \<and> mb_events m \<noteq> [])"

lemma starved_flush:
  assumes s: "starved st src" and v: "\<not> mv_inner_held (views 1)" "mv_interfere (views 1) src = src"
  shows "flush_unix_mux_writes to_json views st io src = (Inr (), st, io, src)"
proof -
  obtain m where m: "es_mailbox src = Some m" "is_retired (es_closing src) m" "mb_events m \<noteq> []"
    using s by (auto simp: starved_def split: option.splits)
  have "source_ready (views 1) src" using m v(1) by (simp add: source_ready_def has_ready_event_def)
  moreover have "source_take (views 1) src = (None, src)"
    using s m by (simp add: starved_def source_take_def pop_pending_event_def take_ready_event.simps)
  ultimately show ?thesis using s v(2)
    by (simp add: starved_def flush_unix_mux_writes_def resume_pending_mux_write_def two_frames_a_turn
        flush_loop.simps(2) next_ready_host_control_class_def next_event_frame_def Let_def)
qed

theorem retired_mailbox_starves_responses:
  assumes "starved st src" "\<forall>n i. \<not> mv_inner_held (views n i) \<and> mv_interfere (views n i) src = src"
    and "DAEMON_CLIENT_WRITE_TIMEOUT \<le> elapsed (n + k)"
  shows "flush_pending_responses to_json views elapsed n st io src = Some (Inl MuxTimedOut, st, io, src)"
  using assms(3)
proof (induction k arbitrary: n)
  case 0
  have flush: "flush_unix_mux_writes to_json (views n) st io src = (Inr (), st, io, src)"
    using starved_flush [OF assms(1)] assms(2) by blast
  have "has_pending_response st" using assms(1) by (simp add: starved_def has_pending_response_def)
  then show ?case using 0 flush by (subst flush_pending_responses.simps) simp
next
  case (Suc k)
  have flush: "flush_unix_mux_writes to_json (views n) st io src = (Inr (), st, io, src)"
    using starved_flush [OF assms(1)] assms(2) by blast
  have "has_pending_response st" using assms(1) by (simp add: starved_def has_pending_response_def)
  then show ?case using Suc flush by (subst flush_pending_responses.simps) simp
qed

end
