(* ===== verification/Webrtc_Delivery.thy ===== *)
theory Webrtc_Delivery
  imports Unix_Frame
begin

text \<open>
  The framing of the local WebRTC channels.  Terminal bodies travel as binary chunks: a fixed header
  (\<open>botster-hub-client/src/lib.rs\<close>) and one sealed slice; \<open>transport/webrtc/delivery.rs\<close> seals them and
  reassembles the input of a client.  Control frames travel as text chunks of an encrypted envelope,
  which \<open>local_webrtc_smoke.rs\<close> reassembles.

  The cipher, the JSON codec and the random message identities are parameters: \<open>seal n\<close> is the
  sealing of the \<open>n\<close>-th slice with the nonce it draws, \<open>open_sealed\<close> the opening under the channel's
  key.  The bound on a terminal input frame belongs to the terminal protocol crate.
\<close>

section \<open>The chunk header\<close>

definition LOCAL_WEBRTC_DELIVERY_CHUNK_VERSION :: nat where "LOCAL_WEBRTC_DELIVERY_CHUNK_VERSION = 2"
definition LOCAL_WEBRTC_MAX_FRAME_BYTES :: usize where "LOCAL_WEBRTC_MAX_FRAME_BYTES = 64 * 1024"
definition LOCAL_WEBRTC_MAX_DELIVERY_BYTES :: usize where "LOCAL_WEBRTC_MAX_DELIVERY_BYTES = 16 * 1024 * 1024"
definition LOCAL_WEBRTC_CHUNK_PAYLOAD_BYTES :: usize where "LOCAL_WEBRTC_CHUNK_PAYLOAD_BYTES = 12 * 1024"
definition LOCAL_WEBRTC_TERMINAL_CHUNK_HEADER_BYTES :: usize where
  "LOCAL_WEBRTC_TERMINAL_CHUNK_HEADER_BYTES = 1 + 8 + 4 + 4 + 4 + 8 + 4"
definition LOCAL_WEBRTC_TERMINAL_CHUNK_NONCE_BYTES :: usize where "LOCAL_WEBRTC_TERMINAL_CHUNK_NONCE_BYTES = 12"
definition LOCAL_WEBRTC_TERMINAL_CHUNK_TAG_BYTES :: usize where "LOCAL_WEBRTC_TERMINAL_CHUNK_TAG_BYTES = 16"

lemmas webrtc_consts = LOCAL_WEBRTC_DELIVERY_CHUNK_VERSION_def LOCAL_WEBRTC_MAX_FRAME_BYTES_def
  LOCAL_WEBRTC_MAX_DELIVERY_BYTES_def LOCAL_WEBRTC_CHUNK_PAYLOAD_BYTES_def LOCAL_WEBRTC_TERMINAL_CHUNK_HEADER_BYTES_def
  LOCAL_WEBRTC_TERMINAL_CHUNK_NONCE_BYTES_def LOCAL_WEBRTC_TERMINAL_CHUNK_TAG_BYTES_def

record terminal_chunk_header =
  ch_message_id :: u64
  ch_chunk_index :: nat
  ch_chunk_count :: nat
  ch_total_bytes :: nat
  ch_generation :: u64
  ch_stream_epoch :: nat

definition encode_chunk_header :: "terminal_chunk_header \<Rightarrow> string" where
  "encode_chunk_header h =
     char_of LOCAL_WEBRTC_DELIVERY_CHUNK_VERSION # to_le_bytes 8 (ch_message_id h) @ to_le_bytes 4 (ch_chunk_index h) @
     to_le_bytes 4 (ch_chunk_count h) @ to_le_bytes 4 (ch_total_bytes h) @ to_le_bytes 8 (ch_generation h) @
     to_le_bytes 4 (ch_stream_epoch h)"

definition decode_chunk :: "string \<Rightarrow> (terminal_chunk_header \<times> string) option" where
  "decode_chunk message =
     (let sealed_min = LOCAL_WEBRTC_TERMINAL_CHUNK_NONCE_BYTES + LOCAL_WEBRTC_TERMINAL_CHUNK_TAG_BYTES
      in if length message < LOCAL_WEBRTC_TERMINAL_CHUNK_HEADER_BYTES + sealed_min \<or>
            LOCAL_WEBRTC_MAX_FRAME_BYTES \<le> length message \<or>
            message ! 0 \<noteq> char_of LOCAL_WEBRTC_DELIVERY_CHUNK_VERSION then None
         else
           let read_u32 = (\<lambda>start. from_le_bytes (take 4 (drop start message)));
               read_u64 = (\<lambda>start. from_le_bytes (take 8 (drop start message)));
               header = \<lparr>ch_message_id = read_u64 1, ch_chunk_index = read_u32 9, ch_chunk_count = read_u32 13,
                         ch_total_bytes = read_u32 17, ch_generation = read_u64 21, ch_stream_epoch = read_u32 29\<rparr>
           in if ch_chunk_count header = 0 \<or> ch_chunk_count header \<le> ch_chunk_index header \<or>
                 LOCAL_WEBRTC_MAX_DELIVERY_BYTES < ch_total_bytes header \<or>
                 max (ch_total_bytes header) 1 < ch_chunk_count header then None
              else Some (header, drop LOCAL_WEBRTC_TERMINAL_CHUNK_HEADER_BYTES message))"

section \<open>Reassembly of terminal input\<close>

record inbound_assembly =
  ia_generation :: u64
  ia_message_id :: "u64 option"
  ia_last_completed :: "u64 option"
  ia_chunk_count :: nat
  ia_total_bytes :: nat
  ia_next_chunk_index :: nat
  ia_plaintext :: string

definition inbound_assembly_new :: "u64 \<Rightarrow> inbound_assembly" where
  "inbound_assembly_new generation =
     \<lparr>ia_generation = generation, ia_message_id = None, ia_last_completed = None, ia_chunk_count = 0,
      ia_total_bytes = 0, ia_next_chunk_index = 0, ia_plaintext = []\<rparr>"

text \<open>The message the chunk belongs to: the first chunk of a new one, or the next of the current one.\<close>

definition select_message :: "terminal_chunk_header \<Rightarrow> inbound_assembly \<Rightarrow> inbound_assembly option" where
  "select_message h a =
     (case ia_message_id a of
        None \<Rightarrow>
          if ch_chunk_index h = 0 then
            Some (a\<lparr>ia_message_id := Some (ch_message_id h), ia_chunk_count := ch_chunk_count h,
                    ia_total_bytes := ch_total_bytes h, ia_plaintext := []\<rparr>)
          else None
      | Some message_id \<Rightarrow>
          if message_id = ch_message_id h \<and> ia_chunk_count a = ch_chunk_count h \<and> ia_total_bytes a = ch_total_bytes h
          then Some a else None)"

text \<open>What follows once a slice is open: it is appended, and the message may be complete.\<close>

definition append_slice :: "string \<Rightarrow> inbound_assembly \<Rightarrow> (unit + string option) \<times> inbound_assembly" where
  "append_slice part a =
     (if part = [] \<or> LOCAL_WEBRTC_CHUNK_PAYLOAD_BYTES < length part \<or>
         ia_total_bytes a < length (ia_plaintext a) + length part then (Inl (), a)
      else
        let a = a\<lparr>ia_plaintext := ia_plaintext a @ part, ia_next_chunk_index := ia_next_chunk_index a + 1\<rparr>
        in if ia_next_chunk_index a = ia_chunk_count a then
             if length (ia_plaintext a) \<noteq> ia_total_bytes a then (Inl (), a)
             else (Inr (Some (ia_plaintext a)),
                   a\<lparr>ia_last_completed := ia_message_id a, ia_message_id := None, ia_chunk_count := 0,
                     ia_total_bytes := 0, ia_next_chunk_index := 0, ia_plaintext := []\<rparr>)
           else
             let remaining_chunks = ia_chunk_count a - ia_next_chunk_index a
             in if ia_total_bytes a \<le> length (ia_plaintext a) \<or>
                   ia_total_bytes a - length (ia_plaintext a) < remaining_chunks then (Inl (), a)
                else (Inr None, a))"

definition assembly_push ::
  "usize \<Rightarrow> (string \<Rightarrow> string option) \<Rightarrow> string \<Rightarrow> inbound_assembly \<Rightarrow> (unit + string option) \<times> inbound_assembly"
where
  "assembly_push max_input open_sealed message a =
     (case decode_chunk message of
        None \<Rightarrow> (Inl (), a)
      | Some (h, sealed) \<Rightarrow>
          if ch_generation h \<noteq> ia_generation a \<or> max_input < ch_total_bytes h \<or> ch_total_bytes h = 0 \<or>
             (case ia_last_completed a of None \<Rightarrow> False | Some done_id \<Rightarrow> ch_message_id h \<le> done_id) then (Inl (), a)
          else case select_message h a of
                 None \<Rightarrow> (Inl (), a)
               | Some a \<Rightarrow>
                   if ch_chunk_index h \<noteq> ia_next_chunk_index a then (Inl (), a)
                   else case open_sealed sealed of
                          None \<Rightarrow> (Inl (), a)
                        | Some part \<Rightarrow> append_slice part a)"

section \<open>Sealing\<close>

definition div_ceil :: "nat \<Rightarrow> nat \<Rightarrow> nat" where
  "div_ceil a b = (if a mod b = 0 then a div b else a div b + 1)"

definition sealed_terminal_wire_len :: "usize \<Rightarrow> usize \<Rightarrow> usize option" where
  "sealed_terminal_wire_len overhead body_len =
     (case checked_mul (div_ceil body_len LOCAL_WEBRTC_CHUNK_PAYLOAD_BYTES)
             (LOCAL_WEBRTC_TERMINAL_CHUNK_HEADER_BYTES + overhead) of
        None \<Rightarrow> None
      | Some n \<Rightarrow> checked_add n body_len)"

text \<open>\<open>slice::chunks\<close>.\<close>

function slice_chunks :: "nat \<Rightarrow> 'a list \<Rightarrow> 'a list list" where
  "slice_chunks n xs = (if n = 0 \<or> xs = [] then [] else take n xs # slice_chunks n (drop n xs))"
  by auto

termination
  by (relation "measure (length \<circ> snd)") (auto simp: neq_Nil_conv)

declare slice_chunks.simps [simp del]

datatype local_webrtc_error = WebrtcError

definition u32_try_from :: "nat \<Rightarrow> nat option" where
  "u32_try_from n = (if n < 2 ^ 32 then Some n else None)"

fun seal_chunks ::
  "(nat \<Rightarrow> string \<Rightarrow> string option) \<Rightarrow> terminal_chunk_header \<Rightarrow> nat \<Rightarrow> string list \<Rightarrow> local_webrtc_error + string list"
where
  "seal_chunks seal h chunk_index [] = Inr []"
| "seal_chunks seal h chunk_index (part # slices) =
     (case u32_try_from chunk_index of
        None \<Rightarrow> Inl WebrtcError
      | Some index \<Rightarrow>
          (case seal chunk_index part of
             None \<Rightarrow> Inl WebrtcError
           | Some sealed \<Rightarrow>
               let message = encode_chunk_header (h\<lparr>ch_chunk_index := index\<rparr>) @ sealed
               in if LOCAL_WEBRTC_MAX_FRAME_BYTES \<le> length message then Inl WebrtcError
                  else case seal_chunks seal h (chunk_index + 1) slices of
                         Inl e \<Rightarrow> Inl e
                       | Inr messages \<Rightarrow> Inr (message # messages)))"

definition sealed_terminal_body_chunks ::
  "(nat \<Rightarrow> string \<Rightarrow> string option) \<Rightarrow> string \<Rightarrow> u64 \<Rightarrow> nat \<Rightarrow> u64 \<Rightarrow> local_webrtc_error + string list"
where
  "sealed_terminal_body_chunks seal body generation stream_epoch message_id =
     (if body = [] then Inl WebrtcError
      else case u32_try_from (length body) of
        None \<Rightarrow> Inl WebrtcError
      | Some total_bytes \<Rightarrow>
          (case u32_try_from (div_ceil (length body) LOCAL_WEBRTC_CHUNK_PAYLOAD_BYTES) of
             None \<Rightarrow> Inl WebrtcError
           | Some chunk_count \<Rightarrow>
               seal_chunks seal
                 \<lparr>ch_message_id = message_id, ch_chunk_index = 0, ch_chunk_count = chunk_count,
                  ch_total_bytes = total_bytes, ch_generation = generation, ch_stream_epoch = stream_epoch\<rparr>
                 0 (slice_chunks LOCAL_WEBRTC_CHUNK_PAYLOAD_BYTES body)))"

section \<open>Chunks decode to what was encoded\<close>

definition header_ok :: "terminal_chunk_header \<Rightarrow> bool" where
  "header_ok h \<longleftrightarrow>
     ch_message_id h < 2 ^ 64 \<and> ch_generation h < 2 ^ 64 \<and> ch_stream_epoch h < 2 ^ 32 \<and>
     ch_chunk_index h < ch_chunk_count h \<and> ch_chunk_count h \<le> max (ch_total_bytes h) 1 \<and>
     ch_total_bytes h \<le> LOCAL_WEBRTC_MAX_DELIVERY_BYTES"

lemma length_encode_chunk_header [simp]: "length (encode_chunk_header h) = 33"
  by (simp add: encode_chunk_header_def)

theorem decode_encoded_chunk:
  assumes h: "header_ok h"
    and sealed: "28 \<le> length sealed" "33 + length sealed < LOCAL_WEBRTC_MAX_FRAME_BYTES"
  shows "decode_chunk (encode_chunk_header h @ sealed) = Some (h, sealed)"
proof -
  have le: "from_le_bytes (to_le_bytes 8 (ch_message_id h)) = ch_message_id h"
    "from_le_bytes (to_le_bytes 4 (ch_chunk_index h)) = ch_chunk_index h"
    "from_le_bytes (to_le_bytes 4 (ch_chunk_count h)) = ch_chunk_count h"
    "from_le_bytes (to_le_bytes 4 (ch_total_bytes h)) = ch_total_bytes h"
    "from_le_bytes (to_le_bytes 8 (ch_generation h)) = ch_generation h"
    "from_le_bytes (to_le_bytes 4 (ch_stream_epoch h)) = ch_stream_epoch h"
    using h by (auto simp: header_ok_def webrtc_consts intro!: le_bytes_roundtrip)
  have fields: "take 8 (drop 1 (encode_chunk_header h @ sealed)) = to_le_bytes 8 (ch_message_id h)"
    "take 4 (drop 9 (encode_chunk_header h @ sealed)) = to_le_bytes 4 (ch_chunk_index h)"
    "take 4 (drop 13 (encode_chunk_header h @ sealed)) = to_le_bytes 4 (ch_chunk_count h)"
    "take 4 (drop 17 (encode_chunk_header h @ sealed)) = to_le_bytes 4 (ch_total_bytes h)"
    "take 8 (drop 21 (encode_chunk_header h @ sealed)) = to_le_bytes 8 (ch_generation h)"
    "take 4 (drop 29 (encode_chunk_header h @ sealed)) = to_le_bytes 4 (ch_stream_epoch h)"
    by (simp_all add: encode_chunk_header_def)
  have "(encode_chunk_header h @ sealed) ! 0 = char_of LOCAL_WEBRTC_DELIVERY_CHUNK_VERSION"
    by (simp add: encode_chunk_header_def)
  moreover have "drop 33 (encode_chunk_header h @ sealed) = sealed" by simp
  ultimately show ?thesis
    using h sealed unfolding decode_chunk_def Let_def fields le by (auto simp: header_ok_def webrtc_consts max_def split: if_splits)
qed

section \<open>Slices\<close>

lemma slice_chunks_Nil [simp]: "slice_chunks n [] = []"
  by (subst slice_chunks.simps) simp

lemma concat_slice_chunks: "0 < n \<Longrightarrow> concat (slice_chunks n xs) = xs"
proof (induction n xs rule: slice_chunks.induct)
  case (1 n xs)
  then show ?case by (subst slice_chunks.simps) auto
qed

lemma slice_chunks_bounds: "ys \<in> set (slice_chunks n xs) \<Longrightarrow> ys \<noteq> [] \<and> length ys \<le> n"
proof (induction n xs rule: slice_chunks.induct)
  case (1 n xs)
  then show ?case by (subst (asm) (2) slice_chunks.simps) (auto split: if_splits)
qed

lemma length_slice_chunks: "0 < n \<Longrightarrow> length (slice_chunks n xs) = div_ceil (length xs) n"
proof (induction n xs rule: slice_chunks.induct)
  case (1 n xs)
  show ?case
  proof (cases "xs = []")
    case False
    have "div_ceil (length xs) n = Suc (div_ceil (length xs - n) n)"
    proof (cases "length xs < n")
      case True
      then show ?thesis using False by (simp add: div_ceil_def)
    next
      case False
      then have "length xs div n = Suc ((length xs - n) div n)" "length xs mod n = (length xs - n) mod n"
        using 1(2) by (simp_all add: le_div_geq le_mod_geq)
      then show ?thesis by (simp add: div_ceil_def)
    qed
    then show ?thesis using 1 False by (subst slice_chunks.simps) simp
  qed (simp add: div_ceil_def)
qed

text \<open>What the code relies on of the cipher: a sealed slice opens to the slice and adds nonce and tag.\<close>

definition sealing :: "(nat \<Rightarrow> string \<Rightarrow> string option) \<Rightarrow> (string \<Rightarrow> string option) \<Rightarrow> bool" where
  "sealing seal open_sealed \<longleftrightarrow>
     (\<forall>n part sealed. seal n part = Some sealed \<longrightarrow>
        open_sealed sealed = Some part \<and>
        length sealed = length part + LOCAL_WEBRTC_TERMINAL_CHUNK_NONCE_BYTES + LOCAL_WEBRTC_TERMINAL_CHUNK_TAG_BYTES)"

section \<open>What a sender seals, the assembly delivers\<close>

text \<open>A channel's messages in order; the first error closes the channel.\<close>

fun push_all ::
  "usize \<Rightarrow> (string \<Rightarrow> string option) \<Rightarrow> string list \<Rightarrow> inbound_assembly \<Rightarrow> string list \<times> inbound_assembly option"
where
  "push_all max_input open_sealed [] a = ([], Some a)"
| "push_all max_input open_sealed (m # ms) a =
     (case assembly_push max_input open_sealed m a of
        (Inl _, _) \<Rightarrow> ([], None)
      | (Inr None, a) \<Rightarrow> push_all max_input open_sealed ms a
      | (Inr (Some frame), a) \<Rightarrow> apfst ((#) frame) (push_all max_input open_sealed ms a))"

definition between :: "u64 option \<Rightarrow> u64 \<Rightarrow> inbound_assembly" where
  "between last_id generation = (inbound_assembly_new generation)\<lparr>ia_last_completed := last_id\<rparr>"

definition newer :: "u64 \<Rightarrow> u64 option \<Rightarrow> bool" where
  "newer message_id last_id \<longleftrightarrow> (case last_id of None \<Rightarrow> True | Some l \<Rightarrow> l < message_id)"

text \<open>The assembly after \<open>k\<close> chunks of the message of header \<open>h\<close>, with the plaintext so far.\<close>

definition assembling :: "u64 option \<Rightarrow> terminal_chunk_header \<Rightarrow> string \<Rightarrow> nat \<Rightarrow> inbound_assembly" where
  "assembling last_id h pre k =
     (if k = 0 then between last_id (ch_generation h)
      else (between last_id (ch_generation h))\<lparr>ia_message_id := Some (ch_message_id h), ia_chunk_count := ch_chunk_count h,
        ia_total_bytes := ch_total_bytes h, ia_next_chunk_index := k, ia_plaintext := pre\<rparr>)"

lemma push_next_chunk:
  assumes seal: "open_sealed sealed = Some part" "length sealed = length part + 28"
    and part: "part \<noteq> []" "length part \<le> LOCAL_WEBRTC_CHUNK_PAYLOAD_BYTES"
    and h: "header_ok (h\<lparr>ch_chunk_index := k\<rparr>)" "ch_total_bytes h \<le> max_input" "newer (ch_message_id h) last_id"
    and room: "length (pre @ part) + (ch_chunk_count h - Suc k) \<le> ch_total_bytes h"
    and start: "k = 0 \<longrightarrow> pre = []"
  shows "assembly_push max_input open_sealed (encode_chunk_header (h\<lparr>ch_chunk_index := k\<rparr>) @ sealed) (assembling last_id h pre k) =
    (if Suc k = ch_chunk_count h then
       if length (pre @ part) = ch_total_bytes h
       then (Inr (Some (pre @ part)), between (Some (ch_message_id h)) (ch_generation h))
       else (Inl (), assembling last_id h (pre @ part) (Suc k))
     else (Inr None, assembling last_id h (pre @ part) (Suc k)))"
proof -
  let ?a = "(between last_id (ch_generation h))\<lparr>ia_message_id := Some (ch_message_id h), ia_chunk_count := ch_chunk_count h,
        ia_total_bytes := ch_total_bytes h, ia_next_chunk_index := k, ia_plaintext := pre\<rparr>"
  have decode: "decode_chunk (encode_chunk_header (h\<lparr>ch_chunk_index := k\<rparr>) @ sealed) = Some (h\<lparr>ch_chunk_index := k\<rparr>, sealed)"
    using decode_encoded_chunk [OF h(1)] seal(2) part by (simp add: webrtc_consts)
  have select: "select_message (h\<lparr>ch_chunk_index := k\<rparr>) (assembling last_id h pre k) = Some ?a"
    using start by (auto simp: select_message_def assembling_def between_def inbound_assembly_new_def)
  have count: "k < ch_chunk_count h" using h(1) by (simp add: header_ok_def)
  have gates: "ia_generation (assembling last_id h pre k) = ch_generation h" "ia_last_completed (assembling last_id h pre k) = last_id"
    by (simp_all add: assembling_def between_def inbound_assembly_new_def)
  have "0 < length part" using part(1) by simp
  then have "assembly_push max_input open_sealed (encode_chunk_header (h\<lparr>ch_chunk_index := k\<rparr>) @ sealed) (assembling last_id h pre k) =
      append_slice part ?a"
    using decode select gates h(2,3) seal(1) room
    by (auto simp: assembly_push_def newer_def split: option.splits)
  moreover have "append_slice part ?a =
    (if Suc k = ch_chunk_count h then
       if length (pre @ part) = ch_total_bytes h
       then (Inr (Some (pre @ part)), between (Some (ch_message_id h)) (ch_generation h))
       else (Inl (), assembling last_id h (pre @ part) (Suc k))
     else (Inr None, assembling last_id h (pre @ part) (Suc k)))"
    using part room count
    by (auto simp: append_slice_def assembling_def between_def inbound_assembly_new_def Let_def)
  ultimately show ?thesis by simp
qed

lemma length_le_concat: "\<forall>p \<in> set ps. p \<noteq> [] \<Longrightarrow> length ps \<le> length (concat ps)"
  by (induction ps) (auto simp: neq_Nil_conv)

lemma seal_chunks_Cons:
  assumes "seal_chunks seal h k (part # parts) = Inr msgs"
  obtains sealed ms where "seal k part = Some sealed" "msgs = (encode_chunk_header (h\<lparr>ch_chunk_index := k\<rparr>) @ sealed) # ms"
    "seal_chunks seal h (k + 1) parts = Inr ms"
  using assms by (auto simp: u32_try_from_def Let_def split: if_splits option.splits sum.splits)

lemma push_sealed_chunks:
  assumes sealing: "sealing seal open_sealed"
    and h: "\<And>k. k < ch_chunk_count h \<Longrightarrow> header_ok (h\<lparr>ch_chunk_index := k\<rparr>)" "ch_total_bytes h \<le> max_input"
      "newer (ch_message_id h) last_id"
  shows "seal_chunks seal h k parts = Inr msgs \<Longrightarrow> parts \<noteq> [] \<Longrightarrow>
    \<forall>p \<in> set parts. p \<noteq> [] \<and> length p \<le> LOCAL_WEBRTC_CHUNK_PAYLOAD_BYTES \<Longrightarrow> k + length parts = ch_chunk_count h \<Longrightarrow>
    length (pre @ concat parts) = ch_total_bytes h \<Longrightarrow> k = 0 \<longrightarrow> pre = [] \<Longrightarrow>
    push_all max_input open_sealed (msgs @ rest) (assembling last_id h pre k) =
      apfst ((#) (pre @ concat parts))
        (push_all max_input open_sealed rest (between (Some (ch_message_id h)) (ch_generation h)))"
proof (induction parts arbitrary: k pre msgs)
  case (Cons part parts)
  obtain sealed ms where ms: "seal k part = Some sealed" "msgs = (encode_chunk_header (h\<lparr>ch_chunk_index := k\<rparr>) @ sealed) # ms"
    "seal_chunks seal h (k + 1) parts = Inr ms"
    using seal_chunks_Cons [OF Cons.prems(1)] .
  have part: "open_sealed sealed = Some part" "length sealed = length part + 28" "part \<noteq> []"
    "length part \<le> LOCAL_WEBRTC_CHUNK_PAYLOAD_BYTES"
    using sealing ms(1) Cons.prems(3) by (auto simp: sealing_def webrtc_consts)
  have count: "Suc k = ch_chunk_count h \<longleftrightarrow> parts = []" "k < ch_chunk_count h" "ch_chunk_count h - Suc k = length parts"
    using Cons.prems(4) by ((cases parts; auto)+)
  have "length parts \<le> length (concat parts)" using Cons.prems(3) by (intro length_le_concat) auto
  then have room: "length (pre @ part) + (ch_chunk_count h - Suc k) \<le> ch_total_bytes h"
    using Cons.prems(5) count(3) by simp
  have "parts = [] \<Longrightarrow> length (pre @ part) = ch_total_bytes h" using Cons.prems(5) by simp
  then have push: "assembly_push max_input open_sealed (encode_chunk_header (h\<lparr>ch_chunk_index := k\<rparr>) @ sealed) (assembling last_id h pre k) =
    (if parts = [] then (Inr (Some (pre @ part)), between (Some (ch_message_id h)) (ch_generation h))
     else (Inr None, assembling last_id h (pre @ part) (Suc k)))"
    using push_next_chunk [where open_sealed = open_sealed and sealed = sealed and h = h and k = k, OF part h(1) [OF count(2)] h(2,3) room Cons.prems(6)] by (simp add: count(1))
  show ?case
  proof (cases "parts = []")
    case True
    then show ?thesis using push ms(2,3) by simp
  next
    case False
    have "push_all max_input open_sealed (ms @ rest) (assembling last_id h (pre @ part) (k + 1)) =
      apfst ((#) ((pre @ part) @ concat parts))
        (push_all max_input open_sealed rest (between (Some (ch_message_id h)) (ch_generation h)))"
      using Cons.prems False ms(3) by (intro Cons.IH) auto
    then show ?thesis using push ms(2) False by simp
  qed
qed simp

definition sendable :: "usize \<Rightarrow> u64 \<Rightarrow> nat \<Rightarrow> string \<Rightarrow> bool" where
  "sendable max_input message_id stream_epoch body \<longleftrightarrow>
     message_id < 2 ^ 64 \<and> stream_epoch < 2 ^ 32 \<and> length body \<le> max_input \<and> length body \<le> LOCAL_WEBRTC_MAX_DELIVERY_BYTES"

lemma push_sealed_body:
  assumes sealing: "sealing seal open_sealed" and sealed: "sealed_terminal_body_chunks seal body generation stream_epoch message_id = Inr msgs"
    and limits: "sendable max_input message_id stream_epoch body" "generation < 2 ^ 64" and new: "newer message_id last_id"
  shows "push_all max_input open_sealed (msgs @ rest) (between last_id generation) =
    apfst ((#) body) (push_all max_input open_sealed rest (between (Some message_id) generation))"
proof -
  let ?parts = "slice_chunks LOCAL_WEBRTC_CHUNK_PAYLOAD_BYTES body"
  let ?h = "\<lparr>ch_message_id = message_id, ch_chunk_index = 0, ch_chunk_count = length ?parts, ch_total_bytes = length body,
    ch_generation = generation, ch_stream_epoch = stream_epoch\<rparr>"
  have pos: "0 < LOCAL_WEBRTC_CHUNK_PAYLOAD_BYTES" by (simp add: webrtc_consts)
  note parts = concat_slice_chunks [OF pos, of body] length_slice_chunks [OF pos, of body]
    slice_chunks_bounds [of _ LOCAL_WEBRTC_CHUNK_PAYLOAD_BYTES body]
  have body: "body \<noteq> []" and seals: "seal_chunks seal ?h 0 ?parts = Inr msgs"
    using sealed parts(2) by (auto simp: sealed_terminal_body_chunks_def u32_try_from_def split: if_splits)
  have "?parts \<noteq> []" using parts(1) body by auto
  moreover have "length ?parts \<le> length body" using length_le_concat [of ?parts] parts(1,3) by auto
  then have "header_ok (?h\<lparr>ch_chunk_index := k\<rparr>)" if "k < length ?parts" for k
    using that limits by (simp add: header_ok_def sendable_def)
  ultimately have "push_all max_input open_sealed (msgs @ rest) (assembling last_id ?h [] 0) =
      apfst ((#) ([] @ concat ?parts)) (push_all max_input open_sealed rest (between (Some (ch_message_id ?h)) (ch_generation ?h)))"
    using limits new seals parts by (intro push_sealed_chunks [OF sealing]) (auto simp: sendable_def)
  then show ?thesis using parts(1) by (simp add: assembling_def)
qed

lemma sealed_chunks_length:
  assumes "sealing seal open_sealed"
  shows "seal_chunks seal h k parts = Inr msgs \<Longrightarrow> sum_list (map length msgs) = length parts * 61 + length (concat parts)"
proof (induction parts arbitrary: k msgs)
  case (Cons part parts)
  obtain sealed ms where ms: "seal k part = Some sealed" "msgs = (encode_chunk_header (h\<lparr>ch_chunk_index := k\<rparr>) @ sealed) # ms"
    "seal_chunks seal h (k + 1) parts = Inr ms"
    using seal_chunks_Cons [OF Cons.prems] .
  have "length sealed = length part + 28" using assms ms(1) by (auto simp: sealing_def webrtc_consts)
  then show ?case using ms(2) Cons.IH [OF ms(3)] by simp
qed simp

lemma sealed_body_wire_len:
  assumes "sealing seal open_sealed" "sealed_terminal_body_chunks seal body generation stream_epoch message_id = Inr msgs"
  shows "sealed_terminal_wire_len 28 (length body) = Some (sum_list (map length msgs))"
proof -
  have pos: "0 < LOCAL_WEBRTC_CHUNK_PAYLOAD_BYTES" by (simp add: webrtc_consts)
  let ?n = "div_ceil (length body) LOCAL_WEBRTC_CHUNK_PAYLOAD_BYTES"
  have bounds: "length body < 2 ^ 32" "?n < 2 ^ 32"
    using assms(2) by (auto simp: sealed_terminal_body_chunks_def u32_try_from_def split: if_splits)
  have "sum_list (map length msgs) = ?n * 61 + length body"
    using assms sealed_chunks_length [OF assms(1)] concat_slice_chunks [OF pos, of body] length_slice_chunks [OF pos, of body]
    by (auto simp: sealed_terminal_body_chunks_def u32_try_from_def split: if_splits)
  then show ?thesis using bounds
    by (simp add: sealed_terminal_wire_len_def checked_mul_def checked_add_def webrtc_consts u64_max_def)
qed

type_synonym sent_body = "u64 \<times> nat \<times> string"

lemma push_sent_bodies:
  assumes "\<forall>i. sealing (seal i) open_sealed" "generation < 2 ^ 64"
  shows "list_all2 (\<lambda>(i, epoch, body) msgs. sealed_terminal_body_chunks (seal i) body generation epoch i = Inr msgs) sends msgss \<Longrightarrow>
    sorted_wrt (<) (map fst sends) \<Longrightarrow> \<forall>(i, epoch, body) \<in> set sends. sendable max_input i epoch body \<and> newer i last_id \<Longrightarrow>
    \<exists>l. push_all max_input open_sealed (concat msgss) (between last_id generation) = (map (snd \<circ> snd) sends, Some (between l generation))"
proof (induction sends msgss arbitrary: last_id rule: list_all2_induct)
  case (Cons s sends msgs msgss)
  obtain i epoch body where s: "s = (i, epoch, body)" by (metis surj_pair)
  have "\<exists>l. push_all max_input open_sealed (concat msgss) (between (Some i) generation) = (map (snd \<circ> snd) sends, Some (between l generation))"
    using Cons s by (intro Cons.IH) (auto simp: newer_def)
  moreover have "push_all max_input open_sealed (msgs @ concat msgss) (between last_id generation) =
      apfst ((#) body) (push_all max_input open_sealed (concat msgss) (between (Some i) generation))"
    using Cons.hyps(1) Cons.prems(2) assms s by (intro push_sealed_body [of "seal i" _ body generation epoch i]) auto
  ultimately show ?case using s by auto
qed (auto intro: exI [of _ last_id])

text \<open>
  C24. What one end of a terminal channel sends, the other end gets.  For any sequence of non-empty
  bodies within the limits, sent under increasing message identities, the sealed chunks pushed in
  order into a fresh assembly of the same generation yield exactly the bodies, whole and in order,
  without an error, and leave no message half assembled; and the bytes of each message on the wire
  are what \<open>sealed_terminal_wire_len\<close> computes for its body.
\<close>

theorem terminal_chunks_roundtrip:
  fixes sends :: "sent_body list"
  assumes "\<forall>i. sealing (seal i) open_sealed" "generation < 2 ^ 64"
    and "list_all2 (\<lambda>(i, epoch, body) msgs. sealed_terminal_body_chunks (seal i) body generation epoch i = Inr msgs) sends msgss"
    and "sorted_wrt (<) (map fst sends)" "\<forall>(i, epoch, body) \<in> set sends. sendable max_input i epoch body"
  shows "(\<exists>a. push_all max_input open_sealed (concat msgss) (inbound_assembly_new generation) = (map (snd \<circ> snd) sends, Some a) \<and>
      ia_message_id a = None) \<and>
    list_all2 (\<lambda>(i, epoch, body) msgs. sealed_terminal_wire_len 28 (length body) = Some (sum_list (map length msgs))) sends msgss"
proof
  have "inbound_assembly_new generation = between None generation" by (simp add: between_def inbound_assembly_new_def)
  moreover have "\<forall>(i, epoch, body) \<in> set sends. sendable max_input i epoch body \<and> newer i None"
    using assms(5) by (auto simp: newer_def)
  ultimately show "\<exists>a. push_all max_input open_sealed (concat msgss) (inbound_assembly_new generation) = (map (snd \<circ> snd) sends, Some a) \<and>
      ia_message_id a = None"
    using push_sent_bodies [OF assms(1-4)] by (fastforce simp: between_def inbound_assembly_new_def)
  show "list_all2 (\<lambda>(i, epoch, body) msgs. sealed_terminal_wire_len 28 (length body) = Some (sum_list (map length msgs))) sends msgss"
    using assms(3) by (rule list_all2_mono) (use assms(1) sealed_body_wire_len in fastforce)
qed

definition plain_seal :: "u64 \<Rightarrow> nat \<Rightarrow> string \<Rightarrow> string option" where
  "plain_seal i n part = Some (replicate 28 (CHR ''s'') @ part)"

definition plain_open :: "string \<Rightarrow> string option" where
  "plain_open sealed = Some (drop 28 sealed)"

lemma plain_sealing: "sealing (plain_seal i) plain_open"
  by (simp add: sealing_def plain_seal_def plain_open_def webrtc_consts)

lemma one_chunk:
  assumes "0 < length body" "length body \<le> 12"
  shows "sealed_terminal_body_chunks (plain_seal i) body generation epoch i =
    Inr [encode_chunk_header \<lparr>ch_message_id = i, ch_chunk_index = 0, ch_chunk_count = 1, ch_total_bytes = length body,
      ch_generation = generation, ch_stream_epoch = epoch\<rparr> @ replicate 28 (CHR ''s'') @ body]"
proof -
  have "slice_chunks 12288 body = [body]"
    using assms by (subst slice_chunks.simps) auto
  then show ?thesis using assms
    by (simp add: sealed_terminal_body_chunks_def u32_try_from_def plain_seal_def webrtc_consts div_ceil_def Let_def)
qed

theorem terminal_chunks_roundtrip_witness:
  "\<exists>msgss. list_all2 (\<lambda>(i, epoch, body) msgs. sealed_terminal_body_chunks (plain_seal i) body 5 epoch i = Inr msgs)
        [(1, 0, ''ls''), (2, 0, ''pwd'')] msgss \<and>
     (\<exists>a. push_all 100 plain_open (concat msgss) (inbound_assembly_new 5) = ([''ls'', ''pwd''], Some a) \<and> ia_message_id a = None)"
proof -
  obtain m1 m2 where m: "sealed_terminal_body_chunks (plain_seal 1) ''ls'' 5 0 1 = Inr m1"
    "sealed_terminal_body_chunks (plain_seal 2) ''pwd'' 5 0 2 = Inr m2"
    using one_chunk [of "''ls''" 1 5 0] one_chunk [of "''pwd''" 2 5 0] by simp
  let ?sends = "[(1, 0, ''ls''), (2, 0, ''pwd'')] :: sent_body list"
  have sent: "list_all2 (\<lambda>(i, epoch, body) msgs. sealed_terminal_body_chunks (plain_seal i) body 5 epoch i = Inr msgs) ?sends [m1, m2]"
    using m by simp
  have "\<exists>a. push_all 100 plain_open (concat [m1, m2]) (inbound_assembly_new 5) = (map (snd \<circ> snd) ?sends, Some a) \<and>
      ia_message_id a = None"
    using terminal_chunks_roundtrip [of plain_seal plain_open 5 ?sends "[m1, m2]" 100] plain_sealing sent
    by (simp add: sendable_def webrtc_consts)
  then show ?thesis using sent by (intro exI [of _ "[m1, m2]"]) simp
qed

section \<open>What arrives was sent as one message\<close>

text \<open>The header and the opened slice of a message.\<close>

definition opened_chunk :: "(string \<Rightarrow> string option) \<Rightarrow> string \<Rightarrow> (terminal_chunk_header \<times> string) option" where
  "opened_chunk open_sealed m =
     (case decode_chunk m of None \<Rightarrow> None | Some (h, sealed) \<Rightarrow> map_option (Pair h) (open_sealed sealed))"

text \<open>A run of messages is chunk 0, 1, and so on of one message, for one generation.\<close>

definition chunk_run ::
  "(string \<Rightarrow> string option) \<Rightarrow> u64 \<Rightarrow> u64 \<Rightarrow> nat \<Rightarrow> nat \<Rightarrow> string list \<Rightarrow> string \<Rightarrow> bool"
where
  "chunk_run open_sealed generation i count total_len ms plaintext \<longleftrightarrow>
     (\<exists>chunks. map (opened_chunk open_sealed) ms = map Some chunks \<and> plaintext = concat (map snd chunks) \<and>
        map (ch_chunk_index \<circ> fst) chunks = [0..<length chunks] \<and>
        (\<forall>(h, part) \<in> set chunks. ch_message_id h = i \<and> ch_chunk_count h = count \<and> ch_total_bytes h = total_len \<and>
           ch_generation h = generation))"

lemma chunk_run_Nil [simp]: "chunk_run open_sealed generation i count total_len [] []"
  by (simp add: chunk_run_def)

lemma chunk_run_snoc:
  assumes "chunk_run open_sealed generation i count total_len ms plaintext" "opened_chunk open_sealed m = Some (h, part)"
    "ch_message_id h = i" "ch_chunk_count h = count" "ch_total_bytes h = total_len" "ch_generation h = generation"
    "ch_chunk_index h = length ms"
  shows "chunk_run open_sealed generation i count total_len (ms @ [m]) (plaintext @ part)"
proof -
  obtain chunks where c: "map (opened_chunk open_sealed) ms = map Some chunks" "plaintext = concat (map snd chunks)"
    "map (ch_chunk_index \<circ> fst) chunks = [0..<length chunks]"
    "\<forall>(h, part) \<in> set chunks. ch_message_id h = i \<and> ch_chunk_count h = count \<and> ch_total_bytes h = total_len \<and> ch_generation h = generation"
    using assms(1) unfolding chunk_run_def by blast
  have "length ms = length chunks" using c(1) by (metis length_map)
  then show ?thesis unfolding chunk_run_def
    using c assms(2-7) by (intro exI [of _ "chunks @ [(h, part)]"]) auto
qed

text \<open>The assembly holds what the messages since the last complete one carried.\<close>

definition holds_run :: "usize \<Rightarrow> (string \<Rightarrow> string option) \<Rightarrow> inbound_assembly \<Rightarrow> string list \<Rightarrow> bool" where
  "holds_run max_input open_sealed a ms \<longleftrightarrow>
     ia_next_chunk_index a = length ms \<and>
     (case ia_message_id a of
        None \<Rightarrow> ms = [] \<and> ia_plaintext a = []
      | Some i \<Rightarrow>
          newer i (ia_last_completed a) \<and> length (ia_plaintext a) < ia_total_bytes a \<and> ia_total_bytes a \<le> max_input \<and>
          chunk_run open_sealed (ia_generation a) i (ia_chunk_count a) (ia_total_bytes a) ms (ia_plaintext a))"

lemma push_keeps_run:
  assumes run: "holds_run max_input open_sealed a ms" and push: "assembly_push max_input open_sealed m a = (Inr r, a')"
  shows "ia_generation a' = ia_generation a \<and>
    (case r of
       None \<Rightarrow> holds_run max_input open_sealed a' (ms @ [m]) \<and> ia_last_completed a' = ia_last_completed a
     | Some frame \<Rightarrow>
         holds_run max_input open_sealed a' [] \<and>
         (\<exists>i. ia_last_completed a' = Some i \<and> newer i (ia_last_completed a) \<and> 0 < length frame \<and> length frame \<le> max_input \<and>
            chunk_run open_sealed (ia_generation a) i (length (ms @ [m])) (length frame) (ms @ [m]) frame))"
proof -
  obtain h sealed where d: "decode_chunk m = Some (h, sealed)" using push by (auto simp: assembly_push_def split: option.splits)
  have gates: "ch_generation h = ia_generation a" "ch_total_bytes h \<le> max_input" "ch_total_bytes h \<noteq> 0"
    "newer (ch_message_id h) (ia_last_completed a)"
    using push d by (auto simp: assembly_push_def newer_def split: if_splits option.splits)
  obtain a1 where a1: "select_message h a = Some a1" using push d by (auto simp: assembly_push_def split: if_splits option.splits)
  obtain part where part: "ch_chunk_index h = ia_next_chunk_index a1" "open_sealed sealed = Some part" "append_slice part a1 = (Inr r, a')"
    using push d a1 by (auto simp: assembly_push_def split: if_splits option.splits)
  have sel: "ia_message_id a1 = Some (ch_message_id h)" "ia_chunk_count a1 = ch_chunk_count h" "ia_total_bytes a1 = ch_total_bytes h"
    "ia_generation a1 = ia_generation a" "ia_last_completed a1 = ia_last_completed a" "ia_next_chunk_index a1 = length ms"
    "chunk_run open_sealed (ia_generation a) (ch_message_id h) (ch_chunk_count h) (ch_total_bytes h) ms (ia_plaintext a1)"
    using a1 run by (auto simp: select_message_def holds_run_def split: option.splits if_splits)
  have "opened_chunk open_sealed m = Some (h, part)" using d part(2) by (simp add: opened_chunk_def)
  then have longer: "chunk_run open_sealed (ia_generation a) (ch_message_id h) (ch_chunk_count h) (ch_total_bytes h) (ms @ [m]) (ia_plaintext a1 @ part)"
    using chunk_run_snoc [OF sel(7)] gates(1) part(1) sel(6) by simp
  show ?thesis using part(3) sel gates longer
    by (auto simp: append_slice_def holds_run_def Let_def split: if_splits)
qed

definition arrived :: "usize \<Rightarrow> (string \<Rightarrow> string option) \<Rightarrow> u64 \<Rightarrow> u64 \<times> string list \<Rightarrow> string \<Rightarrow> bool" where
  "arrived max_input open_sealed generation run frame \<longleftrightarrow>
     0 < length frame \<and> length frame \<le> max_input \<and>
     chunk_run open_sealed generation (fst run) (length (snd run)) (length frame) (snd run) frame"

lemma push_all_runs:
  "holds_run max_input open_sealed a pre \<Longrightarrow> push_all max_input open_sealed ms a = (frames, final) \<Longrightarrow>
   \<exists>runs rest. pre @ ms = concat (map snd runs) @ rest \<and> sorted_wrt (<) (map fst runs) \<and>
     (\<forall>i \<in> set (map fst runs). newer i (ia_last_completed a)) \<and>
     list_all2 (arrived max_input open_sealed (ia_generation a)) runs frames \<and>
     (case final of None \<Rightarrow> True | Some a' \<Rightarrow> length (ia_plaintext a') \<le> max_input)"
proof (induction ms arbitrary: a pre frames)
  case Nil
  then have "length (ia_plaintext a) \<le> max_input" by (auto simp: holds_run_def split: option.splits)
  then show ?case using Nil by (intro exI [of _ "[]"] exI [of _ pre]) auto
next
  case (Cons m ms)
  obtain r a' where push: "assembly_push max_input open_sealed m a = (r, a')" by fastforce
  consider "r = Inl ()" | "r = Inr None" | frame where "r = Inr (Some frame)" by (metis old.sum.exhaust old.unit.exhaust option.exhaust)
  then show ?case
  proof cases
    case 1
    then show ?thesis using Cons.prems(2) push by (intro exI [of _ "[]"] exI [of _ "pre @ m # ms"]) auto
  next
    case 2
    then have kept: "holds_run max_input open_sealed a' (pre @ [m])" "ia_last_completed a' = ia_last_completed a" "ia_generation a' = ia_generation a"
      using push_keeps_run [OF Cons.prems(1) push [unfolded 2]] by simp_all
    have "push_all max_input open_sealed ms a' = (frames, final)" using Cons.prems(2) push 2 by simp
    from Cons.IH [OF kept(1) this] show ?thesis by (simp add: kept(2,3))
  next
    case (3 frame)
    obtain i where i: "holds_run max_input open_sealed a' []" "ia_last_completed a' = Some i" "newer i (ia_last_completed a)"
      "ia_generation a' = ia_generation a" "arrived max_input open_sealed (ia_generation a) (i, pre @ [m]) frame"
      using push_keeps_run [OF Cons.prems(1) push [unfolded 3]] by (auto simp: arrived_def)
    obtain fs where fs: "push_all max_input open_sealed ms a' = (fs, final)" "frames = frame # fs"
      using Cons.prems(2) push 3 by (cases "push_all max_input open_sealed ms a'") auto
    from Cons.IH [OF i(1) fs(1)] obtain runs rest where runs: "ms = concat (map snd runs) @ rest" "sorted_wrt (<) (map fst runs)"
      "\<forall>j \<in> set (map fst runs). newer j (Some i)" "list_all2 (arrived max_input open_sealed (ia_generation a)) runs fs"
      "case final of None \<Rightarrow> True | Some a' \<Rightarrow> length (ia_plaintext a') \<le> max_input"
      by (auto simp: i(2,4))
    have "\<forall>j \<in> set (map fst runs). newer j (ia_last_completed a)"
      using runs(3) i(3) by (auto simp: newer_def split: option.splits)
    then show ?thesis using runs i(3,5) fs(2)
      by (intro exI [of _ "(i, pre @ [m]) # runs"] exI [of _ rest]) (auto simp: newer_def)
  qed
qed

text \<open>
  C31. Whatever messages arrive on a terminal channel, in whatever order, repeated, cut or forged,
  every input frame the assembly delivers is the plaintext of one contiguous run of messages that
  each open under the channel's key and say to be chunk 0, 1, \<dots> of one message of the bound
  generation, as many as that message declares and exactly as long; its length is between one byte
  and the limit, the identities of the delivered messages strictly increase, so that none is
  delivered twice, and the assembly never holds more plaintext than the limit.
\<close>

theorem input_frames_authentic:
  assumes "push_all max_input open_sealed ms (inbound_assembly_new generation) = (frames, final)"
  shows "\<exists>runs rest. ms = concat (map snd runs) @ rest \<and> sorted_wrt (<) (map fst runs) \<and>
    list_all2 (arrived max_input open_sealed generation) runs frames \<and>
    (case final of None \<Rightarrow> True | Some a \<Rightarrow> length (ia_plaintext a) \<le> max_input)"
proof -
  have "holds_run max_input open_sealed (inbound_assembly_new generation) []"
    by (simp add: holds_run_def inbound_assembly_new_def)
  from push_all_runs [OF this assms] show ?thesis by (simp add: inbound_assembly_new_def) blast
qed

theorem input_frames_authentic_witness:
  "\<exists>ms frames final. push_all 100 plain_open (ms @ ms) (inbound_assembly_new 5) = (frames, final) \<and> frames = [''ls''] \<and> final = None \<and>
     (\<exists>runs rest. ms @ ms = concat (map snd runs) @ rest \<and> sorted_wrt (<) (map fst runs) \<and>
        list_all2 (arrived 100 plain_open 5) runs frames)"
proof -
  obtain ms where ms: "sealed_terminal_body_chunks (plain_seal 1) ''ls'' 5 0 1 = Inr ms" "length ms = 1"
    using one_chunk [of "''ls''" 1 5 0] by simp
  then obtain m where m: "ms = [m]" by (cases ms) auto
  have first: "push_all 100 plain_open (ms @ rest) (between None 5) = apfst ((#) ''ls'') (push_all 100 plain_open rest (between (Some 1) 5))" for rest
    using ms(1) by (intro push_sealed_body [OF plain_sealing]) (auto simp: sendable_def newer_def webrtc_consts)
  have "push_all 100 plain_open ms (between (Some 1) 5) = ([], None)"
  proof -
    have "m = encode_chunk_header \<lparr>ch_message_id = 1, ch_chunk_index = 0, ch_chunk_count = 1, ch_total_bytes = 2, ch_generation = 5,
        ch_stream_epoch = 0\<rparr> @ replicate 28 (CHR ''s'') @ ''ls''"
      using ms(1) m one_chunk [of "''ls''" 1 5 0] by (simp add: numeral_2_eq_2)
    then have "decode_chunk m = Some (\<lparr>ch_message_id = 1, ch_chunk_index = 0, ch_chunk_count = 1, ch_total_bytes = 2, ch_generation = 5,
        ch_stream_epoch = 0\<rparr>, replicate 28 (CHR ''s'') @ ''ls'')"
      by (simp only:) (rule decode_encoded_chunk, simp_all add: header_ok_def webrtc_consts)
    then show ?thesis by (simp add: m assembly_push_def between_def inbound_assembly_new_def)
  qed
  then have run: "push_all 100 plain_open (ms @ ms) (inbound_assembly_new 5) = ([''ls''], None)"
    using first [of ms] by (simp add: between_def inbound_assembly_new_def)
  then show ?thesis using input_frames_authentic [OF run] by blast
qed

text \<open>The assembly does not compare the stream epochs of the chunks of a message.\<close>

theorem stream_epoch_mismatch_accepted:
  assumes sealing: "sealing seal open_sealed" "seal 0 part = Some sealed" "seal 1 part' = Some sealed'"
    and h: "h = \<lparr>ch_message_id = i, ch_chunk_index = 0, ch_chunk_count = 2, ch_total_bytes = length part + length part',
        ch_generation = generation, ch_stream_epoch = epoch\<rparr>"
    and parts: "part \<noteq> []" "part' \<noteq> []" "length part \<le> LOCAL_WEBRTC_CHUNK_PAYLOAD_BYTES"
      "length part' \<le> LOCAL_WEBRTC_CHUNK_PAYLOAD_BYTES" "length part + length part' \<le> max_input"
    and widths: "i < 2 ^ 64" "generation < 2 ^ 64" "epoch < 2 ^ 32" "epoch' < 2 ^ 32"
  shows "fst (push_all max_input open_sealed
      [encode_chunk_header h @ sealed, encode_chunk_header (h\<lparr>ch_chunk_index := 1, ch_stream_epoch := epoch'\<rparr>) @ sealed']
      (inbound_assembly_new generation)) = [part @ part']"
proof -
  let ?h = "h\<lparr>ch_stream_epoch := epoch'\<rparr>"
  have opens: "open_sealed sealed = Some part" "length sealed = length part + 28" "open_sealed sealed' = Some part'"
    "length sealed' = length part' + 28"
    using sealing by (auto simp: sealing_def webrtc_consts)
  have sizes: "0 < length part" "0 < length part'" using parts by auto
  then have "2 \<le> length part + length part'" by linarith
  then have ok: "header_ok (h\<lparr>ch_chunk_index := 0\<rparr>)" "header_ok (?h\<lparr>ch_chunk_index := 1\<rparr>)"
    using widths parts(3,4) by (auto simp: header_ok_def h webrtc_consts le_max_iff_disj)
  have "assembly_push max_input open_sealed (encode_chunk_header (h\<lparr>ch_chunk_index := 0\<rparr>) @ sealed) (assembling None h [] 0) =
      (Inr None, assembling None h part 1)"
    using push_next_chunk [of open_sealed sealed part 0 h max_input None "[]"] opens parts ok(1) sizes by (simp add: h newer_def)
  moreover have "assembly_push max_input open_sealed (encode_chunk_header (?h\<lparr>ch_chunk_index := 1\<rparr>) @ sealed') (assembling None ?h part 1) =
      (Inr (Some (part @ part')), between (Some i) generation)"
    using push_next_chunk [of open_sealed sealed' part' 1 ?h max_input None part] opens parts ok(2) sizes by (simp add: h newer_def)
  moreover have "assembling None ?h part 1 = assembling None h part 1" "assembling None h [] 0 = inbound_assembly_new generation"
    by (simp_all add: assembling_def between_def inbound_assembly_new_def h)
  ultimately show ?thesis by (simp add: h)
qed

end
