(* ===== verification/Webrtc_Control.thy ===== *)
theory Webrtc_Control
  imports Webrtc_Delivery Mux_Write Grants
begin

text \<open>
  Control frames on a local WebRTC channel: the Hub encrypts a server frame, cuts the envelope into
  text chunks (\<open>transport/webrtc/delivery.rs\<close>), and the client puts them together again
  (\<open>push_server_chunk\<close> of \<open>local_webrtc_smoke.rs\<close>).

  Parameters: the JSON serializers \<open>to_json\<close> of a server frame and \<open>to_text\<close> of a chunk and their
  inverses, \<open>encrypt\<close> (from plaintext to the serialized envelope), the client's \<open>decode\<close> of an
  envelope, the random bytes of a message identity, and the response that replaces an oversized one.
\<close>

section \<open>Cutting\<close>

datatype delivery_kind = DeliveryServerFrame

record delivery_chunk =
  dc_version :: nat
  dc_delivery_kind :: delivery_kind
  dc_message_id :: string
  dc_chunk_index :: nat
  dc_chunk_count :: nat
  dc_total_bytes :: nat
  dc_payload :: string

fun frame_chunks ::
  "(delivery_chunk \<Rightarrow> string option) \<Rightarrow> delivery_chunk \<Rightarrow> nat \<Rightarrow> string list \<Rightarrow> local_webrtc_error + string list"
where
  "frame_chunks to_text c chunk_index [] = Inr []"
| "frame_chunks to_text c chunk_index (payload # payloads) =
     (case from_utf8 payload of
        None \<Rightarrow> Inl WebrtcError
      | Some payload \<Rightarrow>
          (case u32_try_from chunk_index of
             None \<Rightarrow> Inl WebrtcError
           | Some index \<Rightarrow>
               (case to_text (c\<lparr>dc_chunk_index := index, dc_payload := payload\<rparr>) of
                  None \<Rightarrow> Inl WebrtcError
                | Some serialized \<Rightarrow>
                    if LOCAL_WEBRTC_MAX_FRAME_BYTES \<le> length serialized then Inl WebrtcError
                    else case frame_chunks to_text c (chunk_index + 1) payloads of
                           Inl e \<Rightarrow> Inl e
                         | Inr frames \<Rightarrow> Inr (serialized # frames))))"

definition frame_encrypted_daemon_delivery ::
  "(delivery_chunk \<Rightarrow> string option) \<Rightarrow> string \<Rightarrow> string \<Rightarrow> local_webrtc_error + string list"
where
  "frame_encrypted_daemon_delivery to_text message_id encrypted =
     (if LOCAL_WEBRTC_MAX_DELIVERY_BYTES < length encrypted then Inl WebrtcError
      else case u32_try_from (length encrypted) of
        None \<Rightarrow> Inl WebrtcError
      | Some total_bytes \<Rightarrow>
          (case u32_try_from (div_ceil (max (length encrypted) 1) LOCAL_WEBRTC_CHUNK_PAYLOAD_BYTES) of
             None \<Rightarrow> Inl WebrtcError
           | Some chunk_count \<Rightarrow>
               let c = \<lparr>dc_version = LOCAL_WEBRTC_DELIVERY_CHUNK_VERSION, dc_delivery_kind = DeliveryServerFrame,
                        dc_message_id = message_id, dc_chunk_index = 0, dc_chunk_count = chunk_count,
                        dc_total_bytes = total_bytes, dc_payload = []\<rparr>
               in case frame_chunks to_text c 0 (slice_chunks LOCAL_WEBRTC_CHUNK_PAYLOAD_BYTES encrypted) of
                    Inl e \<Rightarrow> Inl e
                  | Inr frames \<Rightarrow>
                      if frames = [] then
                        (case to_text (c\<lparr>dc_chunk_count := 1, dc_total_bytes := 0\<rparr>) of
                           None \<Rightarrow> Inl WebrtcError
                         | Some serialized \<Rightarrow> Inr [serialized])
                      else Inr frames))"

section \<open>Encrypting\<close>

definition encrypt_server_frame ::
  "('p server_frame \<Rightarrow> string option) \<Rightarrow> (string \<Rightarrow> string option) \<Rightarrow> 'p server_frame \<Rightarrow> local_webrtc_error + string"
where
  "encrypt_server_frame to_json encrypt frame =
     (case to_json frame of
        None \<Rightarrow> Inl WebrtcError
      | Some plaintext \<Rightarrow> (case encrypt plaintext of None \<Rightarrow> Inl WebrtcError | Some encrypted \<Rightarrow> Inr encrypted))"

definition frame_under_token ::
  "(delivery_chunk \<Rightarrow> string option) \<Rightarrow> string + 8 word list \<Rightarrow> string \<Rightarrow> string \<Rightarrow> local_webrtc_error + string list"
where
  "frame_under_token to_text fill prefix encrypted =
     (case random_token prefix fill of
        Inl _ \<Rightarrow> Inl WebrtcError
      | Inr message_id \<Rightarrow> frame_encrypted_daemon_delivery to_text message_id encrypted)"

definition frame_correlated_response ::
  "('p server_frame \<Rightarrow> string option) \<Rightarrow> (string \<Rightarrow> string option) \<Rightarrow> (delivery_chunk \<Rightarrow> string option) \<Rightarrow>
   string + 8 word list \<Rightarrow> 'p \<Rightarrow> string \<Rightarrow> string \<Rightarrow> local_webrtc_error + string list"
where
  "frame_correlated_response to_json encrypt to_text fill oversized_response request_id encrypted =
     (case (if LOCAL_WEBRTC_MAX_DELIVERY_BYTES < length encrypted
            then encrypt_server_frame to_json encrypt (ResponseFrame request_id oversized_response)
            else Inr encrypted) of
        Inl e \<Rightarrow> Inl e
      | Inr encrypted \<Rightarrow> frame_under_token to_text fill ''response'' encrypted)"

definition framed_daemon_response ::
  "('p server_frame \<Rightarrow> string option) \<Rightarrow> (string \<Rightarrow> string option) \<Rightarrow> (delivery_chunk \<Rightarrow> string option) \<Rightarrow>
   string + 8 word list \<Rightarrow> 'p \<Rightarrow> string \<Rightarrow> 'p \<Rightarrow> local_webrtc_error + string list"
where
  "framed_daemon_response to_json encrypt to_text fill oversized_response request_id response =
     (case encrypt_server_frame to_json encrypt (ResponseFrame request_id response) of
        Inl e \<Rightarrow> Inl e
      | Inr encrypted \<Rightarrow> frame_correlated_response to_json encrypt to_text fill oversized_response request_id encrypted)"

definition framed_encoded_daemon_response ::
  "('p server_frame \<Rightarrow> string option) \<Rightarrow> (string \<Rightarrow> string option) \<Rightarrow> (delivery_chunk \<Rightarrow> string option) \<Rightarrow>
   string + 8 word list \<Rightarrow> 'p \<Rightarrow> string \<Rightarrow> string \<Rightarrow> local_webrtc_error + string list"
where
  "framed_encoded_daemon_response to_json encrypt to_text fill oversized_response request_id encoded_frame =
     (case encrypt encoded_frame of
        None \<Rightarrow> Inl WebrtcError
      | Some encrypted \<Rightarrow> frame_correlated_response to_json encrypt to_text fill oversized_response request_id encrypted)"

definition framed_encoded_entity ::
  "(string \<Rightarrow> string option) \<Rightarrow> (delivery_chunk \<Rightarrow> string option) \<Rightarrow> string + 8 word list \<Rightarrow> string \<Rightarrow>
   local_webrtc_error + string list"
where
  "framed_encoded_entity encrypt to_text fill encoded_frame =
     (case encrypt encoded_frame of
        None \<Rightarrow> Inl WebrtcError
      | Some encrypted \<Rightarrow>
          if LOCAL_WEBRTC_MAX_DELIVERY_BYTES < length encrypted then Inl WebrtcError
          else frame_under_token to_text fill ''entity'' encrypted)"

definition frame_prefix :: "'p server_frame \<Rightarrow> string" where
  "frame_prefix frame =
     (case frame of
        HelloAckFrame _ \<Rightarrow> ''hello'' | ResponseFrame _ _ \<Rightarrow> ''response'' | EventFrame _ \<Rightarrow> ''event''
      | EntityFrame _ \<Rightarrow> ''entity'' | CloseFrame _ \<Rightarrow> ''close'')"

definition framed_server_frame ::
  "('p server_frame \<Rightarrow> string option) \<Rightarrow> (string \<Rightarrow> string option) \<Rightarrow> (delivery_chunk \<Rightarrow> string option) \<Rightarrow>
   string + 8 word list \<Rightarrow> 'p server_frame \<Rightarrow> local_webrtc_error + string list"
where
  "framed_server_frame to_json encrypt to_text fill frame =
     (case encrypt_server_frame to_json encrypt frame of
        Inl e \<Rightarrow> Inl e
      | Inr encrypted \<Rightarrow>
          if LOCAL_WEBRTC_MAX_DELIVERY_BYTES < length encrypted then Inl WebrtcError
          else frame_under_token to_text fill (frame_prefix frame) encrypted)"

section \<open>Putting together\<close>

record chunk_assembly =
  ca_message_id :: string
  ca_chunk_count :: nat
  ca_total_bytes :: nat
  ca_next_chunk_index :: nat
  ca_encrypted :: string

datatype smoke_error = SmokeWebrtc

definition push_server_chunk ::
  "(string \<Rightarrow> delivery_chunk option) \<Rightarrow> (string \<Rightarrow> 'f option) \<Rightarrow> string \<Rightarrow> chunk_assembly option \<Rightarrow>
   (smoke_error + 'f option) \<times> chunk_assembly option"
where
  "push_server_chunk from_text decode text_message assembly =
     (case from_text text_message of
        None \<Rightarrow> (Inl SmokeWebrtc, assembly)
      | Some chunk \<Rightarrow>
          if dc_delivery_kind chunk \<noteq> DeliveryServerFrame \<or> dc_version chunk \<noteq> LOCAL_WEBRTC_DELIVERY_CHUNK_VERSION \<or>
             LOCAL_WEBRTC_MAX_DELIVERY_BYTES < dc_total_bytes chunk then (Inl SmokeWebrtc, assembly)
          else case (case assembly of
                       Some current \<Rightarrow>
                         if ca_message_id current = dc_message_id chunk \<and> ca_chunk_count current = dc_chunk_count chunk \<and>
                            ca_total_bytes current = dc_total_bytes chunk then Some current else None
                     | None \<Rightarrow>
                         if dc_chunk_index chunk \<noteq> 0 then None
                         else Some \<lparr>ca_message_id = dc_message_id chunk, ca_chunk_count = dc_chunk_count chunk,
                                    ca_total_bytes = dc_total_bytes chunk, ca_next_chunk_index = 0, ca_encrypted = []\<rparr>) of
                 None \<Rightarrow> (Inl SmokeWebrtc, assembly)
               | Some current \<Rightarrow>
                   if dc_chunk_index chunk \<noteq> ca_next_chunk_index current then (Inl SmokeWebrtc, Some current)
                   else
                     let current = current\<lparr>ca_encrypted := ca_encrypted current @ dc_payload chunk,
                                           ca_next_chunk_index := ca_next_chunk_index current + 1\<rparr>
                     in if ca_next_chunk_index current < ca_chunk_count current then (Inr None, Some current)
                        else if length (ca_encrypted current) \<noteq> ca_total_bytes current then (Inl SmokeWebrtc, Some current)
                        else (case decode (ca_encrypted current) of
                                None \<Rightarrow> (Inl SmokeWebrtc, None)
                              | Some frame \<Rightarrow> (Inr (Some frame), None)))"

section \<open>What the Hub frames, the client gets\<close>

text \<open>A client that reads on until the first error.\<close>

fun receive_all ::
  "(string \<Rightarrow> delivery_chunk option) \<Rightarrow> (string \<Rightarrow> 'f option) \<Rightarrow> string list \<Rightarrow> chunk_assembly option \<Rightarrow> 'f list \<times> bool"
where
  "receive_all from_text decode [] assembly = ([], True)"
| "receive_all from_text decode (t # ts) assembly =
     (case push_server_chunk from_text decode t assembly of
        (Inl _, _) \<Rightarrow> ([], False)
      | (Inr None, assembly) \<Rightarrow> receive_all from_text decode ts assembly
      | (Inr (Some frame), assembly) \<Rightarrow> apfst ((#) frame) (receive_all from_text decode ts assembly))"

text \<open>What the code relies on of the codecs.\<close>

definition chunk_codec :: "(delivery_chunk \<Rightarrow> string option) \<Rightarrow> (string \<Rightarrow> delivery_chunk option) \<Rightarrow> bool" where
  "chunk_codec to_text from_text \<longleftrightarrow> (\<forall>c t. to_text c = Some t \<longrightarrow> from_text t = Some c)"

definition frame_codec ::
  "('p server_frame \<Rightarrow> string option) \<Rightarrow> (string \<Rightarrow> string option) \<Rightarrow> (string \<Rightarrow> 'p server_frame option) \<Rightarrow> bool"
where
  "frame_codec to_json encrypt decode \<longleftrightarrow>
     (\<forall>f j e. to_json f = Some j \<longrightarrow> encrypt j = Some e \<longrightarrow> decode e = Some f \<and> e \<noteq> [])"

definition receiving :: "delivery_chunk \<Rightarrow> string \<Rightarrow> nat \<Rightarrow> chunk_assembly option" where
  "receiving c pre k =
     (if k = 0 then None
      else Some \<lparr>ca_message_id = dc_message_id c, ca_chunk_count = dc_chunk_count c, ca_total_bytes = dc_total_bytes c,
                 ca_next_chunk_index = k, ca_encrypted = pre\<rparr>)"

lemma frame_chunks_Cons:
  assumes "frame_chunks to_text c k (p # ps) = Inr ts"
  obtains t ts' where "to_text (c\<lparr>dc_chunk_index := k, dc_payload := p\<rparr>) = Some t" "ts = t # ts'"
    "frame_chunks to_text c (k + 1) ps = Inr ts'"
  using assms by (auto simp: from_utf8_def u32_try_from_def split: if_splits option.splits sum.splits)

lemma frame_chunks_length: "frame_chunks to_text c k ps = Inr ts \<Longrightarrow> length ts = length ps"
proof (induction ps arbitrary: k ts)
  case (Cons p ps)
  then show ?case by (elim frame_chunks_Cons) simp
qed simp

lemma receive_chunks:
  assumes codec: "chunk_codec to_text from_text"
    and c: "dc_version c = LOCAL_WEBRTC_DELIVERY_CHUNK_VERSION" "dc_total_bytes c \<le> LOCAL_WEBRTC_MAX_DELIVERY_BYTES"
  shows "frame_chunks to_text c k ps = Inr ts \<Longrightarrow> ps \<noteq> [] \<Longrightarrow> k + length ps = dc_chunk_count c \<Longrightarrow>
    length (pre @ concat ps) = dc_total_bytes c \<Longrightarrow> k = 0 \<longrightarrow> pre = [] \<Longrightarrow> decode (pre @ concat ps) = Some f \<Longrightarrow>
    receive_all from_text decode (ts @ rest) (receiving c pre k) = apfst ((#) f) (receive_all from_text decode rest None)"
proof (induction ps arbitrary: k pre ts)
  case (Cons p ps)
  obtain t ts' where t: "to_text (c\<lparr>dc_chunk_index := k, dc_payload := p\<rparr>) = Some t" "ts = t # ts'"
    "frame_chunks to_text c (k + 1) ps = Inr ts'"
    using frame_chunks_Cons [OF Cons.prems(1)] .
  then have parse: "from_text t = Some (c\<lparr>dc_chunk_index := k, dc_payload := p\<rparr>)" using codec by (simp add: chunk_codec_def)
  have kind: "dc_delivery_kind c = DeliveryServerFrame" by (cases "dc_delivery_kind c") simp
  show ?case
  proof (cases "ps = []")
    case True
    then have "push_server_chunk from_text decode t (receiving c pre k) = (Inr (Some f), None)"
      using parse c kind Cons.prems(3-) by (cases "k = 0") (simp_all add: push_server_chunk_def receiving_def Let_def)
    then show ?thesis using t True by simp
  next
    case False
    then have "Suc k < dc_chunk_count c" using Cons.prems(3) by (cases ps) auto
    then have "push_server_chunk from_text decode t (receiving c pre k) = (Inr None, receiving c (pre @ p) (k + 1))"
      using parse c kind Cons.prems(3-) by (cases "k = 0") (simp_all add: push_server_chunk_def receiving_def Let_def)
    moreover have "receive_all from_text decode (ts' @ rest) (receiving c (pre @ p) (k + 1)) =
        apfst ((#) f) (receive_all from_text decode rest None)"
      using Cons.prems(3-) t(3) False by (intro Cons.IH) simp_all
    ultimately show ?thesis using t(2) by simp
  qed
qed simp

lemma receive_delivery:
  assumes codec: "chunk_codec to_text from_text" and framed: "frame_encrypted_daemon_delivery to_text message_id encrypted = Inr ts"
    and decode: "decode encrypted = Some f" "encrypted \<noteq> []"
  shows "receive_all from_text decode (ts @ rest) None = apfst ((#) f) (receive_all from_text decode rest None)"
proof -
  let ?ps = "slice_chunks LOCAL_WEBRTC_CHUNK_PAYLOAD_BYTES encrypted"
  let ?c = "\<lparr>dc_version = LOCAL_WEBRTC_DELIVERY_CHUNK_VERSION, dc_delivery_kind = DeliveryServerFrame,
    dc_message_id = message_id, dc_chunk_index = 0, dc_chunk_count = length ?ps, dc_total_bytes = length encrypted, dc_payload = []\<rparr>"
  have pos: "0 < LOCAL_WEBRTC_CHUNK_PAYLOAD_BYTES" by (simp add: webrtc_consts)
  note ps = concat_slice_chunks [OF pos, of encrypted] length_slice_chunks [OF pos, of encrypted]
  have "max (length encrypted) 1 = length encrypted" using decode(2) by (cases encrypted) auto
  note count = this ps(2)
  have some: "?ps \<noteq> []" using ps(1) decode(2) by auto
  have chunks: "frame_chunks to_text ?c 0 ?ps = Inr ts" "length encrypted \<le> LOCAL_WEBRTC_MAX_DELIVERY_BYTES"
    using framed count some frame_chunks_length [of to_text ?c 0 ?ps "[]"]
    by (simp_all add: frame_encrypted_daemon_delivery_def u32_try_from_def Let_def split: if_splits sum.splits)
  have "receive_all from_text decode (ts @ rest) (receiving ?c [] 0) = apfst ((#) f) (receive_all from_text decode rest None)"
    using receive_chunks [OF codec, of ?c 0 ?ps ts "[]" decode f rest] chunks decode(1) some
    unfolding append_Nil ps(1) by simp
  then show ?thesis by (simp add: receiving_def)
qed

text \<open>
  Server frames that the Hub frames one after the other, each under a message identity of its own,
  reach the client whole and in order.
\<close>

theorem control_deliveries_roundtrip:
  assumes codec: "chunk_codec to_text from_text" "frame_codec to_json encrypt decode"
    and sent: "list_all2 (\<lambda>(frame, fill) ts. framed_server_frame to_json encrypt to_text fill frame = Inr ts) sends tss"
  shows "receive_all from_text decode (concat tss) None = (map fst sends, True)"
  using sent
proof (induction sends tss rule: list_all2_induct)
  case (Cons s sends ts tss)
  obtain frame fill where s: "s = (frame, fill)" by fastforce
  obtain j e message_id where "to_json frame = Some j" "encrypt j = Some e"
    "frame_encrypted_daemon_delivery to_text message_id e = Inr ts"
    using Cons.hyps(1) s
    by (auto simp: framed_server_frame_def encrypt_server_frame_def frame_under_token_def split: if_splits option.splits sum.splits)
  then have "receive_all from_text decode (ts @ concat tss) None = apfst ((#) frame) (receive_all from_text decode (concat tss) None)"
    using codec(2) by (intro receive_delivery [OF codec(1)]) (auto simp: frame_codec_def)
  then show ?case using Cons.IH s by simp
qed simp

text \<open>
  A correlated response is delivered as it is or, when its envelope is over the limit, replaced by
  the operator error under the same request identity; it is never cut short.
\<close>

theorem correlated_response_delivered:
  assumes codec: "chunk_codec to_text from_text" "frame_codec to_json encrypt decode"
    and sent: "framed_daemon_response to_json encrypt to_text fill oversized_response request_id response = Inr ts"
  shows "receive_all from_text decode ts None = ([ResponseFrame request_id response], True) \<or>
    receive_all from_text decode ts None = ([ResponseFrame request_id oversized_response], True)"
proof -
  obtain f j e message_id where e: "to_json f = Some j" "encrypt j = Some e" "f = ResponseFrame request_id response \<or> f = ResponseFrame request_id oversized_response"
    "frame_encrypted_daemon_delivery to_text message_id e = Inr ts"
    using sent
    by (auto simp: framed_daemon_response_def frame_correlated_response_def encrypt_server_frame_def frame_under_token_def
        split: if_splits option.splits sum.splits)
  have "receive_all from_text decode (ts @ []) None = apfst ((#) f) (receive_all from_text decode [] None)"
    using e codec(2) by (intro receive_delivery [OF codec(1)]) (auto simp: frame_codec_def)
  then show ?thesis using e(3) by auto
qed

end
