(* ===== verification/Entity_Fanout.thy ===== *)
theory Entity_Fanout
  imports Ordered_Map "HOL-Library.Multiset"
begin

text \<open>
  \<open>package_entity_fanout.rs\<close>: what a package publishes about its entities.  A family admits mutations
  in the order of their sequence numbers, keeps the ones that came too early in a window, and asks its
  provider for a snapshot when a gap stays open; the admitted mutations wait in one queue for delivery.

  JSON values are opaque, a permit is its identity, and instants are nanoseconds.  An \<open>option\<close> around
  the result of an operation is a panic of the code where it is \<open>None\<close>.
\<close>

section \<open>Mutations\<close>

definition PACKAGE_ENTITY_PENDING_WINDOW :: u64 where "PACKAGE_ENTITY_PENDING_WINDOW = 16"

definition from_millis :: "nat \<Rightarrow> nat" where "from_millis n = n * 1000000"
definition from_secs :: "nat \<Rightarrow> nat" where "from_secs n = n * 1000000000"

definition PACKAGE_ENTITY_RESYNC_INITIAL_BACKOFF :: nat where
  "PACKAGE_ENTITY_RESYNC_INITIAL_BACKOFF = from_millis 50"
definition PACKAGE_ENTITY_RESYNC_MAX_BACKOFF :: nat where "PACKAGE_ENTITY_RESYNC_MAX_BACKOFF = from_secs 2"
definition PACKAGE_ENTITY_RESYNC_MAX_ATTEMPTS :: nat where "PACKAGE_ENTITY_RESYNC_MAX_ATTEMPTS = 8"
definition PACKAGE_ENTITY_RESYNC_MAX_PER_SECOND :: nat where "PACKAGE_ENTITY_RESYNC_MAX_PER_SECOND = 2"

lemmas resync_consts = from_millis_def from_secs_def PACKAGE_ENTITY_RESYNC_INITIAL_BACKOFF_def
  PACKAGE_ENTITY_RESYNC_MAX_BACKOFF_def PACKAGE_ENTITY_RESYNC_MAX_ATTEMPTS_def PACKAGE_ENTITY_RESYNC_MAX_PER_SECOND_def

datatype publish_status = PubAccepted | PubPendingGap | PubResyncScheduled | PubStaleSequence | PubDuplicateSequence

definition publish_status_ok :: "publish_status \<Rightarrow> bool" where
  "publish_status_ok s \<longleftrightarrow> s \<in> {PubAccepted, PubPendingGap, PubResyncScheduled}"

type_synonym publish_permit = nat

datatype 'v entity_mutation =
  MutUpsert (em_entity_type: string) (em_snapshot_seq: u64) (em_id: string) (em_entity: 'v)
    (em_admission: "publish_permit option")
| MutPatch (em_entity_type: string) (em_snapshot_seq: u64) (em_id: string) (em_patch: 'v)
    (em_admission: "publish_permit option")
| MutRemove (em_entity_type: string) (em_snapshot_seq: u64) (em_id: string)
    (em_admission: "publish_permit option")

record publish_result =
  pr_ok :: bool
  pr_status :: publish_status
  pr_last_accepted_seq :: u64
  pr_high_water_seq :: u64
  pr_resync_needed :: bool
  pr_resync_degraded :: bool

record mutation_lease =
  ml_scope_id :: u64
  ml_family_token :: u64
  ml_family :: string
  ml_generation :: u64
  ml_seq :: u64
  ml_admission :: "publish_permit option"

record 'v leased_mutation =
  lf_generation :: u64
  lf_mutation :: "'v entity_mutation"
  lf_lease :: "mutation_lease option"

section \<open>The delivery queue\<close>

text \<open>Delivery follows the global order; cleanup selects one generation of one family.\<close>

record 'v fanout_queue =
  fq_next_sequence :: u64
  fq_pending :: "(u64, 'v leased_mutation) omap"
  fq_families :: "(string \<times> u64, u64) ommap"

definition fanout_queue_new :: "'v fanout_queue" where
  "fanout_queue_new = \<lparr>fq_next_sequence = 0, fq_pending = [], fq_families = []\<rparr>"

definition family_of :: "'v leased_mutation \<Rightarrow> string \<times> u64" where
  "family_of i = (em_entity_type (lf_mutation i), lf_generation i)"

definition has_sequence_capacity :: "'v fanout_queue \<Rightarrow> bool" where
  "has_sequence_capacity q \<longleftrightarrow> checked_add (fq_next_sequence q) 1 \<noteq> None"

definition try_push_from :: "'v leased_mutation \<Rightarrow> 'v fanout_queue \<Rightarrow> (bool \<times> 'v fanout_queue) option" where
  "try_push_from item q =
     (case checked_add (fq_next_sequence q) 1 of
        None \<Rightarrow> Some (False, q)
      | Some next_sequence \<Rightarrow>
          if om_contains (fq_pending q) (fq_next_sequence q) then None
          else Some (True,
            q\<lparr>fq_pending := om_insert (fq_next_sequence q) item (fq_pending q),
              fq_families := mm_insert (family_of item) (fq_next_sequence q) (fq_families q),
              fq_next_sequence := next_sequence\<rparr>))"

definition fq_remove_into :: "u64 \<Rightarrow> 'v fanout_queue \<Rightarrow> ('v leased_mutation \<times> 'v fanout_queue) option" where
  "fq_remove_into sequence q =
     (case om_get (fq_pending q) sequence of
        None \<Rightarrow> None
      | Some item \<Rightarrow>
          (case om_get (fq_families q) (family_of item) of
             None \<Rightarrow> None
           | Some sequences \<Rightarrow>
               if sequence \<notin> set sequences then None
               else Some (item,
                 q\<lparr>fq_pending := om_remove sequence (fq_pending q),
                   fq_families :=
                     (let sequences = os_remove sequence sequences
                      in if sequences = [] then om_remove (family_of item) (fq_families q)
                         else om_insert (family_of item) sequences (fq_families q))\<rparr>)))"

definition fq_pop_first :: "'v fanout_queue \<Rightarrow> ('v leased_mutation option \<times> 'v fanout_queue) option" where
  "fq_pop_first q =
     (case fq_pending q of
        [] \<Rightarrow> Some (None, q)
      | (sequence, _) # _ \<Rightarrow> map_option (apfst Some) (fq_remove_into sequence q))"

definition next_family_generation_before :: "string \<Rightarrow> u64 \<Rightarrow> 'v fanout_queue \<Rightarrow> u64 option" where
  "next_family_generation_before family epoch q =
     map_option snd (find (\<lambda>k. (family, 0) \<le> k \<and> k < (family, epoch)) (om_keys (fq_families q)))"

definition next_package_family :: "string \<Rightarrow> string option \<Rightarrow> 'v fanout_queue \<Rightarrow> string option" where
  "next_package_family package after q =
     (let prefix = package @ ''.''
      in case find (\<lambda>k. case after of None \<Rightarrow> (prefix, 0) \<le> k | Some after \<Rightarrow> (after, u64_max) < k) (om_keys (fq_families q)) of
           None \<Rightarrow> None
         | Some (family, _) \<Rightarrow> if take (length prefix) family = prefix then Some family else None)"

definition take_one_family_into ::
  "string \<Rightarrow> u64 \<Rightarrow> 'v fanout_queue \<Rightarrow> ('v leased_mutation option \<times> 'v fanout_queue) option"
where
  "take_one_family_into family generation q =
     (case om_get (fq_families q) (family, generation) of
        None \<Rightarrow> Some (None, q)
      | Some [] \<Rightarrow> Some (None, q)
      | Some (sequence # _) \<Rightarrow> map_option (apfst Some) (fq_remove_into sequence q))"

definition fq_is_empty :: "'v fanout_queue \<Rightarrow> bool" where
  "fq_is_empty q \<longleftrightarrow> fq_pending q = []"

section \<open>The resync schedule of a family\<close>

record resync_state =
  rs_needed :: bool
  rs_next_eligible_at :: nat
  rs_attempts :: nat
  rs_last_attempt_at :: "nat option"
  rs_attempt_times :: "nat list"
  rs_degraded :: bool
  rs_leases :: "(u64, publish_permit option) omap"

definition resync_default :: "nat \<Rightarrow> resync_state" where
  "resync_default now =
     \<lparr>rs_needed = False, rs_next_eligible_at = now, rs_attempts = 0, rs_last_attempt_at = None,
      rs_attempt_times = [], rs_degraded = False, rs_leases = []\<rparr>"

definition mark_needed :: "nat \<Rightarrow> resync_state \<Rightarrow> resync_state" where
  "mark_needed now r =
     (if rs_degraded r then r
      else if \<not> rs_needed r then
        r\<lparr>rs_needed := True, rs_next_eligible_at := now, rs_attempts := 0, rs_attempt_times := []\<rparr>
      else r)"

definition prune_attempt_times :: "nat \<Rightarrow> resync_state \<Rightarrow> resync_state" where
  "prune_attempt_times now r = r\<lparr>rs_attempt_times := dropWhile (\<lambda>at. from_secs 1 \<le> now - at) (rs_attempt_times r)\<rparr>"

definition rearm :: "nat \<Rightarrow> resync_state \<Rightarrow> resync_state" where
  "rearm now r =
     prune_attempt_times now (r\<lparr>rs_degraded := False, rs_needed := True, rs_next_eligible_at := now, rs_attempts := 0\<rparr>)"

definition clear_needed :: "resync_state \<Rightarrow> resync_state" where
  "clear_needed r = r\<lparr>rs_needed := False, rs_attempts := 0, rs_attempt_times := [], rs_last_attempt_at := None\<rparr>"

definition clear_degraded_on_progress :: "resync_state \<Rightarrow> resync_state" where
  "clear_degraded_on_progress r = r\<lparr>rs_degraded := False\<rparr>"

definition attempts_in_last_second :: "nat \<Rightarrow> resync_state \<Rightarrow> nat" where
  "attempts_in_last_second now r = length (filter (\<lambda>at. now - at < from_secs 1) (rs_attempt_times r))"

definition can_attempt :: "nat \<Rightarrow> resync_state \<Rightarrow> bool" where
  "can_attempt now r \<longleftrightarrow>
     \<not> (\<not> rs_needed r \<or> now < rs_next_eligible_at r) \<and> attempts_in_last_second now r < PACKAGE_ENTITY_RESYNC_MAX_PER_SECOND"

definition next_attempt_at :: "resync_state \<Rightarrow> nat option" where
  "next_attempt_at r =
     (if \<not> rs_needed r \<or> rs_degraded r then None
      else let newest = rev (rs_attempt_times r); k = PACKAGE_ENTITY_RESYNC_MAX_PER_SECOND - 1
           in Some (if k < length newest then max (rs_next_eligible_at r) (newest ! k + from_secs 1)
                    else rs_next_eligible_at r))"

definition record_attempt :: "nat \<Rightarrow> resync_state \<Rightarrow> bool \<times> resync_state" where
  "record_attempt now r =
     (let r = r\<lparr>rs_attempts := min (rs_attempts r + 1) (2 ^ 32 - 1), rs_last_attempt_at := Some now,
                rs_attempt_times := rs_attempt_times r @ [now]\<rparr>;
          r = prune_attempt_times now r;
          exponent = min (rs_attempts r - 1) 6;
          backoff = min (PACKAGE_ENTITY_RESYNC_INITIAL_BACKOFF * 2 ^ exponent) PACKAGE_ENTITY_RESYNC_MAX_BACKOFF;
          r = r\<lparr>rs_next_eligible_at := now + backoff\<rparr>
      in if PACKAGE_ENTITY_RESYNC_MAX_ATTEMPTS \<le> rs_attempts r
         then (True, r\<lparr>rs_degraded := True, rs_needed := False\<rparr>)
         else (False, r))"

section \<open>Admission into a family\<close>

record family_progress =
  fp_floor :: u64
  fp_high_water :: u64
  fp_needed :: bool
  fp_degraded :: bool
  fp_has_live_pending :: bool
  fp_has_step_work :: bool

datatype 'v family_step =
  StepDiscarded "'v entity_mutation" "mutation_lease option"
| StepReady "'v entity_mutation" "mutation_lease option"
| StepReleaseResync u64 u64
| StepComplete family_progress

record 'v entity_family =
  ef_generation :: u64
  ef_causal_token :: "u64 option"
  ef_last_accepted_seq :: u64
  ef_high_water_seq :: u64
  ef_pending :: "(u64, 'v entity_mutation) omap"
  ef_pending_leases :: "(u64, mutation_lease) omap"
  ef_resync :: resync_state

definition entity_family_default :: "nat \<Rightarrow> u64 \<Rightarrow> 'v entity_family" where
  "entity_family_default now generation =
     \<lparr>ef_generation = generation, ef_causal_token = None, ef_last_accepted_seq = 0, ef_high_water_seq = 0,
      ef_pending = [], ef_pending_leases = [], ef_resync = resync_default now\<rparr>"

definition has_live_pending :: "'v entity_family \<Rightarrow> bool" where
  "has_live_pending f \<longleftrightarrow> ef_pending f \<noteq> [] \<and> ef_last_accepted_seq f < fst (last (ef_pending f))"

definition converged :: "'v entity_family \<Rightarrow> bool" where
  "converged f \<longleftrightarrow> ef_high_water_seq f \<le> ef_last_accepted_seq f \<and> \<not> has_live_pending f"

definition after_publish_progress :: "nat \<Rightarrow> 'v entity_family \<Rightarrow> 'v entity_family" where
  "after_publish_progress now f =
     (if ef_last_accepted_seq f < ef_high_water_seq f \<or> has_live_pending f
      then f\<lparr>ef_resync := rearm now (ef_resync f)\<rparr>
      else f\<lparr>ef_resync := clear_degraded_on_progress (clear_needed (ef_resync f))\<rparr>)"

definition family_result :: "publish_status \<Rightarrow> 'v entity_family \<Rightarrow> publish_result" where
  "family_result status f =
     \<lparr>pr_ok = publish_status_ok status, pr_status = status, pr_last_accepted_seq = ef_last_accepted_seq f,
      pr_high_water_seq = ef_high_water_seq f, pr_resync_needed = rs_needed (ef_resync f),
      pr_resync_degraded = rs_degraded (ef_resync f)\<rparr>"

text \<open>The result, the mutation that is ready and the mutation that was discarded.\<close>

definition family_admit ::
  "'v entity_mutation \<Rightarrow> nat \<Rightarrow> 'v entity_family \<Rightarrow>
   (publish_result \<times> 'v entity_mutation option \<times> 'v entity_mutation option) \<times> 'v entity_family"
where
  "family_admit m now f =
     (let seq = em_snapshot_seq m; last_seq = ef_last_accepted_seq f;
          (status, ready, discarded, f) =
            (if seq < last_seq then (PubStaleSequence, None, Some m, f)
             else if seq = last_seq then (PubDuplicateSequence, None, Some m, f)
             else if checked_add last_seq 1 = Some seq then
               (PubAccepted, Some m, None,
                after_publish_progress now
                  (f\<lparr>ef_high_water_seq := max (ef_high_water_seq f) seq, ef_last_accepted_seq := seq\<rparr>))
             else if seq \<le> saturating_add last_seq PACKAGE_ENTITY_PENDING_WINDOW then
               (case om_get (ef_pending f) seq of
                  Some _ \<Rightarrow> (PubDuplicateSequence, None, Some m, f)
                | None \<Rightarrow>
                    (PubPendingGap, None, None,
                     f\<lparr>ef_pending := om_insert seq m (ef_pending f), ef_high_water_seq := max (ef_high_water_seq f) seq,
                       ef_resync := rearm now (ef_resync f)\<rparr>))
             else
               (PubResyncScheduled, None, Some m,
                f\<lparr>ef_high_water_seq := max (ef_high_water_seq f) seq, ef_resync := rearm now (ef_resync f)\<rparr>))
      in ((family_result status f, ready, discarded), f))"

definition recompute_resync_need :: "nat \<Rightarrow> bool \<Rightarrow> 'v entity_family \<Rightarrow> 'v entity_family" where
  "recompute_resync_need now preserve_resync_need f =
     (if \<not> converged f then f\<lparr>ef_resync := mark_needed now (ef_resync f)\<rparr>
      else if \<not> preserve_resync_need then f\<lparr>ef_resync := clear_degraded_on_progress (clear_needed (ef_resync f))\<rparr>
      else f)"

definition first_pending_seq :: "'v entity_family \<Rightarrow> u64 option" where
  "first_pending_seq f = (case ef_pending f of [] \<Rightarrow> None | (seq, _) # _ \<Rightarrow> Some seq)"

definition has_stale :: "'v entity_family \<Rightarrow> bool" where
  "has_stale f \<longleftrightarrow> (case first_pending_seq f of None \<Rightarrow> False | Some seq \<Rightarrow> seq \<le> ef_last_accepted_seq f)"

definition has_exact_next :: "'v entity_family \<Rightarrow> bool" where
  "has_exact_next f \<longleftrightarrow>
     (case checked_add (ef_last_accepted_seq f) 1 of None \<Rightarrow> False | Some n \<Rightarrow> first_pending_seq f = Some n)"

definition provider_snapshot_progress :: "'v entity_family \<Rightarrow> family_progress" where
  "provider_snapshot_progress f =
     \<lparr>fp_floor = ef_last_accepted_seq f, fp_high_water = ef_high_water_seq f, fp_needed = rs_needed (ef_resync f),
      fp_degraded = rs_degraded (ef_resync f), fp_has_live_pending = has_live_pending f,
      fp_has_step_work = has_stale f \<or> has_exact_next f \<or> converged f \<and> rs_leases (ef_resync f) \<noteq> []\<rparr>"

definition begin_provider_snapshot_seq :: "u64 \<Rightarrow> nat \<Rightarrow> 'v entity_family \<Rightarrow> family_progress \<times> 'v entity_family" where
  "begin_provider_snapshot_seq snapshot_seq now f =
     (let f = f\<lparr>ef_high_water_seq := max (ef_high_water_seq f) snapshot_seq,
                ef_last_accepted_seq := max (ef_last_accepted_seq f) snapshot_seq\<rparr>;
          f = recompute_resync_need now True f
      in (provider_snapshot_progress f, f))"

text \<open>The step, and the resync lease that leaves the family with it.\<close>

definition step_provider_snapshot_into ::
  "nat \<Rightarrow> bool \<Rightarrow> 'v entity_family \<Rightarrow> ('v family_step \<times> (u64 \<times> publish_permit option) option \<times> 'v entity_family) option"
where
  "step_provider_snapshot_into now preserve_resync_need f =
     (let stale = has_stale f; ready = has_exact_next f in
      if stale \<or> ready then
        (case ef_pending f of
           [] \<Rightarrow> None
         | (seq, mutation) # rest \<Rightarrow>
             let lease = om_get (ef_pending_leases f) seq;
                 step = (if stale then StepDiscarded mutation lease else StepReady mutation lease);
                 f = f\<lparr>ef_pending := rest, ef_pending_leases := om_remove seq (ef_pending_leases f)\<rparr>;
                 f = (if ready \<and> \<not> stale
                      then f\<lparr>ef_last_accepted_seq := seq, ef_high_water_seq := max (ef_high_water_seq f) seq\<rparr> else f)
             in Some (step, None, recompute_resync_need now preserve_resync_need f))
      else
        let f = recompute_resync_need now preserve_resync_need f in
        (case rs_leases (ef_resync f) of
           (scope_id, admission) # leases \<Rightarrow>
             if converged f \<and> \<not> preserve_resync_need then
               (case ef_causal_token f of
                  None \<Rightarrow> None
                | Some family_token \<Rightarrow>
                    Some (StepReleaseResync scope_id family_token, Some (scope_id, admission),
                          f\<lparr>ef_resync := (ef_resync f)\<lparr>rs_leases := leases\<rparr>\<rparr>))
             else Some (StepComplete (provider_snapshot_progress f), None, f)
         | [] \<Rightarrow> Some (StepComplete (provider_snapshot_progress f), None, f)))"

definition has_next_pending :: "'v entity_family \<Rightarrow> bool" where
  "has_next_pending f \<longleftrightarrow>
     (case checked_add (ef_last_accepted_seq f) 1 of None \<Rightarrow> False | Some n \<Rightarrow> om_contains (ef_pending f) n)"

definition take_next_pending_into :: "nat \<Rightarrow> 'v entity_family \<Rightarrow> 'v leased_mutation option \<times> 'v entity_family" where
  "take_next_pending_into now f =
     (case checked_add (ef_last_accepted_seq f) 1 of
        None \<Rightarrow> (None, f)
      | Some n \<Rightarrow>
          (case om_get (ef_pending f) n of
             None \<Rightarrow> (None, f)
           | Some mutation \<Rightarrow>
               (Some \<lparr>lf_generation = ef_generation f, lf_mutation = mutation, lf_lease = om_get (ef_pending_leases f) n\<rparr>,
                after_publish_progress now
                  (f\<lparr>ef_pending := om_remove n (ef_pending f), ef_pending_leases := om_remove n (ef_pending_leases f),
                    ef_last_accepted_seq := n, ef_high_water_seq := max (ef_high_water_seq f) n\<rparr>))))"

definition store_pending_lease :: "mutation_lease \<Rightarrow> 'v entity_family \<Rightarrow> 'v entity_family" where
  "store_pending_lease lease f = f\<lparr>ef_pending_leases := om_insert (ml_seq lease) lease (ef_pending_leases f)\<rparr>"

definition remember_resync_lease_with_admission ::
  "u64 \<Rightarrow> publish_permit option \<Rightarrow> 'v entity_family \<Rightarrow> (bool \<times> 'v entity_family) option"
where
  "remember_resync_lease_with_admission scope_id admission f =
     (if ef_causal_token f = None then None
      else case om_get (rs_leases (ef_resync f)) scope_id of
             None \<Rightarrow> Some (True, f\<lparr>ef_resync := (ef_resync f)\<lparr>rs_leases := om_insert scope_id admission (rs_leases (ef_resync f))\<rparr>\<rparr>)
           | Some _ \<Rightarrow> Some (False, f))"

definition provider_obligation :: "'v entity_family \<Rightarrow> (u64 \<times> publish_permit option) option" where
  "provider_obligation f =
     (case rs_leases (ef_resync f) of
        (scope_id, admission) # _ \<Rightarrow> Some (scope_id, admission)
      | [] \<Rightarrow> (case ef_pending_leases f of
                 (_, lease) # _ \<Rightarrow> Some (ml_scope_id lease, ml_admission lease)
               | [] \<Rightarrow> None))"

section \<open>The delivery queue is a list\<close>

definition fq_contents :: "'v fanout_queue \<Rightarrow> 'v leased_mutation list" where
  "fq_contents q = om_values (fq_pending q)"

definition fq_ok :: "'v fanout_queue \<Rightarrow> bool" where
  "fq_ok q \<longleftrightarrow> om_ok (fq_pending q) \<and> mm_ok (fq_families q) \<and> (\<forall>s \<in> set (om_keys (fq_pending q)). s < fq_next_sequence q) \<and>
     fq_next_sequence q \<le> u64_max \<and>
     (\<forall>fam. set (mm_get (fq_families q) fam) = {s. \<exists>i. om_get (fq_pending q) s = Some i \<and> family_of i = fam})"

lemma fq_index:
  "fq_ok q \<Longrightarrow> set (mm_get (fq_families q) fam) = {s. \<exists>i. om_get (fq_pending q) s = Some i \<and> family_of i = fam}"
  unfolding fq_ok_def by blast

lemma fq_ok_new [simp]: "fq_ok fanout_queue_new"
  by (simp add: fq_ok_def fanout_queue_new_def mm_get_def)

lemma fq_contents_new [simp]: "fq_contents fanout_queue_new = []"
  by (simp add: fq_contents_def fanout_queue_new_def)

text \<open>A key above all others goes to the end.\<close>

lemma om_insert_greatest: "\<forall>l \<in> set (om_keys m). l < k \<Longrightarrow> om_insert k v m = m @ [(k, v)]"
  by (induction k v m rule: om_insert.induct) auto

lemma om_remove_split: "om_ok m \<Longrightarrow> m = xs @ (k, v) # ys \<Longrightarrow> om_remove k m = xs @ ys"
proof -
  assume ok: "om_ok m" and m: "m = xs @ (k, v) # ys"
  have "filter (\<lambda>e. fst e \<noteq> k) xs = xs" "filter (\<lambda>e. fst e \<noteq> k) ys = ys"
    using ok m by (auto simp: om_ok_def sorted_wrt_append filter_id_conv)
  then show "om_remove k m = xs @ ys" by (simp add: m om_remove_def)
qed

lemma try_push_from_contents:
  assumes "fq_ok q"
  shows "has_sequence_capacity q \<Longrightarrow>
      \<exists>q'. try_push_from item q = Some (True, q') \<and> fq_ok q' \<and> fq_contents q' = fq_contents q @ [item]"
    and "\<not> has_sequence_capacity q \<Longrightarrow> try_push_from item q = Some (False, q)"
proof -
  let ?n = "fq_next_sequence q"
  have fresh: "om_get (fq_pending q) ?n = None" "?n \<notin> set (om_keys (fq_pending q))"
    using assms by (auto simp: fq_ok_def map_of_eq_None_iff)
  have greatest: "om_insert ?n item (fq_pending q) = fq_pending q @ [(?n, item)]"
    using assms by (intro om_insert_greatest) (simp add: fq_ok_def)
  show "\<exists>q'. try_push_from item q = Some (True, q') \<and> fq_ok q' \<and> fq_contents q' = fq_contents q @ [item]"
    if cap: "has_sequence_capacity q"
  proof -
    define q' where "q' = q\<lparr>fq_pending := om_insert ?n item (fq_pending q),
      fq_families := mm_insert (family_of item) ?n (fq_families q), fq_next_sequence := ?n + 1\<rparr>"
    have "try_push_from item q = Some (True, q')"
      using cap fresh by (auto simp: try_push_from_def has_sequence_capacity_def om_contains_iff q'_def split: option.splits)
    moreover have "fq_ok q'"
    proof -
      have "set (mm_get (mm_insert (family_of item) ?n (fq_families q)) fam) =
          {s. \<exists>i. om_get (om_insert ?n item (fq_pending q)) s = Some i \<and> family_of i = fam}" for fam
        using fresh(1) by (auto simp: set_mm_insert fq_index [OF assms])
      moreover have "\<forall>s \<in> set (om_keys (om_insert ?n item (fq_pending q))). s < ?n + 1"
        using assms unfolding om_keys_insert by (auto simp: fq_ok_def)
      moreover have "?n + 1 \<le> u64_max" using cap by (auto simp: has_sequence_capacity_def)
      ultimately show ?thesis using assms unfolding fq_ok_def q'_def by simp
    qed
    moreover have "fq_contents q' = fq_contents q @ [item]" by (simp add: fq_contents_def q'_def greatest)
    ultimately show ?thesis by blast
  qed
  show "try_push_from item q = Some (False, q)" if "\<not> has_sequence_capacity q"
    using that by (auto simp: try_push_from_def has_sequence_capacity_def split: option.splits)
qed

lemma fq_remove_into_contents:
  assumes ok: "fq_ok q" and m: "fq_pending q = xs @ (s, item) # ys"
  shows "\<exists>q'. fq_remove_into s q = Some (item, q') \<and> fq_ok q' \<and> fq_next_sequence q' = fq_next_sequence q \<and>
    fq_contents q' = map snd (xs @ ys)"
proof -
  let ?fam = "family_of item"
  have okm: "om_ok (fq_pending q)" using ok by (simp add: fq_ok_def)
  have "(s, item) \<in> set (fq_pending q)" using m by simp
  then have get: "om_get (fq_pending q) s = Some item" using om_in_set_iff [OF okm] by blast
  note index = fq_index [OF ok]
  have "s \<in> set (mm_get (fq_families q) ?fam)" using index get by simp
  then obtain seqs where seqs: "om_get (fq_families q) ?fam = Some seqs" "s \<in> set seqs"
    by (cases "om_get (fq_families q) ?fam") (auto simp: mm_get_def)
  define q' where "q' = q\<lparr>fq_pending := om_remove s (fq_pending q), fq_families := mm_remove ?fam s (fq_families q)\<rparr>"
  have "fq_remove_into s q = Some (item, q')"
    using get seqs by (simp add: fq_remove_into_def q'_def mm_remove_def mm_retain_def os_remove_def Let_def)
  moreover have "fq_ok q'"
  proof -
    have "set (mm_get (mm_remove ?fam s (fq_families q)) fam) =
        {t. \<exists>i. om_get (om_remove s (fq_pending q)) t = Some i \<and> family_of i = fam}" for fam
      using get index [of fam] by (auto simp: mm_get_remove)
    moreover have "\<forall>t \<in> set (om_keys (om_remove s (fq_pending q))). t < fq_next_sequence q"
      using ok unfolding om_keys_remove by (auto simp: fq_ok_def)
    ultimately show ?thesis using ok unfolding fq_ok_def q'_def by simp
  qed
  moreover have "fq_contents q' = map snd (xs @ ys)"
    by (simp add: fq_contents_def q'_def om_remove_split [OF okm m])
  ultimately show ?thesis by (auto simp: q'_def)
qed

lemma fq_pop_first_contents:
  assumes "fq_ok q"
  shows "\<exists>q'. fq_pop_first q = Some (case fq_contents q of [] \<Rightarrow> None | i # _ \<Rightarrow> Some i, q') \<and> fq_ok q' \<and>
    fq_next_sequence q' = fq_next_sequence q \<and> fq_contents q' = tl (fq_contents q)"
proof (cases "fq_pending q")
  case Nil
  then show ?thesis using assms by (simp add: fq_pop_first_def fq_contents_def)
next
  case (Cons e m)
  then obtain q' where "fq_remove_into (fst e) q = Some (snd e, q')" "fq_ok q'" "fq_next_sequence q' = fq_next_sequence q"
    "fq_contents q' = map snd m"
    using fq_remove_into_contents [OF assms, of "[]" "fst e" "snd e" m] by auto
  then show ?thesis using Cons by (auto simp: fq_pop_first_def fq_contents_def split: prod.splits)
qed

text \<open>The first item of one generation of one family.\<close>

lemma take_one_family_contents:
  assumes "fq_ok q"
  shows "\<exists>q'. take_one_family_into family generation q =
      Some (map_option (\<lambda>(_, i, _). i) (List.extract (\<lambda>i. family_of i = (family, generation)) (fq_contents q)), q') \<and> fq_ok q' \<and>
    fq_next_sequence q' = fq_next_sequence q \<and>
    fq_contents q' = (case List.extract (\<lambda>i. family_of i = (family, generation)) (fq_contents q) of
                        None \<Rightarrow> fq_contents q | Some (ys, _, zs) \<Rightarrow> ys @ zs)"
proof -
  let ?fam = "(family, generation)"
  let ?P = "\<lambda>i. family_of i = ?fam"
  have okm: "om_ok (fq_pending q)" and okf: "mm_ok (fq_families q)" using assms by (auto simp: fq_ok_def)
  note index = fq_index [OF assms, of ?fam]
  show ?thesis
  proof (cases "om_get (fq_families q) ?fam")
    case None
    then have "\<not> (\<exists>s i. (s, i) \<in> set (fq_pending q) \<and> ?P i)" using index om_in_set_iff [OF okm] by (auto simp: mm_get_def)
    then have "List.extract ?P (fq_contents q) = None" by (auto simp: extract_None_iff fq_contents_def)
    then show ?thesis using None assms by (simp add: take_one_family_into_def)
  next
    case (Some seqs)
    then obtain s ss where seqs: "seqs = s # ss" using okf unfolding mm_ok_def by (metis list.exhaust)
    have least: "\<And>t. t \<in> set seqs \<Longrightarrow> s \<le> t" proof -
      have "os_ok seqs" using okf Some unfolding mm_ok_def by blast
      then show "\<And>t. t \<in> set seqs \<Longrightarrow> s \<le> t" using seqs by (auto simp: os_ok_Cons less_imp_le)
    qed
    obtain item where item: "om_get (fq_pending q) s = Some item" "?P item" using index Some seqs by (auto simp: mm_get_def)
    then obtain xs ys where m: "fq_pending q = xs @ (s, item) # ys" using om_in_set_iff [OF okm] by (metis split_list)
    have "\<not> ?P i" if "(t, i) \<in> set xs" for t i
    proof
      assume "?P i"
      moreover have "om_get (fq_pending q) t = Some i" using om_in_set_iff [OF okm] that m by auto
      ultimately have "t \<in> set seqs" using index Some by (auto simp: mm_get_def)
      moreover have "t < s" using okm that m by (auto simp: om_ok_def sorted_wrt_append)
      ultimately show False using least by fastforce
    qed
    then have "List.extract ?P (fq_contents q) = Some (map snd xs, item, map snd ys)"
      using item(2) m by (auto simp: extract_Some_iff fq_contents_def)
    moreover obtain q' where "fq_remove_into s q = Some (item, q')" "fq_ok q'" "fq_next_sequence q' = fq_next_sequence q"
      "fq_contents q' = map snd (xs @ ys)"
      using fq_remove_into_contents [OF assms m] by blast
    ultimately show ?thesis using Some seqs by (simp add: take_one_family_into_def)
  qed
qed

text \<open>Schedules of the queue, and the same schedules on a plain list with a count of what was pushed.\<close>

datatype 'v fq_event = FqPush "'v leased_mutation" | FqPop | FqTake string u64

datatype 'v fq_output = Pushed bool | Taken "'v leased_mutation option"

fun fq_exec :: "'v fq_event \<Rightarrow> 'v fanout_queue \<times> 'v fq_output list \<Rightarrow> ('v fanout_queue \<times> 'v fq_output list) option" where
  "fq_exec (FqPush i) (q, outs) = map_option (\<lambda>(b, q). (q, outs @ [Pushed b])) (try_push_from i q)"
| "fq_exec FqPop (q, outs) = map_option (\<lambda>(i, q). (q, outs @ [Taken i])) (fq_pop_first q)"
| "fq_exec (FqTake family generation) (q, outs) =
     map_option (\<lambda>(i, q). (q, outs @ [Taken i])) (take_one_family_into family generation q)"

type_synonym 'v fq_list = "nat \<times> 'v leased_mutation list \<times> 'v fq_output list"

fun list_exec :: "'v fq_event \<Rightarrow> 'v fq_list \<Rightarrow> 'v fq_list" where
  "list_exec (FqPush i) (n, xs, outs) =
     (if n < u64_max then (n + 1, xs @ [i], outs @ [Pushed True]) else (n, xs, outs @ [Pushed False]))"
| "list_exec FqPop (n, xs, outs) = (n, tl xs, outs @ [Taken (case xs of [] \<Rightarrow> None | i # _ \<Rightarrow> Some i)])"
| "list_exec (FqTake family generation) (n, xs, outs) =
     (case List.extract (\<lambda>i. family_of i = (family, generation)) xs of
        None \<Rightarrow> (n, xs, outs @ [Taken None])
      | Some (ys, i, zs) \<Rightarrow> (n, ys @ zs, outs @ [Taken (Some i)]))"

definition fq_list :: "'v fanout_queue \<times> 'v fq_output list \<Rightarrow> 'v fq_list" where
  "fq_list s = (fq_next_sequence (fst s), fq_contents (fst s), snd s)"

lemma try_push_from_next: "try_push_from i q = Some (True, q') \<Longrightarrow> fq_next_sequence q' = fq_next_sequence q + 1"
  by (auto simp: try_push_from_def split: option.splits if_splits)

lemma fq_exec_list:
  assumes "fq_ok (fst s)"
  shows "\<exists>t. fq_exec e s = Some t \<and> fq_ok (fst t) \<and> fq_list t = list_exec e (fq_list s)"
proof (cases e)
  case (FqPush i)
  obtain q outs where s: "s = (q, outs)" by (cases s)
  have cap: "has_sequence_capacity q \<longleftrightarrow> fq_next_sequence q < u64_max"
    by (auto simp: has_sequence_capacity_def)
  show ?thesis
  proof (cases "has_sequence_capacity q")
    case True
    with assms s obtain q' where "try_push_from i q = Some (True, q')" "fq_ok q'" "fq_contents q' = fq_contents q @ [i]"
      using try_push_from_contents(1) [of q i] by auto
    then show ?thesis using True FqPush s cap try_push_from_next by (simp add: fq_list_def)
  next
    case False
    then show ?thesis using assms FqPush s cap try_push_from_contents(2) [of q i] by (simp add: fq_list_def)
  qed
next
  case FqPop
  then show ?thesis using fq_pop_first_contents [OF assms] by (cases s) (auto simp: fq_list_def)
next
  case (FqTake family generation)
  then show ?thesis using take_one_family_contents [OF assms, of family generation]
    by (cases s) (auto simp: fq_list_def split: option.splits)
qed

text \<open>
  C36. The delivery queue with its family index is a plain list: whatever is pushed, popped and taken, in
  any order, nothing panics, a pop returns the oldest item, a family take the oldest item of that
  generation of that family, and everything else keeps its place.
\<close>

theorem fanout_refines_list:
  "\<exists>q outs. run_events fq_exec es (fanout_queue_new, []) = Some (q, outs) \<and>
     fold list_exec es (0, [], []) = (fq_next_sequence q, fq_contents q, outs)"
proof -
  have "\<exists>t. run_events fq_exec es s = Some t \<and> fq_list t = fold list_exec es (fq_list s)" if "fq_ok (fst s)" for s
    using that
  proof (induction es arbitrary: s)
    case (Cons e es)
    obtain u where u: "fq_exec e s = Some u" "fq_ok (fst u)" "fq_list u = list_exec e (fq_list s)"
      using fq_exec_list [OF Cons.prems] by blast
    then show ?case using Cons.IH [OF u(2)] by simp
  qed simp
  from this [of "(fanout_queue_new, [])"] obtain t where
    "run_events fq_exec es (fanout_queue_new, []) = Some t" "fq_list t = fold list_exec es (0, [], [])"
    by (auto simp: fq_list_def fanout_queue_new_def [THEN arg_cong [of _ _ fq_next_sequence], simplified])
  then show ?thesis by (metis fq_list_def prod.collapse)
qed

section \<open>The resync schedule\<close>

text \<open>
  The calls that change a schedule, with the clock of the process.  An attempt is recorded only when
  its deadline has come, as \<open>step_resync\<close> of \<open>runtime/resync.rs\<close> does.  \<open>rw_history\<close> holds the attempts since
  the history was last thrown away.
\<close>

datatype rs_event = RsMark nat | RsRearm nat | RsClear nat | RsAttempt nat

record rs_world =
  rw_state :: resync_state
  rw_clock :: nat
  rw_history :: "nat list"

definition rs_world_new :: "nat \<Rightarrow> rs_world" where
  "rs_world_new now = \<lparr>rw_state = resync_default now, rw_clock = now, rw_history = []\<rparr>"

definition rs_time :: "rs_event \<Rightarrow> nat" where
  "rs_time e = (case e of RsMark t \<Rightarrow> t | RsRearm t \<Rightarrow> t | RsClear t \<Rightarrow> t | RsAttempt t \<Rightarrow> t)"

definition rs_exec :: "rs_event \<Rightarrow> rs_world \<Rightarrow> rs_world option" where
  "rs_exec e w =
     (if rs_time e < rw_clock w then None
      else let r = rw_state w; w = w\<lparr>rw_clock := rs_time e\<rparr> in
      case e of
        RsMark now \<Rightarrow>
          Some (w\<lparr>rw_state := mark_needed now r, rw_history := (if \<not> rs_degraded r \<and> \<not> rs_needed r then [] else rw_history w)\<rparr>)
      | RsRearm now \<Rightarrow> Some (w\<lparr>rw_state := rearm now r\<rparr>)
      | RsClear _ \<Rightarrow> Some (w\<lparr>rw_state := clear_degraded_on_progress (clear_needed r), rw_history := []\<rparr>)
      | RsAttempt now \<Rightarrow>
          (case next_attempt_at r of
             None \<Rightarrow> None
           | Some deadline \<Rightarrow>
               if deadline \<le> now then Some (w\<lparr>rw_state := snd (record_attempt now r), rw_history := rw_history w @ [now]\<rparr>)
               else None))"

definition spaced :: "nat list \<Rightarrow> bool" where
  "spaced ts \<longleftrightarrow> (\<forall>i. i + 2 < length ts \<longrightarrow> ts ! i + from_secs 1 \<le> ts ! (i + 2))"

definition backoff :: "nat \<Rightarrow> nat" where
  "backoff k = min (from_millis 50 * 2 ^ min (k - 1) 6) (from_secs 2)"

definition rs_ok :: "rs_world \<Rightarrow> bool" where
  "rs_ok w \<longleftrightarrow>
     (let r = rw_state w in
      (\<exists>old. rw_history w = old @ rs_attempt_times r \<and> (\<forall>t \<in> set old. t + from_secs 1 \<le> rw_clock w)) \<and>
      sorted (rw_history w) \<and> (\<forall>t \<in> set (rw_history w). t \<le> rw_clock w) \<and> spaced (rw_history w) \<and>
      (rs_degraded r \<longrightarrow> \<not> rs_needed r) \<and> rs_attempts r \<le> PACKAGE_ENTITY_RESYNC_MAX_ATTEMPTS \<and>
      (rs_attempts r = PACKAGE_ENTITY_RESYNC_MAX_ATTEMPTS \<longrightarrow> rs_degraded r) \<and>
      (0 < rs_attempts r \<longrightarrow> (\<exists>t. rs_last_attempt_at r = Some t \<and> rs_next_eligible_at r = t + backoff (rs_attempts r))))"

lemma spaced_snoc: "spaced ts \<Longrightarrow> (2 \<le> length ts \<Longrightarrow> ts ! (length ts - 2) + from_secs 1 \<le> t) \<Longrightarrow> spaced (ts @ [t])"
  unfolding spaced_def
proof (intro allI impI)
  fix i
  assume old: "\<forall>i. i + 2 < length ts \<longrightarrow> ts ! i + from_secs 1 \<le> ts ! (i + 2)"
    and t: "2 \<le> length ts \<Longrightarrow> ts ! (length ts - 2) + from_secs 1 \<le> t" and i: "i + 2 < length (ts @ [t])"
  show "(ts @ [t]) ! i + from_secs 1 \<le> (ts @ [t]) ! (i + 2)"
  proof (cases "i + 2 < length ts")
    case True
    then show ?thesis using old by (simp add: nth_append)
  next
    case False
    then have "length ts = i + 2" using i by auto
    then show ?thesis using t by (simp add: nth_append)
  qed
qed

text \<open>Pruning throws away only what is a second old.\<close>

lemma prune_history:
  assumes "h = old @ rs_attempt_times r" "\<forall>t \<in> set old. t + from_secs 1 \<le> now" "\<forall>t \<in> set h. t \<le> now"
  shows "\<exists>old. h = old @ rs_attempt_times (prune_attempt_times now r) \<and> (\<forall>t \<in> set old. t + from_secs 1 \<le> now)"
proof -
  let ?P = "\<lambda>at. from_secs 1 \<le> now - at"
  have "h = (old @ takeWhile ?P (rs_attempt_times r)) @ rs_attempt_times (prune_attempt_times now r)"
    using assms(1) by (simp add: prune_attempt_times_def)
  moreover have "t + from_secs 1 \<le> now" if "t \<in> set (takeWhile ?P (rs_attempt_times r))" for t
  proof -
    have "t \<le> now" "from_secs 1 \<le> now - t" using set_takeWhileD [OF that] assms(1,3) by auto
    then show ?thesis by linarith
  qed
  ultimately show ?thesis using assms(2) by (intro exI [of _ "old @ takeWhile ?P (rs_attempt_times r)"]) auto
qed

text \<open>The second newest attempt is a second old once the deadline has come.\<close>

lemma deadline_spaces:
  assumes "next_attempt_at r = Some d" "d \<le> now" "h = old @ rs_attempt_times r" "\<forall>t \<in> set old. t + from_secs 1 \<le> now" "2 \<le> length h"
  shows "h ! (length h - 2) + from_secs 1 \<le> now"
proof (cases "2 \<le> length (rs_attempt_times r)")
  case True
  then have "rev (rs_attempt_times r) ! 1 + from_secs 1 \<le> now"
    using assms(1,2) by (auto simp: next_attempt_at_def PACKAGE_ENTITY_RESYNC_MAX_PER_SECOND_def Let_def split: if_splits)
  moreover have "rev (rs_attempt_times r) ! 1 = h ! (length h - 2)"
  proof -
    obtain n where n: "length (rs_attempt_times r) = n + 2" using True le_Suc_ex by (metis add.commute)
    then have "rev (rs_attempt_times r) ! 1 = rs_attempt_times r ! n" by (simp add: rev_nth)
    moreover have "h ! (length h - 2) = rs_attempt_times r ! n" using n assms(3) by (simp add: nth_append)
    ultimately show ?thesis by simp
  qed
  ultimately show ?thesis by simp
next
  case False
  then have "h ! (length h - 2) \<in> set old" using assms(3,5) by (auto simp: nth_append)
  then show ?thesis using assms(4) by blast
qed

lemma rs_attempts_record [simp]:
  "rs_attempts (snd (record_attempt now r)) = min (rs_attempts r + 1) (2 ^ 32 - 1)"
  "rs_last_attempt_at (snd (record_attempt now r)) = Some now"
  "rs_attempt_times (snd (record_attempt now r)) =
     rs_attempt_times (prune_attempt_times now (r\<lparr>rs_attempt_times := rs_attempt_times r @ [now]\<rparr>))"
  by (simp_all add: record_attempt_def prune_attempt_times_def Let_def)


lemma rs_okD:
  assumes "rs_ok w"
  shows "\<exists>old. rw_history w = old @ rs_attempt_times (rw_state w) \<and> (\<forall>t \<in> set old. t + from_secs 1 \<le> rw_clock w)"
    and "sorted (rw_history w)" "\<forall>t \<in> set (rw_history w). t \<le> rw_clock w" "spaced (rw_history w)"
    and "rs_degraded (rw_state w) \<longrightarrow> \<not> rs_needed (rw_state w)"
    and "rs_attempts (rw_state w) \<le> PACKAGE_ENTITY_RESYNC_MAX_ATTEMPTS"
    and "rs_attempts (rw_state w) = PACKAGE_ENTITY_RESYNC_MAX_ATTEMPTS \<longrightarrow> rs_degraded (rw_state w)"
  using assms unfolding rs_ok_def Let_def by blast+

lemma rs_ok_new: "rs_ok (rs_world_new now)"
  by (simp add: rs_ok_def rs_world_new_def resync_default_def spaced_def PACKAGE_ENTITY_RESYNC_MAX_ATTEMPTS_def Let_def)

lemma rs_ok_later: "rs_ok w \<Longrightarrow> rw_clock w \<le> now \<Longrightarrow> rs_ok (w\<lparr>rw_clock := now\<rparr>)"
  unfolding rs_ok_def Let_def by (auto intro: order_trans)

lemma record_attempt_schedule:
  assumes "\<not> rs_degraded r" "rs_attempts r < PACKAGE_ENTITY_RESYNC_MAX_ATTEMPTS"
  shows "rs_next_eligible_at (snd (record_attempt now r)) = now + backoff (rs_attempts r + 1)"
    and "rs_degraded (snd (record_attempt now r)) \<longleftrightarrow> rs_attempts r + 1 = PACKAGE_ENTITY_RESYNC_MAX_ATTEMPTS"
    and "rs_degraded (snd (record_attempt now r)) \<Longrightarrow> \<not> rs_needed (snd (record_attempt now r))"
  using assms
  by (auto simp: record_attempt_def prune_attempt_times_def backoff_def PACKAGE_ENTITY_RESYNC_MAX_ATTEMPTS_def
      PACKAGE_ENTITY_RESYNC_INITIAL_BACKOFF_def PACKAGE_ENTITY_RESYNC_MAX_BACKOFF_def Let_def)

lemma rs_ok_attempt:
  assumes ok: "rs_ok w" and d: "next_attempt_at (rw_state w) = Some d" "d \<le> rw_clock w"
  shows "rs_ok (w\<lparr>rw_state := snd (record_attempt (rw_clock w) (rw_state w)), rw_history := rw_history w @ [rw_clock w]\<rparr>)"
proof -
  let ?r = "rw_state w" and ?now = "rw_clock w"
  obtain old where old: "rw_history w = old @ rs_attempt_times ?r" "\<forall>t \<in> set old. t + from_secs 1 \<le> ?now"
    using rs_okD(1) [OF ok] by blast
  have needed: "rs_needed ?r" "\<not> rs_degraded ?r" using d(1) by (auto simp: next_attempt_at_def split: if_splits)
  have few: "rs_attempts ?r < PACKAGE_ENTITY_RESYNC_MAX_ATTEMPTS"
    using rs_okD(6,7) [OF ok] needed(2) le_neq_implies_less by blast
  have "\<exists>old. rw_history w @ [?now] = old @ rs_attempt_times (snd (record_attempt ?now ?r)) \<and> (\<forall>t \<in> set old. t + from_secs 1 \<le> ?now)"
    unfolding rs_attempts_record using rs_okD(3) [OF ok] old by (intro prune_history [of _ old]) auto
  moreover have "spaced (rw_history w @ [?now])"
    using rs_okD(4) [OF ok] deadline_spaces [OF d old] by (intro spaced_snoc) simp_all
  moreover have "sorted (rw_history w @ [?now])" "\<forall>t \<in> set (rw_history w @ [?now]). t \<le> ?now"
    using rs_okD(2,3) [OF ok] by (auto simp: sorted_append)
  moreover have "min (rs_attempts ?r + 1) (2 ^ 32 - 1) = rs_attempts ?r + 1"
    using few by (simp add: PACKAGE_ENTITY_RESYNC_MAX_ATTEMPTS_def)
  moreover note record_attempt_schedule [OF needed(2) few, of ?now]
  ultimately show ?thesis using few unfolding rs_ok_def Let_def by simp
qed

lemma rs_ok_exec:
  assumes "rs_exec e w = Some w'" "rs_ok w"
  shows "rs_ok w'"
proof -
  let ?w = "w\<lparr>rw_clock := rs_time e\<rparr>"
  have time: "rw_clock w \<le> rs_time e" using assms(1) by (auto simp: rs_exec_def split: if_splits)
  note ok = rs_ok_later [OF assms(2) time]
  show ?thesis
  proof (cases e)
    case (RsMark now)
    have "w' = ?w\<lparr>rw_state := mark_needed now (rw_state w), rw_history := (if \<not> rs_degraded (rw_state w) \<and> \<not> rs_needed (rw_state w) then [] else rw_history w)\<rparr>"
      using assms(1) time RsMark by (auto simp: rs_exec_def Let_def)
    then show ?thesis using ok
      by (auto simp: rs_ok_def mark_needed_def spaced_def PACKAGE_ENTITY_RESYNC_MAX_ATTEMPTS_def Let_def)
  next
    case (RsRearm now)
    then have w': "w' = ?w\<lparr>rw_state := rearm now (rw_state w)\<rparr>" using assms(1) time by (simp add: rs_exec_def Let_def)
    obtain old where old: "rw_history w = old @ rs_attempt_times (rw_state w)" "\<forall>t \<in> set old. t + from_secs 1 \<le> now"
      using rs_okD(1) [OF ok] RsRearm by (auto simp: rs_time_def)
    have "\<exists>old. rw_history w = old @ rs_attempt_times (rearm now (rw_state w)) \<and> (\<forall>t \<in> set old. t + from_secs 1 \<le> now)"
      unfolding rearm_def using old rs_okD(3) [OF ok] RsRearm by (intro prune_history [of _ old]) (auto simp: rs_time_def)
    then show ?thesis using ok RsRearm w'
      by (auto simp: rs_ok_def rearm_def prune_attempt_times_def rs_time_def PACKAGE_ENTITY_RESYNC_MAX_ATTEMPTS_def Let_def)
  next
    case (RsClear now)
    then have "w' = ?w\<lparr>rw_state := clear_degraded_on_progress (clear_needed (rw_state w)), rw_history := []\<rparr>"
      using assms(1) time by (simp add: rs_exec_def Let_def)
    then show ?thesis
      by (simp add: rs_ok_def clear_needed_def clear_degraded_on_progress_def spaced_def PACKAGE_ENTITY_RESYNC_MAX_ATTEMPTS_def Let_def)
  next
    case (RsAttempt now)
    then obtain d where d: "next_attempt_at (rw_state w) = Some d" "d \<le> now"
      "w' = ?w\<lparr>rw_state := snd (record_attempt now (rw_state w)), rw_history := rw_history w @ [now]\<rparr>"
      using assms(1) by (auto simp: rs_exec_def Let_def split: if_splits option.splits)
    then show ?thesis using rs_ok_attempt [OF ok, of d] RsAttempt by (simp add: rs_time_def)
  qed
qed

interpretation rs: event_invariant rs_exec rs_ok
  by unfold_locales (rule rs_ok_exec)

text \<open>The deadline that the owner sleeps on is the moment from which an attempt is allowed.\<close>

lemma can_attempt_deadline:
  assumes ok: "rs_ok w" and now: "rw_clock w \<le> now"
  shows "can_attempt now (rw_state w) \<longleftrightarrow> (\<exists>d. next_attempt_at (rw_state w) = Some d \<and> d \<le> now)"
proof -
  let ?r = "rw_state w" let ?ts = "rs_attempt_times ?r" let ?P = "\<lambda>at. now - at < from_secs 1"
  have ts: "sorted ?ts" "\<forall>t \<in> set ?ts. t \<le> now" using rs_okD(1,2,3) [OF ok] now by (auto simp: sorted_append intro: order_trans)
  have two: "length (filter ?P ?ts) < 2 \<longleftrightarrow> (2 \<le> length ?ts \<longrightarrow> rev ?ts ! 1 + from_secs 1 \<le> now)"
  proof (cases "2 \<le> length ?ts")
    case True
    then obtain us a b where us: "?ts = us @ [a, b]"
    proof -
      have "2 \<le> length (rev ?ts)" using True by simp
      then obtain b a vs where "rev ?ts = b # a # vs" by (cases "rev ?ts"; cases "tl (rev ?ts)") auto
      then have "?ts = rev vs @ [a, b]" by (metis append.assoc append_Cons append_Nil rev.simps(2) rev_rev_ident)
      then show ?thesis using that by blast
    qed
    have order: "\<forall>u \<in> set us. u \<le> a" "a \<le> b" "b \<le> now" using ts us by (auto simp: sorted_append)
    show ?thesis
    proof (cases "?P a")
      case True
      then have "?P b" using order by linarith
      then show ?thesis using True us order by (auto simp: rev_nth nth_append)
    next
      case False
      then have "filter ?P us = []" using order by (fastforce simp: filter_empty_conv)
      then show ?thesis using False us order by (auto simp: nth_append)
    qed
  next
    case False
    then show ?thesis using length_filter_le [of ?P ?ts] by linarith
  qed
  have "next_attempt_at ?r = Some (if 2 \<le> length ?ts then max (rs_next_eligible_at ?r) (rev ?ts ! 1 + from_secs 1) else rs_next_eligible_at ?r)"
    if "rs_needed ?r" "\<not> rs_degraded ?r"
    using that by (auto simp: next_attempt_at_def PACKAGE_ENTITY_RESYNC_MAX_PER_SECOND_def Let_def)
  moreover have "next_attempt_at ?r = None" if "\<not> rs_needed ?r \<or> rs_degraded ?r" using that by (simp add: next_attempt_at_def)
  moreover have "rs_degraded ?r \<longrightarrow> \<not> rs_needed ?r" by (rule rs_okD(5) [OF ok])
  ultimately show ?thesis using two
    by (cases "rs_needed ?r \<and> \<not> rs_degraded ?r")
      (auto simp: can_attempt_def attempts_in_last_second_def PACKAGE_ENTITY_RESYNC_MAX_PER_SECOND_def)
qed

lemma spaced_tl: "spaced (a # ts) \<Longrightarrow> spaced ts"
  unfolding spaced_def by (metis Suc_less_eq add_Suc length_Cons nth_Cons_Suc)

lemma spaced_window: "sorted ts \<Longrightarrow> spaced ts \<Longrightarrow> length (filter (\<lambda>a. t \<le> a \<and> a < t + from_secs 1) ts) \<le> 2"
proof (induction ts)
  case (Cons a ts)
  let ?P = "\<lambda>a. t \<le> a \<and> a < t + from_secs 1"
  have tl: "length (filter ?P ts) \<le> 2" using Cons spaced_tl by auto
  show ?case
  proof (cases "?P a")
    case True
    have "length (filter ?P ts) \<le> 1"
    proof (cases "drop 1 ts")
      case Nil
      then have "length ts \<le> 1" by simp
      then show ?thesis by (rule order_trans [OF length_filter_le])
    next
      case (Cons c us)
      then obtain b where ts: "ts = b # c # us" by (cases ts) auto
      have "a + from_secs 1 \<le> c" using Cons.prems(2) ts unfolding spaced_def by (auto dest: spec [of _ 0])
      then have "\<forall>x \<in> set (c # us). t + from_secs 1 \<le> x" using True Cons.prems(1) ts by fastforce
      then have "filter ?P (c # us) = []" by (auto simp: filter_empty_conv)
      then show ?thesis using ts by simp
    qed
    then show ?thesis using True by simp
  qed (use tl in auto)
qed simp



section \<open>A family admits in order\<close>

text \<open>What leaves a family for delivery, and the floors that provider snapshots set.\<close>

datatype family_entry = Delivered u64 | Floor u64

text \<open>The floor after a log in which every delivery is the next in sequence; \<open>None\<close> if one is not.\<close>

fun replay :: "u64 \<Rightarrow> family_entry list \<Rightarrow> u64 option" where
  "replay l [] = Some l"
| "replay l (Delivered n # es) = (if n = l + 1 then replay n es else None)"
| "replay l (Floor n # es) = replay (max l n) es"

fun delivered_seqs :: "family_entry list \<Rightarrow> u64 list" where
  "delivered_seqs [] = []"
| "delivered_seqs (Delivered n # es) = n # delivered_seqs es"
| "delivered_seqs (Floor n # es) = delivered_seqs es"

datatype 'v fam_event =
  FamAdmit "'v entity_mutation" nat
| FamTakeNext nat
| FamBegin u64 nat
| FamStep bool nat
| FamMark nat
| FamRearm nat
| FamAttempt nat
| FamToken u64
| FamStoreLease mutation_lease
| FamRemember u64 "publish_permit option"

record 'v fam_world =
  fw_family :: "'v entity_family"
  fw_log :: "family_entry list"
  fw_submitted :: "'v entity_mutation list"
  fw_delivered :: "'v entity_mutation list"
  fw_discarded :: "'v entity_mutation list"

definition fam_world_new :: "nat \<Rightarrow> u64 \<Rightarrow> 'v fam_world" where
  "fam_world_new now generation =
     \<lparr>fw_family = entity_family_default now generation, fw_log = [], fw_submitted = [], fw_delivered = [], fw_discarded = []\<rparr>"

definition fam_deliver :: "'v entity_mutation option \<Rightarrow> 'v fam_world \<Rightarrow> 'v fam_world" where
  "fam_deliver ready w =
     (case ready of
        None \<Rightarrow> w
      | Some m \<Rightarrow> w\<lparr>fw_log := fw_log w @ [Delivered (em_snapshot_seq m)], fw_delivered := fw_delivered w @ [m]\<rparr>)"

definition fam_discard :: "'v entity_mutation option \<Rightarrow> 'v fam_world \<Rightarrow> 'v fam_world" where
  "fam_discard discarded w = (case discarded of None \<Rightarrow> w | Some m \<Rightarrow> w\<lparr>fw_discarded := fw_discarded w @ [m]\<rparr>)"

definition fam_exec :: "'v fam_event \<Rightarrow> 'v fam_world \<Rightarrow> 'v fam_world option" where
  "fam_exec e w =
     (let f = fw_family w in
      case e of
        FamAdmit m now \<Rightarrow>
          if em_snapshot_seq m \<le> u64_max then
            (case family_admit m now f of
               ((_, ready, discarded), f) \<Rightarrow>
                 Some (fam_discard discarded (fam_deliver ready (w\<lparr>fw_family := f, fw_submitted := fw_submitted w @ [m]\<rparr>))))
          else None
      | FamTakeNext now \<Rightarrow>
          (case take_next_pending_into now f of
             (item, f) \<Rightarrow> Some (fam_deliver (map_option lf_mutation item) (w\<lparr>fw_family := f\<rparr>)))
      | FamBegin n now \<Rightarrow>
          if n \<le> u64_max
          then Some (w\<lparr>fw_family := snd (begin_provider_snapshot_seq n now f), fw_log := fw_log w @ [Floor n]\<rparr>) else None
      | FamStep preserve now \<Rightarrow>
          (case step_provider_snapshot_into now preserve f of
             None \<Rightarrow> None
           | Some (step, _, f) \<Rightarrow>
               let w = w\<lparr>fw_family := f\<rparr> in
               Some (case step of
                 StepDiscarded m _ \<Rightarrow> fam_discard (Some m) w
               | StepReady m _ \<Rightarrow> fam_deliver (Some m) w
               | _ \<Rightarrow> w))
      | FamMark now \<Rightarrow> Some (w\<lparr>fw_family := f\<lparr>ef_resync := mark_needed now (ef_resync f)\<rparr>\<rparr>)
      | FamRearm now \<Rightarrow> Some (w\<lparr>fw_family := f\<lparr>ef_resync := rearm now (ef_resync f)\<rparr>\<rparr>)
      | FamAttempt now \<Rightarrow> Some (w\<lparr>fw_family := f\<lparr>ef_resync := snd (record_attempt now (ef_resync f))\<rparr>\<rparr>)
      | FamToken t \<Rightarrow> Some (w\<lparr>fw_family := f\<lparr>ef_causal_token := Some t\<rparr>\<rparr>)
      | FamStoreLease l \<Rightarrow> Some (w\<lparr>fw_family := store_pending_lease l f\<rparr>)
      | FamRemember s p \<Rightarrow> map_option (\<lambda>(_, f). w\<lparr>fw_family := f\<rparr>) (remember_resync_lease_with_admission s p f))"

definition fam_ok :: "'v entity_family \<Rightarrow> bool" where
  "fam_ok f \<longleftrightarrow> om_ok (ef_pending f) \<and>
     (\<forall>k m. om_get (ef_pending f) k = Some m \<longrightarrow>
        em_snapshot_seq m = k \<and> k \<le> ef_high_water_seq f \<and> k \<le> ef_last_accepted_seq f + PACKAGE_ENTITY_PENDING_WINDOW) \<and>
     ef_last_accepted_seq f \<le> ef_high_water_seq f \<and> ef_high_water_seq f \<le> u64_max"

definition gap_noted :: "'v entity_family \<Rightarrow> bool" where
  "gap_noted f \<longleftrightarrow> ef_last_accepted_seq f = ef_high_water_seq f \<or> rs_needed (ef_resync f) \<or> rs_degraded (ef_resync f)"

lemma om_last_greatest:
  assumes "om_ok m" "m \<noteq> []"
  shows "(\<exists>k \<in> set (om_keys m). a < k) \<longleftrightarrow> a < fst (last m)"
proof -
  obtain xs e where "m = xs @ [e]" using assms(2) by (cases m rule: rev_exhaust) auto
  then show ?thesis using assms(1) by (auto simp: om_ok_def sorted_wrt_append)
qed

lemma has_live_pending_iff:
  "om_ok (ef_pending f) \<Longrightarrow> has_live_pending f \<longleftrightarrow> (\<exists>k \<in> set (om_keys (ef_pending f)). ef_last_accepted_seq f < k)"
  using om_last_greatest [of "ef_pending f" "ef_last_accepted_seq f"]
  by (cases "ef_pending f = []") (simp_all add: has_live_pending_def)

text \<open>With nothing pending above the high water mark, a family has converged when its floor is there.\<close>

lemma converged_iff:
  assumes "fam_ok f"
  shows "converged f \<longleftrightarrow> ef_last_accepted_seq f = ef_high_water_seq f"
    and "ef_last_accepted_seq f < ef_high_water_seq f \<or> has_live_pending f \<longleftrightarrow> ef_last_accepted_seq f \<noteq> ef_high_water_seq f"
proof -
  have "has_live_pending f \<Longrightarrow> ef_last_accepted_seq f < ef_high_water_seq f"
  proof -
    assume "has_live_pending f"
    then obtain k where k: "k \<in> set (om_keys (ef_pending f))" "ef_last_accepted_seq f < k"
      using assms has_live_pending_iff [of f] by (auto simp: fam_ok_def)
    then obtain m where "om_get (ef_pending f) k = Some m" by (metis map_of_eq_None_iff not_Some_eq list.set_map)
    then show ?thesis using assms k(2) unfolding fam_ok_def by fastforce
  qed
  then show "converged f \<longleftrightarrow> ef_last_accepted_seq f = ef_high_water_seq f"
    "ef_last_accepted_seq f < ef_high_water_seq f \<or> has_live_pending f \<longleftrightarrow> ef_last_accepted_seq f \<noteq> ef_high_water_seq f"
    using assms by (auto simp: converged_def fam_ok_def)
qed

lemma fam_ok_resync [simp]: "fam_ok (f\<lparr>ef_resync := r\<rparr>) \<longleftrightarrow> fam_ok f"
  by (simp add: fam_ok_def)

lemma resync_flags [simp]:
  "rs_needed (rearm now r)" "\<not> rs_degraded (rearm now r)"
  "rs_needed (mark_needed now r) \<or> rs_degraded (mark_needed now r)"
  "rs_needed (clear_degraded_on_progress (clear_needed r)) = False"
  by (auto simp: rearm_def prune_attempt_times_def mark_needed_def clear_needed_def clear_degraded_on_progress_def)

lemma gap_noted_publish: "fam_ok f \<Longrightarrow> gap_noted (after_publish_progress now f)"
  using converged_iff(2) [of f] by (auto simp: after_publish_progress_def gap_noted_def)

lemma gap_noted_recompute: "fam_ok f \<Longrightarrow> gap_noted (recompute_resync_need now preserve f)"
  using converged_iff(1) [of f] by (auto simp: recompute_resync_need_def gap_noted_def)

lemma family_of_progress [simp]:
  "ef_last_accepted_seq (after_publish_progress now f) = ef_last_accepted_seq f"
  "ef_pending (after_publish_progress now f) = ef_pending f"
  "fam_ok (after_publish_progress now f) \<longleftrightarrow> fam_ok f"
  "ef_last_accepted_seq (recompute_resync_need now preserve f) = ef_last_accepted_seq f"
  "ef_pending (recompute_resync_need now preserve f) = ef_pending f"
  "fam_ok (recompute_resync_need now preserve f) \<longleftrightarrow> fam_ok f"
  by (auto simp: after_publish_progress_def recompute_resync_need_def)

lemma replay_append: "replay l (xs @ ys) = (case replay l xs of None \<Rightarrow> None | Some l \<Rightarrow> replay l ys)"
  by (induction l xs rule: replay.induct) auto

lemma delivered_seqs_append [simp]: "delivered_seqs (xs @ ys) = delivered_seqs xs @ delivered_seqs ys"
  by (induction xs rule: delivered_seqs.induct) auto

text \<open>A log without gaps delivers every number at most once, in increasing order.\<close>

lemma replay_increasing: "replay l es = Some n \<Longrightarrow> sorted_wrt (<) (delivered_seqs es) \<and> (\<forall>s \<in> set (delivered_seqs es). l < s \<and> s \<le> n) \<and> l \<le> n"
proof (induction l es rule: replay.induct)
  case (2 l k es)
  then show ?case by (fastforce split: if_splits)
next
  case (3 l k es)
  then show ?case by fastforce
qed auto

lemma mset_om_insert: "om_get m k = None \<Longrightarrow> image_mset snd (mset (om_insert k v m)) = add_mset v (image_mset snd (mset m))"
  by (induction k v m rule: om_insert.induct) (auto split: if_splits)

lemma mset_om_remove:
  assumes "om_ok m" "om_get m k = Some v"
  shows "mset (om_values m) = add_mset v (mset (om_values (om_remove k m)))"
proof -
  obtain xs ys where m: "m = xs @ (k, v) # ys" using assms om_in_set_iff by (metis split_list)
  then show ?thesis using om_remove_split [OF assms(1) m] by simp
qed

text \<open>The outcomes of an admission: refused as old, ready, kept for later, or too far ahead.\<close>

lemma family_admit_cases:
  assumes seq: "em_snapshot_seq m \<le> u64_max" and admit: "family_admit m now f = ((res, ready, discarded), f')"
  obtains (Old) "ready = None" "discarded = Some m" "f' = f"
  | (Ready) "em_snapshot_seq m = ef_last_accepted_seq f + 1" "ready = Some m" "discarded = None"
      "f' = after_publish_progress now (f\<lparr>ef_high_water_seq := max (ef_high_water_seq f) (em_snapshot_seq m),
                                           ef_last_accepted_seq := em_snapshot_seq m\<rparr>)"
  | (Early) "om_get (ef_pending f) (em_snapshot_seq m) = None"
      "em_snapshot_seq m \<le> ef_last_accepted_seq f + PACKAGE_ENTITY_PENDING_WINDOW" "ready = None" "discarded = None"
      "f' = f\<lparr>ef_pending := om_insert (em_snapshot_seq m) m (ef_pending f),
              ef_high_water_seq := max (ef_high_water_seq f) (em_snapshot_seq m), ef_resync := rearm now (ef_resync f)\<rparr>"
  | (Late) "ready = None" "discarded = Some m"
      "f' = f\<lparr>ef_high_water_seq := max (ef_high_water_seq f) (em_snapshot_seq m), ef_resync := rearm now (ef_resync f)\<rparr>"
proof -
  let ?s = "em_snapshot_seq m" and ?l = "ef_last_accepted_seq f"
  have window: "?s \<le> saturating_add ?l PACKAGE_ENTITY_PENDING_WINDOW \<longleftrightarrow> ?s \<le> ?l + PACKAGE_ENTITY_PENDING_WINDOW"
    using seq by (auto simp: saturating_add_def)
  have follows: "checked_add ?l 1 = Some ?s \<longleftrightarrow> ?s = ?l + 1" using seq by auto
  show ?thesis
  proof (cases "?s \<le> ?l")
    case True
    then show ?thesis using admit Old by (auto simp: family_admit_def Let_def split: if_splits)
  next
    case False
    then have later: "\<not> ?s < ?l" "?s \<noteq> ?l" by simp_all
    consider (one) "?s = ?l + 1" | (early) "?s \<noteq> ?l + 1" "?s \<le> ?l + PACKAGE_ENTITY_PENDING_WINDOW"
      | (late) "?s \<noteq> ?l + 1" "\<not> ?s \<le> ?l + PACKAGE_ENTITY_PENDING_WINDOW" by blast
    then show ?thesis
    proof cases
      case one
      then show ?thesis using admit Ready later follows by (simp add: family_admit_def Let_def)
    next
      case early
      then show ?thesis using admit Old Early later follows window
        by (auto simp: family_admit_def Let_def split: option.splits)
    next
      case late
      then show ?thesis using admit Late later follows window by (simp add: family_admit_def Let_def)
    qed
  qed
qed

lemma fam_okI:
  assumes "fam_ok f" "ef_last_accepted_seq f \<le> l" "l \<le> max (ef_high_water_seq f) h" "h \<le> u64_max"
  shows "fam_ok (f\<lparr>ef_high_water_seq := max (ef_high_water_seq f) h, ef_last_accepted_seq := l\<rparr>)"
proof -
  have "\<forall>k m. om_get (ef_pending f) k = Some m \<longrightarrow>
      em_snapshot_seq m = k \<and> k \<le> max (ef_high_water_seq f) h \<and> k \<le> l + PACKAGE_ENTITY_PENDING_WINDOW"
    using assms(1,2) unfolding fam_ok_def by (meson add_le_mono1 le_max_iff_disj order_trans)
  then show ?thesis using assms unfolding fam_ok_def by simp
qed

lemma family_admit_ok:
  assumes ok: "fam_ok f" and seq: "em_snapshot_seq m \<le> u64_max" and admit: "family_admit m now f = ((res, ready, discarded), f')"
  shows "fam_ok f' \<and> (gap_noted f \<longrightarrow> gap_noted f')"
  using seq admit
proof (cases rule: family_admit_cases)
  case Ready
  have "fam_ok (f\<lparr>ef_high_water_seq := max (ef_high_water_seq f) (em_snapshot_seq m), ef_last_accepted_seq := em_snapshot_seq m\<rparr>)"
    using ok seq Ready(1) by (intro fam_okI) simp_all
  from this gap_noted_publish [OF this, of now] show ?thesis using Ready(4) by simp
next
  case Early
  have "fam_ok (f\<lparr>ef_high_water_seq := max (ef_high_water_seq f) (em_snapshot_seq m), ef_last_accepted_seq := ef_last_accepted_seq f\<rparr>)"
    using ok seq by (intro fam_okI) (simp_all add: fam_ok_def le_max_iff_disj)
  then show ?thesis using Early by (simp add: fam_ok_def gap_noted_def)
next
  case Late
  have "fam_ok (f\<lparr>ef_high_water_seq := max (ef_high_water_seq f) (em_snapshot_seq m), ef_last_accepted_seq := ef_last_accepted_seq f\<rparr>)"
    using ok seq by (intro fam_okI) (simp_all add: fam_ok_def le_max_iff_disj)
  then show ?thesis using Late by (simp add: fam_ok_def gap_noted_def)
qed (use ok in simp)

lemma fam_ok_take:
  assumes ok: "fam_ok f" and get: "om_get (ef_pending f) k = Some m" and l: "ef_last_accepted_seq f \<le> l" "l \<le> ef_high_water_seq f"
  shows "fam_ok (f\<lparr>ef_pending := om_remove k (ef_pending f), ef_pending_leases := ls, ef_last_accepted_seq := l\<rparr>)"
proof -
  have "j \<le> l + PACKAGE_ENTITY_PENDING_WINDOW" if "j \<le> ef_last_accepted_seq f + PACKAGE_ENTITY_PENDING_WINDOW" for j
    using that l(1) by simp
  then show ?thesis using ok l(2) unfolding fam_ok_def by simp
qed

lemma family_take_next_effect:
  assumes ok: "fam_ok f" and take: "take_next_pending_into now f = (Some i, f')"
  shows "om_get (ef_pending f) (ef_last_accepted_seq f + 1) = Some (lf_mutation i)" and "em_snapshot_seq (lf_mutation i) = ef_last_accepted_seq f + 1"
    and "ef_last_accepted_seq f' = ef_last_accepted_seq f + 1" and "ef_pending f' = om_remove (ef_last_accepted_seq f + 1) (ef_pending f)"
    and "fam_ok f'" and "gap_noted f'"
proof -
  let ?n = "ef_last_accepted_seq f + 1"
  obtain m where get: "om_get (ef_pending f) ?n = Some m" and i: "lf_mutation i = m"
    and f': "f' = after_publish_progress now
      (f\<lparr>ef_pending := om_remove ?n (ef_pending f), ef_pending_leases := om_remove ?n (ef_pending_leases f),
         ef_last_accepted_seq := ?n, ef_high_water_seq := max (ef_high_water_seq f) ?n\<rparr>)"
    using take by (auto simp: take_next_pending_into_def split: option.splits)
  have n: "em_snapshot_seq m = ?n" "?n \<le> ef_high_water_seq f" using ok get unfolding fam_ok_def by fastforce+
  have "fam_ok (f\<lparr>ef_pending := om_remove ?n (ef_pending f), ef_pending_leases := om_remove ?n (ef_pending_leases f), ef_last_accepted_seq := ?n\<rparr>)"
    using n(2) by (intro fam_ok_take [OF ok get]) simp_all
  then have "fam_ok (f\<lparr>ef_pending := om_remove ?n (ef_pending f), ef_pending_leases := om_remove ?n (ef_pending_leases f),
      ef_last_accepted_seq := ?n, ef_high_water_seq := max (ef_high_water_seq f) ?n\<rparr>)"
    using n(2) by (simp add: max_absorb1)
  then show "om_get (ef_pending f) ?n = Some (lf_mutation i)" "em_snapshot_seq (lf_mutation i) = ?n"
    "ef_last_accepted_seq f' = ?n" "ef_pending f' = om_remove ?n (ef_pending f)" "fam_ok f'" "gap_noted f'"
    using get i n f' gap_noted_publish by simp_all
qed


lemma first_pending_min:
  assumes "om_ok (ef_pending f)" "ef_pending f = (k, m) # rest"
  shows "om_get (ef_pending f) k = Some m" "om_remove k (ef_pending f) = rest"
  using assms om_remove_split [OF assms(1), of "[]" k m rest] by simp_all

text \<open>One step of a provider snapshot: a stale row goes, the next row is delivered, or nothing moves.\<close>

lemma step_provider_snapshot_cases:
  assumes ok: "fam_ok f" and step: "step_provider_snapshot_into now preserve f = Some (st, lease, f')"
  obtains (Discard) k m l where "st = StepDiscarded m l" "om_get (ef_pending f) k = Some m" "ef_pending f' = om_remove k (ef_pending f)"
      "ef_last_accepted_seq f' = ef_last_accepted_seq f" "fam_ok f'" "gap_noted f'"
  | (Deliver) m l where "st = StepReady m l" "om_get (ef_pending f) (ef_last_accepted_seq f + 1) = Some m"
      "ef_pending f' = om_remove (ef_last_accepted_seq f + 1) (ef_pending f)" "ef_last_accepted_seq f' = ef_last_accepted_seq f + 1"
      "em_snapshot_seq m = ef_last_accepted_seq f + 1" "fam_ok f'" "gap_noted f'"
  | (Rest) "\<And>m l. st \<noteq> StepDiscarded m l" "\<And>m l. st \<noteq> StepReady m l" "ef_pending f' = ef_pending f"
      "ef_last_accepted_seq f' = ef_last_accepted_seq f" "fam_ok f'" "gap_noted f'"
proof (cases "has_stale f \<or> has_exact_next f")
  case True
  then obtain k m rest where pending: "ef_pending f = (k, m) # rest"
    by (auto simp: has_stale_def has_exact_next_def first_pending_seq_def split: option.splits list.splits)
  have okp: "om_ok (ef_pending f)" using ok by (simp add: fam_ok_def)
  note first = first_pending_min [OF okp pending]
  let ?leases = "om_remove k (ef_pending_leases f)"
  have bound: "em_snapshot_seq m = k" "k \<le> ef_high_water_seq f" using ok first(1) unfolding fam_ok_def by fastforce+
  show ?thesis
  proof (cases "has_stale f")
    case stale: True
    let ?f = "f\<lparr>ef_pending := rest, ef_pending_leases := ?leases\<rparr>"
    have "fam_ok (f\<lparr>ef_pending := om_remove k (ef_pending f), ef_pending_leases := ?leases, ef_last_accepted_seq := ef_last_accepted_seq f\<rparr>)"
      using ok by (intro fam_ok_take [OF ok first(1)]) (simp_all add: fam_ok_def)
    then have okf: "fam_ok ?f" using first(2) by simp
    have "st = StepDiscarded m (om_get (ef_pending_leases f) k)" "f' = recompute_resync_need now preserve ?f"
      using step pending stale by (simp_all add: step_provider_snapshot_into_def Let_def)
    then show ?thesis using Discard [of m _ k] okf first gap_noted_recompute [OF okf] by simp
  next
    case False
    then have exact: "has_exact_next f" using True by simp
    then have k: "k = ef_last_accepted_seq f + 1" using pending by (auto simp: has_exact_next_def first_pending_seq_def split: option.splits)
    let ?f = "f\<lparr>ef_pending := rest, ef_pending_leases := ?leases, ef_last_accepted_seq := k, ef_high_water_seq := max (ef_high_water_seq f) k\<rparr>"
    have "fam_ok (f\<lparr>ef_pending := om_remove k (ef_pending f), ef_pending_leases := ?leases, ef_last_accepted_seq := k\<rparr>)"
      using k bound(2) by (intro fam_ok_take [OF ok first(1)]) simp_all
    then have okf: "fam_ok ?f" using first(2) bound(2) by (simp add: max_absorb1)
    have "st = StepReady m (om_get (ef_pending_leases f) k)" "f' = recompute_resync_need now preserve ?f"
      using step pending exact False by (simp_all add: step_provider_snapshot_into_def Let_def)
    then show ?thesis using Deliver [of m] okf first bound k gap_noted_recompute [OF okf] by simp
  qed
next
  case False
  let ?f = "recompute_resync_need now preserve f"
  have "f' = ?f \<or> (\<exists>ls. f' = ?f\<lparr>ef_resync := (ef_resync ?f)\<lparr>rs_leases := ls\<rparr>\<rparr>)"
    and st: "\<And>m l. st \<noteq> StepDiscarded m l" "\<And>m l. st \<noteq> StepReady m l"
    using step False by (auto simp: step_provider_snapshot_into_def Let_def split: list.splits if_splits option.splits)
  moreover have "gap_noted (?f\<lparr>ef_resync := (ef_resync ?f)\<lparr>rs_leases := ls\<rparr>\<rparr>) \<longleftrightarrow> gap_noted ?f" for ls by (simp add: gap_noted_def)
  ultimately show ?thesis using Rest [OF st] ok gap_noted_recompute [OF ok, of now preserve] by auto
qed

definition fam_world_ok :: "'v fam_world \<Rightarrow> bool" where
  "fam_world_ok w \<longleftrightarrow>
     (let f = fw_family w in
      fam_ok f \<and> gap_noted f \<and> replay 0 (fw_log w) = Some (ef_last_accepted_seq f) \<and>
      delivered_seqs (fw_log w) = map em_snapshot_seq (fw_delivered w) \<and>
      mset (fw_submitted w) = mset (fw_delivered w) + mset (fw_discarded w) + mset (om_values (ef_pending f)))"

lemma fam_world_ok_new: "fam_world_ok (fam_world_new now generation)"
  by (simp add: fam_world_ok_def fam_world_new_def entity_family_default_def fam_ok_def gap_noted_def)

lemmas fam_world_simps = fam_world_ok_def fam_deliver_def fam_discard_def replay_append Let_def

lemma fam_world_ok_admit:
  assumes ok: "fam_world_ok w" and seq: "em_snapshot_seq m \<le> u64_max"
    and admit: "family_admit m now (fw_family w) = ((res, ready, discarded), f)"
  shows "fam_world_ok (fam_discard discarded (fam_deliver ready (w\<lparr>fw_family := f, fw_submitted := fw_submitted w @ [m]\<rparr>)))"
proof -
  have f: "fam_ok f" "gap_noted f" using family_admit_ok [OF _ seq admit] ok by (auto simp: fam_world_ok_def Let_def)
  show ?thesis using seq admit
    by (cases rule: family_admit_cases) (use ok f in \<open>auto simp: fam_world_simps mset_om_insert\<close>)
qed

lemma fam_world_ok_step:
  assumes ok: "fam_world_ok w" and step: "step_provider_snapshot_into now preserve (fw_family w) = Some (st, lease, f)"
  shows "fam_world_ok (case st of
      StepDiscarded m _ \<Rightarrow> fam_discard (Some m) (w\<lparr>fw_family := f\<rparr>)
    | StepReady m _ \<Rightarrow> fam_deliver (Some m) (w\<lparr>fw_family := f\<rparr>)
    | _ \<Rightarrow> w\<lparr>fw_family := f\<rparr>)"
proof -
  have okf: "fam_ok (fw_family w)" "om_ok (ef_pending (fw_family w))" using ok by (auto simp: fam_world_ok_def fam_ok_def Let_def)
  show ?thesis using okf(1) step
  proof (cases rule: step_provider_snapshot_cases)
    case (Discard k m l)
    then show ?thesis using ok mset_om_remove [OF okf(2) Discard(2)] by (simp add: fam_world_simps)
  next
    case (Deliver m l)
    then show ?thesis using ok mset_om_remove [OF okf(2) Deliver(2)] by (simp add: fam_world_simps)
  next
    case Rest
    then have "fam_world_ok (w\<lparr>fw_family := f\<rparr>)" using ok by (simp add: fam_world_simps)
    then show ?thesis using Rest(1,2) by (cases st) auto
  qed
qed

lemma fam_world_ok_resync:
  "fam_world_ok w \<Longrightarrow> rs_needed (ef_resync (fw_family w)) \<or> rs_degraded (ef_resync (fw_family w)) \<longrightarrow> rs_needed r \<or> rs_degraded r \<Longrightarrow>
   fam_world_ok (w\<lparr>fw_family := (fw_family w)\<lparr>ef_resync := r\<rparr>\<rparr>)"
  by (auto simp: fam_world_ok_def gap_noted_def Let_def)

lemma record_attempt_flags: "rs_needed r \<or> rs_degraded r \<longrightarrow> rs_needed (snd (record_attempt now r)) \<or> rs_degraded (snd (record_attempt now r))"
  by (auto simp: record_attempt_def prune_attempt_times_def Let_def)

lemma fam_world_ok_exec:
  assumes exec: "fam_exec e w = Some w'" and ok: "fam_world_ok w"
  shows "fam_world_ok w'"
proof (cases e)
  case (FamAdmit m now)
  then show ?thesis using exec fam_world_ok_admit [OF ok]
    by (auto simp: fam_exec_def Let_def split: if_splits prod.splits)
next
  case (FamTakeNext now)
  obtain item f where take: "take_next_pending_into now (fw_family w) = (item, f)" by fastforce
  have w': "w' = fam_deliver (map_option lf_mutation item) (w\<lparr>fw_family := f\<rparr>)"
    using exec FamTakeNext take by (simp add: fam_exec_def Let_def)
  have okf: "fam_ok (fw_family w)" "om_ok (ef_pending (fw_family w))" using ok by (auto simp: fam_world_ok_def fam_ok_def Let_def)
  show ?thesis
  proof (cases item)
    case None
    then have "f = fw_family w" using take by (auto simp: take_next_pending_into_def split: option.splits)
    then show ?thesis using w' None ok by (simp add: fam_deliver_def)
  next
    case (Some i)
    note effect = family_take_next_effect [OF okf(1) take [unfolded Some]]
    then show ?thesis using w' Some ok mset_om_remove [OF okf(2) effect(1)] by (simp add: fam_world_simps)
  qed
next
  case (FamBegin n now)
  let ?f = "(fw_family w)\<lparr>ef_high_water_seq := max (ef_high_water_seq (fw_family w)) n,
    ef_last_accepted_seq := max (ef_last_accepted_seq (fw_family w)) n\<rparr>"
  have n: "n \<le> u64_max" and w': "w' = w\<lparr>fw_family := recompute_resync_need now True ?f, fw_log := fw_log w @ [Floor n]\<rparr>"
    using exec FamBegin by (auto simp: fam_exec_def begin_provider_snapshot_seq_def Let_def split: if_splits)
  have "fam_ok ?f" using ok n by (intro fam_okI) (auto simp: fam_world_ok_def fam_ok_def Let_def le_max_iff_disj)
  then show ?thesis using w' ok gap_noted_recompute [of ?f now True] by (simp add: fam_world_simps)
next
  case (FamStep preserve now)
  then show ?thesis using exec fam_world_ok_step [OF ok]
    by (auto simp: fam_exec_def Let_def split: option.splits prod.splits)
next
  case (FamMark now)
  then show ?thesis using exec fam_world_ok_resync [OF ok] by (auto simp: fam_exec_def Let_def)
next
  case (FamRearm now)
  then show ?thesis using exec fam_world_ok_resync [OF ok] by (auto simp: fam_exec_def Let_def)
next
  case (FamAttempt now)
  then show ?thesis using exec fam_world_ok_resync [OF ok record_attempt_flags] by (auto simp: fam_exec_def Let_def)
next
  case (FamToken t)
  then show ?thesis using exec ok by (auto simp: fam_exec_def fam_world_ok_def fam_ok_def gap_noted_def Let_def)
next
  case (FamStoreLease l)
  then show ?thesis using exec ok by (auto simp: fam_exec_def store_pending_lease_def fam_world_ok_def fam_ok_def gap_noted_def Let_def)
next
  case (FamRemember sc p)
  then show ?thesis using exec ok
    by (auto simp: fam_exec_def remember_resync_lease_with_admission_def fam_world_ok_def gap_noted_def Let_def split: if_splits option.splits)
qed

interpretation fam: event_invariant fam_exec fam_world_ok
  by unfold_locales (rule fam_world_ok_exec)



definition pub :: "nat \<Rightarrow> unit entity_mutation" where
  "pub n = MutRemove ''todo.item'' n ''a'' None"


text \<open>
  The bound of two attempts in a second does not hold across a convergence: \<open>clear_needed\<close> throws the
  history away, and the next gap starts with an empty one.  Here the provider is asked three times
  within 70 milliseconds.
\<close>

theorem resync_rate_not_kept_by_convergence:
  "\<exists>w w'. run_events fam_exec [FamAdmit (pub 2) 0] (fam_world_new 0 1) = Some w \<and>
     next_attempt_at (ef_resync (fw_family w)) = Some 0 \<and>
     run_events fam_exec [FamAttempt 0] w = Some w' \<and> next_attempt_at (ef_resync (fw_family w')) = Some (from_millis 50) \<and>
     (\<exists>v v'. run_events fam_exec [FamAttempt (from_millis 50), FamAdmit (pub 1) (from_millis 60), FamTakeNext (from_millis 60)] w' = Some v \<and>
        converged (fw_family v) \<and>
        run_events fam_exec [FamAdmit (pub 4) (from_millis 70)] v = Some v' \<and>
        next_attempt_at (ef_resync (fw_family v')) = Some (from_millis 70))"
  by (simp add: fam_exec_def fam_world_new_def entity_family_default_def resync_default_def family_admit_def pub_def fam_deliver_def fam_discard_def
      take_next_pending_into_def after_publish_progress_def converged_def has_live_pending_def checked_add_def saturating_add_def u64_max_def
      PACKAGE_ENTITY_PENDING_WINDOW_def om_remove_def rearm_def prune_attempt_times_def record_attempt_def next_attempt_at_def
      clear_needed_def clear_degraded_on_progress_def resync_consts Let_def)

end
