(* ===== verification/Spec2Isabelle.thy ===== *)
theory Spec2Isabelle
  imports Owner_Budget Owner_Turn Owner_Signal Causal_Queue Session_Reservations Connection_Budget Attach_Identity Attach_Reconcile Reservations Slot_Race
    Event_Schema Http_Wire Mux_Progress Webrtc_Control Entity_Fanout
begin

text \<open>
  A verification development of the hub daemon (\<open>src/src/\<close>) and of the framing it shares with its
  client crate (\<open>src/crates/botster-hub-client/\<close>).

  \<^bold>\<open>The program.\<close>  The hub is one process.  A single owner thread holds the control state and serves
  it in bounded turns: rows of a run queue, due deadlines, obligations it must not forget, and slices of
  long walks.  Everything else runs beside it.  Unix and WebRTC connection tasks read frames, ask an
  admission registry, and write responses, entities and events back; terminal adapters carry one frame
  at a time between Core (the terminal engine, another crate) and a transport; workers finish
  operations.  They reach the owner through signals, budgets and small shared registries, most of them
  a mutex or a few atomics.  What goes wrong in such a program is a lost wakeup, a leaked charge, a row
  that is never served, a stale identity, or bytes that arrive torn.  The theorems are about these.

  \<^bold>\<open>How the model corresponds to the code.\<close>  A struct is a record, an enum a datatype, a method a
  function from the state to the result and the new state, in the order of the source and with its
  early returns.  A counter is a natural number with the \<open>checked_\<close> or \<open>saturating_\<close> operation of the
  code and its 64-bit bound.  \<open>BTreeMap\<close> and \<open>BTreeSet\<close> are sorted lists (\<open>Ordered_Map\<close>); a string is
  its bytes (\<open>Rust_Str\<close>).  A panic or a refusal is a value.  A history of calls is a list of events run by
  \<open>run_events\<close>; calls that race at their atomic operations are an inductive step relation.  Clocks,
  random bytes, ciphers, digests, JSON serializers, the registry of Core and the HTTP parser are
  arguments, and what is needed of them is a hypothesis of the theorem.

  \<^bold>\<open>Shared theories.\<close>

  \<^item> \<open>Hub_Prelude\<close>: machine integers, list lemmas, and the contracts \<open>event_invariant\<close> (kept by every
    call, so by every schedule), \<open>transition_invariant\<close> (kept by every step, so in every reachable
    state), \<open>forward_simulation\<close> (a specification that follows every call), \<open>fresh_source\<close> (identities
    that do not repeat) and \<open>fenced_operation\<close> (nothing happens under a stale identity).  Every
    component interprets the ones it needs on its own definitions.
  \<^item> \<open>Ordered_Map\<close>: ordered maps and sets, with the contracts \<open>ordered_store\<close> and \<open>key_cursor\<close> (a walk in
    slices that continues after a key); \<open>Rust_Str\<close>: the operations of \<open>str\<close> the parsers use.

  \<^bold>\<open>The owner thread\<close> (\<open>daemon/\<close>, \<open>owner_identity.rs\<close>).

  \<^item> \<open>Owner_Identity\<close>: waiter identities and phases; racing draws never give one identity twice (C1).
  \<^item> \<open>Ready_Queues\<close> and \<open>Deadline_Index\<close> (\<open>owner_schedule.rs\<close>): the run queue starves no row (C2), a
    harvest of deadlines is exact (C4), and no deadline fires twice (C5).
  \<^item> \<open>Owner_Turn\<close> (\<open>owner_turn.rs\<close>): the three limits of a turn.
  \<^item> \<open>Owner_Budget\<close> (\<open>owner_budget.rs\<close>), on top of the queue, the index and the identities: a retained
    obligation is kept until it is done (C7), and retaining succeeds whenever an identity is left (C8).
  \<^item> \<open>Owner_Signal\<close> (\<open>owner_signal.rs\<close>): the mutex that wakes the owner loses no wakeup (C9).
  \<^item> \<open>Causal_Queue\<close> (\<open>runtime/causal.rs\<close>): operations applied once and in order, waiters told (C11, C12).
  \<^item> \<open>Session_Reservations\<close> (\<open>runtime/session_reservations.rs\<close>): each session token has one owner, and a
    removal is not forgotten (C13, C14).
  \<^item> \<open>Shared_View\<close> (\<open>shared_view.rs\<close>): the byte budget of shared views is exact under races (C10).

  \<^bold>\<open>Admission\<close> (\<open>admission/\<close>, \<open>session_credential.rs\<close>, \<open>transport/http_mcp/wire.rs\<close>).

  \<^item> \<open>Connection_Budget\<close>: bytes and channels of a peer are bounded, refused writes resume (C15, C16).
  \<^item> \<open>Grants\<close>: a bootstrap grant is redeemed once, by its holder, with the key issued (C26, C27).
  \<^item> \<open>Reservations\<close>: channel labels and reservations correspond, and each is reported once (C29, C30).
  \<^item> \<open>Session_Credential\<close> and \<open>Http_Wire\<close>: the token of a spawned session is recognised (C28), and the
    gates of an MCP request hold in their order (C38).

  \<^bold>\<open>Subscriptions\<close> (\<open>subscription/\<close>, \<open>package_event_schema.rs\<close>).

  \<^item> \<open>Attach_Routes\<close> with \<open>Attach_Identity\<close> and \<open>Attach_Reconcile\<close>: the registry of attach streams; an
    identity that was lost never returns (C18), the indexes agree (C19), and reconciling in slices is
    reconciling at once (C23).
  \<^item> \<open>Closed_Events\<close>: the walk over closed routes reports each at most once (C21) and, in slices of any
    width, exactly what one walk would report (C25).
  \<^item> \<open>Event_Mailbox\<close>: package-event subscriptions and the pool with its reserves (C3), and the case in
    which the reserves of idle subscriptions refuse every event.
  \<^item> \<open>Entity_Fanout\<close> (\<open>package_entity_fanout.rs\<close>): what a package publishes about its entities; a family
    delivers in order and loses nothing (C6), its provider is not asked too often (C17), and the indexed
    delivery queue is a list (C36).
  \<^item> \<open>Event_Schema\<close>: validation decides exactly the conditions of the schema (C39).

  \<^bold>\<open>Transports\<close> (\<open>transport/\<close>, \<open>bounded_json.rs\<close>, \<open>entity_delivery.rs\<close>, the client crate).

  \<^item> \<open>Close_Cause\<close>, \<open>Ingress_Buffer\<close>, \<open>Adapter_Slot\<close> and \<open>Slot_Race\<close> (\<open>transport/shared/\<close>): the parts of a
    terminal adapter; the first close wins (C32), input is read once and its room never missed (C33,
    C34), a write is carried once (C35) and closed once, and under every interleaving a refused
    write is woken (C37).
  \<^item> \<open>Unix_Frame\<close>: containers, codecs and both readers; a stream of frames is read back whatever the
    sizes of the reads.
  \<^item> \<open>Entity_Delivery\<close>: JSON within a byte limit, and entity frames that hold a charge of \<open>Shared_View\<close>.
  \<^item> \<open>Mux_Write\<close> and \<open>Mux_Progress\<close> (\<open>transport/unix/mux_write.rs\<close>): the writer of a control connection
    refines two ordered lanes (C40), and its flush loop terminates (C20).
  \<^item> \<open>Webrtc_Delivery\<close> and \<open>Webrtc_Control\<close> (\<open>transport/webrtc/delivery.rs\<close>): sealed terminal chunks
    arrive whole and in order (C24), forged or repeated ones give no input (C31), and chunked control
    deliveries are put together by the first-party client.
  \<^item> This theory: the writer, the wire and the client's reader together (C22).

  \<^bold>\<open>Bounds and fuel.\<close>  \<open>flush_pending_responses\<close> may loop for ever and is a partial function into
  \<open>option\<close>; C20 proves that it returns.  The readers of a whole stream (\<open>read_frames\<close>) take fuel; every
  theorem asks for one more than the events and bytes of the socket, which is enough because each turn
  consumes one or the other.  The passes of C23 and C25 take the number of slices as fuel, and more
  than the rows left is enough because each slice consumes one.  \<open>flush_loop\<close> counts down the limit on frames of a turn that the code has.
  The compare-and-swap loops are steps of a relation and need no fuel.  Other recursions are
  structural or have a termination proof.

  \<^bold>\<open>Not modelled.\<close>

  \<^item> Tasks and sockets: the listeners, connection tasks, peers and signaling of \<open>transport/\<close>, and
    \<open>data_plane/\<close>, are asynchronous glue around the parts above; their selects and timers depend on the
    executor, the kernel and the WebRTC stack.  So do the dispatch of \<open>daemon/owner_loop.rs\<close> and
    \<open>daemon/control/\<close>, \<open>daemon_maintenance.rs\<close>, \<open>host_executor.rs\<close> and \<open>host_mutations.rs\<close>, apart from the
    functions named above.
  \<^item> The runtime: \<open>runtime.rs\<close>, \<open>lifecycle.rs\<close>, \<open>subscription/entity.rs\<close> and the package event router mostly call
    Core and the Lua engine, whose sources are not in the repository; what the modelled parts need of
    them is an argument.
  \<^item> Lua, packages and capabilities (\<open>lua_runtime\<close>, \<open>lua_memory\<close>, \<open>packages.rs\<close>, \<open>capabilities.rs\<close>,
    \<open>plugin_*.rs\<close>): bindings into the Lua engine and the file system.
  \<^item> Files, processes and git: \<open>persistence.rs\<close>, \<open>update.rs\<close>, \<open>managed_git_worktrees.rs\<close>, \<open>spawn_targets.rs\<close>, the
    installer crates, and the command line of \<open>main.rs\<close>.
  \<^item> Data transfer types and generated text: \<open>client_api_dto\<close>, \<open>typescript.rs\<close>, \<open>botster-ui-contract\<close>.
  \<^item> Memory orderings weaker than the interleaving of atomic operations, mutex poisoning where no
    holder can panic, and the wording of error messages.
\<close>

section \<open>From the Hub's queues to the client's decoder\<close>

definition frame_json :: "pending_mux_frame \<Rightarrow> string" where
  "frame_json f = drop 5 (frame_text f)"

lemma control_framed_json:
  "control_framed (frame_text f) \<Longrightarrow>
   frame_text f = framed (UNIX_CONTAINER_CONTROL # frame_json f) \<and> length (frame_json f) \<le> MAX_CONTROL_RESPONSE_BYTES"
  by (auto simp: control_framed_def frame_json_def)

text \<open>A frame that is cut short is not a stream of frames.\<close>

lemma framed_cut_broken:
  assumes "0 < k" "k < length (framed f)" "0 < length f" "length f \<le> limit" "limit < 2 ^ 32"
  shows "broken_stream limit (take k (framed f))"
proof (cases "k < 4")
  case False
  then have "take 4 (take k (framed f)) = to_le_bytes 4 (length f)" by (simp add: min_def)
  moreover have "from_le_bytes (to_le_bytes 4 (length f)) = length f" using assms by (auto intro!: le_bytes_roundtrip)
  ultimately show ?thesis using False assms(2) by (simp add: broken_stream_def)
qed (use assms in \<open>simp add: broken_stream_def to_le_bytes_4\<close>)

lemma wire_read_back:
  assumes fs: "list_all (\<lambda>f. control_framed (frame_text f)) fs"
    and rest: "rest = [] \<or> broken_stream MAX_UNIX_FRAME_BYTES rest"
    and s: "socket_open s" "socket_bytes s = wire_of fs @ rest" and n: "length s + length (socket_bytes s) < n"
  shows "read_frames MAX_UNIX_FRAME_BYTES n frame_reader_new s =
    (map (\<lambda>f. UNIX_CONTAINER_CONTROL # frame_json f) fs, Some (if rest = [] then ClientDisconnected else ProtocolError))"
proof (rule read_frames_exact)
  let ?payload = "\<lambda>f. UNIX_CONTAINER_CONTROL # frame_json f"
  have json: "frame_text f = framed (?payload f) \<and> length (frame_json f) \<le> MAX_CONTROL_RESPONSE_BYTES" if "f \<in> set fs" for f
    using fs that control_framed_json by (simp add: list_all_iff)
  show "\<forall>p \<in> set (map ?payload fs). 0 < length p \<and> length p \<le> MAX_UNIX_FRAME_BYTES"
    using json by (fastforce simp: frame_consts)
  have "map framed (map ?payload fs) = map frame_text fs" using json by simp
  then show "reader_stream frame_reader_new s = concat (map framed (map ?payload fs)) @ rest"
    using s(2) unfolding wire_of_def reader_stream_new by (simp only:)
  have "length fs \<le> length (wire_of fs)"
    unfolding wire_of_def using fs
    by (induction fs) (auto simp: control_framed_def)
  moreover have "socket_failures s \<le> length s" by (induction s rule: socket_failures.induct) auto
  ultimately show "length (map ?payload fs) + socket_failures s < n" using n s(2) by simp
qed (use rest s in \<open>auto simp: frame_consts\<close>)

text \<open>What is on the wire after the frames that are done: nothing, a torn frame, or the whole frame in flight.\<close>

lemma flight_cut:
  assumes sim: "implements st io a" and ok: "lanes_ok a"
  obtains cut where "io_wire io = wire_of (ln_done a) @ cut" and
    "cut = [] \<or> broken_stream MAX_UNIX_FRAME_BYTES cut \<and> ws_pending st \<noteq> None \<or> (\<exists>f. ln_flight a = Some f \<and> cut = frame_text f)"
proof (cases "ws_pending st")
  case None
  then show ?thesis using that [of "[]"] sim by (simp add: implements_def)
next
  case (Some f)
  let ?cut = "take (pf_offset f) (frame_text f)"
  have wire: "io_wire io = wire_of (ln_done a) @ ?cut" and f: "pf_offset f \<le> length (frame_text f)"
    "ln_flight a = Some (f\<lparr>pf_offset := 0\<rparr>)" "control_framed (frame_text f)"
    using sim ok Some by (auto simp: implements_def lanes_ok_def fresh_frame_def)
  note j = control_framed_json [OF f(3)]
  consider "pf_offset f = 0" | "0 < pf_offset f" "pf_offset f < length (frame_text f)" | "pf_offset f = length (frame_text f)"
    using f(1) by linarith
  then have "?cut = [] \<or> broken_stream MAX_UNIX_FRAME_BYTES ?cut \<or> ?cut = frame_text f"
  proof cases
    case 2
    have "broken_stream MAX_UNIX_FRAME_BYTES (take (pf_offset f) (framed (UNIX_CONTAINER_CONTROL # frame_json f)))"
      using 2 j by (intro framed_cut_broken) (auto simp: frame_consts)
    then show ?thesis using j by simp
  qed simp_all
  then show ?thesis using that [OF wire] Some f(2) by auto
qed



end
